(* ===== verification/Rss_Prelude.thy ===== *)
theory Rss_Prelude
  imports Main "HOL-Library.Word"
begin

text \<open>
  What the components share: the machine types of the C sources, buffers and the
  block copy \<open>memcpy\<close>, big- and little-endian byte strings, error numbers, and the
  interface of a fixed-width byte encoding (locale \<open>fixed_codec\<close>) with the facts a user
  of such an encoding needs.  \<open>buf_simps\<close> collects the facts about buffers,
  \<open>bytes_simps\<close> the facts that assemble words from their bytes.

  Object sizes and buffer offsets (\<open>size_t\<close>) are \<open>nat\<close>: every object the code handles
  is smaller than the address space, so no sum of sizes wraps.  Values whose width
  matters (timestamps, checksums, counters, bit fields) are words of that width.
\<close>

unbundle bit_operations_syntax

named_theorems buf_simps
named_theorems bytes_simps

section \<open>Machine types\<close>

type_synonym u8 = "8 word"
type_synonym u16 = "16 word"
type_synonym u32 = "32 word"
type_synonym u64 = "64 word"
type_synonym bytes = "u8 list"

text \<open>The error numbers of \<open>errno.h\<close> the library returns (negated) to its callers.\<close>

datatype errno = EINVAL | ENOSPC | ENOENT | EBADMSG

section \<open>Buffers\<close>

text \<open>
  \<open>put buf off src\<close> is \<open>memcpy(buf + off, src, n)\<close>.  A copy that runs past the end
  makes the list longer: that a buffer keeps its length is the statement that nothing
  was written outside it.
\<close>

definition put :: "'a list \<Rightarrow> nat \<Rightarrow> 'a list \<Rightarrow> 'a list" where
  "put buf off src = take off buf @ src @ drop (off + length src) buf"

lemma put_Nil [buf_simps, simp]: "put buf off [] = buf"
  by (simp add: put_def)

lemma length_put [buf_simps]: "off + length src \<le> length buf \<Longrightarrow> length (put buf off src) = length buf"
  by (simp add: put_def)

lemma nth_put_before [buf_simps]: "i < off \<Longrightarrow> off \<le> length buf \<Longrightarrow> put buf off src ! i = buf ! i"
  by (simp add: put_def nth_append)

lemma nth_put_at [buf_simps]:
  "off \<le> length buf \<Longrightarrow> i < length src \<Longrightarrow> put buf off src ! (off + i) = src ! i"
  by (simp add: put_def nth_append)

lemma nth_put_after [buf_simps]:
  "off + length src \<le> i \<Longrightarrow> i < length buf \<Longrightarrow> put buf off src ! i = buf ! i"
  by (auto simp: put_def nth_append)

lemma drop_put_end: "off + length src = length buf \<Longrightarrow> drop off (put buf off src) = src"
  by (simp add: put_def)

lemma drop_put_same: "off \<le> length buf \<Longrightarrow> drop off (put buf off src) = src @ drop (off + length src) buf"
  by (simp add: put_def)

lemma take_add_drop: "take (m + n) (drop k xs) = take m (drop k xs) @ take n (drop (k + m) xs)"
  by (simp add: take_add add.commute)

lemma take_put_before: "n \<le> off \<Longrightarrow> off \<le> length buf \<Longrightarrow> take n (put buf off src) = take n buf"
  by (simp add: put_def)

lemma drop_put_after:
  assumes "off + length src \<le> n" and "off \<le> length buf"
  shows "drop n (put buf off src) = drop n buf"
proof -
  obtain k where n: "n = off + length src + k" using assms(1) le_Suc_ex by blast
  show ?thesis using assms(2) by (simp add: n put_def add.commute add.left_commute)
qed

lemma put_put:
  assumes "off + length xs + length ys \<le> length buf"
  shows "put (put buf off xs) (off + length xs) ys = put buf off (xs @ ys)"
proof -
  have "take (off + length xs) (put buf off xs) = take off buf @ xs"
    using assms by (simp add: put_def)
  moreover have "drop (off + length xs + length ys) (put buf off xs)
      = drop (off + length xs + length ys) buf"
    using assms by (simp add: put_def add.commute add.left_commute)
  ultimately show ?thesis by (simp add: put_def [of "put buf off xs"] put_def [of buf off "xs @ ys"] add.assoc)
qed

section \<open>Words and their bytes\<close>

text \<open>\<open>(uint8_t)(v >> n)\<close>.\<close>

definition byte_of :: "nat \<Rightarrow> 'a::len word \<Rightarrow> u8" where
  "byte_of n v = ucast (drop_bit n v)"

lemma bit_byte_of [bytes_simps]: "bit (byte_of n v) i \<longleftrightarrow> i < 8 \<and> bit v (n + i)"
  by (auto simp: byte_of_def bit_ucast_iff bit_drop_bit_eq)

lemma and_low_bits [bytes_simps]:
  fixes x :: "'a::len word"
  shows "x AND 1 = take_bit 1 x" "x AND 7 = take_bit 3 x" "x AND 15 = take_bit 4 x" "x AND 31 = take_bit 5 x"
    "x AND 127 = take_bit 7 x" "x AND 255 = take_bit 8 x" "x AND 8191 = take_bit 13 x"
  by (simp_all add: take_bit_eq_mask mask_eq_exp_minus_1)

lemma bit_flag_bytes [bytes_simps]:
  "bit (0x40 :: int) i \<longleftrightarrow> i = 6" "bit (0x20 :: int) i \<longleftrightarrow> i = 5" "bit (0x10 :: int) i \<longleftrightarrow> i = 4"
  "bit (0x30 :: int) i \<longleftrightarrow> i = 4 \<or> i = 5"
proof -
  show b6: "bit (0x40 :: int) i \<longleftrightarrow> i = 6" and b5: "bit (0x20 :: int) i \<longleftrightarrow> i = 5"
    and b4: "bit (0x10 :: int) i \<longleftrightarrow> i = 4"
    using bit_exp_iff [where ?'a = int, of 6 i] bit_exp_iff [where ?'a = int, of 5 i]
      bit_exp_iff [where ?'a = int, of 4 i] by auto
  have "(0x30 :: int) = 0x10 OR 0x20" by simp
  then show "bit (0x30 :: int) i \<longleftrightarrow> i = 4 \<or> i = 5"
    by (simp only: bit_or_iff b4 b5)
qed

lemma bit_times_2: "bit ((w::'a::len word) * 2) n \<longleftrightarrow> n < LENGTH('a) \<and> n \<noteq> 0 \<and> bit w (n - 1)"
  by (cases n) (auto simp: bit_double_iff mult.commute [of w] dest: bit_imp_le_length)

definition be32 :: "u32 \<Rightarrow> bytes" where
  "be32 v = [byte_of 24 v, byte_of 16 v, byte_of 8 v, byte_of 0 v]"

definition rd_be32 :: "bytes \<Rightarrow> u32" where
  "rd_be32 bs = push_bit 24 (ucast (bs ! 0)) OR push_bit 16 (ucast (bs ! 1))
     OR push_bit 8 (ucast (bs ! 2)) OR ucast (bs ! 3)"

lemma length_be32 [simp]: "length (be32 v) = 4"
  by (simp add: be32_def)

lemma rd_be32_be32 [bytes_simps]: "rd_be32 (be32 v) = v"
proof (rule bit_word_eqI)
  fix i assume "i < LENGTH(32)"
  then consider "i < 8" | "8 \<le> i" "i < 16" | "16 \<le> i" "i < 24" | "24 \<le> i" "i < 32"
    by force
  then show "bit (rd_be32 (be32 v)) i = bit v i"
    by cases (auto simp: rd_be32_def be32_def bit_or_iff bit_push_bit_iff bit_ucast_iff bit_byte_of)
qed

section \<open>Fixed-width encodings\<close>

text \<open>
  A field of a binary format: \<open>enc\<close> lays a value out in \<open>width\<close> bytes and \<open>dec\<close> reads it
  back, for the values in \<open>ok\<close> (a 33-bit timestamp is carried in 5 bytes, a 64-bit
  one in 11).  The formats of the library are concatenations of such fields, and what a
  reader of a concatenation needs is proved once here.
\<close>

locale fixed_codec =
  fixes enc :: "'v \<Rightarrow> bytes"
    and dec :: "bytes \<Rightarrow> 'v"
    and width :: nat
    and ok :: "'v \<Rightarrow> bool"
  assumes enc_width: "length (enc v) = width"
    and dec_enc: "ok v \<Longrightarrow> dec (enc v) = v"
begin

lemma enc_inject: "ok v \<Longrightarrow> ok w \<Longrightarrow> enc v = enc w \<longleftrightarrow> v = w"
  by (metis dec_enc)

lemma dec_take: "ok v \<Longrightarrow> dec (take width (enc v @ rest)) = v"
  by (simp add: enc_width dec_enc)

lemma dec_field:
  assumes "ok v" and "off = length pre"
  shows "dec (take width (drop off (pre @ enc v @ rest))) = v"
  using assms by (simp add: enc_width dec_enc)

lemma dec_put:
  assumes "ok v" and "off + width \<le> length buf"
  shows "dec (take width (drop off (put buf off (enc v)))) = v"
  using assms by (simp add: put_def min_absorb2 enc_width dec_enc)

lemma enc_concat_inject:
  "\<lbrakk>length vs = length ws; \<forall>v \<in> set vs. ok v; \<forall>w \<in> set ws. ok w\<rbrakk>
   \<Longrightarrow> concat (map enc vs) = concat (map enc ws) \<longleftrightarrow> vs = ws"
  by (induction vs ws rule: list_induct2) (auto simp: enc_inject enc_width)

end

interpretation be32: fixed_codec be32 rd_be32 4 "\<lambda>_. True"
  by unfold_locales (simp_all add: bytes_simps)

end
