(* ===== verification/Rss_Ts.thy ===== *)
theory Rss_Ts
  imports Rss_Prelude
begin

text \<open>
  The MPEG-TS muxer of \<open>src/rss_ts.c\<close>: the table-driven CRC of the program tables, the
  33-bit timestamps, the packet loop that cuts a PES packet into 188-byte transport
  packets, and the three writers of the public API over the muxer state
  \<open>rss_ts_mux_t\<close>.  A writer returns the bytes it put at the start of the caller's
  buffer (their number is its return value) and the new state.

  The second half is a reader of the format, written from ISO 13818-1 and not from the
  muxer: \<open>ts_payload\<close> skips the adaptation field, \<open>read_pts\<close> and \<open>read_pcr\<close> decode
  the clocks, \<open>crc_byte\<close> divides by the MPEG polynomial bit by bit.  The lemmas show
  that the reader gets back what the muxer was given.  The loop's properties are proved
  in the locale \<open>ts_packetizer\<close> from the contract of its body, which \<open>pes_packet\<close>
  fulfils.
\<close>

section \<open>CRC32 (MPEG polynomial)\<close>

definition crc32_table :: "u32 list" where
  "crc32_table = [
    0x00000000, 0x04C11DB7, 0x09823B6E, 0x0D4326D9, 0x130476DC, 0x17C56B6B, 0x1A864DB2, 0x1E475005,
    0x2608EDB8, 0x22C9F00F, 0x2F8AD6D6, 0x2B4BCB61, 0x350C9B64, 0x31CD86D3, 0x3C8EA00A, 0x384FBDBD,
    0x4C11DB70, 0x48D0C6C7, 0x4593E01E, 0x4152FDA9, 0x5F15ADAC, 0x5BD4B01B, 0x569796C2, 0x52568B75,
    0x6A1936C8, 0x6ED82B7F, 0x639B0DA6, 0x67FA1011, 0x79BD4014, 0x7D7C5DA3, 0x703F7B7A, 0x74FE66CD,
    0x9823B6E0, 0x9CE2AB57, 0x91A18D8E, 0x95609039, 0x8B27C03C, 0x8FE6DD8B, 0x82A5FB52, 0x8664E6E5,
    0xBE2B5B58, 0xBAEA46EF, 0xB7A96036, 0xB3687D81, 0xAD2F2D84, 0xA9EE3033, 0xA4AD16EA, 0xA06C0B5D,
    0xD4326D90, 0xD0F37027, 0xDDB056FE, 0xD9714B49, 0xC7361B4C, 0xC3F706FB, 0xCEB42022, 0xCA753D95,
    0xF23A8028, 0xF6FB9D9F, 0xFBB8BB46, 0xFF79A6F1, 0xE13EF6F4, 0xE5FFEB43, 0xE8BCCD9A, 0xEC7DD02D,
    0x34867077, 0x30476DC0, 0x3D044B19, 0x39C556AE, 0x278206AB, 0x23431B1C, 0x2E003DC5, 0x2AC12072,
    0x128E9DCF, 0x164F8078, 0x1B0CA6A1, 0x1FCDBB16, 0x018AEB13, 0x054BF6A4, 0x0808D07D, 0x0CC9CDCA,
    0x7897AB07, 0x7C56B6B0, 0x71159069, 0x75D48DDE, 0x6B93DDDB, 0x6F52C06C, 0x6211E6B5, 0x66D0FB02,
    0x5E9F46BF, 0x5A5E5B08, 0x571D7DD1, 0x53DC6066, 0x4D9B3063, 0x495A2DD4, 0x44190B0D, 0x40D816BA,
    0xACA5C697, 0xA864DB20, 0xA527FDF9, 0xA1E6E04E, 0xBFA1B04B, 0xBB60ADFC, 0xB6238B25, 0xB2E29692,
    0x8AAD2B2F, 0x8E6C3698, 0x832F1041, 0x87EE0DF6, 0x99A95DF3, 0x9D684044, 0x902B669D, 0x94EA7B2A,
    0xE0B41DE7, 0xE4750050, 0xE9362689, 0xEDF73B3E, 0xF3B06B3B, 0xF771768C, 0xFA325055, 0xFEF34DE2,
    0xC6BCF05F, 0xC27DEDE8, 0xCF3ECB31, 0xCBFFD686, 0xD5B88683, 0xD1799B34, 0xDC3ABDED, 0xD8FBA05A,
    0x690CE0EE, 0x6DCDFD59, 0x608EDB80, 0x644FC637, 0x7A089632, 0x7EC98B85, 0x738AAD5C, 0x774BB0EB,
    0x4F040D56, 0x4BC510E1, 0x46863638, 0x42472B8F, 0x5C007B8A, 0x58C1663D, 0x558240E4, 0x51435D53,
    0x251D3B9E, 0x21DC2629, 0x2C9F00F0, 0x285E1D47, 0x36194D42, 0x32D850F5, 0x3F9B762C, 0x3B5A6B9B,
    0x0315D626, 0x07D4CB91, 0x0A97ED48, 0x0E56F0FF, 0x1011A0FA, 0x14D0BD4D, 0x19939B94, 0x1D528623,
    0xF12F560E, 0xF5EE4BB9, 0xF8AD6D60, 0xFC6C70D7, 0xE22B20D2, 0xE6EA3D65, 0xEBA91BBC, 0xEF68060B,
    0xD727BBB6, 0xD3E6A601, 0xDEA580D8, 0xDA649D6F, 0xC423CD6A, 0xC0E2D0DD, 0xCDA1F604, 0xC960EBB3,
    0xBD3E8D7E, 0xB9FF90C9, 0xB4BCB610, 0xB07DABA7, 0xAE3AFBA2, 0xAAFBE615, 0xA7B8C0CC, 0xA379DD7B,
    0x9B3660C6, 0x9FF77D71, 0x92B45BA8, 0x9675461F, 0x8832161A, 0x8CF30BAD, 0x81B02D74, 0x857130C3,
    0x5D8A9099, 0x594B8D2E, 0x5408ABF7, 0x50C9B640, 0x4E8EE645, 0x4A4FFBF2, 0x470CDD2B, 0x43CDC09C,
    0x7B827D21, 0x7F436096, 0x7200464F, 0x76C15BF8, 0x68860BFD, 0x6C47164A, 0x61043093, 0x65C52D24,
    0x119B4BE9, 0x155A565E, 0x18197087, 0x1CD86D30, 0x029F3D35, 0x065E2082, 0x0B1D065B, 0x0FDC1BEC,
    0x3793A651, 0x3352BBE6, 0x3E119D3F, 0x3AD08088, 0x2497D08D, 0x2056CD3A, 0x2D15EBE3, 0x29D4F654,
    0xC5A92679, 0xC1683BCE, 0xCC2B1D17, 0xC8EA00A0, 0xD6AD50A5, 0xD26C4D12, 0xDF2F6BCB, 0xDBEE767C,
    0xE3A1CBC1, 0xE760D676, 0xEA23F0AF, 0xEEE2ED18, 0xF0A5BD1D, 0xF464A0AA, 0xF9278673, 0xFDE69BC4,
    0x89B8FD09, 0x8D79E0BE, 0x803AC667, 0x84FBDBD0, 0x9ABC8BD5, 0x9E7D9662, 0x933EB0BB, 0x97FFAD0C,
    0xAFB010B1, 0xAB710D06, 0xA6322BDF, 0xA2F33668, 0xBCB4666D, 0xB8757BDA, 0xB5365D03, 0xB1F740B4]"

definition mpeg_crc32_step :: "u32 \<Rightarrow> u8 \<Rightarrow> u32" where
  "mpeg_crc32_step crc b =
     push_bit 8 crc XOR (crc32_table ! unat ((drop_bit 24 crc XOR ucast b) AND 0xFF))"

definition mpeg_crc32 :: "bytes \<Rightarrow> u32" where
  "mpeg_crc32 data = foldl mpeg_crc32_step 0xFFFFFFFF data"

section \<open>Timestamps\<close>

definition write_pts :: "u8 \<Rightarrow> u64 \<Rightarrow> bytes" where
  "write_pts prefix pts =
     [ucast (push_bit 4 (ucast prefix) OR push_bit 1 (drop_bit 30 pts AND 0x07) OR (1::u64)),
      ucast (drop_bit 22 pts AND 0xFF),
      ucast (push_bit 1 (drop_bit 15 pts AND 0x7F) OR 1),
      ucast (drop_bit 7 pts AND 0xFF),
      ucast (push_bit 1 (pts AND 0x7F) OR 1)]"

definition write_pcr :: "u64 \<Rightarrow> bytes" where
  "write_pcr pcr_base =
     [byte_of 25 pcr_base, byte_of 17 pcr_base, byte_of 9 pcr_base, byte_of 1 pcr_base,
      ucast (push_bit 7 (pcr_base AND 1) OR 0x7E), 0]"

section \<open>Transport packets\<close>

abbreviation (input) RSS_TS_PACKET_SIZE :: nat where "RSS_TS_PACKET_SIZE \<equiv> 188"
abbreviation (input) RSS_TS_SYNC_BYTE :: u8 where "RSS_TS_SYNC_BYTE \<equiv> 0x47"
abbreviation (input) RSS_TS_PID_PAT :: u16 where "RSS_TS_PID_PAT \<equiv> 0x0000"
abbreviation (input) RSS_TS_PID_PMT :: u16 where "RSS_TS_PID_PMT \<equiv> 0x1000"
abbreviation (input) RSS_TS_PID_VIDEO :: u16 where "RSS_TS_PID_VIDEO \<equiv> 0x0100"
abbreviation (input) RSS_TS_PID_AUDIO :: u16 where "RSS_TS_PID_AUDIO \<equiv> 0x0101"
abbreviation (input) RSS_TS_STREAM_AAC :: u8 where "RSS_TS_STREAM_AAC \<equiv> 0x0F"
abbreviation (input) RSS_TS_STREAM_OPUS :: u8 where "RSS_TS_STREAM_OPUS \<equiv> 0x06"
abbreviation (input) RSS_TS_STREAM_NONE :: u8 where "RSS_TS_STREAM_NONE \<equiv> 0x00"

text \<open>\<open>start_ts_packet\<close> writes the four header bytes and advances the counter.\<close>

definition start_ts_packet :: "bytes \<Rightarrow> u16 \<Rightarrow> bool \<Rightarrow> u8 \<Rightarrow> bytes \<times> u8" where
  "start_ts_packet p pid pusi cc =
     (p[0 := RSS_TS_SYNC_BYTE,
        1 := (if pusi then 0x40 else 0x00) OR ucast (drop_bit 8 pid AND 0x1F),
        2 := ucast (pid AND 0xFF),
        3 := 0x10 OR (cc AND 0x0F)],
      (cc + 1) AND 0x0F)"

text \<open>
  The inner copy loop: first what is left of the PES header, then payload.  Each round
  copies at least one byte, since it runs only while data is left.
\<close>

function copy_data ::
  "bytes \<Rightarrow> bytes \<Rightarrow> bytes \<Rightarrow> nat \<Rightarrow> nat \<Rightarrow> nat \<Rightarrow> bytes \<times> nat" where
  "copy_data pes_hdr payload pkt pkt_off data_off to_copy =
     (if to_copy > 0 \<and> data_off < length pes_hdr + length payload then
        (if data_off < length pes_hdr then
           let chunk = min (length pes_hdr - data_off) to_copy;
               pkt' = put pkt pkt_off (take chunk (drop data_off pes_hdr))
           in copy_data pes_hdr payload pkt' (pkt_off + chunk) (data_off + chunk) (to_copy - chunk)
         else
           let pl_off = data_off - length pes_hdr;
               chunk = min (length payload - pl_off) to_copy;
               pkt' = put pkt pkt_off (take chunk (drop pl_off payload))
           in copy_data pes_hdr payload pkt' (pkt_off + chunk) (data_off + chunk) (to_copy - chunk))
      else (pkt, data_off))"
  by pat_completeness auto
termination
  by (relation "measure (\<lambda>(h, p, pkt, po, d, n). n)") (auto simp: min_def)

declare copy_data.simps [simp del]

text \<open>
  One round of the packet loop of \<open>write_pes_packets\<close>.  \<open>pes_packet_head\<close> lays out the
  header and the adaptation field for the data that remains and returns the packet and
  the room left for data; \<open>pes_packet\<close> copies the data behind it and returns the offset
  of what is still to send.  The continuity counter is read here and advanced by the loop.
\<close>

definition pes_packet_head ::
  "u16 \<Rightarrow> u64 \<Rightarrow> bool \<Rightarrow> bool \<Rightarrow> bool \<Rightarrow> u8 \<Rightarrow> nat \<Rightarrow> bytes \<times> nat" where
  "pes_packet_head pid pcr_90khz has_pcr is_rai first cc remaining =
     (let pkt = replicate RSS_TS_PACKET_SIZE 0xFF;
          pkt = pkt[0 := RSS_TS_SYNC_BYTE,
                    1 := (if first then 0x40 else 0x00) OR ucast (drop_bit 8 pid AND 0x1F),
                    2 := ucast (pid AND 0xFF)];
          af_flags = (if has_pcr then 0x10 else 0) OR (if is_rai then 0x40 else 0);
          af_data = (if has_pcr then 6 else 0);
          has_af = (first \<and> (has_pcr \<or> is_rai));
          adapt_size = (if has_af then 2 + af_data else 0);
          pkt = (if has_af then pkt[4 := of_nat (1 + af_data), 5 := af_flags] else pkt);
          pkt = (if has_af \<and> has_pcr then put pkt 6 (write_pcr pcr_90khz) else pkt);
          hdr_size = 4 + adapt_size;
          payload_space = RSS_TS_PACKET_SIZE - hdr_size;
          cc4 = cc AND 0x0F
      in if remaining < payload_space then
           let stuff = payload_space - remaining;
               pkt =
                 (if adapt_size > 0 then pkt[4 := pkt ! 4 + of_nat stuff]
                  else if stuff = 1 then pkt[3 := 0x30 OR cc4, 4 := 0]
                  else let pkt = pkt[3 := 0x30 OR cc4, 4 := of_nat (stuff - 1), 5 := 0]
                       in if stuff > 2 then put pkt 6 (replicate (stuff - 2) 0xFF) else pkt);
               pkt = (if adapt_size > 0 then pkt[3 := 0x30 OR cc4] else pkt)
           in (pkt, remaining)
         else (if adapt_size > 0 then pkt[3 := 0x30 OR cc4] else pkt[3 := 0x10 OR cc4],
               payload_space))"

definition pes_packet ::
  "u16 \<Rightarrow> bytes \<Rightarrow> bytes \<Rightarrow> u64 \<Rightarrow> bool \<Rightarrow> bool \<Rightarrow> bool \<Rightarrow> u8 \<Rightarrow> nat \<Rightarrow> bytes \<times> nat" where
  "pes_packet pid pes_hdr payload pcr_90khz has_pcr is_rai first cc data_off =
     (let total_data = length pes_hdr + length payload;
          (pkt, payload_space) =
            pes_packet_head pid pcr_90khz has_pcr is_rai first cc (total_data - data_off)
      in copy_data pes_hdr payload pkt (RSS_TS_PACKET_SIZE - payload_space) data_off payload_space)"

text \<open>
  The packet loop over a packet builder: it stops when the data is sent or the next
  packet would not fit, so it runs at most \<open>buf_size div 188\<close> times.
\<close>

function packet_loop ::
  "(bool \<Rightarrow> u8 \<Rightarrow> nat \<Rightarrow> bytes \<times> nat) \<Rightarrow> nat \<Rightarrow> nat \<Rightarrow> nat \<Rightarrow> bool \<Rightarrow> u8 \<Rightarrow> nat \<Rightarrow> bytes \<times> u8" where
  "packet_loop packet total_data buf_size written first cc data_off =
     (if data_off < total_data then
        if written + RSS_TS_PACKET_SIZE > buf_size then ([], cc)
        else let (pkt, data_off') = packet first cc data_off;
                 (out, cc') = packet_loop packet total_data buf_size (written + RSS_TS_PACKET_SIZE)
                                False ((cc + 1) AND 0x0F) data_off'
             in (pkt @ out, cc')
      else ([], cc))"
  by pat_completeness auto
termination
  by (relation "measure (\<lambda>(p, t, b, w, f, c, d). b - w)") auto

declare packet_loop.simps [simp del]

definition write_pes_packets ::
  "nat \<Rightarrow> u16 \<Rightarrow> u8 \<Rightarrow> bytes \<Rightarrow> bytes \<Rightarrow> u64 \<Rightarrow> bool \<Rightarrow> bool \<Rightarrow> bytes \<times> u8" where
  "write_pes_packets buf_size pid cc pes_hdr payload pcr_90khz has_pcr is_rai =
     packet_loop (pes_packet pid pes_hdr payload pcr_90khz has_pcr is_rai)
       (length pes_hdr + length payload) buf_size 0 True cc 0"

section \<open>The muxer\<close>

record rss_ts_mux_t =
  cc_pat :: u8
  cc_pmt :: u8
  cc_video :: u8
  cc_audio :: u8
  pat_counter :: u32
  pat_interval :: u32
  last_pcr :: u64
  video_stream_type :: u8
  audio_stream_type :: u8
  audio_channels :: u8

definition rss_ts_init :: "u8 \<Rightarrow> u8 \<Rightarrow> u8 \<Rightarrow> u32 \<Rightarrow> rss_ts_mux_t" where
  "rss_ts_init video_type audio_type channels interval =
     \<lparr>cc_pat = 0, cc_pmt = 0, cc_video = 0, cc_audio = 0, pat_counter = 0,
      pat_interval = interval, last_pcr = 0, video_stream_type = video_type,
      audio_stream_type = audio_type,
      audio_channels = (if channels \<noteq> 0 then channels else 1)\<rparr>"

text \<open>The two sections of \<open>rss_ts_write_pat_pmt\<close>, up to their checksums.\<close>

definition pat_section :: bytes where
  "pat_section =
     [0x00, 0xB0, 0x0D, 0x00, 0x01, 0xC1, 0x00, 0x00, 0x00, 0x01,
      0xE0 OR ucast (drop_bit 8 RSS_TS_PID_PMT AND 0x1F), ucast (RSS_TS_PID_PMT AND 0xFF)]"

definition pmt_audio_es :: "rss_ts_mux_t \<Rightarrow> bytes" where
  "pmt_audio_es m =
     (if audio_stream_type m \<noteq> RSS_TS_STREAM_NONE then
        [audio_stream_type m, 0xE0 OR ucast (drop_bit 8 RSS_TS_PID_AUDIO AND 0x1F),
         ucast (RSS_TS_PID_AUDIO AND 0xFF)] @
        (if audio_stream_type m = RSS_TS_STREAM_OPUS then
           [0xF0, 0x0A, 0x05, 0x04, 0x4F, 0x70, 0x75, 0x73, 0x7F, 0x02, 0x80, audio_channels m]
         else [0xF0, 0x00])
      else [])"

definition pmt_section :: "rss_ts_mux_t \<Rightarrow> bytes" where
  "pmt_section m =
     (let body =
        [0x00, 0x01, 0xC1, 0x00, 0x00,
         0xE0 OR ucast (drop_bit 8 RSS_TS_PID_VIDEO AND 0x1F), ucast (RSS_TS_PID_VIDEO AND 0xFF),
         0xF0, 0x00,
         video_stream_type m, 0xE0 OR ucast (drop_bit 8 RSS_TS_PID_VIDEO AND 0x1F),
         ucast (RSS_TS_PID_VIDEO AND 0xFF), 0xF0, 0x00] @ pmt_audio_es m;
        section_len = length body + 4
      in [0x02, 0xB0 OR (of_nat (section_len div 256) AND 0x0F), of_nat (section_len mod 256)] @ body)"

text \<open>A section behind its pointer field, with its CRC, in a packet filled with \<open>0xFF\<close>.\<close>

definition section_packet :: "u16 \<Rightarrow> u8 \<Rightarrow> bytes \<Rightarrow> bytes \<times> u8" where
  "section_packet pid cc section_bytes =
     (let (pkt, cc') = start_ts_packet (replicate RSS_TS_PACKET_SIZE 0xFF) pid True cc
      in (put pkt 4 (0x00 # section_bytes @ be32 (mpeg_crc32 section_bytes)), cc'))"

definition rss_ts_write_pat_pmt :: "rss_ts_mux_t \<Rightarrow> nat \<Rightarrow> bytes \<times> rss_ts_mux_t" where
  "rss_ts_write_pat_pmt m buf_size =
     (if buf_size < RSS_TS_PACKET_SIZE * 2 then ([], m)
      else let (pat, cc1) = section_packet RSS_TS_PID_PAT (cc_pat m) pat_section;
               (pmt, cc2) = section_packet RSS_TS_PID_PMT (cc_pmt m) (pmt_section m)
           in (pat @ pmt, m\<lparr>cc_pat := cc1, cc_pmt := cc2, pat_counter := 0\<rparr>))"

definition video_pes_hdr :: "u64 \<Rightarrow> u64 \<Rightarrow> bytes" where
  "video_pes_hdr pts dts =
     [0x00, 0x00, 0x01, 0xE0, 0x00, 0x00, 0x84] @
     (if dts \<noteq> pts then [0xC0, 0x0A] @ write_pts 0x03 pts @ write_pts 0x01 dts
      else [0x80, 0x05] @ write_pts 0x02 pts)"

definition video_pcr :: "rss_ts_mux_t \<Rightarrow> u64 \<Rightarrow> u64" where
  "video_pcr m dts =
     (let pcr = (if dts > 3000 then dts - 3000 else 0)
      in if pcr \<le> last_pcr m \<and> pat_counter m > 0 then last_pcr m + 1 else pcr)"

definition rss_ts_write_video ::
  "rss_ts_mux_t \<Rightarrow> nat \<Rightarrow> bytes \<Rightarrow> u64 \<Rightarrow> u64 \<Rightarrow> bool \<Rightarrow> bytes \<times> rss_ts_mux_t" where
  "rss_ts_write_video m buf_size data pts dts is_idr =
     (if length data = 0 then ([], m)
      else let pcr = video_pcr m dts;
               (out, cc) = write_pes_packets buf_size RSS_TS_PID_VIDEO (cc_video m)
                             (video_pes_hdr pts dts) data pcr True is_idr
           in (out, m\<lparr>last_pcr := pcr, cc_video := cc, pat_counter := pat_counter m + 1\<rparr>))"

definition audio_pes_hdr :: "u8 \<Rightarrow> nat \<Rightarrow> u64 \<Rightarrow> bytes" where
  "audio_pes_hdr stype len pts =
     (let stream_id = (if stype = RSS_TS_STREAM_AAC then 0xC0 else 0xBD);
          pes_payload = 3 + 5 + len
      in [0x00, 0x00, 0x01, stream_id] @
         (if pes_payload \<le> 0xFFFF then [of_nat (pes_payload div 256), of_nat (pes_payload mod 256)]
          else [0x00, 0x00]) @
         [0x84, 0x80, 0x05] @ write_pts 0x02 pts)"

definition rss_ts_write_audio ::
  "rss_ts_mux_t \<Rightarrow> nat \<Rightarrow> bytes \<Rightarrow> u64 \<Rightarrow> bytes \<times> rss_ts_mux_t" where
  "rss_ts_write_audio m buf_size data pts =
     (if length data = 0 \<or> audio_stream_type m = RSS_TS_STREAM_NONE then ([], m)
      else let (out, cc) = write_pes_packets buf_size RSS_TS_PID_AUDIO (cc_audio m)
                             (audio_pes_hdr (audio_stream_type m) (length data) pts) data 0 False False
           in (out, m\<lparr>cc_audio := cc\<rparr>))"

section \<open>The checksum against the polynomial\<close>

definition crc_bit :: "u32 \<Rightarrow> u32" where
  "crc_bit c = push_bit 1 c XOR (if bit c 31 then 0x04C11DB7 else 0)"

definition crc_byte :: "u32 \<Rightarrow> u32" where
  "crc_byte c = (crc_bit ^^ 8) c"

lemma crc_byte_unfold:
  "crc_byte c = crc_bit (crc_bit (crc_bit (crc_bit (crc_bit (crc_bit (crc_bit (crc_bit c)))))))"
  by (simp add: crc_byte_def eval_nat_numeral)

lemma crc32_table_low:
  "take 27 crc32_table = map crc_byte (map (push_bit 24)
     [0, 1, 2, 3, 4, 5, 6, 7, 8, 9, 10, 11, 12, 13, 14, 15, 16, 17, 18, 19, 20, 21, 22, 23, 24,
      25, 26])"
  by (simp add: crc_byte_unfold crc_bit_def crc32_table_def)

lemma crc32_table_high:
  "drop 32 crc32_table = map crc_byte (map (push_bit 24)
     [32, 33, 34, 35, 36, 37, 38, 39, 40, 41, 42, 43, 44, 45, 46, 47, 48, 49, 50, 51, 52, 53,
      54, 55, 56, 57, 58, 59, 60, 61, 62, 63, 64, 65, 66, 67, 68, 69, 70, 71, 72, 73, 74, 75,
      76, 77, 78, 79, 80, 81, 82, 83, 84, 85, 86, 87, 88, 89, 90, 91, 92, 93, 94, 95, 96, 97,
      98, 99, 100, 101, 102, 103, 104, 105, 106, 107, 108, 109, 110, 111, 112, 113, 114, 115,
      116, 117, 118, 119, 120, 121, 122, 123, 124, 125, 126, 127, 128, 129, 130, 131, 132, 133,
      134, 135, 136, 137, 138, 139, 140, 141, 142, 143, 144, 145, 146, 147, 148, 149, 150, 151,
      152, 153, 154, 155, 156, 157, 158, 159, 160, 161, 162, 163, 164, 165, 166, 167, 168, 169,
      170, 171, 172, 173, 174, 175, 176, 177, 178, 179, 180, 181, 182, 183, 184, 185, 186, 187,
      188, 189, 190, 191, 192, 193, 194, 195, 196, 197, 198, 199, 200, 201, 202, 203, 204, 205,
      206, 207, 208, 209, 210, 211, 212, 213, 214, 215, 216, 217, 218, 219, 220, 221, 222, 223,
      224, 225, 226, 227, 228, 229, 230, 231, 232, 233, 234, 235, 236, 237, 238, 239, 240, 241,
      242, 243, 244, 245, 246, 247, 248, 249, 250, 251, 252, 253, 254, 255])"
  by (simp add: crc_byte_unfold crc_bit_def crc32_table_def)

lemma words_below_27:
  "map of_nat [0..<27] = ([0, 1, 2, 3, 4, 5, 6, 7, 8, 9, 10, 11, 12, 13, 14, 15, 16, 17, 18, 19, 20, 21, 22, 23, 24,
      25, 26] :: u32 list)"
  by code_simp

lemma words_32_to_255:
  "map of_nat [32..<256] = ([32, 33, 34, 35, 36, 37, 38, 39, 40, 41, 42, 43, 44, 45, 46, 47, 48, 49, 50, 51, 52, 53,
      54, 55, 56, 57, 58, 59, 60, 61, 62, 63, 64, 65, 66, 67, 68, 69, 70, 71, 72, 73, 74, 75,
      76, 77, 78, 79, 80, 81, 82, 83, 84, 85, 86, 87, 88, 89, 90, 91, 92, 93, 94, 95, 96, 97,
      98, 99, 100, 101, 102, 103, 104, 105, 106, 107, 108, 109, 110, 111, 112, 113, 114, 115,
      116, 117, 118, 119, 120, 121, 122, 123, 124, 125, 126, 127, 128, 129, 130, 131, 132, 133,
      134, 135, 136, 137, 138, 139, 140, 141, 142, 143, 144, 145, 146, 147, 148, 149, 150, 151,
      152, 153, 154, 155, 156, 157, 158, 159, 160, 161, 162, 163, 164, 165, 166, 167, 168, 169,
      170, 171, 172, 173, 174, 175, 176, 177, 178, 179, 180, 181, 182, 183, 184, 185, 186, 187,
      188, 189, 190, 191, 192, 193, 194, 195, 196, 197, 198, 199, 200, 201, 202, 203, 204, 205,
      206, 207, 208, 209, 210, 211, 212, 213, 214, 215, 216, 217, 218, 219, 220, 221, 222, 223,
      224, 225, 226, 227, 228, 229, 230, 231, 232, 233, 234, 235, 236, 237, 238, 239, 240, 241,
      242, 243, 244, 245, 246, 247, 248, 249, 250, 251, 252, 253, 254, 255] :: u32 list)"
  by code_simp

text \<open>The five entries of the table that are not the division of their index.\<close>

definition crc_bad :: "nat \<Rightarrow> bool" where
  "crc_bad i = (27 \<le> i \<and> i \<le> 31)"

lemma crc32_table_nth:
  assumes "i < 256" and "\<not> crc_bad i"
  shows "crc32_table ! i = crc_byte (push_bit 24 (of_nat i))"
proof (cases "i < 27")
  case True
  then have "crc32_table ! i = take 27 crc32_table ! i" by simp
  also have "\<dots> = crc_byte (push_bit 24 (of_nat i))"
    unfolding crc32_table_low words_below_27 [symmetric] using True by simp
  finally show ?thesis .
next
  case False
  with assms have "32 \<le> i" by (simp add: crc_bad_def)
  then have "crc32_table ! i = drop 32 crc32_table ! (i - 32)"
    by (subst nth_drop) (simp_all add: crc32_table_def)
  also have "\<dots> = crc_byte (push_bit 24 (of_nat i))"
    unfolding crc32_table_high words_32_to_255 [symmetric] using \<open>32 \<le> i\<close> assms(1)
    by (simp add: nth_map del: upt_rec_numeral)
  finally show ?thesis .
qed

lemma crc32_table_bad:
  assumes "crc_bad i"
  shows "crc32_table ! i \<noteq> crc_byte (push_bit 24 (of_nat i))"
proof -
  from assms have "i = 27 \<or> i = 28 \<or> i = 29 \<or> i = 30 \<or> i = 31"
    by (auto simp: crc_bad_def)
  then show ?thesis
    by (elim disjE) (simp_all add: crc_byte_unfold crc_bit_def crc32_table_def)
qed

lemma crc_bit_xor: "crc_bit (x XOR y) = crc_bit x XOR crc_bit y"
  by (auto simp: crc_bit_def push_bit_xor bit_xor_iff ac_simps xor.assoc)

lemma crc_byte_xor: "crc_byte (x XOR y) = crc_byte x XOR crc_byte y"
  by (simp add: crc_byte_unfold crc_bit_xor)

lemma crc_bit_shift: "\<not> bit x 31 \<Longrightarrow> crc_bit x = push_bit 1 x"
  by (simp add: crc_bit_def)

lemma crc_byte_low:
  assumes "take_bit 24 x = x"
  shows "crc_byte x = push_bit 8 x"
proof -
  have low: "bit x i \<Longrightarrow> i < 24" for i
    using assms by (metis bit_take_bit_iff)
  have shift: "crc_bit (push_bit n x) = push_bit (Suc n) x" if "n < 8" for n
  proof -
    have "\<not> bit (push_bit n x) 31"
      using low [of "31 - n"] that by (auto simp: bit_push_bit_iff)
    then show ?thesis
      using push_bit_push_bit [of 1 n x] by (simp add: crc_bit_shift mult.commute)
  qed
  have "(crc_bit ^^ n) x = push_bit n x" if "n \<le> 8" for n
    using that by (induction n) (simp_all add: shift)
  then show ?thesis by (simp add: crc_byte_def)
qed


definition crc_index :: "u32 \<Rightarrow> u8 \<Rightarrow> nat" where
  "crc_index crc b = unat ((drop_bit 24 crc XOR ucast b) AND 0xFF)"

text \<open>The checksum by the polynomial: the next byte is divided in, bit by bit.\<close>

definition crc_ref_step :: "u32 \<Rightarrow> u8 \<Rightarrow> u32" where
  "crc_ref_step crc b = crc_byte (crc XOR push_bit 24 (ucast b))"

definition crc_ref :: "bytes \<Rightarrow> u32" where
  "crc_ref data = foldl crc_ref_step 0xFFFFFFFF data"

lemma mpeg_crc32_step_ref:
  assumes "\<not> crc_bad (crc_index crc b)"
  shows "mpeg_crc32_step crc b = crc_ref_step crc b"
proof -
  define idx where "idx = drop_bit 24 crc XOR (ucast b :: u32)"
  have idx: "idx AND 0xFF = idx"
  proof (rule bit_word_eqI)
    fix i assume "i < LENGTH(32)"
    then show "bit (idx AND 0xFF) i = bit idx i"
      by (auto simp: idx_def bytes_simps bit_take_bit_iff bit_xor_iff bit_drop_bit_eq bit_ucast_iff dest: bit_imp_le_length)
  qed
  have "unat (idx AND 0xFF) < 256"
    using take_bit_nat_less_exp [of 8 "unat idx"] by (simp add: bytes_simps unsigned_take_bit_eq)
  then have small: "unat idx < 256" by (simp only: idx)
  have safe: "\<not> crc_bad (unat idx)"
    using assms by (simp only: crc_index_def idx_def [symmetric] idx not_False_eq_True)
  have split: "crc XOR push_bit 24 (ucast b) = push_bit 24 idx XOR take_bit 24 crc"
  proof (rule bit_word_eqI)
    fix i assume "i < LENGTH(32)"
    then show "bit (crc XOR push_bit 24 (ucast b)) i = bit (push_bit 24 idx XOR take_bit 24 crc) i"
      by (auto simp: idx_def bit_xor_iff bit_push_bit_iff bit_take_bit_iff bit_drop_bit_eq bit_ucast_iff)
  qed
  have "push_bit 8 (take_bit 24 crc) = push_bit 8 crc"
    by (rule bit_word_eqI) (auto simp: bit_push_bit_iff bit_take_bit_iff)
  then show ?thesis
    by (simp only: mpeg_crc32_step_def crc_ref_step_def idx_def [symmetric] idx split crc_byte_xor
          crc32_table_nth [OF small safe])
       (simp add: crc_byte_low xor.commute)
qed

text \<open>The bytes whose checksum never looks a wrong entry up.\<close>

fun crc_table_safe :: "u32 \<Rightarrow> bytes \<Rightarrow> bool" where
  "crc_table_safe crc [] = True"
| "crc_table_safe crc (b # bs) =
     (\<not> crc_bad (crc_index crc b) \<and> crc_table_safe (mpeg_crc32_step crc b) bs)"

lemma mpeg_crc32_ref_from:
  "crc_table_safe crc data \<Longrightarrow> foldl mpeg_crc32_step crc data = foldl crc_ref_step crc data"
  by (induction data arbitrary: crc) (simp_all, metis mpeg_crc32_step_ref)

lemma mpeg_crc32_ref: "crc_table_safe 0xFFFFFFFF data \<Longrightarrow> mpeg_crc32 data = crc_ref data"
  by (simp add: mpeg_crc32_def crc_ref_def mpeg_crc32_ref_from)

text \<open>A checksum divides itself out: each of its bytes cancels the high byte.\<close>

lemma crc_ref_step_top: "crc_ref_step crc (byte_of 24 crc) = push_bit 8 crc"
proof -
  have "crc XOR push_bit 24 (ucast (byte_of 24 crc)) = take_bit 24 crc"
    by (rule bit_word_eqI)
       (auto simp: bit_xor_iff bit_push_bit_iff bit_ucast_iff bit_byte_of bit_take_bit_iff)
  moreover have "push_bit 8 (take_bit 24 crc) = push_bit 8 crc"
    by (rule bit_word_eqI) (auto simp: bit_push_bit_iff bit_take_bit_iff)
  ultimately show ?thesis
    by (simp add: crc_ref_step_def crc_byte_low)
qed

lemma byte_of_push: "n + k = 24 \<Longrightarrow> byte_of 24 (push_bit k (crc::u32)) = byte_of n crc"
proof (rule bit_word_eqI)
  fix i assume "n + k = 24" and "i < LENGTH(8)"
  then have "24 + i - k = n + i" and "k \<le> 24" by arith+
  with \<open>i < LENGTH(8)\<close> \<open>n + k = 24\<close>
  show "bit (byte_of 24 (push_bit k crc)) i = bit (byte_of n crc) i"
    by (auto simp: bit_byte_of bit_push_bit_iff)
qed

lemma crc_ref_residue: "foldl crc_ref_step crc (be32 crc) = 0"
proof -
  have "crc_ref_step (push_bit k crc) (byte_of n crc) = push_bit (8 + k) crc" if "n + k = 24" for n k
    using crc_ref_step_top [of "push_bit k crc"] that by (simp add: byte_of_push push_bit_push_bit)
  from this [of 24 0] this [of 16 8] this [of 8 16] this [of 0 24] show ?thesis
    by (simp add: be32_def)
qed

definition read_pts :: "bytes \<Rightarrow> u64" where
  "read_pts bs =
     push_bit 30 (drop_bit 1 (ucast (bs ! 0)) AND 0x07) OR push_bit 22 (ucast (bs ! 1))
     OR push_bit 15 (drop_bit 1 (ucast (bs ! 2))) OR push_bit 7 (ucast (bs ! 3))
     OR drop_bit 1 (ucast (bs ! 4))"


lemma read_pts_write_pts: "read_pts (write_pts prefix pts) = take_bit 33 pts"
proof (rule bit_word_eqI)
  fix i assume "i < LENGTH(64)"
  then have "i < 7 \<or> (\<exists>j < 8. i = 7 + j) \<or> (\<exists>j < 7. i = 15 + j) \<or> (\<exists>j < 8. i = 22 + j)
      \<or> (\<exists>j < 3. i = 30 + j) \<or> (\<exists>j < 31. i = 33 + j)"
    by simp presburger
  then show "bit (read_pts (write_pts prefix pts)) i = bit (take_bit 33 pts) i"
    by (elim disjE exE conjE; auto simp: read_pts_def write_pts_def bytes_simps bit_or_iff
        bit_push_bit_iff bit_take_bit_iff bit_drop_bit_eq bit_ucast_iff bit_1_iff bit_times_2)
qed

section \<open>A reader of transport packets\<close>

definition ts_pid :: "bytes \<Rightarrow> u16" where
  "ts_pid p = push_bit 8 (ucast (p ! 1) AND 0x1F) OR ucast (p ! 2)"

definition ts_pusi :: "bytes \<Rightarrow> bool" where "ts_pusi p = bit (p ! 1) 6"

definition ts_cc :: "bytes \<Rightarrow> u8" where "ts_cc p = p ! 3 AND 0x0F"

definition ts_payload_start :: "bytes \<Rightarrow> nat" where
  "ts_payload_start p = (if bit (p ! 3) 5 then 5 + unat (p ! 4) else 4)"

definition ts_payload :: "bytes \<Rightarrow> bytes" where
  "ts_payload p = (if bit (p ! 3) 4 then drop (ts_payload_start p) p else [])"

text \<open>The flags byte of the adaptation field, when there is one.\<close>

definition ts_af_flags :: "bytes \<Rightarrow> u8" where
  "ts_af_flags p = (if bit (p ! 3) 5 \<and> 0 < unat (p ! 4) then p ! 5 else 0)"

definition ts_rai :: "bytes \<Rightarrow> bool" where "ts_rai p = bit (ts_af_flags p) 6"

definition read_pcr :: "bytes \<Rightarrow> u64" where
  "read_pcr bs =
     push_bit 25 (ucast (bs ! 0)) OR push_bit 17 (ucast (bs ! 1)) OR push_bit 9 (ucast (bs ! 2))
     OR push_bit 1 (ucast (bs ! 3)) OR drop_bit 7 (ucast (bs ! 4))"

definition ts_pcr :: "bytes \<Rightarrow> u64 option" where
  "ts_pcr p = (if bit (ts_af_flags p) 4 then Some (read_pcr (take 6 (drop 6 p))) else None)"

definition ts_header :: "u16 \<Rightarrow> bool \<Rightarrow> u8 \<Rightarrow> bytes \<Rightarrow> bool" where
  "ts_header pid pusi cc p \<longleftrightarrow>
     p ! 0 = RSS_TS_SYNC_BYTE \<and> ts_pid p = pid AND 0x1FFF \<and> ts_pusi p = pusi \<and> ts_cc p = cc AND 0x0F"

lemma ts_header_bytes:
  assumes "p ! 0 = RSS_TS_SYNC_BYTE"
    and "p ! 1 = (if pusi then 0x40 else 0x00) OR ucast (drop_bit 8 pid AND 0x1F)"
    and "p ! 2 = ucast (pid AND 0xFF)"
    and "p ! 3 = 0x30 OR (cc AND 0x0F) \<or> p ! 3 = 0x10 OR (cc AND 0x0F)"
  shows "ts_header pid pusi cc p"
proof -
  have p1: "bit (p ! 1) j = bit pid (8 + j)" if "j < 5" for j
    using assms(2) that
    by (auto simp: bytes_simps bit_or_iff bit_take_bit_iff bit_drop_bit_eq bit_ucast_iff)
  have "ts_pid p = pid AND 0x1FFF"
  proof (rule bit_word_eqI)
    fix i assume "i < LENGTH(16)"
    then have "i < 8 \<or> (\<exists>j < 5. i = 8 + j) \<or> (\<exists>j < 3. i = 13 + j)"
      by simp presburger
    then show "bit (ts_pid p) i = bit (pid AND 0x1FFF) i"
      using assms(3) p1 [simplified]
      by (elim disjE exE conjE; auto simp: ts_pid_def bytes_simps bit_or_iff bit_and_iff bit_push_bit_iff
        bit_take_bit_iff bit_drop_bit_eq bit_ucast_iff)
  qed
  moreover have "ts_pusi p = pusi"
    using assms(2) by (simp add: ts_pusi_def bytes_simps bit_or_iff bit_ucast_iff bit_take_bit_iff)
  moreover have "ts_cc p = cc AND 0x0F"
    using assms(4) by (auto simp: ts_cc_def bytes_simps bit_or_iff bit_take_bit_iff intro!: bit_word_eqI)
  ultimately show ?thesis using assms(1) by (simp add: ts_header_def)
qed

lemma copy_data_eq:
  "\<lbrakk>pkt_off + to_copy \<le> length pkt; data_off + to_copy \<le> length pes_hdr + length payload\<rbrakk>
   \<Longrightarrow> copy_data pes_hdr payload pkt pkt_off data_off to_copy
     = (put pkt pkt_off (take to_copy (drop data_off (pes_hdr @ payload))), data_off + to_copy)"
proof (induction pes_hdr payload pkt pkt_off data_off to_copy rule: copy_data.induct)
  case (1 pes_hdr payload pkt pkt_off data_off to_copy)
  let ?data = "pes_hdr @ payload"
  show ?case
  proof (cases "to_copy > 0 \<and> data_off < length pes_hdr + length payload")
    case False
    with "1.prems" have "to_copy = 0" by auto
    then show ?thesis by (simp add: copy_data.simps)
  next
    case run: True
    define chunk where "chunk = min (if data_off < length pes_hdr then length pes_hdr - data_off
       else length payload - (data_off - length pes_hdr)) to_copy"
    define src where "src = take chunk (drop data_off ?data)"
    have src: "src = (if data_off < length pes_hdr then take chunk (drop data_off pes_hdr)
       else take chunk (drop (data_off - length pes_hdr) payload))"
      by (auto simp: src_def chunk_def)
    have len: "length src = chunk" "chunk \<le> to_copy"
      using "1.prems" run by (auto simp: src_def chunk_def)
    have step: "copy_data pes_hdr payload pkt pkt_off data_off to_copy
        = copy_data pes_hdr payload (put pkt pkt_off src) (pkt_off + chunk) (data_off + chunk) (to_copy - chunk)"
      using run by (subst copy_data.simps) (auto simp: Let_def src chunk_def)
    have IH: "copy_data pes_hdr payload (put pkt pkt_off src) (pkt_off + chunk) (data_off + chunk) (to_copy - chunk)
        = (put (put pkt pkt_off src) (pkt_off + chunk) (take (to_copy - chunk) (drop (data_off + chunk) ?data)),
           data_off + chunk + (to_copy - chunk))"
    proof (cases "data_off < length pes_hdr")
      case True
      show ?thesis
        using "1.IH"(1) [OF run True refl refl] "1.prems" len True
        by (simp add: src chunk_def length_put)
    next
      case False
      show ?thesis
        using "1.IH"(2) [OF run False refl refl refl] "1.prems" len False
        by (simp add: src chunk_def length_put)
    qed
    have "put (put pkt pkt_off src) (pkt_off + chunk) (take (to_copy - chunk) (drop (data_off + chunk) ?data))
        = put pkt pkt_off (src @ take (to_copy - chunk) (drop (data_off + chunk) ?data))"
      using put_put [of pkt_off src "take (to_copy - chunk) (drop (data_off + chunk) ?data)" pkt] "1.prems" len
      by simp
    also have "src @ take (to_copy - chunk) (drop (data_off + chunk) ?data) = take to_copy (drop data_off ?data)"
      using len take_add_drop [of chunk "to_copy - chunk" data_off ?data] by (simp add: src_def)
    finally show ?thesis using len by (simp add: step IH)
  qed
qed

definition pes_space :: "bool \<Rightarrow> bool \<Rightarrow> bool \<Rightarrow> nat" where
  "pes_space has_pcr is_rai first =
     (if first \<and> has_pcr then 176 else if first \<and> is_rai then 182 else 184)"

lemma length_write_pcr [simp]: "length (write_pcr v) = 6"
  by (simp add: write_pcr_def)

lemma unat_af_length [buf_simps]:
  "s < 200 \<Longrightarrow> unat (7 + of_nat s :: u8) = 7 + s"
  "s < 200 \<Longrightarrow> unat (1 + of_nat s :: u8) = 1 + s"
  "s < 200 \<Longrightarrow> unat (of_nat s - 1 :: u8) = (if s = 0 then 255 else s - 1)"
  "s < 200 \<Longrightarrow> unat (of_nat s :: u8) = s"
  "s \<le> 183 \<Longrightarrow> unat (183 - of_nat s :: u8) = 183 - s"
  by (simp_all add: unat_word_ariths unat_of_nat unat_sub_if')

lemma pes_packet_head_length:
  "pes_packet_head pid pcr has_pcr is_rai first cc remaining = (q, n) \<Longrightarrow>
     length q = 188 \<and> n = min (pes_space has_pcr is_rai first) remaining"
  by (auto simp: pes_packet_head_def Let_def pes_space_def put_def split: if_splits)

lemma pes_packet_head_header:
  assumes "pes_packet_head pid pcr has_pcr is_rai first cc remaining = (q, n)"
  shows "ts_header pid first cc q"
proof (rule ts_header_bytes)
  show "q ! 0 = RSS_TS_SYNC_BYTE"
    and "q ! 1 = (if first then 0x40 else 0x00) OR ucast (drop_bit 8 pid AND 0x1F)"
    and "q ! 2 = ucast (pid AND 0xFF)"
    and "q ! 3 = 0x30 OR (cc AND 0x0F) \<or> q ! 3 = 0x10 OR (cc AND 0x0F)"
    using assms
    by (auto simp: pes_packet_head_def Let_def buf_simps split: if_splits)
qed

lemma af_control_bits [simp]:
  "bit (0x30 OR (cc AND 0x0F) :: u8) 5" "bit (0x30 OR (cc AND 0x0F) :: u8) 4"
  "\<not> bit (0x10 OR (cc AND 0x0F) :: u8) 5" "bit (0x10 OR (cc AND 0x0F) :: u8) 4"
  by (simp_all add: bit_or_iff bit_and_iff)

lemma pes_packet_head_start:
  assumes "pes_packet_head pid pcr has_pcr is_rai first cc remaining = (q, n)" and "0 < remaining"
  shows "bit (q ! 3) 4" and "ts_payload_start q = 188 - n"
    and "bit (q ! 3) 5 \<Longrightarrow> n < 184"
    and "bit (q ! 3) 5 \<Longrightarrow> 0 < unat (q ! 4) \<Longrightarrow> n < 183"
  using assms
  by (auto simp: pes_packet_head_def Let_def nth_put_before buf_simps ts_payload_start_def split: if_splits)

lemma pes_packet_head_flags:
  assumes "pes_packet_head pid pcr has_pcr is_rai first cc remaining = (q, n)" and "0 < remaining"
  shows "ts_af_flags q = (if first then (if has_pcr then 0x10 else 0) OR (if is_rai then 0x40 else 0) else 0)"
  using assms
  by (auto simp: pes_packet_head_def Let_def buf_simps ts_af_flags_def split: if_splits)

lemma pes_packet_head_pcr:
  assumes "pes_packet_head pid pcr True is_rai True cc remaining = (q, n)"
  shows "take 6 (drop 6 q) = write_pcr pcr \<and> n \<le> 176"
  using assms
  by (auto simp: pes_packet_head_def Let_def drop_put_same split: if_splits)

section \<open>The packet loop, from the contract of its body\<close>

text \<open>An output cut into its packets.\<close>

function ts_packets :: "bytes \<Rightarrow> bytes list" where
  "ts_packets out = (if length out < RSS_TS_PACKET_SIZE then []
     else take RSS_TS_PACKET_SIZE out # ts_packets (drop RSS_TS_PACKET_SIZE out))"
  by pat_completeness auto
termination
  by (relation "measure length") auto

declare ts_packets.simps [simp del]

lemma ts_packets_Nil [simp]: "ts_packets [] = []"
  by (simp add: ts_packets.simps)

lemma ts_packets_Cons [simp]: "length p = 188 \<Longrightarrow> ts_packets (p @ out) = p # ts_packets out"
  by (subst ts_packets.simps) simp

definition next_cc :: "u8 \<Rightarrow> u8" where "next_cc cc = (cc + 1) AND 0x0F"

lemma and_15_add: "((x AND 0x0F) + y) AND 0x0F = (x + y) AND (0x0F :: u8)"
proof -
  have "take_bit 4 (take_bit 4 x + y) = take_bit 4 (x + y :: u8)"
    by (simp only: word_uint_eq_iff unsigned_take_bit_eq uint_word_ariths)
       (simp add: take_bit_eq_mod mod_mod_cancel mod_add_left_eq)
  then show ?thesis by (simp add: bytes_simps)
qed

lemma next_cc_iterate: "((next_cc ^^ i) cc) AND 0x0F = (cc + of_nat i) AND 0x0F"
proof (induction i)
  case 0
  show ?case by simp
next
  case (Suc i)
  have "((next_cc ^^ Suc i) cc) AND 0x0F = ((next_cc ^^ i) cc + 1) AND 0x0F"
    by (simp add: next_cc_def and.assoc)
  also have "\<dots> = (((next_cc ^^ i) cc AND 0x0F) + 1) AND 0x0F"
    by (simp only: and_15_add)
  also have "\<dots> = (((cc + of_nat i) AND 0x0F) + 1) AND 0x0F"
    by (simp only: Suc.IH)
  also have "\<dots> = (cc + of_nat (Suc i)) AND 0x0F"
    by (simp only: and_15_add) (simp add: algebra_simps)
  finally show ?case .
qed

text \<open>
  Packets for \<open>m\<close> bytes when the first packet takes \<open>s\<^sub>1\<close> and every later one \<open>s\<close>, and
  the bytes \<open>n\<close> packets can take.
\<close>

definition packets_needed :: "nat \<Rightarrow> nat \<Rightarrow> nat \<Rightarrow> nat" where
  "packets_needed s1 s m = (if m = 0 then 0 else 1 + (m - s1 + (s - 1)) div s)"

definition packets_capacity :: "nat \<Rightarrow> nat \<Rightarrow> nat \<Rightarrow> nat" where
  "packets_capacity s1 s n = (if n = 0 then 0 else s1 + (n - 1) * s)"

lemma packets_needed_step:
  assumes "0 < s" and "0 < m"
  shows "packets_needed s1 s m = Suc (packets_needed s s (m - s1))"
proof -
  define k where "k = m - s1"
  have "(k + (s - 1)) div s = packets_needed s s k"
  proof (cases "k = 0")
    case True
    with assms show ?thesis by (simp add: packets_needed_def)
  next
    case False
    have "(k + (s - 1)) div s = Suc ((k - 1) div s)"
      using assms False div_add_self2 [of s "k - 1"] by simp
    also have "(k - 1) div s = (k - s + (s - 1)) div s"
    proof (cases "s \<le> k")
      case True
      with assms show ?thesis by simp
    next
      case False
      with assms show ?thesis by simp
    qed
    finally show ?thesis using False by (simp add: packets_needed_def)
  qed
  with assms show ?thesis by (simp add: packets_needed_def k_def)
qed

lemma packets_needed_enough:
  assumes "0 < s" and "packets_needed s1 s m \<le> n"
  shows "m \<le> packets_capacity s1 s n"
proof (cases "m = 0")
  case False
  then have "1 + (m - s1 + (s - 1)) div s \<le> n"
    using assms(2) by (simp only: packets_needed_def if_False)
  then obtain k where n: "n = Suc k" and k: "(m - s1 + (s - 1)) div s \<le> k"
    by (metis Suc_le_D Suc_le_mono plus_1_eq_Suc)
  have "m - s1 + (s - 1) < s * ((m - s1 + (s - 1)) div s) + s"
    using assms(1) by (metis add_less_cancel_left mod_less_divisor mult_div_mod_eq)
  also have "\<dots> \<le> s * k + s"
    using mult_le_mono2 [OF k, of s] by linarith
  finally have "m - s1 \<le> k * s"
    using assms(1) by (simp add: mult.commute)
  then show ?thesis
    using n by (simp add: packets_capacity_def)
qed simp

locale ts_packetizer =
  fixes packet :: "bool \<Rightarrow> u8 \<Rightarrow> nat \<Rightarrow> bytes \<times> nat"
    and data :: bytes
    and space :: "bool \<Rightarrow> nat"
    and header :: "bool \<Rightarrow> u8 \<Rightarrow> bytes \<Rightarrow> bool"
    and payload_of :: "bytes \<Rightarrow> bytes"
  assumes packet_length: "off < length data \<Longrightarrow> length (fst (packet first cc off)) = 188"
    and packet_next: "off < length data \<Longrightarrow> snd (packet first cc off) = min (length data) (off + space first)"
    and packet_payload: "off < length data \<Longrightarrow> payload_of (fst (packet first cc off)) = take (space first) (drop off data)"
    and packet_header: "off < length data \<Longrightarrow> header first cc (fst (packet first cc off))"
    and space_pos: "0 < space first"
begin

lemma loop_stop:
  "\<not> off < length data \<or> written + 188 > buf_size \<Longrightarrow>
     packet_loop packet (length data) buf_size written first cc off = ([], cc)"
  by (subst packet_loop.simps) auto

lemma loop_step:
  assumes "off < length data" and "written + 188 \<le> buf_size"
  shows "packet_loop packet (length data) buf_size written first cc off =
    (let (out, cc') = packet_loop packet (length data) buf_size (written + 188) False (next_cc cc)
                        (min (length data) (off + space first))
     in (fst (packet first cc off) @ out, cc'))"
  using assms packet_next [of off first cc]
  by (subst packet_loop.simps) (simp add: split_beta next_cc_def)

text \<open>How many packets the loop writes: what the data needs, or what the buffer holds.\<close>

lemma loop_packets:
  assumes "packet_loop packet (length data) buf_size written first cc off = (out, cc')"
    and "off \<le> length data"
  shows "\<exists>n. n = min (packets_needed (space first) (space False) (length data - off)) ((buf_size - written) div 188)
    \<and> length out = 188 * n \<and> length (ts_packets out) = n \<and> cc' = (next_cc ^^ n) cc
    \<and> concat (map payload_of (ts_packets out))
        = take (packets_capacity (space first) (space False) n) (drop off data)
    \<and> (\<forall>i < n. header (first \<and> i = 0) ((next_cc ^^ i) cc) (ts_packets out ! i))"
  using assms
proof (induction "buf_size - written" arbitrary: written first cc off out cc' rule: less_induct)
  case less
  show ?case
  proof (cases "off < length data \<and> written + 188 \<le> buf_size")
    case False
    then have "out = [] \<and> cc' = cc"
      using less.prems loop_stop [where off = off and written = written and buf_size = buf_size
          and first = first and cc = cc] by auto
    moreover have "min (packets_needed (space first) (space False) (length data - off)) ((buf_size - written) div 188) = 0"
      using False by (auto simp: packets_needed_def min_def)
    ultimately show ?thesis
      by (auto simp: packets_capacity_def)
  next
    case True
    define pkt where "pkt = fst (packet first cc off)"
    define off' where "off' = min (length data) (off + space first)"
    obtain out' where rest: "packet_loop packet (length data) buf_size (written + 188) False (next_cc cc) off' = (out', cc')"
      and out: "out = pkt @ out'"
      using less.prems(1) True by (auto simp: loop_step pkt_def off'_def Let_def split: prod.splits)
    define n where "n = min (packets_needed (space False) (space False) (length data - off')) ((buf_size - (written + 188)) div 188)"
    have IH: "length out' = 188 * n" "length (ts_packets out') = n" "cc' = (next_cc ^^ n) (next_cc cc)"
      "concat (map payload_of (ts_packets out')) = take (packets_capacity (space False) (space False) n) (drop off' data)"
      "\<forall>i < n. header False ((next_cc ^^ i) (next_cc cc)) (ts_packets out' ! i)"
      using less.hyps [of "written + 188" False "next_cc cc" off' out' cc'] rest True
      by (auto simp: n_def off'_def)
    have len: "length pkt = 188"
      using True by (simp add: pkt_def packet_length)
    have "packets_needed (space first) (space False) (length data - off)
        = Suc (packets_needed (space False) (space False) (length data - off'))"
      using True by (simp add: packets_needed_step space_pos off'_def min_def)
    moreover have "(buf_size - written) div 188 = Suc ((buf_size - (written + 188)) div 188)"
    proof -
      from True have "188 \<le> buf_size - written" by linarith
      then show ?thesis using le_div_geq [of 188 "buf_size - written"] by simp
    qed
    ultimately have count: "Suc n = min (packets_needed (space first) (space False) (length data - off)) ((buf_size - written) div 188)"
      by (simp add: n_def)
    have "drop off' data = drop (space first) (drop off data)"
      by (simp add: off'_def min_def add.commute)
    moreover have "packets_capacity (space first) (space False) (Suc n) = space first + packets_capacity (space False) (space False) n"
      by (cases n) (simp_all add: packets_capacity_def)
    ultimately have payload: "concat (map payload_of (ts_packets out))
        = take (packets_capacity (space first) (space False) (Suc n)) (drop off data)"
      using True by (simp add: out len pkt_def packet_length packet_payload IH take_add)
    have "header (first \<and> i = 0) ((next_cc ^^ i) cc) (ts_packets out ! i)" if "i < Suc n" for i
      using that True IH(5)
      by (cases i) (simp_all add: out len pkt_def packet_length packet_header funpow_swap1)
    moreover have "length out = 188 * Suc n" "length (ts_packets out) = Suc n" "cc' = (next_cc ^^ Suc n) cc"
      using IH(1,2,3) by (simp_all add: out len funpow_swap1)
    ultimately show ?thesis
      using count payload by blast
  qed
qed

end

section \<open>The muxer's packets fulfil the contract\<close>

text \<open>What the header of a packet says: its identity, and the clock on the first one.\<close>

definition pes_packet_ok ::
  "u16 \<Rightarrow> u64 \<Rightarrow> bool \<Rightarrow> bool \<Rightarrow> bool \<Rightarrow> u8 \<Rightarrow> bytes \<Rightarrow> bool" where
  "pes_packet_ok pid pcr has_pcr is_rai first cc p \<longleftrightarrow>
     length p = RSS_TS_PACKET_SIZE \<and> ts_header pid first cc p
     \<and> ts_rai p = (first \<and> is_rai)
     \<and> ts_pcr p = (if first \<and> has_pcr then Some (take_bit 33 pcr) else None)"

lemma read_pcr_write_pcr: "read_pcr (write_pcr pcr) = take_bit 33 pcr"
proof (rule bit_word_eqI)
  fix i assume "i < LENGTH(64)"
  then have "i = 0 \<or> (\<exists>j < 8. i = 1 + j) \<or> (\<exists>j < 8. i = 9 + j) \<or> (\<exists>j < 8. i = 17 + j)
      \<or> (\<exists>j < 8. i = 25 + j) \<or> (\<exists>j < 31. i = 33 + j)"
    by simp presburger
  then show "bit (read_pcr (write_pcr pcr)) i = bit (take_bit 33 pcr) i"
    by (elim disjE exE conjE; (auto simp: read_pcr_def write_pcr_def bytes_simps bit_or_iff
        bit_push_bit_iff bit_take_bit_iff bit_drop_bit_eq bit_ucast_iff bit_1_iff bit_times_2)?;
        (simp add: bit_0)?)
qed

lemma pes_packet_unfold:
  assumes "pes_packet_head pid pcr has_pcr is_rai first cc (length pes_hdr + length payload - off) = (q, n)"
    and "off < length pes_hdr + length payload"
  shows "pes_packet pid pes_hdr payload pcr has_pcr is_rai first cc off
    = (put q (188 - n) (take n (drop off (pes_hdr @ payload))), off + n)"
proof -
  have "length q = 188" and n: "n = min (pes_space has_pcr is_rai first) (length pes_hdr + length payload - off)"
    using pes_packet_head_length [OF assms(1)] by simp_all
  moreover have "n \<le> 184"
    by (auto simp: n pes_space_def)
  ultimately show ?thesis
    using assms by (simp add: pes_packet_def copy_data_eq)
qed

lemma pes_packet_contract:
  assumes off: "off < length (pes_hdr @ payload)"
    and result: "pes_packet pid pes_hdr payload pcr has_pcr is_rai first cc off = (p, off')"
  shows "length p = 188"
    and "off' = min (length (pes_hdr @ payload)) (off + pes_space has_pcr is_rai first)"
    and "ts_payload p = take (pes_space has_pcr is_rai first) (drop off (pes_hdr @ payload))"
    and "pes_packet_ok pid pcr has_pcr is_rai first cc p"
proof -
  let ?rem = "length pes_hdr + length payload - off"
  obtain q n where head: "pes_packet_head pid pcr has_pcr is_rai first cc ?rem = (q, n)"
    by force
  have rem: "0 < ?rem" and off'': "off < length pes_hdr + length payload"
    using off by simp_all
  have q: "length q = 188" and n: "n = min (pes_space has_pcr is_rai first) ?rem"
    using pes_packet_head_length [OF head] by simp_all
  have n184: "n \<le> 184"
    by (auto simp: n pes_space_def)
  define xs where "xs = take n (drop off (pes_hdr @ payload))"
  have xs: "length xs = n"
  proof -
    have "n \<le> length (pes_hdr @ payload) - off"
      by (simp add: n)
    then show ?thesis
      by (simp only: xs_def length_take length_drop min_absorb2)
  qed
  have p_def: "p = put q (188 - n) xs" and off'_def: "off' = off + n"
    using pes_packet_unfold [OF head off''] result by (simp_all add: xs_def)
  note start = pes_packet_head_start [OF head rem]
  have p_length: "length p = 188"
    using n184 by (simp add: p_def length_put q xs)
  have p_nth: "p ! i = q ! i" if "i < 188 - n" for i
    using that n184 by (simp add: p_def nth_put_before q)
  have p3: "p ! 0 = q ! 0" "p ! 1 = q ! 1" "p ! 2 = q ! 2" "p ! 3 = q ! 3"
    using n184 by (simp_all add: p_nth)
  have p4: "bit (q ! 3) 5 \<Longrightarrow> p ! 4 = q ! 4"
    using start(3) by (simp add: p_nth)
  have p5: "bit (q ! 3) 5 \<Longrightarrow> 0 < unat (q ! 4) \<Longrightarrow> p ! 5 = q ! 5"
    using start(4) by (simp add: p_nth)
  show "length p = 188"
    by (fact p_length)
  show "off' = min (length (pes_hdr @ payload)) (off + pes_space has_pcr is_rai first)"
    using off by (auto simp: off'_def n min_def)
  have "ts_payload_start p = 188 - n"
    using start(2) p4 by (auto simp: ts_payload_start_def p3 split: if_splits)
  moreover have "drop (188 - n) p = xs"
    using n184 by (simp add: p_def drop_put_end q xs)
  ultimately have "ts_payload p = xs"
    using start(1) by (simp add: ts_payload_def p3)
  also have "xs = take (pes_space has_pcr is_rai first) (drop off (pes_hdr @ payload))"
    by (simp add: xs_def n min_def)
  finally show "ts_payload p = take (pes_space has_pcr is_rai first) (drop off (pes_hdr @ payload))" .
  have header: "ts_header pid first cc p"
    using pes_packet_head_header [OF head] p3 by (simp add: ts_header_def ts_pid_def ts_pusi_def ts_cc_def)
  have flags: "ts_af_flags p = (if first then (if has_pcr then 0x10 else 0) OR (if is_rai then 0x40 else 0) else 0)"
    using pes_packet_head_flags [OF head rem] p4 p5 by (auto simp: ts_af_flags_def p3)
  have "take 6 (drop 6 p) = write_pcr pcr" if "first" "has_pcr"
  proof -
    have "take 6 (drop 6 q) = write_pcr pcr" and "n \<le> 176"
      using pes_packet_head_pcr head that by auto
    moreover have "take 6 (drop 6 p) = drop 6 (take 12 p)" and "take 6 (drop 6 q) = drop 6 (take 12 q)"
      by (simp_all add: take_drop)
    ultimately show ?thesis
      by (simp add: p_def take_put_before q)
  qed
  then have "ts_pcr p = (if first \<and> has_pcr then Some (take_bit 33 pcr) else None)"
    by (auto simp: ts_pcr_def flags bytes_simps bit_or_iff read_pcr_write_pcr)
  moreover have "ts_rai p = (first \<and> is_rai)"
    by (auto simp: ts_rai_def flags bytes_simps bit_or_iff)
  ultimately show "pes_packet_ok pid pcr has_pcr is_rai first cc p"
    using header p_length by (simp add: pes_packet_ok_def)
qed

interpretation pes: ts_packetizer
  "pes_packet pid pes_hdr payload pcr has_pcr is_rai" "pes_hdr @ payload"
  "pes_space has_pcr is_rai" "pes_packet_ok pid pcr has_pcr is_rai" ts_payload
  for pid pes_hdr payload pcr has_pcr is_rai
  by unfold_locales
     (simp_all add: pes_packet_contract [OF _ surjective_pairing] pes_space_def del: length_append)

lemma write_pes_packets_props:
  assumes "write_pes_packets buf_size pid cc pes_hdr payload pcr has_pcr is_rai = (out, cc')"
    and "n = min (packets_needed (pes_space has_pcr is_rai True) 184 (length pes_hdr + length payload))
               (buf_size div 188)"
  shows "length out = 188 * n" and "length (ts_packets out) = n" and "cc' = (next_cc ^^ n) cc"
    and "concat (map ts_payload (ts_packets out))
      = take (packets_capacity (pes_space has_pcr is_rai True) 184 n) (pes_hdr @ payload)"
    and "\<And>i. i < n \<Longrightarrow>
      pes_packet_ok pid pcr has_pcr is_rai (i = 0) ((next_cc ^^ i) cc) (ts_packets out ! i)"
proof -
  have loop: "packet_loop (pes_packet pid pes_hdr payload pcr has_pcr is_rai)
      (length (pes_hdr @ payload)) buf_size 0 True cc 0 = (out, cc')"
    using assms(1) by (simp add: write_pes_packets_def)
  have "pes_space has_pcr is_rai False = 184"
    by (simp add: pes_space_def)
  with pes.loop_packets [OF loop] assms(2)
  show "length out = 188 * n" and "length (ts_packets out) = n" and "cc' = (next_cc ^^ n) cc"
    and "concat (map ts_payload (ts_packets out))
      = take (packets_capacity (pes_space has_pcr is_rai True) 184 n) (pes_hdr @ payload)"
    and "\<And>i. i < n \<Longrightarrow>
      pes_packet_ok pid pcr has_pcr is_rai (i = 0) ((next_cc ^^ i) cc) (ts_packets out ! i)"
    by auto
qed

lemma write_pes_packets_complete:
  assumes "write_pes_packets buf_size pid cc pes_hdr payload pcr has_pcr is_rai = (out, cc')"
    and "188 * packets_needed (pes_space has_pcr is_rai True) 184 (length pes_hdr + length payload) \<le> buf_size"
  shows "concat (map ts_payload (ts_packets out)) = pes_hdr @ payload"
proof -
  let ?need = "packets_needed (pes_space has_pcr is_rai True) 184 (length pes_hdr + length payload)"
  have "?need \<le> buf_size div 188"
    using assms(2) by (simp add: less_eq_div_iff_mult_less_eq mult.commute)
  then have n: "min ?need (buf_size div 188) = ?need" by simp
  have "length pes_hdr + length payload \<le> packets_capacity (pes_space has_pcr is_rai True) 184 ?need"
    by (rule packets_needed_enough) simp_all
  with write_pes_packets_props(4) [OF assms(1) n [symmetric]] show ?thesis
    by simp
qed

section \<open>The program tables\<close>

lemma start_ts_packet_header:
  assumes "start_ts_packet p pid pusi cc = (q, cc')" and "4 \<le> length p"
  shows "ts_header pid pusi cc q" and "length q = length p" and "q ! 3 = 0x10 OR (cc AND 0x0F)"
    and "cc' = next_cc cc"
proof -
  have len: "0 < length p" "Suc 0 < length p" "2 < length p" "3 < length p"
    using assms(2) by linarith+
  have q: "q = p[0 := RSS_TS_SYNC_BYTE,
      1 := (if pusi then 0x40 else 0x00) OR ucast (drop_bit 8 pid AND 0x1F),
      2 := ucast (pid AND 0xFF), 3 := 0x10 OR (cc AND 0x0F)]"
    and "cc' = next_cc cc"
    using assms(1) by (simp_all add: start_ts_packet_def next_cc_def)
  show "ts_header pid pusi cc q"
    by (rule ts_header_bytes) (simp_all only: q, use len in simp_all)
  show "length q = length p" and "q ! 3 = 0x10 OR (cc AND 0x0F)"
    using len by (simp_all add: q)
  show "cc' = next_cc cc" by fact
qed

lemma section_packet_props:
  assumes "section_packet pid cc s = (p, cc')" and "length s \<le> 179"
  shows "length p = 188" and "ts_header pid True cc p" and "cc' = next_cc cc"
    and "ts_payload p = 0x00 # s @ be32 (mpeg_crc32 s) @ replicate (179 - length s) 0xFF"
proof -
  obtain q where q: "start_ts_packet (replicate 188 0xFF) pid True cc = (q, cc')"
    and p: "p = put q 4 (0x00 # s @ be32 (mpeg_crc32 s))"
    using assms(1) by (auto simp: section_packet_def split: prod.splits)
  have q_props: "ts_header pid True cc q" "length q = 188" "q ! 3 = 0x10 OR (cc AND 0x0F)" "cc' = next_cc cc"
    using start_ts_packet_header [OF q] by simp_all
  have "drop (9 + length s) q = replicate (179 - length s) 0xFF"
    using q by (auto simp: start_ts_packet_def)
  then show "length p = 188" and "ts_header pid True cc p" and "cc' = next_cc cc"
    and "ts_payload p = 0x00 # s @ be32 (mpeg_crc32 s) @ replicate (179 - length s) 0xFF"
    using q_props assms(2)
    by (simp_all add: p length_put nth_put_before ts_header_def ts_pid_def ts_pusi_def ts_cc_def
        ts_payload_def ts_payload_start_def drop_put_same)
qed

text \<open>A receiver's view: the section behind the pointer field, by its own length field.\<close>

definition psi_section :: "bytes \<Rightarrow> bytes" where
  "psi_section p =
     (let s = drop (1 + unat (hd (ts_payload p))) (ts_payload p);
          n = 256 * unat ((s ! 1) AND 0x0F) + unat (s ! 2)
      in take (3 + n) s)"

definition declares_length :: "bytes \<Rightarrow> bool" where
  "declares_length s \<longleftrightarrow> 3 \<le> length s \<and> length s \<le> 179
     \<and> 256 * unat ((s ! 1) AND 0x0F) + unat (s ! 2) = length s + 1"

lemma section_packet_psi:
  assumes "section_packet pid cc s = (p, cc')" and "declares_length s"
  shows "psi_section p = s @ be32 (mpeg_crc32 s)"
proof -
  have s: "3 \<le> length s" "length s \<le> 179" "256 * unat ((s ! 1) AND 0x0F) + unat (s ! 2) = length s + 1"
    using assms(2) by (simp_all add: declares_length_def)
  let ?rest = "be32 (mpeg_crc32 s) @ replicate (179 - length s) 0xFF"
  have "(s @ ?rest) ! 1 = s ! 1" "(s @ ?rest) ! 2 = s ! 2"
    using s(1) by (simp_all only: nth_append) simp_all
  then show ?thesis
    using s(3) by (simp add: psi_section_def section_packet_props(4) [OF assms(1) s(2)] Let_def)
qed

lemma section_crc_verifies:
  assumes "crc_table_safe 0xFFFFFFFF s"
  shows "crc_ref (s @ be32 (mpeg_crc32 s)) = 0"
  using crc_ref_residue [of "crc_ref s"] mpeg_crc32_ref [OF assms]
  by (simp add: crc_ref_def)

text \<open>The checksum run is evaluated with the polynomial, which needs no table look-up.\<close>

lemma crc_table_safe_Cons:
  "crc_table_safe crc (b # bs) \<longleftrightarrow>
     \<not> crc_bad (crc_index crc b) \<and> crc_table_safe (crc_ref_step crc b) bs"
  by (auto simp: mpeg_crc32_step_ref)

lemmas crc_eval = crc_table_safe_Cons crc_index_def crc_bad_def crc_ref_step_def crc_byte_unfold crc_bit_def

lemma pat_section_ok: "declares_length pat_section" "crc_table_safe 0xFFFFFFFF pat_section"
  by (simp_all add: declares_length_def pat_section_def crc_eval del: crc_table_safe.simps(2))

lemma length_pmt_audio_es: "length (pmt_audio_es m) \<le> 15"
  by (simp add: pmt_audio_es_def)

lemma pmt_declares_length: "declares_length (pmt_section m)"
  by (simp add: declares_length_def pmt_section_def pmt_audio_es_def)

text \<open>The stream types \<open>rss_ts.h\<close> declares, with the channel configurations Opus defines.\<close>

definition declared_streams :: "rss_ts_mux_t \<Rightarrow> bool" where
  "declared_streams m \<longleftrightarrow> video_stream_type m \<in> {0x1B, 0x24}
     \<and> (audio_stream_type m \<in> {RSS_TS_STREAM_NONE, RSS_TS_STREAM_AAC}
        \<or> audio_stream_type m = RSS_TS_STREAM_OPUS \<and> audio_channels m \<in> {1, 2, 3, 4, 5, 6, 7, 8})"

lemma pmt_crc_table_safe_none:
  "video_stream_type m \<in> {0x1B, 0x24} \<Longrightarrow> audio_stream_type m = RSS_TS_STREAM_NONE \<Longrightarrow>
     crc_table_safe 0xFFFFFFFF (pmt_section m)"
  by (elim insertE emptyE)
     (simp_all add: pmt_section_def pmt_audio_es_def crc_eval del: crc_table_safe.simps(2))

lemma pmt_crc_table_safe_aac:
  "video_stream_type m \<in> {0x1B, 0x24} \<Longrightarrow> audio_stream_type m = RSS_TS_STREAM_AAC \<Longrightarrow>
     crc_table_safe 0xFFFFFFFF (pmt_section m)"
  by (elim insertE emptyE)
     (simp_all add: pmt_section_def pmt_audio_es_def crc_eval del: crc_table_safe.simps(2))

lemma pmt_crc_table_safe_opus:
  "video_stream_type m \<in> {0x1B, 0x24} \<Longrightarrow> audio_stream_type m = RSS_TS_STREAM_OPUS \<Longrightarrow>
     audio_channels m \<in> {1, 2, 3, 4, 5, 6, 7, 8} \<Longrightarrow> crc_table_safe 0xFFFFFFFF (pmt_section m)"
  by (elim insertE emptyE)
     (simp_all add: pmt_section_def pmt_audio_es_def crc_eval del: crc_table_safe.simps(2))

lemma pmt_crc_table_safe: "declared_streams m \<Longrightarrow> crc_table_safe 0xFFFFFFFF (pmt_section m)"
  unfolding declared_streams_def
  using pmt_crc_table_safe_none pmt_crc_table_safe_aac pmt_crc_table_safe_opus by blast

fun pmt_streams :: "bytes \<Rightarrow> (u8 \<times> u16 \<times> bytes) list" where
  "pmt_streams (t # p1 # p2 # l1 # l2 # rest) =
     (let n = 256 * unat (l1 AND 0x0F) + unat l2
      in (t, push_bit 8 (ucast p1 AND 0x1F) OR ucast p2, take n rest) # pmt_streams (drop n rest))"
| "pmt_streams _ = []"

lemma pmt_streams_section:
  "pmt_streams (drop 12 (pmt_section m)) =
     (video_stream_type m, RSS_TS_PID_VIDEO, []) #
     (if audio_stream_type m = RSS_TS_STREAM_NONE then []
      else [(audio_stream_type m, RSS_TS_PID_AUDIO,
             if audio_stream_type m = RSS_TS_STREAM_OPUS
             then [0x05, 0x04, 0x4F, 0x70, 0x75, 0x73, 0x7F, 0x02, 0x80, audio_channels m] else [])])"
  by (simp add: pmt_section_def pmt_audio_es_def)

section \<open>Whole frames\<close>

lemma ts_packets_append:
  "length a = 188 * n \<Longrightarrow> ts_packets (a @ b) = ts_packets a @ ts_packets b"
proof (induction n arbitrary: a)
  case 0
  then show ?case by simp
next
  case (Suc n)
  then have split: "a = take 188 a @ drop 188 a" and len: "length (take 188 a) = 188" by simp_all
  have "ts_packets (drop 188 a @ b) = ts_packets (drop 188 a) @ ts_packets b"
    using Suc by simp
  then show ?case
    using ts_packets_Cons [OF len, of "drop 188 a"] ts_packets_Cons [OF len, of "drop 188 a @ b"]
    by (simp flip: append_assoc)
qed

lemma video_write_packets:
  assumes "rss_ts_write_video m buf_size data pts dts is_idr = (out, m')"
  obtains n where "length out = 188 * n" and "188 * n \<le> buf_size" and "length (ts_packets out) = n"
    and "cc_video m' = (next_cc ^^ n) (cc_video m)"
    and "\<And>i. i < n \<Longrightarrow> pes_packet_ok RSS_TS_PID_VIDEO (video_pcr m dts) True is_idr (i = 0)
           ((next_cc ^^ i) (cc_video m)) (ts_packets out ! i)"
proof (cases "length data = 0")
  case True
  with assms show ?thesis
    by (intro that [of 0]) (simp_all add: rss_ts_write_video_def)
next
  case False
  define n where "n = min (packets_needed 176 184 (length (video_pes_hdr pts dts) + length data)) (buf_size div 188)"
  have w: "write_pes_packets buf_size RSS_TS_PID_VIDEO (cc_video m) (video_pes_hdr pts dts) data
      (video_pcr m dts) True is_idr = (out, cc_video m')"
    using assms False by (auto simp: rss_ts_write_video_def Let_def split: prod.splits)
  have "188 * n \<le> buf_size"
    by (simp add: n_def min_def) linarith
  then show ?thesis
    using write_pes_packets_props [OF w, of n] that by (simp add: n_def pes_space_def)
qed

text \<open>A run of the muxer over a list of frames, all into buffers of one size.\<close>

type_synonym video_frame = "bytes \<times> u64 \<times> u64 \<times> bool"

fun video_run :: "nat \<Rightarrow> rss_ts_mux_t \<Rightarrow> video_frame list \<Rightarrow> bytes \<times> rss_ts_mux_t" where
  "video_run buf_size m [] = ([], m)"
| "video_run buf_size m ((data, pts, dts, is_idr) # fs) =
     (let (out, m1) = rss_ts_write_video m buf_size data pts dts is_idr;
          (outs, m2) = video_run buf_size m1 fs
      in (out @ outs, m2))"

fun video_pcrs :: "nat \<Rightarrow> rss_ts_mux_t \<Rightarrow> video_frame list \<Rightarrow> u64 list" where
  "video_pcrs buf_size m [] = []"
| "video_pcrs buf_size m ((data, pts, dts, is_idr) # fs) =
     (let m1 = snd (rss_ts_write_video m buf_size data pts dts is_idr)
      in (if data = [] then [] else [last_pcr m1]) @ video_pcrs buf_size m1 fs)"

lemma video_run_continuity:
  assumes "video_run buf_size m fs = (out, m')"
  shows "\<exists>n. length out = 188 * n \<and> length (ts_packets out) = n \<and> cc_video m' = (next_cc ^^ n) (cc_video m)
    \<and> (\<forall>i < n. length (ts_packets out ! i) = 188
         \<and> (\<exists>pusi. ts_header RSS_TS_PID_VIDEO pusi ((next_cc ^^ i) (cc_video m)) (ts_packets out ! i)))"
  using assms
proof (induction fs arbitrary: m out)
  case Nil
  then show ?case by auto
next
  case (Cons f fs)
  obtain data pts dts is_idr where f: "f = (data, pts, dts, is_idr)" by (cases f)
  obtain o1 m1 where w: "rss_ts_write_video m buf_size data pts dts is_idr = (o1, m1)" by force
  obtain o2 where r: "video_run buf_size m1 fs = (o2, m')" and out: "out = o1 @ o2"
    using Cons.prems w by (auto simp: f Let_def split: prod.splits)
  obtain n1 where n1: "length o1 = 188 * n1" "length (ts_packets o1) = n1" "cc_video m1 = (next_cc ^^ n1) (cc_video m)"
    "\<And>i. i < n1 \<Longrightarrow> pes_packet_ok RSS_TS_PID_VIDEO (video_pcr m dts) True is_idr (i = 0)
       ((next_cc ^^ i) (cc_video m)) (ts_packets o1 ! i)"
    using video_write_packets [OF w] by metis
  obtain n2 where n2: "length o2 = 188 * n2" "length (ts_packets o2) = n2" "cc_video m' = (next_cc ^^ n2) (cc_video m1)"
    "\<forall>i < n2. length (ts_packets o2 ! i) = 188
       \<and> (\<exists>pusi. ts_header RSS_TS_PID_VIDEO pusi ((next_cc ^^ i) (cc_video m1)) (ts_packets o2 ! i))"
    using Cons.IH [OF r] by blast
  have iter: "(next_cc ^^ k) (cc_video m1) = (next_cc ^^ (n1 + k)) (cc_video m)" for k
    by (simp add: n1(3) funpow_add add.commute)
  have packets: "ts_packets out = ts_packets o1 @ ts_packets o2"
    by (simp add: out ts_packets_append [OF n1(1)])
  have "length (ts_packets out ! i) = 188
      \<and> (\<exists>pusi. ts_header RSS_TS_PID_VIDEO pusi ((next_cc ^^ i) (cc_video m)) (ts_packets out ! i))"
    if "i < n1 + n2" for i
  proof (cases "i < n1")
    case True
    then show ?thesis using n1(4) [OF True] by (auto simp: packets nth_append n1(2) pes_packet_ok_def)
  next
    case False
    then have "i - n1 < n2" using that by simp
    then show ?thesis using n2(4) [rule_format, of "i - n1"] iter [of "i - n1"] False
      by (simp add: packets nth_append n1(2))
  qed
  moreover have "length out = 188 * (n1 + n2)" "length (ts_packets out) = n1 + n2"
    "cc_video m' = (next_cc ^^ (n1 + n2)) (cc_video m)"
    using n1 n2 iter [of n2] by (simp add: out, simp add: packets, simp)
  ultimately show ?case by blast
qed

lemma video_write_state:
  "data \<noteq> [] \<Longrightarrow> last_pcr (snd (rss_ts_write_video m buf_size data pts dts is_idr)) = video_pcr m dts"
  "data \<noteq> [] \<Longrightarrow> pat_counter (snd (rss_ts_write_video m buf_size data pts dts is_idr)) = pat_counter m + 1"
  "data = [] \<Longrightarrow> rss_ts_write_video m buf_size data pts dts is_idr = ([], m)"
  by (auto simp: rss_ts_write_video_def Let_def split: prod.splits)

text \<open>The guard keeps the clock moving while the counter of frames since the tables is not 0.\<close>

lemma video_pcr_increases:
  assumes "0 < pat_counter m" and "unat (last_pcr m) + 1 < 2 ^ 64"
  shows "last_pcr m < video_pcr m dts"
    and "unat (video_pcr m dts) \<le> max (unat dts) (unat (last_pcr m) + 1)"
proof -
  have suc: "unat (last_pcr m + 1) = unat (last_pcr m) + 1"
    using assms(2) by (simp add: unat_word_ariths)
  have "unat (dts - 3000) \<le> unat dts" if "3000 < dts"
    using that by (simp add: unat_sub_if' word_less_nat_alt)
  then show "unat (video_pcr m dts) \<le> max (unat dts) (unat (last_pcr m) + 1)"
    using suc by (auto simp: video_pcr_def Let_def)
  show "last_pcr m < video_pcr m dts"
    using suc assms(1) by (auto simp: video_pcr_def Let_def word_less_nat_alt not_le)
qed

lemma video_pcrs_sorted:
  assumes "0 < pat_counter m" and "unat (pat_counter m) + length fs < 2 ^ 32"
    and "unat (last_pcr m) + length fs < 2 ^ 64"
    and "\<forall>(data, pts, dts, is_idr) \<in> set fs. unat dts + length fs < 2 ^ 64"
  shows "sorted_wrt (<) (last_pcr m # video_pcrs buf_size m fs)"
  using assms
proof (induction fs arbitrary: m)
  case Nil
  then show ?case by simp
next
  case (Cons f fs)
  obtain data pts dts is_idr where f: "f = (data, pts, dts, is_idr)" by (cases f)
  define m1 where "m1 = snd (rss_ts_write_video m buf_size data pts dts is_idr)"
  have dts: "unat dts + length (f # fs) < 2 ^ 64"
    using Cons.prems(4) by (simp add: f)
  have rest: "\<forall>(data, pts, dts, is_idr) \<in> set fs. unat dts + length fs < 2 ^ 64"
    using Cons.prems(4) by fastforce
  show ?case
  proof (cases "data = []")
    case True
    then have "m1 = m" by (simp add: m1_def video_write_state)
    then show ?thesis using Cons.IH [of m] Cons.prems rest True by (simp add: f m1_def)
  next
    case False
    have room: "unat (last_pcr m) + 1 < 2 ^ 64" using Cons.prems(3) by simp
    have m1: "last_pcr m1 = video_pcr m dts" "pat_counter m1 = pat_counter m + 1"
      using False by (simp_all add: m1_def video_write_state)
    have counter: "unat (pat_counter m1) = unat (pat_counter m) + 1"
      using Cons.prems(2) by (simp add: m1 unat_word_ariths)
    note pcr = video_pcr_increases [OF Cons.prems(1) room, of dts]
    have "sorted_wrt (<) (last_pcr m1 # video_pcrs buf_size m1 fs)"
    proof (rule Cons.IH)
      show "0 < pat_counter m1" using counter by (simp add: word_less_nat_alt)
      show "unat (pat_counter m1) + length fs < 2 ^ 32" using Cons.prems(2) counter by simp
      show "unat (last_pcr m1) + length fs < 2 ^ 64" using pcr(2) dts Cons.prems(3) by (simp add: m1)
    qed (fact rest)
    moreover have "last_pcr m < last_pcr m1" using pcr(1) by (simp add: m1)
    ultimately show ?thesis
      using False by (auto simp: f m1_def [symmetric] Let_def)
  qed
qed

lemma length_write_pts [simp]: "length (write_pts prefix pts) = 5"
  by (simp add: write_pts_def)

text \<open>The five-byte and six-byte clock fields are fixed-width encodings of 33-bit values.\<close>

interpretation pts: fixed_codec "write_pts prefix" read_pts 5 "\<lambda>v. take_bit 33 v = v" for prefix
  by unfold_locales (simp_all add: read_pts_write_pts)

interpretation pcr: fixed_codec write_pcr read_pcr 6 "\<lambda>v. take_bit 33 v = v"
  by unfold_locales (simp_all add: read_pcr_write_pcr)

section \<open>Properties of the muxer\<close>

text \<open>
  C7. A frame given to \<open>rss_ts_write_video\<close> with a buffer that holds the packets it
  needs comes out of a TS reader unchanged: the payloads of the packets, adaptation
  fields and stuffing skipped, are the PES header followed by the frame; the first
  packet carries the clock reference and the random-access flag, no other does.
\<close>

theorem ts_video_roundtrip:
  assumes "rss_ts_write_video m buf_size data pts dts is_idr = (out, m')"
    and "data \<noteq> []"
    and "188 * packets_needed 176 184 (length (video_pes_hdr pts dts) + length data) \<le> buf_size"
  shows "concat (map ts_payload (ts_packets out)) = video_pes_hdr pts dts @ data
    \<and> map ts_pcr (ts_packets out)
        = Some (take_bit 33 (video_pcr m dts)) # replicate (length (ts_packets out) - 1) None
    \<and> map ts_rai (ts_packets out) = is_idr # replicate (length (ts_packets out) - 1) False"
proof -
  have w: "write_pes_packets buf_size RSS_TS_PID_VIDEO (cc_video m) (video_pes_hdr pts dts) data
      (video_pcr m dts) True is_idr = (out, cc_video m')"
    using assms(1,2) by (auto simp: rss_ts_write_video_def Let_def split: prod.splits)
  have payload: "concat (map ts_payload (ts_packets out)) = video_pes_hdr pts dts @ data"
    using write_pes_packets_complete [OF w] assms(3) by (simp add: pes_space_def)
  obtain n where n: "length (ts_packets out) = n"
    "\<And>i. i < n \<Longrightarrow> pes_packet_ok RSS_TS_PID_VIDEO (video_pcr m dts) True is_idr (i = 0)
       ((next_cc ^^ i) (cc_video m)) (ts_packets out ! i)"
    using write_pes_packets_props(2,5) [OF w refl] by blast
  from payload assms(2) have "0 < n" using n(1) by auto
  have "map ts_pcr (ts_packets out) ! i
      = (Some (take_bit 33 (video_pcr m dts)) # replicate (n - 1) None) ! i
    \<and> map ts_rai (ts_packets out) ! i = (is_idr # replicate (n - 1) False) ! i" if "i < n" for i
    using n(2) [OF that] n(1) that by (cases i) (simp_all add: pes_packet_ok_def)
  then have "map ts_pcr (ts_packets out) = Some (take_bit 33 (video_pcr m dts)) # replicate (n - 1) None"
    and "map ts_rai (ts_packets out) = is_idr # replicate (n - 1) False"
    using n(1) \<open>0 < n\<close> by (auto intro!: nth_equalityI)
  with payload n(1) show ?thesis by simp
qed

theorem ts_video_roundtrip_witness:
  "concat (map ts_payload (ts_packets
     (fst (rss_ts_write_video (rss_ts_init 0x1B 0x0F 1 30) 188 [0x65, 0x88] 6000 6000 True))))
   = video_pes_hdr 6000 6000 @ [0x65, 0x88]"
  using ts_video_roundtrip [OF surjective_pairing,
      of "[0x65, 0x88]" 6000 6000 188 "rss_ts_init 0x1B 0x0F 1 30" True]
  by (simp add: packets_needed_def video_pes_hdr_def)

text \<open>
  C20. Whatever the buffer, a PES write fills it with whole packets: as many as the data
  needs or, when the buffer is smaller, as many as fit, never past its end; the payload
  is the prefix of the data those packets hold, and every packet has the sync byte, the
  PID, the next continuity counter and, only on the first, the unit-start flag.
\<close>

theorem ts_pes_bounds:
  "case write_pes_packets buf_size pid cc pes_hdr payload pcr has_pcr is_rai of (out, cc') \<Rightarrow>
     let s1 = pes_space has_pcr is_rai True;
         n = min (packets_needed s1 184 (length pes_hdr + length payload)) (buf_size div 188)
     in length out = 188 * n \<and> length out \<le> buf_size
      \<and> concat (map ts_payload (ts_packets out))
          = take (packets_capacity s1 184 n) (pes_hdr @ payload)
      \<and> list_all (\<lambda>(i, p). length p = 188 \<and> ts_header pid (i = 0) (cc + of_nat i) p)
          (enumerate 0 (ts_packets out))
      \<and> cc' AND 0x0F = (cc + of_nat n) AND 0x0F"
proof -
  obtain out cc' where w: "write_pes_packets buf_size pid cc pes_hdr payload pcr has_pcr is_rai = (out, cc')"
    by force
  define n where "n = min (packets_needed (pes_space has_pcr is_rai True) 184 (length pes_hdr + length payload))
      (buf_size div 188)"
  note props = write_pes_packets_props [OF w n_def]
  have "188 * n \<le> buf_size"
    by (simp add: n_def min_def) linarith
  moreover have "length (ts_packets out ! i) = 188 \<and> ts_header pid (i = 0) (cc + of_nat i) (ts_packets out ! i)"
    if "i < n" for i
    using props(5) [OF that] next_cc_iterate [of i cc] by (simp add: pes_packet_ok_def ts_header_def)
  then have "list_all (\<lambda>(i, p). length p = 188 \<and> ts_header pid (i = 0) (cc + of_nat i) p)
      (enumerate 0 (ts_packets out))"
    using props(2) by (simp add: list_all_length nth_enumerate_eq)
  ultimately show ?thesis
    using props(1,3,4) next_cc_iterate [of n cc] by (simp add: w n_def [symmetric] Let_def)
qed

text \<open>
  Over any run of video frames, with any buffer size and empty frames among them, the
  output is a sequence of transport packets on the video PID whose continuity counters
  are consecutive modulo 16 from the muxer's counter on, across the frames too, and the
  muxer keeps the counter the next packet has to carry.
\<close>

theorem ts_video_continuity:
  "case video_run buf_size m fs of (out, m') \<Rightarrow>
     length out = 188 * length (ts_packets out)
     \<and> list_all (\<lambda>(i, p). length p = 188 \<and> p ! 0 = RSS_TS_SYNC_BYTE \<and> ts_pid p = RSS_TS_PID_VIDEO
           \<and> ts_cc p = (cc_video m + of_nat i) AND 0x0F) (enumerate 0 (ts_packets out))
     \<and> cc_video m' AND 0x0F = (cc_video m + of_nat (length (ts_packets out))) AND 0x0F"
proof -
  obtain out m' where r: "video_run buf_size m fs = (out, m')" by force
  obtain n where n: "length out = 188 * n" "length (ts_packets out) = n"
    "cc_video m' = (next_cc ^^ n) (cc_video m)"
    "\<forall>i < n. length (ts_packets out ! i) = 188
       \<and> (\<exists>pusi. ts_header RSS_TS_PID_VIDEO pusi ((next_cc ^^ i) (cc_video m)) (ts_packets out ! i))"
    using video_run_continuity [OF r] by blast
  have "list_all (\<lambda>(i, p). length p = 188 \<and> p ! 0 = RSS_TS_SYNC_BYTE \<and> ts_pid p = RSS_TS_PID_VIDEO
           \<and> ts_cc p = (cc_video m + of_nat i) AND 0x0F) (enumerate 0 (ts_packets out))"
    using n(2,4) next_cc_iterate [where cc = "cc_video m"]
    by (auto simp: list_all_length nth_enumerate_eq ts_header_def)
  with n next_cc_iterate [of n "cc_video m"] r show ?thesis by simp
qed

text \<open>
  C22. The clock references of consecutive frames are strictly increasing as long as no
  program tables are written between them: whatever the decoding times are, out of order,
  equal or inside the 33 ms lead, and as long as neither the frame counter nor the clock
  wraps.
\<close>

theorem ts_pcr_monotone:
  assumes "0 < pat_counter m" and "unat (pat_counter m) + length fs < 2 ^ 32"
    and "unat (last_pcr m) + length fs < 2 ^ 64"
    and "\<forall>(data, pts, dts, is_idr) \<in> set fs. unat dts + length fs < 2 ^ 64"
  shows "sorted_wrt (<) (last_pcr m # video_pcrs buf_size m fs)"
  using assms by (rule video_pcrs_sorted)

theorem ts_pcr_monotone_witness:
  "sorted_wrt (<) (0 # video_pcrs 564 ((rss_ts_init 0x1B 0x0F 1 30)\<lparr>pat_counter := 1\<rparr>)
     [([0x65], 0, 0, True), ([0x41], 3000, 3000, False), ([0x41], 9000, 6000, False)])"
  using ts_pcr_monotone [of "(rss_ts_init 0x1B 0x0F 1 30)\<lparr>pat_counter := 1\<rparr>"
      "[([0x65], 0, 0, True), ([0x41], 3000, 3000, False), ([0x41], 9000, 6000, False)]" 564]
  by (simp add: rss_ts_init_def)

text \<open>
  Writing the program tables resets the counter the guard reads, so the frame after
  the tables takes its clock reference from its decoding time alone: within the 33 ms
  lead it is 0 again, and a clock that had already moved runs backwards.
\<close>

theorem ts_pcr_restarts_after_tables:
  assumes "376 \<le> tbl_size" and "data \<noteq> []" and "dts \<le> 3000" and "0 < last_pcr m"
    and "m' = snd (rss_ts_write_video (snd (rss_ts_write_pat_pmt m tbl_size)) buf_size data pts dts is_idr)"
  shows "last_pcr m' = 0 \<and> last_pcr m' < last_pcr m"
proof -
  have "pat_counter (snd (rss_ts_write_pat_pmt m tbl_size)) = 0"
    using assms(1) by (simp add: rss_ts_write_pat_pmt_def split: prod.splits)
  then have "last_pcr m' = 0"
    using assms(2,3,5) by (simp add: video_write_state video_pcr_def not_less [symmetric])
  with assms(4) show ?thesis by simp
qed

theorem ts_pcr_restarts_after_tables_witness:
  "let m0 = rss_ts_init 0x1B 0x0F 1 30;
       m1 = snd (rss_ts_write_video m0 564 [0x65] 0 0 True);
       m2 = snd (rss_ts_write_video m1 564 [0x41] 1500 1500 False);
       m3 = snd (rss_ts_write_video (snd (rss_ts_write_pat_pmt m2 376)) 564 [0x41] 3000 3000 False)
   in last_pcr m2 = 1 \<and> last_pcr m3 = 0"
proof -
  define m1 where "m1 = snd (rss_ts_write_video (rss_ts_init 0x1B 0x0F 1 30) 564 [0x65] 0 0 True)"
  define m2 where "m2 = snd (rss_ts_write_video m1 564 [0x41] 1500 1500 False)"
  have "last_pcr m1 = 0" "pat_counter m1 = 1"
    by (simp_all add: m1_def video_write_state video_pcr_def rss_ts_init_def)
  then have m2: "last_pcr m2 = 1"
    by (simp add: m2_def video_write_state video_pcr_def)
  have "last_pcr (snd (rss_ts_write_video (snd (rss_ts_write_pat_pmt m2 376)) 564 [0x41] 3000 3000 False)) = 0"
    using ts_pcr_restarts_after_tables [of 376 "[0x41]" 3000 m2 _ 564 3000 False] m2 by simp
  with m2 show ?thesis
    by (simp add: m1_def m2_def Let_def)
qed

text \<open>
  The PES headers carry the clocks of the frame: a reader of the five-byte fields gets
  the presentation time and, when it differs, the decoding time back modulo 33 bits, from
  the offsets the header-length byte announces.
\<close>

theorem ts_video_header_clocks:
  "read_pts (take 5 (drop 9 (video_pes_hdr pts dts))) = take_bit 33 pts
   \<and> read_pts (take 5 (drop (if dts = pts then 9 else 14) (video_pes_hdr pts dts))) = take_bit 33 dts
   \<and> length (video_pes_hdr pts dts) = 9 + unat (video_pes_hdr pts dts ! 8)
   \<and> bit (video_pes_hdr pts dts ! 7) 7 \<and> bit (video_pes_hdr pts dts ! 7) 6 = (dts \<noteq> pts)"
  by (auto simp: video_pes_hdr_def read_pts_write_pts)

text \<open>
  An entry of the checksum table is the division of its index by the MPEG polynomial
  exactly when the index is not one of 27 to 31: those five entries are wrong.
\<close>

theorem ts_crc_table_entries:
  "map (\<lambda>i. crc32_table ! i = crc_byte (push_bit 24 (of_nat i))) [0..<256]
     = map (\<lambda>i. i \<notin> {27, 28, 29, 30, 31}) [0..<256]"
proof (rule map_cong [OF refl])
  fix i assume "i \<in> set [0..<256]"
  then have "i < 256" by simp
  moreover have "crc_bad i \<longleftrightarrow> i \<in> {27, 28, 29, 30, 31}"
    by (auto simp: crc_bad_def)
  ultimately show "(crc32_table ! i = crc_byte (push_bit 24 (of_nat i))) = (i \<notin> {27, 28, 29, 30, 31})"
    using crc32_table_nth crc32_table_bad by blast
qed

text \<open>
  C21. For every stream configuration the header declares, the two packets of
  \<open>rss_ts_write_pat_pmt\<close> are table packets a receiver accepts: the section delimited by
  its own length field divides to 0 by the polynomial (so the wrong entries of the table
  are never read), and the map table lists the video stream and the audio stream, if
  any, on their PIDs.
\<close>

theorem ts_tables_accepted:
  assumes "376 \<le> buf_size" and "declared_streams m"
  shows "case rss_ts_write_pat_pmt m buf_size of (out, m') \<Rightarrow>
     (\<exists>pat pmt. ts_packets out = [pat, pmt] \<and> out = pat @ pmt
        \<and> ts_header RSS_TS_PID_PAT True (cc_pat m) pat \<and> ts_header RSS_TS_PID_PMT True (cc_pmt m) pmt
        \<and> crc_ref (psi_section pat) = 0 \<and> crc_ref (psi_section pmt) = 0
        \<and> take (length (pmt_section m)) (psi_section pmt) = pmt_section m)
     \<and> map (\<lambda>(t, pid, descr). (t, pid)) (pmt_streams (drop 12 (pmt_section m)))
        = (video_stream_type m, RSS_TS_PID_VIDEO) #
          (if audio_stream_type m = RSS_TS_STREAM_NONE then [] else [(audio_stream_type m, RSS_TS_PID_AUDIO)])"
proof -
  obtain pat c1 where pat: "section_packet RSS_TS_PID_PAT (cc_pat m) pat_section = (pat, c1)" by force
  obtain pmt c2 where pmt: "section_packet RSS_TS_PID_PMT (cc_pmt m) (pmt_section m) = (pmt, c2)" by force
  have small: "length pat_section \<le> 179" "length (pmt_section m) \<le> 179"
    using pat_section_ok(1) pmt_declares_length [of m] by (simp_all add: declares_length_def)
  have wr: "rss_ts_write_pat_pmt m buf_size
      = (pat @ pmt, m\<lparr>cc_pat := c1, cc_pmt := c2, pat_counter := 0\<rparr>)"
    using assms(1) by (simp add: rss_ts_write_pat_pmt_def pat pmt)
  note p1 = section_packet_props [OF pat small(1)] and p2 = section_packet_props [OF pmt small(2)]
  have "ts_packets (pat @ pmt) = [pat, pmt]"
    using p1(1) p2(1) ts_packets_Cons [of pmt "[]"] by simp
  moreover have "crc_ref (psi_section pat) = 0"
    using section_packet_psi [OF pat pat_section_ok(1)] section_crc_verifies [OF pat_section_ok(2)] by simp
  moreover have "psi_section pmt = pmt_section m @ be32 (mpeg_crc32 (pmt_section m))"
    by (rule section_packet_psi [OF pmt pmt_declares_length])
  moreover have "crc_ref (pmt_section m @ be32 (mpeg_crc32 (pmt_section m))) = 0"
    by (rule section_crc_verifies [OF pmt_crc_table_safe [OF assms(2)]])
  ultimately show ?thesis
    using p1(2) p2(2) by (simp add: wr pmt_streams_section)
qed

theorem ts_tables_accepted_witness:
  "declared_streams (rss_ts_init 0x24 0x06 2 30)
   \<and> map (\<lambda>(t, pid, descr). (t, pid)) (pmt_streams (drop 12 (pmt_section (rss_ts_init 0x24 0x06 2 30))))
     = [(0x24, 0x100), (0x06, 0x101)]"
proof -
  have d: "declared_streams (rss_ts_init 0x24 0x06 2 30)"
    by (simp add: declared_streams_def rss_ts_init_def)
  have "376 \<le> (400 :: nat)" by simp
  from ts_tables_accepted [OF this d] d show ?thesis
    by (simp add: rss_ts_init_def split: prod.splits)
qed

text \<open>
  An audio frame comes out of a TS reader unchanged behind a PES header that names the
  stream id of the codec, carries the presentation time, and announces the length of
  what follows the length field whenever 16 bits can hold it (0, unbounded, otherwise).
\<close>

theorem ts_audio_roundtrip:
  assumes "rss_ts_write_audio m buf_size data pts = (out, m')"
    and "data \<noteq> []" and "audio_stream_type m \<noteq> RSS_TS_STREAM_NONE"
    and "188 * packets_needed 184 184 (14 + length data) \<le> buf_size"
  shows "\<exists>hdr. concat (map ts_payload (ts_packets out)) = hdr @ data \<and> length hdr = 14
    \<and> take 3 hdr = [0x00, 0x00, 0x01]
    \<and> hdr ! 3 = (if audio_stream_type m = RSS_TS_STREAM_AAC then 0xC0 else 0xBD)
    \<and> 256 * unat (hdr ! 4) + unat (hdr ! 5) = (if length data + 8 \<le> 0xFFFF then length data + 8 else 0)
    \<and> read_pts (take 5 (drop 9 hdr)) = take_bit 33 pts
    \<and> list_all (\<lambda>p. ts_pid p = RSS_TS_PID_AUDIO \<and> ts_pcr p = None) (ts_packets out)"
proof -
  define hdr where "hdr = audio_pes_hdr (audio_stream_type m) (length data) pts"
  have w: "write_pes_packets buf_size RSS_TS_PID_AUDIO (cc_audio m) hdr data 0 False False = (out, cc_audio m')"
    using assms(1-3) by (auto simp: rss_ts_write_audio_def hdr_def Let_def split: prod.splits)
  have len: "length hdr = 14"
    by (simp add: hdr_def audio_pes_hdr_def Let_def)
  have payload: "concat (map ts_payload (ts_packets out)) = hdr @ data"
    using write_pes_packets_complete [OF w] assms(4) by (simp add: len pes_space_def)
  have bytes: "take 3 hdr = [0x00, 0x00, 0x01]"
    "hdr ! 3 = (if audio_stream_type m = RSS_TS_STREAM_AAC then 0xC0 else 0xBD)"
    "read_pts (take 5 (drop 9 hdr)) = take_bit 33 pts"
    by (simp_all add: hdr_def audio_pes_hdr_def Let_def read_pts_write_pts)
  have plen: "256 * unat (hdr ! 4) + unat (hdr ! 5) = (if length data + 8 \<le> 0xFFFF then length data + 8 else 0)"
    by (simp add: hdr_def audio_pes_hdr_def Let_def unat_of_nat)
  have "list_all (\<lambda>p. ts_pid p = RSS_TS_PID_AUDIO \<and> ts_pcr p = None) (ts_packets out)"
    using write_pes_packets_props(2,5) [OF w refl]
    by (auto simp: list_all_length pes_packet_ok_def ts_header_def)
  with len payload bytes plen show ?thesis by blast
qed

theorem ts_audio_roundtrip_witness:
  "\<exists>hdr. concat (map ts_payload (ts_packets
       (fst (rss_ts_write_audio (rss_ts_init 0x1B 0x0F 1 30) 188 [0xFF, 0xF1, 0x4C] 90000))))
     = hdr @ [0xFF, 0xF1, 0x4C] \<and> length hdr = 14"
  using ts_audio_roundtrip [OF surjective_pairing, of "[0xFF, 0xF1, 0x4C]" "rss_ts_init 0x1B 0x0F 1 30" 188 90000]
  by (auto simp: packets_needed_def rss_ts_init_def)

end
