(* ===== verification/Rss_Sei.thy ===== *)
theory Rss_Sei
  imports Rss_Prelude
begin

text \<open>
  The MISB ST 0604 timestamp SEI of \<open>src/rss_sei.c\<close>: the builder writes a NAL unit with
  an optional start code or length prefix into the caller's buffer, the parser walks the
  SEI messages of a NAL unit for one with the codec's identifier.

  A buffer argument that may be \<open>NULL\<close> is an option; a negative return value is \<open>Inl\<close>
  of the error number.  The lemmas show that the parser reads back what the builder
  wrote behind any foreign messages, that a truncated message reads as absent, and that
  the unit can hold no start-code emulation.
\<close>

section \<open>Builder\<close>

definition misp_uuid_h264 :: bytes where
  "misp_uuid_h264 = [0x4D, 0x49, 0x53, 0x50, 0x6D, 0x69, 0x63, 0x72,
                     0x6F, 0x73, 0x65, 0x63, 0x74, 0x69, 0x6D, 0x65]"

definition misp_uuid_h265 :: bytes where
  "misp_uuid_h265 = [0xa8, 0x68, 0x7d, 0xd4, 0xd7, 0x59, 0x37, 0x58,
                     0xa5, 0xce, 0xf0, 0x33, 0x8b, 0x65, 0x45, 0xf1]"

abbreviation (input) SEI_PAYLOAD_TYPE_UDU :: "'a::numeral" where "SEI_PAYLOAD_TYPE_UDU \<equiv> 5"
abbreviation (input) SEI_PAYLOAD_SIZE :: "'a::numeral" where "SEI_PAYLOAD_SIZE \<equiv> 28"
abbreviation (input) RSS_SEI_CODEC_H264 :: int where "RSS_SEI_CODEC_H264 \<equiv> 0"
abbreviation (input) RSS_SEI_CODEC_H265 :: int where "RSS_SEI_CODEC_H265 \<equiv> 1"
abbreviation (input) RSS_SEI_PREFIX_NONE :: int where "RSS_SEI_PREFIX_NONE \<equiv> 0"
abbreviation (input) RSS_SEI_PREFIX_ANNEXB :: int where "RSS_SEI_PREFIX_ANNEXB \<equiv> 1"
abbreviation (input) RSS_SEI_PREFIX_AVCC :: int where "RSS_SEI_PREFIX_AVCC \<equiv> 2"

text \<open>The timestamp: eight big-endian bytes with a guard byte after each of three pairs.\<close>

definition sei_modified_ts :: "u64 \<Rightarrow> bytes" where
  "sei_modified_ts utc_us =
     [byte_of 56 utc_us, byte_of 48 utc_us, 0xff, byte_of 40 utc_us, byte_of 32 utc_us, 0xff,
      byte_of 24 utc_us, byte_of 16 utc_us, 0xff, byte_of 8 utc_us, byte_of 0 utc_us]"

definition sei_nal :: "int \<Rightarrow> bytes \<Rightarrow> u64 \<Rightarrow> u8 \<Rightarrow> bytes" where
  "sei_nal codec uuid utc_us status =
     (if codec = RSS_SEI_CODEC_H264 then [0x06] else [0x4e, 0x01]) @
     [SEI_PAYLOAD_TYPE_UDU, SEI_PAYLOAD_SIZE] @ uuid @ [status OR 0x1f] @ sei_modified_ts utc_us @ [0x80]"

definition rss_sei_build_timestamp ::
  "bytes option \<Rightarrow> nat \<Rightarrow> int \<Rightarrow> int \<Rightarrow> u64 \<Rightarrow> u8 \<Rightarrow> errno + (nat \<times> bytes)" where
  "rss_sei_build_timestamp dst cap codec prefix utc_us status =
     (case dst of None \<Rightarrow> Inl EINVAL
      | Some buf \<Rightarrow>
        if codec \<noteq> RSS_SEI_CODEC_H264 \<and> codec \<noteq> RSS_SEI_CODEC_H265 then Inl EINVAL
        else
          let uuid = (if codec = RSS_SEI_CODEC_H264 then misp_uuid_h264 else misp_uuid_h265);
              hdr_len = (if codec = RSS_SEI_CODEC_H264 then 1 else 2);
              prefix_len = (if prefix = RSS_SEI_PREFIX_NONE then 0 else 4);
              nal_len = hdr_len + 1 + 1 + SEI_PAYLOAD_SIZE + 1;
              total = prefix_len + nal_len
          in if cap < total then Inl ENOSPC
             else if prefix = RSS_SEI_PREFIX_ANNEXB then
               Inr (total, put buf 0 ([0x00, 0x00, 0x00, 0x01] @ sei_nal codec uuid utc_us status))
             else if prefix = RSS_SEI_PREFIX_AVCC then
               Inr (total, put buf 0 (be32 (of_nat nal_len) @ sei_nal codec uuid utc_us status))
             else if prefix \<noteq> RSS_SEI_PREFIX_NONE then Inl EINVAL
             else Inr (total, put buf 0 (sei_nal codec uuid utc_us status)))"

section \<open>Parser\<close>

text \<open>The parser's position is the rest of the NAL unit, from \<open>p\<close> to \<open>end\<close>.\<close>

fun sei_skip_ff :: "u32 \<Rightarrow> bytes \<Rightarrow> u32 \<times> bytes" where
  "sei_skip_ff v [] = (v, [])"
| "sei_skip_ff v (b # p) = (if b = 0xff then sei_skip_ff (v + 0xff) p else (v, b # p))"

text \<open>A payload type or size: bytes \<open>0xff\<close> add 255, the next byte ends it.\<close>

definition sei_varlen :: "bytes \<Rightarrow> (u32 \<times> bytes) option" where
  "sei_varlen p =
     (case sei_skip_ff 0 p of (v, []) \<Rightarrow> None | (v, b # q) \<Rightarrow> Some (v + ucast b, q))"

text \<open>The trailing bits: \<open>0x80\<close> and nothing but zero bytes behind it.\<close>

fun sei_trailing :: "bytes \<Rightarrow> bool" where
  "sei_trailing [] = False"
| "sei_trailing (b # q) = (b = 0x80 \<and> dropWhile (\<lambda>x. x = 0x00) q = [])"

text \<open>The fields of a matching payload, \<open>d\<close> behind the identifier.\<close>

definition sei_fields :: "bytes \<Rightarrow> errno + (u64 \<times> u8)" where
  "sei_fields d =
     (if d ! 3 \<noteq> 0xff \<or> d ! 6 \<noteq> 0xff \<or> d ! 9 \<noteq> 0xff then Inl EBADMSG
      else Inr (push_bit 56 (ucast (d ! 1)) OR push_bit 48 (ucast (d ! 2)) OR push_bit 40 (ucast (d ! 4))
                OR push_bit 32 (ucast (d ! 5)) OR push_bit 24 (ucast (d ! 7)) OR push_bit 16 (ucast (d ! 8))
                OR push_bit 8 (ucast (d ! 10)) OR ucast (d ! 11), d ! 0))"

lemma length_sei_skip_ff: "sei_skip_ff v p = (v', q) \<Longrightarrow> length q \<le> length p"
  by (induction v p rule: sei_skip_ff.induct) (auto split: if_splits)

lemma length_sei_varlen: "sei_varlen p = Some (v, q) \<Longrightarrow> length q < length p"
  by (fastforce simp: sei_varlen_def split: prod.splits list.splits dest: length_sei_skip_ff)

function sei_walk :: "bytes \<Rightarrow> bytes \<Rightarrow> errno + (u64 \<times> u8)" where
  "sei_walk uuid p =
     (if p = [] \<or> sei_trailing p then Inl ENOENT
      else case sei_varlen p of None \<Rightarrow> Inl ENOENT
      | Some (type, p1) \<Rightarrow>
        (case sei_varlen p1 of None \<Rightarrow> Inl ENOENT
         | Some (sz, p2) \<Rightarrow>
           if length p2 < unat sz then Inl ENOENT
           else if type = SEI_PAYLOAD_TYPE_UDU \<and> sz \<ge> SEI_PAYLOAD_SIZE \<and> take 16 p2 = uuid
           then sei_fields (drop 16 p2)
           else sei_walk uuid (drop (unat sz) p2)))"
  by pat_completeness auto
termination
  by (relation "measure (length \<circ> snd)") (auto dest!: length_sei_varlen)

declare sei_walk.simps [simp del]

definition rss_sei_parse_timestamp :: "bytes option \<Rightarrow> int \<Rightarrow> bool \<Rightarrow> errno + (u64 \<times> u8)" where
  "rss_sei_parse_timestamp nal codec utc_us_given =
     (case nal of None \<Rightarrow> Inl EINVAL
      | Some p \<Rightarrow>
        if \<not> utc_us_given then Inl EINVAL
        else if codec = RSS_SEI_CODEC_H264 then
          (if length p < 1 \<or> (p ! 0) AND 0x1f \<noteq> 6 then Inl ENOENT else sei_walk misp_uuid_h264 (drop 1 p))
        else if codec = RSS_SEI_CODEC_H265 then
          (if length p < 2 \<or> drop_bit 1 (p ! 0) AND 0x3f \<noteq> 39 then Inl ENOENT
           else sei_walk misp_uuid_h265 (drop 2 p))
        else Inl EINVAL)"

section \<open>The timestamp field\<close>

definition read_sei_ts :: "bytes \<Rightarrow> u64" where
  "read_sei_ts t = (case sei_fields (0 # t) of Inr (utc_us, _) \<Rightarrow> utc_us | Inl _ \<Rightarrow> 0)"

lemma sei_fields_ts: "sei_fields (s # sei_modified_ts utc_us @ rest) = Inr (utc_us, s)"
proof -
  have "push_bit 56 (ucast (byte_of 56 utc_us)) OR push_bit 48 (ucast (byte_of 48 utc_us))
      OR push_bit 40 (ucast (byte_of 40 utc_us)) OR push_bit 32 (ucast (byte_of 32 utc_us))
      OR push_bit 24 (ucast (byte_of 24 utc_us)) OR push_bit 16 (ucast (byte_of 16 utc_us))
      OR push_bit 8 (ucast (byte_of 8 utc_us)) OR ucast (byte_of 0 utc_us) = utc_us" (is "?w = _")
  proof (rule bit_word_eqI)
    fix i assume "i < LENGTH(64)"
    then have "i < 8 \<or> (\<exists>j < 8. i = 8 + j) \<or> (\<exists>j < 8. i = 16 + j) \<or> (\<exists>j < 8. i = 24 + j)
        \<or> (\<exists>j < 8. i = 32 + j) \<or> (\<exists>j < 8. i = 40 + j) \<or> (\<exists>j < 8. i = 48 + j) \<or> (\<exists>j < 8. i = 56 + j)"
      by simp presburger
    then show "bit ?w i = bit utc_us i"
      by (elim disjE exE conjE; simp add: bit_or_iff bit_push_bit_iff bit_ucast_iff bit_byte_of)
  qed
  then show ?thesis
    by (simp add: sei_fields_def sei_modified_ts_def)
qed

interpretation sei_ts: fixed_codec sei_modified_ts read_sei_ts 11 "\<lambda>_. True"
  by unfold_locales
     (simp_all add: read_sei_ts_def sei_fields_ts [of _ _ "[]", simplified], simp add: sei_modified_ts_def)

section \<open>Walking the messages\<close>

text \<open>
  A type or size as a writer codes it, and a message of that type.  The bytes of a message stand as they are on the
  wire: a message of somebody else with emulation prevention bytes inside has them in its bytes, and its size is the
  number of bytes on the wire; the walk does not unescape.
\<close>

definition sei_len :: "nat \<Rightarrow> bytes" where
  "sei_len n = replicate (n div 255) 0xff @ [of_nat (n mod 255)]"

definition sei_message :: "nat \<times> bytes \<Rightarrow> bytes" where
  "sei_message m = sei_len (fst m) @ sei_len (length (snd m)) @ snd m"

definition sei_foreign :: "bytes \<Rightarrow> nat \<times> bytes \<Rightarrow> bool" where
  "sei_foreign uuid m \<longleftrightarrow> fst m < 2 ^ 32 \<and> length (snd m) < 2 ^ 32
     \<and> (fst m \<noteq> 5 \<or> length (snd m) < 28 \<or> take 16 (snd m) \<noteq> uuid)"

lemma sei_skip_ff_replicate:
  "b \<noteq> 0xff \<Longrightarrow> sei_skip_ff v (replicate k 0xff @ b # q) = (v + of_nat (255 * k), b # q)"
  by (induction k arbitrary: v) (simp_all add: algebra_simps)

lemma sei_varlen_len: "sei_varlen (sei_len n @ q) = Some (of_nat n, q)"
proof -
  have "(of_nat (n mod 255) :: u8) \<noteq> 0xff"
  proof
    assume "(of_nat (n mod 255) :: u8) = 0xff"
    then have "unat (of_nat (n mod 255) :: u8) = 255" by simp
    moreover have "n mod 255 < 255" by simp
    ultimately show False by (simp add: unat_of_nat)
  qed
  moreover have "(of_nat (255 * (n div 255)) :: u32) + ucast (of_nat (n mod 255) :: u8) = of_nat n"
  proof -
    have "n mod 255 < 255" by simp
    then have "n mod 255 < 256" by linarith
    then have "(ucast (of_nat (n mod 255) :: u8) :: u32) = of_nat (n mod 255)"
      by (simp add: word_unat_eq_iff unsigned_ucast_eq unat_of_nat take_bit_eq_mod)
    then show ?thesis
      by (metis mult_div_mod_eq of_nat_add)
  qed
  ultimately show ?thesis
    by (simp add: sei_varlen_def sei_len_def sei_skip_ff_replicate del: of_nat_mult)
qed

lemma dropWhile_zero_Nil: "dropWhile (\<lambda>x. x = (0::u8)) q = [] \<longleftrightarrow> (\<forall>x \<in> set q. x = 0)"
  by (induction q) auto

lemma sei_trailing_zero: "sei_trailing p \<Longrightarrow> x \<in> set (tl p) \<Longrightarrow> x = 0"
  by (cases p) (auto simp: dropWhile_zero_Nil)

lemma sei_walk_message:
  assumes "fst m < 2 ^ 32" and "length (snd m) < 2 ^ 32" and "\<not> sei_trailing (sei_message m @ rest)"
    and "length uuid = 16"
  shows "sei_walk uuid (sei_message m @ rest) =
    (if fst m = 5 \<and> 28 \<le> length (snd m) \<and> take 16 (snd m) = uuid
     then sei_fields (drop 16 (snd m @ rest)) else sei_walk uuid rest)"
proof -
  have ne: "sei_message m @ rest \<noteq> []"
    by (simp add: sei_message_def sei_len_def)
  have len: "unat (of_nat (length (snd m)) :: u32) = length (snd m)"
    using assms(2) by (simp add: unat_of_nat)
  have ty: "(of_nat (fst m) :: u32) = 5 \<longleftrightarrow> fst m = 5"
    using assms(1) by (simp add: word_unat_eq_iff unat_of_nat)
  have sz: "(28 :: u32) \<le> of_nat (length (snd m)) \<longleftrightarrow> 28 \<le> length (snd m)"
    by (simp add: word_le_nat_alt len)
  show ?thesis
    using assms(3) ne
    by (subst sei_walk.simps) (auto simp: sei_message_def sei_varlen_len len ty sz)
qed

text \<open>Foreign messages are stepped over, whatever their type, size and content.\<close>

lemma sei_walk_foreign:
  assumes "\<And>m. m \<in> set ms \<Longrightarrow> sei_foreign uuid m" and "length uuid = 16"
    and "\<exists>x \<in> set (tl rest). x \<noteq> 0"
  shows "sei_walk uuid (concat (map sei_message ms) @ rest) = sei_walk uuid rest"
  using assms(1)
proof (induction ms)
  case Nil
  then show ?case by simp
next
  case (Cons m ms)
  let ?rest = "concat (map sei_message ms) @ rest"
  have "set (tl rest) \<subseteq> set rest"
    by (cases rest) auto
  then have "\<exists>x \<in> set (tl (sei_message m @ ?rest)). x \<noteq> 0"
    using assms(3) by (cases "sei_message m") (auto simp: sei_message_def sei_len_def)
  then have "\<not> sei_trailing (sei_message m @ ?rest)"
    using sei_trailing_zero by blast
  then have "sei_walk uuid (sei_message m @ ?rest) = sei_walk uuid ?rest"
    using Cons.prems [of m] assms(2) by (subst sei_walk_message) (auto simp: sei_foreign_def)
  with Cons show ?case by simp
qed

section \<open>What the builder writes\<close>

definition sei_uuid :: "int \<Rightarrow> bytes" where
  "sei_uuid codec = (if codec = RSS_SEI_CODEC_H264 then misp_uuid_h264 else misp_uuid_h265)"

definition sei_hdr :: "int \<Rightarrow> bytes" where
  "sei_hdr codec = (if codec = RSS_SEI_CODEC_H264 then [0x06] else [0x4e, 0x01])"

definition sei_ts_payload :: "int \<Rightarrow> u64 \<Rightarrow> u8 \<Rightarrow> bytes" where
  "sei_ts_payload codec utc_us status = sei_uuid codec @ [status OR 0x1f] @ sei_modified_ts utc_us"

lemma length_sei_uuid [simp]: "length (sei_uuid codec) = 16"
  by (simp add: sei_uuid_def misp_uuid_h264_def misp_uuid_h265_def)

lemma length_sei_ts_payload [simp]: "length (sei_ts_payload codec utc_us status) = 28"
  by (simp add: sei_ts_payload_def sei_ts.enc_width)

lemma sei_nal_message:
  "sei_nal codec (sei_uuid codec) utc_us status
     = sei_hdr codec @ sei_message (5, sei_ts_payload codec utc_us status) @ [0x80]"
  by (simp add: sei_nal_def sei_hdr_def sei_message_def sei_len_def sei_ts_payload_def sei_ts.enc_width)

lemma length_sei_nal: "length (sei_nal codec (sei_uuid codec) utc_us status) = length (sei_hdr codec) + 31"
  by (simp add: sei_nal_message sei_message_def sei_len_def)

lemma sei_walk_ts:
  "sei_walk (sei_uuid codec) (sei_message (5, sei_ts_payload codec utc_us status) @ rest)
     = Inr (utc_us, status OR 0x1f)"
proof -
  have "\<not> sei_trailing (sei_message (5, sei_ts_payload codec utc_us status) @ rest)"
    by (simp add: sei_message_def sei_len_def)
  then show ?thesis
    by (subst sei_walk_message) (simp_all, simp add: sei_ts_payload_def sei_fields_ts)
qed

lemma sei_parse_hdr:
  assumes "codec = RSS_SEI_CODEC_H264 \<or> codec = RSS_SEI_CODEC_H265"
  shows "rss_sei_parse_timestamp (Some (sei_hdr codec @ p)) codec True = sei_walk (sei_uuid codec) p"
  using assms by (auto simp: rss_sei_parse_timestamp_def sei_hdr_def sei_uuid_def)

lemma sei_build_success:
  assumes "rss_sei_build_timestamp (Some buf) cap codec prefix utc_us status = Inr (tot, buf')"
  shows "(codec = RSS_SEI_CODEC_H264 \<or> codec = RSS_SEI_CODEC_H265)
    \<and> tot \<le> cap \<and> tot \<le> 37
    \<and> (\<exists>pre. length pre = (if prefix = RSS_SEI_PREFIX_NONE then 0 else 4)
         \<and> (prefix = RSS_SEI_PREFIX_ANNEXB \<longrightarrow> pre = [0, 0, 0, 1])
         \<and> (prefix = RSS_SEI_PREFIX_AVCC \<longrightarrow> pre = be32 (of_nat (tot - 4)))
         \<and> tot = length pre + length (sei_nal codec (sei_uuid codec) utc_us status)
         \<and> buf' = put buf 0 (pre @ sei_nal codec (sei_uuid codec) utc_us status))"
proof -
  have codec: "codec = RSS_SEI_CODEC_H264 \<or> codec = RSS_SEI_CODEC_H265"
    using assms by (auto simp: rss_sei_build_timestamp_def split: if_splits)
  let ?nal = "sei_nal codec (sei_uuid codec) utc_us status"
  have nal: "length ?nal = (if codec = RSS_SEI_CODEC_H264 then 32 else 33)"
    using codec by (auto simp: length_sei_nal sei_hdr_def)
  consider "prefix = RSS_SEI_PREFIX_NONE" "tot = length ?nal" "buf' = put buf 0 ?nal"
    | "prefix = RSS_SEI_PREFIX_ANNEXB" "tot = 4 + length ?nal" "buf' = put buf 0 ([0, 0, 0, 1] @ ?nal)"
    | "prefix = RSS_SEI_PREFIX_AVCC" "tot = 4 + length ?nal"
      "buf' = put buf 0 (be32 (of_nat (length ?nal)) @ ?nal)"
    using assms codec nal
    by (auto simp: rss_sei_build_timestamp_def Let_def sei_uuid_def split: if_splits)
  moreover have "tot \<le> cap" "tot \<le> 37"
    using assms by (auto simp: rss_sei_build_timestamp_def Let_def split: if_splits)
  ultimately show ?thesis
    using codec by cases (auto intro: exI [of _ "[]"])
qed

section \<open>Properties\<close>

text \<open>The bytes a decoder takes for a start code or an escape: two zeros and a byte up to 3.\<close>

fun has_emulation :: "bytes \<Rightarrow> bool" where
  "has_emulation (a # b # c # p) = (a = 0 \<and> b = 0 \<and> c \<le> 3 \<or> has_emulation (b # c # p))"
| "has_emulation _ = False"

text \<open>The builder fails exactly for a missing buffer, an unknown codec or prefix form (\<open>-EINVAL\<close>) or too
  small a capacity (\<open>-ENOSPC\<close>); otherwise it returns the size of the unit, 32 to 37 bytes, at most
  the capacity, and leaves every byte of the buffer behind the unit as it was.\<close>

lemma sei_build_outcome:
  "case rss_sei_build_timestamp dst cap codec prefix utc_us status of
     Inl e \<Rightarrow> (e = EINVAL \<and> (dst = None \<or> codec \<notin> {0, 1} \<or> prefix \<notin> {0, 1, 2}))
       \<or> (e = ENOSPC \<and> cap < (if prefix = 0 then 0 else 4) + (if codec = 0 then 32 else 33))
   | Inr (n, buf') \<Rightarrow> codec \<in> {0, 1} \<and> prefix \<in> {0, 1, 2} \<and> n \<le> cap
       \<and> n = (if prefix = 0 then 0 else 4) + (if codec = 0 then 32 else 33)
       \<and> (case dst of None \<Rightarrow> False
          | Some buf \<Rightarrow> cap \<le> length buf \<longrightarrow> length buf' = length buf \<and> drop n buf' = drop n buf)"
proof -
  have "length (sei_nal 0 misp_uuid_h264 utc_us status) = 32" "length (sei_nal 1 misp_uuid_h265 utc_us status) = 33"
    using length_sei_nal [of 0 utc_us status] length_sei_nal [of 1 utc_us status]
    by (simp_all add: sei_uuid_def sei_hdr_def)
  then show ?thesis
    by (auto simp: rss_sei_build_timestamp_def Let_def put_def split: option.split)
qed

lemma sei_build_outcome_witness:
  "case rss_sei_build_timestamp (Some (replicate 40 0)) 40 1 2 7 0 of Inl e \<Rightarrow> False
   | Inr (n, buf') \<Rightarrow> n = 37 \<and> length buf' = 40"
proof -
  obtain n buf' where b: "rss_sei_build_timestamp (Some (replicate 40 0)) 40 1 2 7 0 = Inr (n, buf')"
    by (simp add: rss_sei_build_timestamp_def Let_def)
  show ?thesis
    using sei_build_outcome [where dst = "Some (replicate 40 0)" and cap = 40 and codec = 1 and prefix = 2
        and utc_us = 7 and status = 0] by (simp add: b)
qed

text \<open>C10. The parser reads back the time and the status (with its reserved bits set) from a unit the builder
  wrote, in every prefix form and for both codecs; the prefix is the Annex B start code or the length of the
  unit; and any messages with other identifiers, of any type and size, put before the timestamp
  message in the same unit do not hide it.\<close>

lemma sei_roundtrip:
  assumes "rss_sei_build_timestamp (Some buf) cap codec prefix utc_us status = Inr (n, buf')"
    and "cap \<le> length buf"
    and "\<And>m. m \<in> set ms \<Longrightarrow> sei_foreign (sei_uuid codec) m"
  shows "let pl = (if prefix = RSS_SEI_PREFIX_NONE then 0 else 4);
             nal = take (n - pl) (drop pl buf')
         in (prefix = RSS_SEI_PREFIX_ANNEXB \<longrightarrow> take 4 buf' = [0, 0, 0, 1])
          \<and> (prefix = RSS_SEI_PREFIX_AVCC \<longrightarrow> rd_be32 (take 4 buf') = of_nat (length nal))
          \<and> rss_sei_parse_timestamp (Some nal) codec True = Inr (utc_us, status OR 0x1f)
          \<and> rss_sei_parse_timestamp
              (Some (sei_hdr codec @ concat (map sei_message ms) @ drop (length (sei_hdr codec)) nal))
              codec True = Inr (utc_us, status OR 0x1f)"
proof -
  let ?pl = "if prefix = RSS_SEI_PREFIX_NONE then 0 else (4::nat)"
  let ?nal = "sei_nal codec (sei_uuid codec) utc_us status"
  obtain pre where codec: "codec = 0 \<or> codec = 1" and n: "n \<le> cap" "n = length pre + length ?nal"
    and pre: "length pre = ?pl"
      "prefix = RSS_SEI_PREFIX_ANNEXB \<Longrightarrow> pre = [0, 0, 0, 1]"
      "prefix = RSS_SEI_PREFIX_AVCC \<Longrightarrow> pre = be32 (of_nat (n - 4))"
    and buf': "buf' = put buf 0 (pre @ ?nal)"
    using sei_build_success [OF assms(1)] by blast
  have nal: "take (n - ?pl) (drop ?pl buf') = ?nal"
    using n assms(2) pre(1) by (simp add: buf' put_def)
  have "take 4 buf' = pre" if "prefix \<noteq> RSS_SEI_PREFIX_NONE"
    using that pre(1) by (simp add: buf' put_def)
  moreover have "rss_sei_parse_timestamp (Some ?nal) codec True = Inr (utc_us, status OR 0x1f)"
    using codec by (simp add: sei_nal_message sei_parse_hdr sei_walk_ts)
  moreover have "rss_sei_parse_timestamp
              (Some (sei_hdr codec @ concat (map sei_message ms) @ drop (length (sei_hdr codec)) ?nal))
              codec True = Inr (utc_us, status OR 0x1f)"
  proof -
    have "\<exists>x \<in> set (tl (sei_message (5, sei_ts_payload codec utc_us status) @ [0x80])). x \<noteq> 0"
      by (simp add: sei_message_def sei_len_def)
    then have "sei_walk (sei_uuid codec)
        (concat (map sei_message ms) @ sei_message (5, sei_ts_payload codec utc_us status) @ [0x80])
      = Inr (utc_us, status OR 0x1f)"
      by (subst sei_walk_foreign) (simp_all add: assms(3) sei_walk_ts)
    then show ?thesis
      using codec by (simp add: sei_nal_message sei_parse_hdr)
  qed
  ultimately show ?thesis
    unfolding Let_def nal using pre n(2) by (auto simp: bytes_simps)
qed

lemma sei_roundtrip_witness:
  "case rss_sei_build_timestamp (Some (replicate 40 0)) 40 RSS_SEI_CODEC_H264 RSS_SEI_PREFIX_AVCC
          1700000000000000 0 of
     Inl _ \<Rightarrow> False
   | Inr (n, buf') \<Rightarrow>
       rss_sei_parse_timestamp
         (Some (sei_hdr 0 @ concat (map sei_message [(4, replicate 300 0xff), (5, misp_uuid_h265)])
                @ drop 1 (take 32 (drop 4 buf')))) 0 True = Inr (1700000000000000, 0x1f)"
proof -
  obtain n buf' where b: "rss_sei_build_timestamp (Some (replicate 40 0)) 40 RSS_SEI_CODEC_H264
      RSS_SEI_PREFIX_AVCC 1700000000000000 0 = Inr (n, buf')" and n: "n = 36"
    by (simp add: rss_sei_build_timestamp_def Let_def)
  have ms: "sei_foreign (sei_uuid 0) m" if "m \<in> set [(4, replicate 300 0xff), (5, misp_uuid_h265)]" for m
    using that by (auto simp: sei_foreign_def sei_uuid_def misp_uuid_h264_def misp_uuid_h265_def)
  show ?thesis
    using sei_roundtrip [OF b, of "[(4, replicate 300 0xff), (5, misp_uuid_h265)]"] ms by (simp add: b n Let_def sei_hdr_def)
qed

text \<open>A unit of the builder cut anywhere before its trailing byte parses as having no timestamp
  (\<open>-ENOENT\<close>), never as a wrong time.  The header documents \<open>-EBADMSG\<close> for a truncated
  payload; the code returns that only for a wrong guard byte.\<close>

lemma sei_truncated_absent:
  assumes "codec = RSS_SEI_CODEC_H264 \<or> codec = RSS_SEI_CODEC_H265"
    and "k < length (sei_nal codec (sei_uuid codec) utc_us status) - 1"
  shows "rss_sei_parse_timestamp (Some (take k (sei_nal codec (sei_uuid codec) utc_us status))) codec True
    = Inl ENOENT"
proof (cases "k < length (sei_hdr codec)")
  case True
  then show ?thesis
    using assms(1) by (auto simp: rss_sei_parse_timestamp_def sei_hdr_def)
next
  case False
  define j where "j = k - length (sei_hdr codec)"
  define pay where "pay = sei_ts_payload codec utc_us status @ [0x80]"
  have j: "j < 30" and k: "k = length (sei_hdr codec) + j"
    using False assms(2) by (simp_all add: j_def length_sei_nal)
  have nal: "sei_nal codec (sei_uuid codec) utc_us status = sei_hdr codec @ 5 # 28 # pay"
    by (simp add: sei_nal_message sei_message_def sei_len_def pay_def)
  have "sei_walk (sei_uuid codec) (take j (5 # 28 # pay)) = Inl ENOENT"
  proof -
    consider "j = 0" | "j = 1" | i where "j = Suc (Suc i)" "i < 28"
      using j that by (cases j; cases "j - 1") auto
    then show ?thesis
    proof cases
      case 3
      then show ?thesis
        by (subst sei_walk.simps) (simp add: sei_varlen_def pay_def)
    qed (subst sei_walk.simps, simp add: sei_varlen_def)+
  qed
  then show ?thesis
    using assms(1) by (simp add: nal k sei_parse_hdr)
qed

lemma sei_truncated_absent_witness:
  "rss_sei_parse_timestamp (Some (take 31 (sei_nal 1 (sei_uuid 1) 1700000000000000 0x80))) 1 True = Inl ENOENT"
  by (rule sei_truncated_absent) (simp_all add: length_sei_nal sei_hdr_def)

lemma status_nonzero: "(status :: u8) OR 0x1f \<noteq> 0"
proof
  assume "status OR 0x1f = 0"
  then have "bit (status OR 0x1f) 0 = bit (0 :: u8) 0" by (rule arg_cong)
  then show False by (simp add: bit_or_iff bit_numeral_simps)
qed

text \<open>C23. No unit the builder writes holds two zero bytes followed by a byte up to 3, so no start code and no
  escape can be found inside it and it needs no emulation prevention.\<close>

lemma sei_no_emulation:
  "\<not> has_emulation (sei_nal codec (sei_uuid codec) utc_us status)"
  by (simp add: sei_nal_def sei_uuid_def misp_uuid_h264_def misp_uuid_h265_def sei_modified_ts_def
      status_nonzero)

end
