(* ===== verification/Rss_Media_Clock.thy ===== *)
theory Rss_Media_Clock
  imports Rss_Prelude "HOL-Library.Signed_Division" "HOL-Library.Multiset"
begin

text \<open>
  The producer-to-monotonic video clock of \<open>src/rss_media_clock.c\<close>: sixteen one-second
  buckets of offset minima, their median, and a filtered slew of the published offset.

  The 64-bit values are integers; that no operation leaves the range of \<open>int64_t\<close> is a
  property below.  C division truncates: \<open>sdiv\<close>.  The abstract window keeps the whole
  history of samples; the buckets are shown to hold exactly the minima of its seconds.
\<close>

section \<open>Model\<close>

abbreviation (input) INT64_MAX :: int where "INT64_MAX \<equiv> 0x7fffffffffffffff"
abbreviation (input) RSS_MEDIA_CLOCK_BUCKETS :: nat where "RSS_MEDIA_CLOCK_BUCKETS \<equiv> 16"
abbreviation (input) RSS_MEDIA_CLOCK_BUCKET_US :: int where "RSS_MEDIA_CLOCK_BUCKET_US \<equiv> 1000000"
abbreviation (input) RSS_MEDIA_CLOCK_EWMA_DIV :: int where "RSS_MEDIA_CLOCK_EWMA_DIV \<equiv> 16"
abbreviation (input) RSS_MEDIA_CLOCK_GAIN_DIV :: int where "RSS_MEDIA_CLOCK_GAIN_DIV \<equiv> 16"
abbreviation (input) RSS_MEDIA_CLOCK_SLEW_MAX_US :: int where "RSS_MEDIA_CLOCK_SLEW_MAX_US \<equiv> 1000"

record rss_media_clock_t =
  bucket_min_us :: "int list"
  bucket_start_us :: int
  offset_us :: int
  err_ewma_us :: int
  bucket :: nat
  initialized :: bool

definition clear_buckets :: "rss_media_clock_t \<Rightarrow> rss_media_clock_t" where
  "clear_buckets c = c\<lparr>bucket_min_us := replicate RSS_MEDIA_CLOCK_BUCKETS INT64_MAX\<rparr>"

definition rss_media_clock_init :: "rss_media_clock_t \<Rightarrow> rss_media_clock_t" where
  "rss_media_clock_init c =
     (clear_buckets c)\<lparr>bucket_start_us := 0, offset_us := 0, err_ewma_us := 0, bucket := 0, initialized := False\<rparr>"

function advance_loop :: "int \<Rightarrow> rss_media_clock_t \<Rightarrow> rss_media_clock_t" where
  "advance_loop elapsed c =
     (if elapsed \<ge> RSS_MEDIA_CLOCK_BUCKET_US then
        let b = (bucket c + 1) mod RSS_MEDIA_CLOCK_BUCKETS
        in advance_loop (elapsed - RSS_MEDIA_CLOCK_BUCKET_US)
             (c\<lparr>bucket := b, bucket_min_us := (bucket_min_us c)[b := INT64_MAX],
                bucket_start_us := bucket_start_us c + RSS_MEDIA_CLOCK_BUCKET_US\<rparr>)
      else c)"
  by pat_completeness auto
termination by (relation "measure (nat \<circ> fst)") auto

declare advance_loop.simps [simp del]

definition advance_window :: "rss_media_clock_t \<Rightarrow> int \<Rightarrow> rss_media_clock_t" where
  "advance_window c now_us =
     (let elapsed = now_us - bucket_start_us c;
          window_us = RSS_MEDIA_CLOCK_BUCKET_US * int RSS_MEDIA_CLOCK_BUCKETS
      in if elapsed < 0 \<or> elapsed \<ge> window_us
         then (clear_buckets c)\<lparr>bucket := 0, bucket_start_us := now_us\<rparr>
         else advance_loop elapsed c)"

text \<open>The insertion step: \<open>shift_in arr j v\<close> moves the larger values up from index \<open>j\<close>.\<close>

fun shift_in :: "int list \<Rightarrow> nat \<Rightarrow> int \<Rightarrow> int list" where
  "shift_in arr 0 v = arr[0 := v]"
| "shift_in arr (Suc j) v =
     (if arr ! j > v then shift_in (arr[Suc j := arr ! j]) j v else arr[Suc j := v])"

fun sort_minima :: "int list \<Rightarrow> nat \<times> int list \<Rightarrow> nat \<times> int list" where
  "sort_minima [] (n, arr) = (n, arr)"
| "sort_minima (v # vs) (n, arr) =
     (if v = INT64_MAX then sort_minima vs (n, arr)
      else sort_minima vs (n + 1, shift_in arr n v))"

text \<open>The array on the stack has no defined content; only its first \<open>n\<close> entries are read.\<close>

definition median_minimum :: "int list \<Rightarrow> int" where
  "median_minimum mins =
     (case sort_minima mins (0, replicate RSS_MEDIA_CLOCK_BUCKETS 0) of (n, arr) \<Rightarrow>
        if n \<noteq> 0 then arr ! (n div 2) else INT64_MAX)"

definition slew_offset :: "int \<Rightarrow> rss_media_clock_t \<Rightarrow> rss_media_clock_t" where
  "slew_offset target_us c =
     (if target_us \<noteq> INT64_MAX then
        let err_us = target_us - offset_us c;
            ewma = err_ewma_us c + (err_us - err_ewma_us c) sdiv RSS_MEDIA_CLOCK_EWMA_DIV;
            slew_us = ewma sdiv RSS_MEDIA_CLOCK_GAIN_DIV;
            slew_us = (if slew_us > RSS_MEDIA_CLOCK_SLEW_MAX_US then RSS_MEDIA_CLOCK_SLEW_MAX_US
                       else if slew_us < - RSS_MEDIA_CLOCK_SLEW_MAX_US then - RSS_MEDIA_CLOCK_SLEW_MAX_US
                       else slew_us)
        in c\<lparr>err_ewma_us := ewma, offset_us := offset_us c + slew_us\<rparr>
      else c)"

definition rss_media_clock_map :: "rss_media_clock_t \<Rightarrow> int \<Rightarrow> int \<Rightarrow> int \<times> rss_media_clock_t" where
  "rss_media_clock_map c media_us now_us =
     (let sample_us = now_us - media_us
      in if \<not> initialized c then
           let c = c\<lparr>bucket_start_us := now_us, bucket_min_us := (bucket_min_us c)[0 := sample_us],
                     offset_us := sample_us, initialized := True\<rparr>
           in (media_us + offset_us c, c)
         else
           let c = advance_window c now_us;
               c = (if sample_us < bucket_min_us c ! bucket c
                    then c\<lparr>bucket_min_us := (bucket_min_us c)[bucket c := sample_us]\<rparr> else c);
               c = slew_offset (median_minimum (bucket_min_us c)) c
           in (media_us + offset_us c, c))"

definition rss_media_clock_ready :: "rss_media_clock_t \<Rightarrow> bool" where
  "rss_media_clock_ready c = initialized c"

definition rss_media_clock_offset :: "rss_media_clock_t \<Rightarrow> int" where
  "rss_media_clock_offset c = offset_us c"

text \<open>A run: the frames of a stream, each with its capture time and its arrival time.\<close>

definition clock_step :: "int \<times> int \<Rightarrow> rss_media_clock_t \<Rightarrow> rss_media_clock_t" where
  "clock_step f c = snd (rss_media_clock_map c (fst f) (snd f))"

definition clock_run :: "rss_media_clock_t \<Rightarrow> (int \<times> int) list \<Rightarrow> rss_media_clock_t" where
  "clock_run c fs = fold clock_step fs (rss_media_clock_init c)"

section \<open>The median\<close>

text \<open>Inserting into a sorted prefix gives the library's \<open>insort\<close> of it.\<close>

lemma length_shift_in [simp]: "length (shift_in arr n v) = length arr"
  by (induction arr n v rule: shift_in.induct) auto

lemma insort_snoc_le: "sorted (ys @ [y]) \<Longrightarrow> (y::int) \<le> v \<Longrightarrow> insort v (ys @ [y]) = ys @ [y, v]"
proof -
  assume a: "sorted (ys @ [y])" "y \<le> v"
  then have "sort (v # ys @ [y]) = ys @ [y, v]"
    by (intro properties_for_sort) (auto simp: sorted_append)
  then show ?thesis
    using a(1) by (simp add: sorted_sort_id)
qed

lemma insort_snoc_gt: "(v::int) < y \<Longrightarrow> insort v (ys @ [y]) = insort v ys @ [y]"
  by (induction ys) auto

lemma take_shift_in:
  "n < length arr \<Longrightarrow> sorted (take n arr) \<Longrightarrow> take (Suc n) (shift_in arr n v) = insort v (take n arr)"
proof (induction arr n v rule: shift_in.induct)
  case (1 arr v)
  then show ?case by (cases arr) auto
next
  case (2 arr j v)
  have snoc: "take (Suc j) arr = take j arr @ [arr ! j]"
    using 2(2) by (simp add: take_Suc_conv_app_nth)
  show ?case
  proof (cases "arr ! j > v")
    case True
    let ?arr = "arr[Suc j := arr ! j]"
    have "shift_in ?arr j v ! Suc j = ?arr ! Suc j"
    proof -
      have "shift_in a k v ! i = a ! i" if "k < i" for a k i
        using that by (induction a k v rule: shift_in.induct) auto
      then show ?thesis by simp
    qed
    then have "take (Suc (Suc j)) (shift_in ?arr j v) = take (Suc j) (shift_in ?arr j v) @ [arr ! j]"
      using 2(2) by (simp add: take_Suc_conv_app_nth [of "Suc j"])
    also have "take (Suc j) (shift_in ?arr j v) = insort v (take j arr)"
      using 2 True by (simp add: snoc sorted_append)
    finally show ?thesis
      using True by (simp add: snoc insort_snoc_gt)
  next
    case False
    then have "insort v (take (Suc j) arr) = take j arr @ [arr ! j, v]"
      using 2(3) snoc insort_snoc_le [of "take j arr" "arr ! j" v] by simp
    then show ?thesis
      using False 2(2) by (simp add: take_Suc_conv_app_nth)
  qed
qed

lemma sort_minima:
  assumes "n + length (filter (\<lambda>v. v \<noteq> INT64_MAX) mins) \<le> length arr" and "sorted (take n arr)"
    and "sort_minima mins (n, arr) = (n', arr')"
  shows "n' = n + length (filter (\<lambda>v. v \<noteq> INT64_MAX) mins)
    \<and> take n' arr' = fold insort (filter (\<lambda>v. v \<noteq> INT64_MAX) mins) (take n arr)"
  using assms
proof (induction mins "(n, arr)" arbitrary: n arr rule: sort_minima.induct)
  case (2 v vs n arr)
  then show ?case
    by (cases "v = INT64_MAX") (auto simp: take_shift_in sorted_insort)
qed auto

lemma fold_insort_sort: "fold insort xs [] = sort (xs :: int list)"
proof -
  have "fold insort xs [] = sort (rev xs)"
    by (simp add: sort_key_def foldr_conv_fold)
  also have "\<dots> = sort xs"
    by (rule properties_for_sort) simp_all
  finally show ?thesis .
qed

lemma sort_Nil_iff: "sort xs = [] \<longleftrightarrow> xs = []"
  by (metis set_sort set_empty)

lemma median_minimum_sort:
  assumes "length mins \<le> 16"
  shows "median_minimum mins =
    (let vs = sort (filter (\<lambda>v. v \<noteq> INT64_MAX) mins)
     in if vs = [] then INT64_MAX else vs ! (length vs div 2))"
proof -
  let ?vs = "filter (\<lambda>v. v \<noteq> INT64_MAX) mins"
  obtain n arr where r: "sort_minima mins (0, replicate 16 0) = (n, arr)"
    by (cases "sort_minima mins (0, replicate 16 0)")
  have "length ?vs \<le> 16"
    using assms length_filter_le le_trans by blast
  then have n: "n = length ?vs" and arr: "take n arr = sort ?vs"
    using sort_minima [OF _ _ r] by (auto simp: fold_insort_sort)
  show ?thesis
  proof (cases "n = 0")
    case False
    then have "arr ! (n div 2) = sort ?vs ! (n div 2)"
      by (metis arr div_less_dividend neq0_conv nth_take one_less_numeral_iff semiring_norm(76))
    then show ?thesis
      using False n by (simp add: median_minimum_def r sort_Nil_iff Let_def)
  qed (use n in \<open>simp add: median_minimum_def r Let_def\<close>)
qed

text \<open>A median outlives every minority: fewer than half the values cannot move it out of the range of the rest.\<close>

lemma sorted_median_ge:
  assumes "sorted (vs :: int list)" and "vs \<noteq> []" and "2 * length (filter (\<lambda>v. v < a) vs) \<le> length vs"
  shows "a \<le> vs ! (length vs div 2)"
proof (rule ccontr)
  let ?k = "length vs div 2"
  assume "\<not> a \<le> vs ! ?k"
  then have "vs ! i < a" if "i \<le> ?k" for i
    using sorted_nth_mono [OF assms(1) that] assms(2) by (simp add: order_le_less_trans)
  then have "filter (\<lambda>v. v < a) (take (Suc ?k) vs) = take (Suc ?k) vs"
    by (intro filter_True) (auto simp: in_set_conv_nth)
  moreover have "vs = take (Suc ?k) vs @ drop (Suc ?k) vs" by simp
  ultimately have "length (filter (\<lambda>v. v < a) vs) \<ge> length (take (Suc ?k) vs)"
    by (metis filter_append le_add1 length_append)
  then show False
    using assms(2,3) by (cases vs) auto
qed

lemma sorted_median_le:
  assumes "sorted (vs :: int list)" and "vs \<noteq> []" and "2 * length (filter (\<lambda>v. v > b) vs) < length vs"
  shows "vs ! (length vs div 2) \<le> b"
proof (rule ccontr)
  let ?k = "length vs div 2"
  assume a: "\<not> vs ! ?k \<le> b"
  have "vs ! ?k \<le> v" if "v \<in> set (drop ?k vs)" for v
  proof -
    from that obtain i where "v = vs ! (?k + i)" "?k + i < length vs"
      by (auto simp: in_set_conv_nth)
    then show ?thesis using sorted_nth_mono [OF assms(1), of ?k "?k + i"] by simp
  qed
  then have "filter (\<lambda>v. v > b) (drop ?k vs) = drop ?k vs"
    using a by (intro filter_True) force
  moreover have "vs = take ?k vs @ drop ?k vs" by simp
  ultimately have "length (filter (\<lambda>v. v > b) vs) \<ge> length (drop ?k vs)"
    by (metis filter_append le_add2 length_append)
  then show False
    using assms(3) by auto
qed

abbreviation (input) populated :: "int list \<Rightarrow> int list" where
  "populated mins \<equiv> filter (\<lambda>v. v \<noteq> INT64_MAX) mins"

lemma length_filter_sort: "length (filter P (sort xs)) = length (filter P (xs :: int list))"
  by (metis mset_filter mset_sort size_mset)

lemma median_within:
  assumes "length mins \<le> 16" and "populated mins \<noteq> []"
    and "2 * length (filter (\<lambda>v. v < a) (populated mins)) \<le> length (populated mins)"
    and "2 * length (filter (\<lambda>v. v > b) (populated mins)) < length (populated mins)"
  shows "a \<le> median_minimum mins \<and> median_minimum mins \<le> b"
proof -
  let ?vs = "sort (populated mins)"
  have ne: "?vs \<noteq> []"
    using assms(2) by (simp add: sort_Nil_iff)
  have "median_minimum mins = ?vs ! (length ?vs div 2)"
    using ne by (simp only: median_minimum_sort [OF assms(1)] Let_def if_False)
  then show ?thesis
    using sorted_median_ge [of ?vs a] sorted_median_le [of ?vs b] assms(3,4) ne
    by (simp only: sorted_sort length_filter_sort length_sort simp_thms)
qed

lemma median_unpopulated: "populated mins = [] \<Longrightarrow> length mins \<le> 16 \<Longrightarrow> median_minimum mins = INT64_MAX"
  by (simp add: median_minimum_sort)

section \<open>The slew\<close>

lemma sdiv_cases:
  fixes a d :: int assumes "d > 0"
  shows "0 \<le> a \<Longrightarrow> 0 \<le> a sdiv d \<and> a sdiv d \<le> a" "a \<le> 0 \<Longrightarrow> a \<le> a sdiv d \<and> a sdiv d \<le> 0"
proof -
  have d: "0 \<le> \<bar>a\<bar> div d" "\<bar>a\<bar> div d \<le> \<bar>a\<bar>"
    using assms zdiv_mono2 [of "\<bar>a\<bar>" 1 d] by (simp_all add: pos_imp_zdiv_nonneg_iff)
  show "0 \<le> a \<Longrightarrow> 0 \<le> a sdiv d \<and> a sdiv d \<le> a" "a \<le> 0 \<Longrightarrow> a \<le> a sdiv d \<and> a sdiv d \<le> 0"
    using d assms by (auto simp: signed_divide_int_def sgn_if)
qed

lemma slew_offset_bound: "\<bar>offset_us (slew_offset tgt c) - offset_us c\<bar> \<le> 1000"
proof (cases "tgt = INT64_MAX")
  case False
  define s where "s = (err_ewma_us c + (tgt - offset_us c - err_ewma_us c) sdiv 16) sdiv 16"
  have "offset_us (slew_offset tgt c) - offset_us c = (if s > 1000 then 1000 else if s < - 1000 then - 1000 else s)"
    using False by (simp add: slew_offset_def Let_def s_def)
  then show ?thesis by (simp split: if_splits)
qed (simp add: slew_offset_def)

lemma slew_offset_fields [simp]:
  "bucket_min_us (slew_offset tgt c) = bucket_min_us c" "bucket (slew_offset tgt c) = bucket c"
  "bucket_start_us (slew_offset tgt c) = bucket_start_us c" "initialized (slew_offset tgt c) = initialized c"
  by (simp_all add: slew_offset_def Let_def)

lemma advance_loop_fields [simp]:
  "offset_us (advance_loop e c) = offset_us c" "err_ewma_us (advance_loop e c) = err_ewma_us c"
  "initialized (advance_loop e c) = initialized c"
  by (induction e c rule: advance_loop.induct; subst advance_loop.simps; simp add: Let_def)+

lemma advance_window_fields [simp]:
  "offset_us (advance_window c t) = offset_us c" "err_ewma_us (advance_window c t) = err_ewma_us c"
  "initialized (advance_window c t) = initialized c"
  by (simp_all add: advance_window_def clear_buckets_def Let_def)

section \<open>The window\<close>

text \<open>
  The abstract window keeps every sample with its arrival time; \<open>slot_min h from\<close> is the
  smallest sample of the second that starts at \<open>from\<close>.
\<close>

definition slot_min :: "(int \<times> int) list \<Rightarrow> int \<Rightarrow> int" where
  "slot_min h from = Min (insert INT64_MAX (snd ` set (filter (\<lambda>p. from \<le> fst p \<and> fst p < from + 1000000) h)))"

definition slot :: "rss_media_clock_t \<Rightarrow> nat \<Rightarrow> nat" where
  "slot c k = (bucket c + 16 - k) mod 16"

definition window_of :: "rss_media_clock_t \<Rightarrow> (int \<times> int) list \<Rightarrow> bool" where
  "window_of c h \<longleftrightarrow> length (bucket_min_us c) = 16 \<and> bucket c < 16
     \<and> (\<forall>k < 16. bucket_min_us c ! slot c k = slot_min h (bucket_start_us c - int k * 1000000))
     \<and> (\<forall>p \<in> set h. fst p < bucket_start_us c + 1000000)"

lemma slot_min_none:
  "(\<And>p. p \<in> set h \<Longrightarrow> \<not> (from \<le> fst p \<and> fst p < from + 1000000)) \<Longrightarrow> slot_min h from = INT64_MAX"
proof -
  assume "\<And>p. p \<in> set h \<Longrightarrow> \<not> (from \<le> fst p \<and> fst p < from + 1000000)"
  then have "filter (\<lambda>p. from \<le> fst p \<and> fst p < from + 1000000) h = []"
    by (auto simp: filter_empty_conv)
  then show ?thesis by (simp only: slot_min_def) simp
qed

lemma slot_min_add:
  "slot_min (h @ [(t, s)]) from =
     (if from \<le> t \<and> t < from + 1000000 then min s (slot_min h from) else slot_min h from)"
  by (simp add: slot_min_def insert_commute)

lemma slot_cases: "bucket c < 16 \<Longrightarrow> k < 16 \<Longrightarrow> slot c k < 16" "bucket c < 16 \<Longrightarrow> slot c 0 = bucket c"
  by (simp_all add: slot_def)

lemma slot_inj:
  assumes "b < 16" and "k < 16" and "j < (16::nat)" and "(b + 16 - k) mod 16 = (b + 16 - j) mod 16"
  shows "k = j"
proof -
  have "(x :: nat) < 32 \<Longrightarrow> x mod 16 = (if x < 16 then x else x - 16)" for x
    by (simp add: mod_if)
  then show ?thesis using assms by (auto split: if_splits)
qed

lemma slot_next:
  assumes "b < 16" and "0 < k" and "k < (16::nat)"
  shows "((b + 1) mod 16 + 16 - k) mod 16 = (b + 16 - (k - 1)) mod 16"
proof (cases "b = 15")
  case True
  then have "(b + 16 - (k - 1)) mod 16 = (16 + (16 - k)) mod 16" using assms by simp
  then show ?thesis using True by simp
next
  case False
  then have "b + 1 + 16 - k = b + 16 - (k - 1)" using assms by simp
  then show ?thesis using assms False by simp
qed

lemma window_of_advance_step:
  assumes "window_of c h"
  shows "window_of (let b = (bucket c + 1) mod 16
      in c\<lparr>bucket := b, bucket_min_us := (bucket_min_us c)[b := INT64_MAX],
           bucket_start_us := bucket_start_us c + 1000000\<rparr>) h"
proof -
  let ?b = "(bucket c + 1) mod 16"
  have b: "bucket c < 16" and len: "length (bucket_min_us c) = 16"
    and old: "\<And>p. p \<in> set h \<Longrightarrow> fst p < bucket_start_us c + 1000000"
    using assms by (auto simp: window_of_def)
  have "(bucket_min_us c)[?b := INT64_MAX] ! ((?b + 16 - k) mod 16)
      = slot_min h (bucket_start_us c + 1000000 - int k * 1000000)" if k: "k < 16" for k
  proof (cases "k = 0")
    case True
    have "slot_min h (bucket_start_us c + 1000000) = INT64_MAX"
      using old by (intro slot_min_none) force
    then show ?thesis using True len by simp
  next
    case False
    have "(?b + 16 - k) mod 16 = slot c (k - 1)"
      using slot_next [OF b _ k] False by (simp add: slot_def)
    moreover have "slot c (k - 1) \<noteq> ?b"
      using slot_inj [of ?b k 0] calculation False k by auto
    ultimately show ?thesis
      using assms k False by (simp add: window_of_def algebra_simps of_nat_diff)
  qed
  then show ?thesis
    using len old by (fastforce simp: window_of_def slot_def Let_def)
qed

lemma window_of_advance_loop:
  "window_of c h \<Longrightarrow> 0 \<le> e \<Longrightarrow> now = bucket_start_us c + e \<Longrightarrow>
    window_of (advance_loop e c) h \<and> bucket_start_us (advance_loop e c) \<le> now
    \<and> now < bucket_start_us (advance_loop e c) + 1000000"
proof (induction e c rule: advance_loop.induct)
  case (1 e c)
  show ?case
  proof (cases "e \<ge> 1000000")
    case True
    then show ?thesis
      using 1(1) [OF True refl] 1(2-) window_of_advance_step [OF 1(2)]
      by (subst (1 2 3) advance_loop.simps) (simp add: Let_def)
  next
    case False
    then show ?thesis using 1(2-) by (subst (1 2 3) advance_loop.simps) simp
  qed
qed

lemma window_of_advance:
  assumes "window_of c h" and "bucket_start_us c \<le> now"
  shows "window_of (advance_window c now) h \<and> bucket_start_us (advance_window c now) \<le> now
    \<and> now < bucket_start_us (advance_window c now) + 1000000"
proof (cases "now - bucket_start_us c \<ge> 16000000")
  case True
  have "slot_min h (now - int k * 1000000) = INT64_MAX" if "k < 16" for k
    using assms(1) True that by (intro slot_min_none) (force simp: window_of_def)
  moreover have "\<And>p. p \<in> set h \<Longrightarrow> fst p < now + 1000000"
    using assms(1) True by (fastforce simp: window_of_def)
  ultimately show ?thesis
    using True by (simp add: advance_window_def Let_def clear_buckets_def window_of_def slot_def)
next
  case False
  then show ?thesis
    using window_of_advance_loop [OF assms(1), of "now - bucket_start_us c" now] assms(2)
    by (simp add: advance_window_def Let_def)
qed

lemma window_of_sample:
  assumes "window_of c h" and "bucket_start_us c \<le> now" and "now < bucket_start_us c + 1000000"
  shows "window_of (if s < bucket_min_us c ! bucket c
           then c\<lparr>bucket_min_us := (bucket_min_us c)[bucket c := s]\<rparr> else c) (h @ [(now, s)])"
proof -
  let ?c = "if s < bucket_min_us c ! bucket c then c\<lparr>bucket_min_us := (bucket_min_us c)[bucket c := s]\<rparr> else c"
  have b: "bucket c < 16" and len: "length (bucket_min_us c) = 16"
    and w: "\<And>k. k < 16 \<Longrightarrow> bucket_min_us c ! slot c k = slot_min h (bucket_start_us c - int k * 1000000)"
    using assms(1) by (auto simp: window_of_def)
  have "bucket_min_us ?c ! slot c k = slot_min (h @ [(now, s)]) (bucket_start_us c - int k * 1000000)"
    if k: "k < 16" for k
  proof (cases "k = 0")
    case True
    then show ?thesis
      using w [of 0] assms(2,3) b len slot_cases(2) [OF b] by (simp add: slot_min_add min_def)
  next
    case False
    then have "slot c k \<noteq> bucket c"
      using slot_inj [of "bucket c" k 0] k b by (auto simp: slot_def)
    then show ?thesis
      using w [OF k] False assms(2) by (simp add: slot_min_add)
  qed
  moreover have "slot ?c = slot c" "bucket ?c = bucket c" "bucket_start_us ?c = bucket_start_us c"
    "length (bucket_min_us ?c) = 16"
    by (simp_all add: slot_def fun_eq_iff len)
  ultimately show ?thesis
    using assms unfolding window_of_def by simp
qed

lemma window_of_slew: "window_of (slew_offset t c) h = window_of c h"
  by (simp add: window_of_def slot_def)

lemma window_of_map:
  assumes "window_of c h" and "initialized c" and "bucket_start_us c \<le> now"
  shows "window_of (clock_step (media, now) c) (h @ [(now, now - media)])
    \<and> initialized (clock_step (media, now) c) \<and> bucket_start_us (clock_step (media, now) c) \<le> now
    \<and> now < bucket_start_us (clock_step (media, now) c) + 1000000"
  using window_of_advance [OF assms(1,3)] window_of_sample [of "advance_window c now" h now "now - media"] assms(2)
  by (simp add: clock_step_def rss_media_clock_map_def Let_def window_of_slew)

definition samples :: "(int \<times> int) list \<Rightarrow> (int \<times> int) list" where
  "samples fs = map (\<lambda>(media, now). (now, now - media)) fs"

lemma window_of_run:
  "window_of c h \<Longrightarrow> initialized c \<Longrightarrow> bucket_start_us c \<le> t \<Longrightarrow> t < bucket_start_us c + 1000000
   \<Longrightarrow> sorted (t # map snd fs) \<Longrightarrow>
    window_of (fold clock_step fs c) (h @ samples fs)
    \<and> bucket_start_us (fold clock_step fs c) \<le> last (t # map snd fs)
    \<and> last (t # map snd fs) < bucket_start_us (fold clock_step fs c) + 1000000"
proof (induction fs arbitrary: c h t)
  case Nil
  then show ?case by (simp add: samples_def)
next
  case (Cons f fs)
  obtain media now where f: "f = (media, now)" by (cases f)
  have le: "bucket_start_us c \<le> now" using Cons.prems by (simp add: f)
  from window_of_map [OF Cons.prems(1,2) le, of media] show ?case
    using Cons.IH [of "clock_step f c" "h @ [(now, now - media)]" now] Cons.prems(5)
    by (simp add: f samples_def)
qed

lemma window_of_first:
  assumes "now - media \<le> INT64_MAX"
  shows "window_of (clock_step (media, now) (rss_media_clock_init c)) [(now, now - media)]
    \<and> initialized (clock_step (media, now) (rss_media_clock_init c))
    \<and> bucket_start_us (clock_step (media, now) (rss_media_clock_init c)) = now"
proof -
  have "(replicate 16 INT64_MAX)[0 := now - media] ! ((16 - k) mod 16)
      = slot_min [(now, now - media)] (now - int k * 1000000)" if "k < 16" for k
  proof (cases "k = 0")
    case True
    then show ?thesis using assms by (simp add: slot_min_def)
  next
    case False
    then show ?thesis using that by (simp add: slot_min_def nth_list_update)
  qed
  then show ?thesis
    by (simp add: clock_step_def rss_media_clock_map_def rss_media_clock_init_def clear_buckets_def
        window_of_def slot_def Let_def)
qed

text \<open>C19. After any run of frames with non-decreasing arrival times, the sixteen buckets, walked back from
  the current one, hold exactly the minima of the samples that arrived in the current second and
  the fifteen before it, and the current second is the one of the last arrival.\<close>

lemma mc_window_holds_minima:
  assumes "fs \<noteq> []" and "sorted (map snd fs)" and "snd (hd fs) - fst (hd fs) \<le> INT64_MAX"
  shows "let c = clock_run c0 fs
         in length (bucket_min_us c) = 16 \<and> bucket c < 16
          \<and> bucket_start_us c \<le> snd (last fs) \<and> snd (last fs) < bucket_start_us c + 1000000
          \<and> (\<forall>k < 16. bucket_min_us c ! ((bucket c + 16 - k) mod 16)
               = slot_min (samples fs) (bucket_start_us c - int k * 1000000))"
proof -
  obtain media now fs' where fs: "fs = (media, now) # fs'"
    using assms(1) by (cases fs) auto
  let ?c = "clock_step (media, now) (rss_media_clock_init c0)"
  have "window_of (fold clock_step fs' ?c) ([(now, now - media)] @ samples fs')
    \<and> bucket_start_us (fold clock_step fs' ?c) \<le> last (now # map snd fs')
    \<and> last (now # map snd fs') < bucket_start_us (fold clock_step fs' ?c) + 1000000"
    using window_of_first [of now media c0] assms(2,3)
    by (intro window_of_run) (simp_all add: fs)
  then show ?thesis
    by (simp add: fs clock_run_def window_of_def samples_def slot_def Let_def last_map split: if_splits)
qed

lemma mc_window_holds_minima_witness:
  "let fs = [(0, 50), (40000, 40020), (900000, 900070), (17000000, 17000045)];
       c = clock_run \<lparr>bucket_min_us = [], bucket_start_us = 0, offset_us = 0, err_ewma_us = 0, bucket = 0,
                      initialized = False\<rparr> fs
   in bucket_start_us c \<le> 17000045
    \<and> bucket_min_us c ! ((bucket c + 16) mod 16) = slot_min (samples fs) (bucket_start_us c)
    \<and> bucket_min_us c ! ((bucket c + 1) mod 16) = slot_min (samples fs) (bucket_start_us c - 15000000)"
proof -
  let ?c0 = "\<lparr>bucket_min_us = [], bucket_start_us = 0, offset_us = 0, err_ewma_us = 0, bucket = 0,
    initialized = False\<rparr>"
  let ?fs = "[(0, 50), (40000, 40020), (900000, 900070), (17000000, 17000045)] :: (int \<times> int) list"
  have all: "\<forall>k < 16. bucket_min_us (clock_run ?c0 ?fs) ! ((bucket (clock_run ?c0 ?fs) + 16 - k) mod 16)
      = slot_min (samples ?fs) (bucket_start_us (clock_run ?c0 ?fs) - int k * 1000000)"
    and start: "bucket_start_us (clock_run ?c0 ?fs) \<le> 17000045"
    using mc_window_holds_minima [of ?fs ?c0] by (simp_all add: Let_def)
  show ?thesis
    using all [rule_format, of 0] all [rule_format, of 15] start by (simp add: Let_def)
qed

section \<open>The published timeline\<close>

fun clock_outputs :: "rss_media_clock_t \<Rightarrow> (int \<times> int) list \<Rightarrow> int list" where
  "clock_outputs c [] = []"
| "clock_outputs c (f # fs) =
     (case rss_media_clock_map c (fst f) (snd f) of (out, c') \<Rightarrow> out # clock_outputs c' fs)"

definition take_sample :: "int \<Rightarrow> int \<Rightarrow> rss_media_clock_t \<Rightarrow> rss_media_clock_t" where
  "take_sample media now c =
     (let c = advance_window c now
      in if now - media < bucket_min_us c ! bucket c
         then c\<lparr>bucket_min_us := (bucket_min_us c)[bucket c := now - media]\<rparr> else c)"

lemma map_initialized:
  assumes "initialized c"
  shows "rss_media_clock_map c media now =
    (let c = slew_offset (median_minimum (bucket_min_us (take_sample media now c))) (take_sample media now c)
     in (media + offset_us c, c))"
  using assms by (simp add: rss_media_clock_map_def take_sample_def Let_def)

lemma take_sample_fields [simp]:
  "offset_us (take_sample media now c) = offset_us c" "err_ewma_us (take_sample media now c) = err_ewma_us c"
  "initialized (take_sample media now c) = initialized c"
  "bucket_start_us (take_sample media now c) = bucket_start_us (advance_window c now)"
  by (simp_all add: take_sample_def Let_def)

lemma map_step:
  assumes "initialized c" and "rss_media_clock_map c media now = (out, c')"
  shows "initialized c' \<and> out = media + offset_us c' \<and> \<bar>offset_us c' - offset_us c\<bar> \<le> 1000"
  using assms slew_offset_bound [of "median_minimum (bucket_min_us (take_sample media now c))" "take_sample media now c"]
  by (auto simp: map_initialized Let_def)

lemma map_first:
  "\<not> initialized c \<Longrightarrow> rss_media_clock_map c media now =
    (now, c\<lparr>bucket_start_us := now, bucket_min_us := (bucket_min_us c)[0 := now - media],
            offset_us := now - media, initialized := True\<rparr>)"
  by (simp add: rss_media_clock_map_def Let_def)

definition steady_pair :: "(int \<times> int) \<times> int \<Rightarrow> (int \<times> int) \<times> int \<Rightarrow> bool" where
  "steady_pair p q \<longleftrightarrow> \<bar>(snd q - snd p) - (fst (fst q) - fst (fst p))\<bar> \<le> 1000"

lemma timeline_from:
  "initialized c \<Longrightarrow> out = media + offset_us c \<Longrightarrow>
    successively steady_pair (((media, now), out) # zip fs (clock_outputs c fs))"
proof (induction fs arbitrary: c media now out)
  case (Cons f fs)
  obtain out' c' where m: "rss_media_clock_map c (fst f) (snd f) = (out', c')"
    by (cases "rss_media_clock_map c (fst f) (snd f)")
  have s: "initialized c'" "out' = fst f + offset_us c'" "\<bar>offset_us c' - offset_us c\<bar> \<le> 1000"
    using map_step [OF Cons.prems(1) m] by auto
  show ?case
    using Cons.IH [OF s(1), of out' "fst f" "snd f"] s Cons.prems(2)
    by (simp add: m steady_pair_def)
qed simp

text \<open>C24. The first frame is published at its arrival time, and from then on two consecutive frames are
  published as far apart as they were captured, up to one millisecond, whatever their arrival times.\<close>

lemma mc_timeline:
  "take 1 (clock_outputs (rss_media_clock_init c0) fs) = take 1 (map snd fs)
   \<and> successively steady_pair (zip fs (clock_outputs (rss_media_clock_init c0) fs))"
proof (cases fs)
  case (Cons f fs')
  have init: "\<not> initialized (rss_media_clock_init c0)"
    by (simp add: rss_media_clock_init_def)
  show ?thesis
    by (cases f) (simp add: Cons map_first [OF init] timeline_from)
qed simp

text \<open>When at most half of the populated minima lie below a bound and fewer than half above another, the
  estimate lies between the bounds: outlying seconds in the minority cannot move it past the rest.\<close>

lemma mc_median_robust:
  assumes "length mins \<le> RSS_MEDIA_CLOCK_BUCKETS"
    and "length (filter (\<lambda>v. v \<noteq> INT64_MAX) mins) = n" and "0 < n"
    and "2 * length (filter (\<lambda>v. v < a) (filter (\<lambda>v. v \<noteq> INT64_MAX) mins)) \<le> n"
    and "2 * length (filter (\<lambda>v. v > b) (filter (\<lambda>v. v \<noteq> INT64_MAX) mins)) < n"
  shows "a \<le> median_minimum mins \<and> median_minimum mins \<le> b"
proof -
  have "populated mins \<noteq> []" using assms(2,3) by force
  then show ?thesis
    using median_within [OF assms(1), of a b] assms(2-5) by (simp del: filter_filter)
qed

lemma mc_median_robust_witness:
  "70 \<le> median_minimum [INT64_MAX, 75, 72, 3, 70, 74, INT64_MAX] \<and>
   median_minimum [INT64_MAX, 75, 72, 3, 70, 74, INT64_MAX] \<le> 74"
  by (rule mc_median_robust [where n = 5]) simp_all

section \<open>A constant offset\<close>

definition settled :: "int \<Rightarrow> rss_media_clock_t \<Rightarrow> bool" where
  "settled d c \<longleftrightarrow> initialized c \<and> offset_us c = d \<and> err_ewma_us c = 0
     \<and> length (bucket_min_us c) = 16 \<and> set (bucket_min_us c) \<subseteq> {d, INT64_MAX}"

lemma advance_loop_mins:
  "length (bucket_min_us (advance_loop e c)) = length (bucket_min_us c)
   \<and> set (bucket_min_us (advance_loop e c)) \<subseteq> insert INT64_MAX (set (bucket_min_us c))"
proof (induction e c rule: advance_loop.induct)
  case (1 e c)
  show ?case
  proof (cases "e \<ge> 1000000")
    case True
    have "set ((bucket_min_us c)[i := INT64_MAX]) \<subseteq> insert INT64_MAX (set (bucket_min_us c))" for i
      by (rule set_update_subset_insert)
    then show ?thesis
      using 1 [OF True refl] by (subst (1 2) advance_loop.simps) (auto simp: Let_def)
  qed (subst (1 2) advance_loop.simps, auto)
qed

lemma advance_window_mins:
  assumes "length (bucket_min_us c) = 16"
  shows "length (bucket_min_us (advance_window c t)) = 16
    \<and> set (bucket_min_us (advance_window c t)) \<subseteq> insert INT64_MAX (set (bucket_min_us c))"
  using advance_loop_mins [of "t - bucket_start_us c" c] assms
  by (simp add: advance_window_def clear_buckets_def Let_def)

lemma take_sample_mins:
  assumes "length (bucket_min_us c) = 16"
  shows "length (bucket_min_us (take_sample media now c)) = 16
    \<and> set (bucket_min_us (take_sample media now c))
       \<subseteq> insert (now - media) (insert INT64_MAX (set (bucket_min_us c)))"
proof -
  let ?c = "advance_window c now"
  have "set ((bucket_min_us ?c)[i := now - media]) \<subseteq> insert (now - media) (set (bucket_min_us ?c))" for i
    by (rule set_update_subset_insert)
  then show ?thesis
    using advance_window_mins [OF assms, of now] by (simp add: take_sample_def Let_def) blast
qed

lemma median_constant:
  assumes "length mins = 16" and "set mins \<subseteq> {d, INT64_MAX}"
  shows "median_minimum mins \<in> {d, INT64_MAX}"
proof (cases "populated mins = []")
  case True
  then show ?thesis using median_unpopulated [OF True] assms(1) by simp
next
  case False
  then have "filter (\<lambda>v. v < d) (populated mins) = []" "filter (\<lambda>v. v > d) (populated mins) = []"
    using assms(2) by (auto simp: filter_empty_conv)
  then show ?thesis
    using median_within [of mins d d] False assms(1) by (simp del: filter_filter)
qed

lemma slew_offset_settled:
  "offset_us c = d \<Longrightarrow> err_ewma_us c = 0 \<Longrightarrow> tgt \<in> {d, INT64_MAX} \<Longrightarrow> slew_offset tgt c = c"
proof -
  assume a: "offset_us c = d" "err_ewma_us c = 0" "tgt \<in> {d, INT64_MAX}"
  have "(0 :: int) sdiv 16 = 0"
    using sdiv_cases(1) [of 16 0] by simp
  moreover have "c\<lparr>err_ewma_us := 0, offset_us := d\<rparr> = c"
    using a by (cases c) simp
  ultimately show ?thesis
    using a by (elim insertE) (simp_all add: slew_offset_def Let_def)
qed

lemma settled_map:
  assumes "settled d c" and "now - media = d"
  shows "settled d (snd (rss_media_clock_map c media now)) \<and> fst (rss_media_clock_map c media now) = now"
proof -
  let ?c = "take_sample media now c"
  have c: "initialized c" "offset_us c = d" "err_ewma_us c = 0"
    using assms(1) by (auto simp: settled_def)
  have mins: "length (bucket_min_us ?c) = 16" "set (bucket_min_us ?c) \<subseteq> {d, INT64_MAX}"
    using take_sample_mins [of c media now] assms by (auto simp: settled_def)
  then have "slew_offset (median_minimum (bucket_min_us ?c)) ?c = ?c"
    using median_constant [OF mins] c by (simp add: slew_offset_settled)
  then show ?thesis
    using c mins assms(2) by (auto simp: map_initialized settled_def Let_def)
qed

lemma settled_run: "settled d c \<Longrightarrow> \<forall>f \<in> set fs. snd f - fst f = d \<Longrightarrow> clock_outputs c fs = map snd fs"
proof (induction fs arbitrary: c)
  case (Cons f fs)
  then show ?case
    using settled_map [of d c "snd f" "fst f"] by (auto split: prod.split)
qed simp

text \<open>Frames that all arrive with the same offset are published at exactly their arrival times.\<close>

lemma mc_constant_offset:
  assumes "\<forall>f \<in> set fs. snd f - fst f = d" and "d \<le> INT64_MAX"
  shows "clock_outputs (rss_media_clock_init c0) fs = map snd fs"
proof (cases fs)
  case (Cons f fs')
  have init: "\<not> initialized (rss_media_clock_init c0)"
    by (simp add: rss_media_clock_init_def)
  have "settled d (snd (rss_media_clock_map (rss_media_clock_init c0) (fst f) (snd f)))"
    using assms(1) by (simp add: Cons map_first [OF init], simp add: settled_def rss_media_clock_init_def
        clear_buckets_def numeral_eq_Suc)
  then show ?thesis
    using settled_run [of d] assms(1) by (simp add: Cons map_first [OF init])
qed simp

lemma mc_constant_offset_witness:
  "\<forall>c0. clock_outputs (rss_media_clock_init c0) [(0, 30), (40000, 40030), (99000000, 99000030)] = [30, 40030, 99000030]"
  using mc_constant_offset [of "[(0, 30), (40000, 40030), (99000000, 99000030)]" 30] by simp

section \<open>Ranges\<close>

definition int64 :: "int \<Rightarrow> bool" where
  "int64 x \<longleftrightarrow> - (2 ^ 63) \<le> x \<and> x < 2 ^ 63"

text \<open>Every intermediate result of a call is representable.\<close>

definition map_fits :: "rss_media_clock_t \<Rightarrow> int \<Rightarrow> int \<Rightarrow> bool" where
  "map_fits c media now =
     (if initialized c then
        let c' = take_sample media now c; tgt = median_minimum (bucket_min_us c');
            err = tgt - offset_us c'; c'' = slew_offset tgt c'
        in int64 (now - media) \<and> int64 (now - bucket_start_us c) \<and> int64 (bucket_start_us c')
           \<and> (if tgt = INT64_MAX then True
              else int64 err \<and> int64 (err - err_ewma_us c') \<and> int64 (err_ewma_us c'') \<and> int64 (offset_us c''))
           \<and> int64 (media + offset_us c'')
      else int64 (now - media) \<and> int64 (media + (now - media)))"

definition clock_bounds :: "nat \<Rightarrow> rss_media_clock_t \<Rightarrow> bool" where
  "clock_bounds n c \<longleftrightarrow> initialized c \<and> length (bucket_min_us c) = 16
     \<and> (\<forall>v \<in> set (bucket_min_us c). v = INT64_MAX \<or> \<bar>v\<bar> \<le> 2 ^ 59) \<and> \<bar>bucket_start_us c\<bar> \<le> 2 ^ 58
     \<and> \<bar>offset_us c\<bar> \<le> 2 ^ 59 + 1000 * int n \<and> \<bar>err_ewma_us c\<bar> \<le> 2 ^ 60 + 1000 * int n"

lemma ewma_bound: "\<bar>e + (x - e) sdiv 16\<bar> \<le> max \<bar>e\<bar> \<bar>x :: int\<bar>"
  using sdiv_cases [of 16 "x - e"] by (cases "x \<ge> e") auto

lemma slew_offset_ewma:
  "\<bar>err_ewma_us (slew_offset tgt c)\<bar> \<le> max \<bar>err_ewma_us c\<bar> (if tgt = INT64_MAX then 0 else \<bar>tgt - offset_us c\<bar>)"
  using ewma_bound [of "err_ewma_us c" "tgt - offset_us c"] by (simp add: slew_offset_def Let_def)

lemma advance_loop_start:
  "0 \<le> e \<Longrightarrow> bucket_start_us c \<le> bucket_start_us (advance_loop e c)
    \<and> bucket_start_us (advance_loop e c) \<le> bucket_start_us c + e"
proof (induction e c rule: advance_loop.induct)
  case (1 e c)
  show ?case
  proof (cases "e \<ge> 1000000")
    case True
    then show ?thesis
      using 1(1) [OF True refl] by (subst (1 2) advance_loop.simps) (simp add: Let_def)
  qed (use 1(2) in \<open>subst (1 2) advance_loop.simps, auto\<close>)
qed

lemma advance_window_start:
  assumes "\<bar>bucket_start_us c\<bar> \<le> M" and "\<bar>t\<bar> \<le> M"
  shows "\<bar>bucket_start_us (advance_window c t)\<bar> \<le> M"
  using advance_loop_start [of "t - bucket_start_us c" c] assms
  by (auto simp: advance_window_def clear_buckets_def Let_def)

lemma median_range:
  assumes "length mins = 16" and "\<forall>v \<in> set mins. v = INT64_MAX \<or> \<bar>v\<bar> \<le> M"
  shows "median_minimum mins = INT64_MAX \<or> \<bar>median_minimum mins\<bar> \<le> M"
proof (cases "populated mins = []")
  case True
  then show ?thesis using median_unpopulated [OF True] assms(1) by simp
next
  case False
  then have "filter (\<lambda>v. v < - M) (populated mins) = []" "filter (\<lambda>v. v > M) (populated mins) = []"
    using assms(2) by (fastforce simp: filter_empty_conv)+
  then show ?thesis
    using median_within [of mins "- M" M] False assms(1) by (simp add: abs_le_iff del: filter_filter)
qed

lemma clock_bounds_map:
  assumes "clock_bounds n c" and "\<bar>media\<bar> \<le> 2 ^ 58" and "\<bar>now\<bar> \<le> 2 ^ 58" and "n < 2 ^ 40"
  shows "map_fits c media now \<and> clock_bounds (Suc n) (clock_step (media, now) c)"
proof -
  define c' where "c' = take_sample media now c"
  define tgt where "tgt = median_minimum (bucket_min_us c')"
  define c'' where "c'' = slew_offset tgt c'"
  have c: "initialized c" "length (bucket_min_us c) = 16" "\<bar>bucket_start_us c\<bar> \<le> 2 ^ 58"
    "\<bar>offset_us c\<bar> \<le> 2 ^ 59 + 1000 * int n" "\<bar>err_ewma_us c\<bar> \<le> 2 ^ 60 + 1000 * int n"
    using assms(1) by (auto simp: clock_bounds_def)
  have mins: "length (bucket_min_us c') = 16" "\<forall>v \<in> set (bucket_min_us c'). v = INT64_MAX \<or> \<bar>v\<bar> \<le> 2 ^ 59"
    using take_sample_mins [OF c(2), of media now] assms by (fastforce simp: clock_bounds_def c'_def)+
  have start: "\<bar>bucket_start_us c'\<bar> \<le> 2 ^ 58"
    using advance_window_start [OF c(3) assms(3)] by (simp add: c'_def)
  have tgt: "tgt = INT64_MAX \<or> \<bar>tgt\<bar> \<le> 2 ^ 59"
    using median_range [OF mins] by (simp add: tgt_def)
  have off: "\<bar>offset_us c''\<bar> \<le> 2 ^ 59 + 1000 * int (Suc n)"
    using slew_offset_bound [of tgt c'] c(4) by (simp add: c'_def c''_def)
  have ewma: "\<bar>err_ewma_us c''\<bar> \<le> 2 ^ 60 + 1000 * int n"
    using slew_offset_ewma [of tgt c'] c(4,5) tgt by (auto simp: c'_def c''_def split: if_splits)
  have step: "clock_step (media, now) c = c''"
    by (simp add: clock_step_def map_initialized c(1) Let_def c''_def tgt_def c'_def)
  have n: "1000 * int n < 2 ^ 50" using assms(4) by simp
  have c': "offset_us c' = offset_us c" "err_ewma_us c' = err_ewma_us c"
    by (simp_all add: c'_def)
  have "int64 (now - media)" "int64 (now - bucket_start_us c)" "int64 (bucket_start_us c')"
    "int64 (err_ewma_us c'')" "int64 (offset_us c'')" "int64 (media + offset_us c'')"
    using c(3) off ewma start assms(2,3) n by (simp_all add: int64_def abs_le_iff)
  moreover have "int64 (tgt - offset_us c') \<and> int64 (tgt - offset_us c' - err_ewma_us c')" if "\<bar>tgt\<bar> \<le> 2 ^ 59"
    using that c(4,5) n by (simp add: int64_def c' abs_le_iff)
  ultimately have "map_fits c media now"
    using c(1) tgt unfolding map_fits_def Let_def c'_def [symmetric] tgt_def [symmetric] c''_def [symmetric]
    by auto
  moreover have "clock_bounds (Suc n) c''"
    using c mins start off ewma by (simp add: clock_bounds_def c''_def c'_def)
  ultimately show ?thesis by (simp add: step)
qed

lemma clock_bounds_run:
  "clock_bounds n c \<Longrightarrow> n + length fs \<le> 2 ^ 40 \<Longrightarrow> \<forall>f \<in> set fs. \<bar>fst f\<bar> \<le> 2 ^ 58 \<and> \<bar>snd f\<bar> \<le> 2 ^ 58
   \<Longrightarrow> clock_bounds (n + length fs) (fold clock_step fs c)"
proof (induction fs arbitrary: n c)
  case (Cons f fs)
  then show ?case
    using clock_bounds_map [of n c "fst f" "snd f"] Cons.IH [of "Suc n" "clock_step f c"] by simp
qed simp

lemma clock_bounds_first:
  assumes "\<bar>fst f\<bar> \<le> 2 ^ 58" and "\<bar>snd f\<bar> \<le> 2 ^ 58"
  shows "clock_bounds 1 (clock_step f (rss_media_clock_init c0))"
proof -
  have init: "\<not> initialized (rss_media_clock_init c0)"
    by (simp add: rss_media_clock_init_def)
  have "set ((replicate 16 INT64_MAX)[0 := snd f - fst f]) \<subseteq> {snd f - fst f, INT64_MAX}"
    using set_update_subset_insert [of "replicate 16 INT64_MAX" 0 "snd f - fst f"] by auto
  then show ?thesis
    using assms
    by (auto simp: clock_step_def map_first [OF init], auto simp: clock_bounds_def rss_media_clock_init_def clear_buckets_def)
qed

text \<open>For times of magnitude at most 2^58 microseconds and fewer than 2^40 frames, no intermediate
  result of a call leaves the range of the 64-bit type, so no signed overflow happens.\<close>

lemma mc_no_overflow:
  assumes "\<forall>f \<in> set (fs @ [(media, now)]). \<bar>fst f\<bar> \<le> 2 ^ 58 \<and> \<bar>snd f\<bar> \<le> 2 ^ 58"
    and "length fs < 2 ^ 40"
  shows "map_fits (clock_run c0 fs) media now"
proof (cases fs)
  case Nil
  then show ?thesis
    using assms by (auto simp: clock_run_def map_fits_def rss_media_clock_init_def int64_def)
next
  case (Cons f fs')
  have "clock_bounds (length fs) (clock_run c0 fs)"
    using clock_bounds_run [OF clock_bounds_first, of f fs' c0] assms by (simp add: clock_run_def Cons)
  then show ?thesis
    using clock_bounds_map [of "length fs" "clock_run c0 fs" media now] assms by simp
qed

lemma mc_no_overflow_witness:
  "\<forall>c0. map_fits (clock_run c0 [(0, 50), (40000, 40020)]) 900000 900070"
  using mc_no_overflow [of "[(0, 50), (40000, 40020)]" 900000 900070] by simp

end
