(* ===== verification/Rss_Cstr.thy ===== *)
theory Rss_Cstr
  imports Rss_Prelude "HOL-Library.Sublist"
begin

text \<open>
  C strings and the functions of \<open>string.h\<close>, \<open>strings.h\<close>, \<open>ctype.h\<close> and \<open>stdio.h\<close> the
  library calls, in the C locale.  A C string is the list of the characters before its
  terminator; \<open>cstr\<close> says that a list is one.  Reading a file line by line with \<open>fgets\<close>
  is an interface of its own (locale \<open>chunk_reader\<close>), with the facts the two readers of
  text files, the account database and the configuration, rest on.
\<close>

section \<open>Characters\<close>

abbreviation (input) NUL :: char where "NUL \<equiv> CHR 0x00"
abbreviation (input) CR :: char where "CR \<equiv> CHR 0x0D"
abbreviation (input) LF :: char where "LF \<equiv> CHR 0x0A"

definition ccode :: "char \<Rightarrow> nat" where
  "ccode c = of_char c"

definition isspace :: "char \<Rightarrow> bool" where
  "isspace c \<longleftrightarrow> c = CHR '' '' \<or> (9 \<le> ccode c \<and> ccode c \<le> 13)"

definition isdigit :: "char \<Rightarrow> bool" where
  "isdigit c \<longleftrightarrow> 48 \<le> ccode c \<and> ccode c \<le> 57"

definition ctolower :: "char \<Rightarrow> char" where
  "ctolower c = (if 65 \<le> ccode c \<and> ccode c \<le> 90 then char_of (ccode c + 32) else c)"

lemma ccode_lt: "ccode c < 256"
  by (simp add: ccode_def)

lemma ccode_inject [simp]: "ccode c = ccode d \<longleftrightarrow> c = d"
  by (simp add: ccode_def of_char_eq_iff)

lemma not_isspace_NUL [simp]: "\<not> isspace NUL"
  by (simp add: isspace_def ccode_def)

section \<open>Strings\<close>

definition cstr :: "string \<Rightarrow> bool" where
  "cstr s \<longleftrightarrow> NUL \<notin> set s"

text \<open>The C string at the start of a character array.\<close>

definition c_str :: "string \<Rightarrow> string" where
  "c_str buf = takeWhile (\<lambda>c. c \<noteq> NUL) buf"

lemma cstr_c_str [simp]: "cstr (c_str buf)"
  by (auto simp: cstr_def c_str_def dest: set_takeWhileD)

lemma c_str_cstr [simp]: "cstr s \<Longrightarrow> c_str s = s"
  by (auto simp: cstr_def c_str_def takeWhile_eq_all_conv)

lemma c_str_append_NUL [simp]: "cstr s \<Longrightarrow> c_str (s @ NUL # r) = s"
  by (induction s) (auto simp: c_str_def cstr_def)

lemma cstr_simps [simp]:
  "cstr []" "cstr (c # s) \<longleftrightarrow> c \<noteq> NUL \<and> cstr s" "cstr (s @ t) \<longleftrightarrow> cstr s \<and> cstr t"
  by (auto simp: cstr_def)

lemma cstr_sub: "cstr s \<Longrightarrow> set t \<subseteq> set s \<Longrightarrow> cstr t"
  by (auto simp: cstr_def)

lemma cstr_take [simp]: "cstr s \<Longrightarrow> cstr (take n s)"
  by (erule cstr_sub) (rule set_take_subset)

lemma cstr_drop [simp]: "cstr s \<Longrightarrow> cstr (drop n s)"
  by (erule cstr_sub) (rule set_drop_subset)

text \<open>\<open>strncmp\<close> and \<open>strncasecmp\<close>: the difference at the first character that differs.\<close>

fun strncmp :: "string \<Rightarrow> string \<Rightarrow> nat \<Rightarrow> int" where
  "strncmp s t 0 = 0"
| "strncmp [] [] (Suc n) = 0"
| "strncmp (a # s) [] (Suc n) = int (ccode a)"
| "strncmp [] (b # t) (Suc n) = - int (ccode b)"
| "strncmp (a # s) (b # t) (Suc n) = (if a \<noteq> b then int (ccode a) - int (ccode b) else if a = NUL then 0 else strncmp s t n)"

definition strncasecmp :: "string \<Rightarrow> string \<Rightarrow> nat \<Rightarrow> int" where
  "strncasecmp s t n = strncmp (map ctolower s) (map ctolower t) n"

definition strcmp :: "string \<Rightarrow> string \<Rightarrow> int" where
  "strcmp s t = strncmp s t (Suc (max (length s) (length t)))"

definition strcasecmp :: "string \<Rightarrow> string \<Rightarrow> int" where
  "strcasecmp s t = strcmp (map ctolower s) (map ctolower t)"

lemma ccode_pos: "0 < ccode c \<longleftrightarrow> c \<noteq> NUL"
proof -
  have "ccode c = 0 \<longleftrightarrow> c = NUL"
    using ccode_inject [of c NUL] by (simp add: ccode_def del: ccode_inject)
  then show ?thesis by auto
qed

lemma ccode_NUL [simp]: "ccode NUL = 0"
  using ccode_pos [of NUL] by simp

lemma c_str_Cons: "c_str (c # s) = (if c = NUL then [] else c # c_str s)"
  by (simp add: c_str_def)

lemma c_str_Nil [simp]: "c_str [] = []"
  by (simp add: c_str_def)

lemma strncmp_c_str: "strncmp s t n = 0 \<longleftrightarrow> take n (c_str s) = take n (c_str t)"
  by (induction s t n rule: strncmp.induct) (auto simp: c_str_Cons ccode_pos dest: sym)

lemma strncmp_eq_0: "cstr s \<Longrightarrow> cstr t \<Longrightarrow> strncmp s t n = 0 \<longleftrightarrow> take n s = take n t"
  by (simp add: strncmp_c_str)

lemma length_c_str: "length (c_str s) \<le> length s"
  by (simp add: c_str_def length_takeWhile_le)

lemma strcmp_c_str: "strcmp s t = 0 \<longleftrightarrow> c_str s = c_str t"
  using length_c_str [of s] length_c_str [of t] by (simp add: strcmp_def strncmp_c_str)

lemma strcmp_eq_0 [simp]: "cstr s \<Longrightarrow> cstr t \<Longrightarrow> strcmp s t = 0 \<longleftrightarrow> s = t"
  by (simp add: strcmp_c_str)

lemma ctolower_NUL: "ctolower c = NUL \<longleftrightarrow> c = NUL"
proof (cases "65 \<le> ccode c \<and> ccode c \<le> 90")
  case True
  then have "ccode (char_of (ccode c + 32)) = ccode c + 32"
    by (simp add: ccode_def of_char_of)
  then have "char_of (ccode c + 32) \<noteq> NUL" "c \<noteq> NUL"
    using True ccode_pos [of "char_of (ccode c + 32)"] ccode_pos [of c] by auto
  then show ?thesis using True by (simp add: ctolower_def)
next
  case False
  then show ?thesis unfolding ctolower_def by (simp only: if_False)
qed

lemma cstr_map_ctolower [simp]: "cstr (map ctolower s) = cstr s"
proof -
  have "NUL \<in> ctolower ` set s \<longleftrightarrow> NUL \<in> set s"
    using ctolower_NUL by (metis (no_types, lifting) imageE imageI)
  then show ?thesis by (simp add: cstr_def)
qed

lemma c_str_map_ctolower: "c_str (map ctolower s) = map ctolower (c_str s)"
  by (induction s) (auto simp: c_str_Cons ctolower_NUL)

text \<open>Names compare without case: \<open>fold_name\<close> is what the comparison sees of a name.\<close>

definition fold_name :: "string \<Rightarrow> string" where
  "fold_name s = map ctolower (c_str s)"

lemma strcasecmp_fold: "strcasecmp s t = 0 \<longleftrightarrow> fold_name s = fold_name t"
  by (simp add: strcasecmp_def strcmp_c_str c_str_map_ctolower fold_name_def)

lemma strncmp_prefix: "cstr s \<Longrightarrow> cstr p \<Longrightarrow> strncmp s p (length p) = 0 \<longleftrightarrow> prefix p s"
  by (simp add: strncmp_eq_0 prefix_def) (metis append_take_drop_id append_eq_conv_conj)

text \<open>\<open>strchr\<close>: the rest from the first occurrence of a character.\<close>

definition strchr :: "string \<Rightarrow> char \<Rightarrow> string option" where
  "strchr s c = (case dropWhile (\<lambda>x. x \<noteq> c) s of [] \<Rightarrow> None | r \<Rightarrow> Some r)"

lemma strchr_Some: "strchr s c = Some r \<longleftrightarrow> (\<exists>p. s = p @ r \<and> c \<notin> set p \<and> r \<noteq> [] \<and> hd r = c)"
proof
  assume "strchr s c = Some r"
  then have r: "dropWhile (\<lambda>x. x \<noteq> c) s = r" "r \<noteq> []"
    by (auto simp: strchr_def split: list.splits)
  then have "s = takeWhile (\<lambda>x. x \<noteq> c) s @ r" "hd r = c"
    by (auto intro: takeWhile_dropWhile_id [symmetric] dest: hd_dropWhile)
  moreover have "c \<notin> set (takeWhile (\<lambda>x. x \<noteq> c) s)"
    by (auto dest: set_takeWhileD)
  ultimately show "\<exists>p. s = p @ r \<and> c \<notin> set p \<and> r \<noteq> [] \<and> hd r = c"
    using r(2) by blast
next
  assume "\<exists>p. s = p @ r \<and> c \<notin> set p \<and> r \<noteq> [] \<and> hd r = c"
  then obtain p where s: "s = p @ r" and p: "c \<notin> set p" and r: "r \<noteq> []" "hd r = c" by blast
  have "dropWhile (\<lambda>x. x \<noteq> c) s = r"
    using p r by (cases r) (auto simp: s dropWhile_append)
  then show "strchr s c = Some r"
    using r(1) by (cases r) (simp_all add: strchr_def)
qed

lemma strchr_None: "strchr s c = None \<longleftrightarrow> c \<notin> set s"
proof -
  have "strchr s c = None \<longleftrightarrow> dropWhile (\<lambda>x. x \<noteq> c) s = []"
    unfolding strchr_def by (cases "dropWhile (\<lambda>x. x \<noteq> c) s") (simp_all only: list.case option.simps list.simps simp_thms)
  also have "\<dots> \<longleftrightarrow> c \<notin> set s"
    by (simp only: dropWhile_eq_Nil_conv) blast
  finally show ?thesis .
qed

lemma first_unique:
  "xs @ c # ys = xs' @ c # ys' \<Longrightarrow> c \<notin> set xs \<Longrightarrow> c \<notin> set xs' \<Longrightarrow> xs = xs' \<and> ys = ys'"
proof (induction xs arbitrary: xs')
  case Nil
  then show ?case by (cases xs') auto
next
  case (Cons x xs)
  then show ?case by (cases xs') auto
qed

section \<open>Reading lines\<close>

text \<open>
  \<open>fgets(line, n, f)\<close>: up to \<open>n - 1\<close> characters, the newline included, of what is left
  of the file; \<open>None\<close> at its end.
\<close>

definition fgets :: "nat \<Rightarrow> string \<Rightarrow> (string \<times> string) option" where
  "fgets n f =
     (if f = [] \<or> n \<le> 1 then None
      else let l = takeWhile (\<lambda>c. c \<noteq> LF) (take (n - 1) f);
               k = (if length l < n - 1 \<and> length l < length f then length l + 1 else length l)
           in Some (take k f, drop k f))"

locale chunk_reader =
  fixes next_chunk :: "'s \<Rightarrow> (string \<times> 's) option"
    and content :: "'s \<Rightarrow> string"
    and room :: nat
  assumes next_None: "next_chunk s = None \<longleftrightarrow> content s = []"
    and next_Some: "next_chunk s = Some (l, s') \<Longrightarrow> content s = l @ content s' \<and> l \<noteq> [] \<and> length l \<le> room"
    and next_line: "next_chunk s = Some (l, s') \<Longrightarrow> LF \<notin> set (butlast l)"
    and next_whole: "next_chunk s = Some (l, s') \<Longrightarrow> last l = LF \<or> length l = room \<or> content s' = []"
begin

lemma next_shorter: "next_chunk s = Some (l, s') \<Longrightarrow> length (content s') < length (content s)"
  by (auto dest!: next_Some)

lemma next_full_line:
  assumes "next_chunk s = Some (l, s')" and "content s = x @ LF # y" and "LF \<notin> set x" and "length x < room"
  shows "l = x @ [LF] \<and> content s' = y"
proof -
  have s: "x @ LF # y = l @ content s'" and l: "l \<noteq> []"
    using next_Some [OF assms(1)] assms(2) by auto
  consider z where "x = l @ z" "content s' = z @ LF # y" | "l = x @ [LF]" "content s' = y"
    | z where "z \<noteq> []" "l = x @ LF # z"
    using s by (auto simp: append_eq_append_conv2 Cons_eq_append_conv)
  then show ?thesis
  proof cases
    case 1
    then have "last l \<noteq> LF" using l assms(3) last_in_set by force
    then have "length l = room" using next_whole [OF assms(1)] 1 by auto
    with 1 assms(4) show ?thesis by simp
  next
    case 3
    then have "LF \<in> set (butlast l)" by (auto simp: butlast_append)
    then show ?thesis using next_line [OF assms(1)] by simp
  qed auto
qed

lemma next_last_line:
  assumes "next_chunk s = Some (l, s')" and "LF \<notin> set (content s)" and "length (content s) \<le> room"
  shows "l = content s \<and> content s' = []"
proof -
  have "last l \<noteq> LF"
    using next_Some [OF assms(1)] assms(2) last_in_set by force
  then show ?thesis
    using next_whole [OF assms(1)] next_Some [OF assms(1)] assms(3) by auto
qed

end

lemma fgets_None: "1 < n \<Longrightarrow> fgets n f = None \<longleftrightarrow> f = []"
  by (simp add: fgets_def Let_def)

lemma fgets_Some:
  assumes "fgets n f = Some (l, f')"
  shows "f = l @ f' \<and> l \<noteq> [] \<and> length l \<le> n - 1 \<and> LF \<notin> set (butlast l)
    \<and> (last l = LF \<or> length l = n - 1 \<or> f' = [])"
proof -
  let ?p = "take (n - 1) f"
  let ?l = "takeWhile (\<lambda>c. c \<noteq> LF) ?p"
  have f: "f \<noteq> []" "n > 1"
    using assms by (auto simp: fgets_def split: if_splits)
  have lf: "LF \<notin> set ?l" by (auto dest: set_takeWhileD)
  have le: "length ?l \<le> length ?p" by (rule length_takeWhile_le)
  have l: "?l = take (length ?l) f"
  proof -
    have "?l = take (length ?l) ?p" by (rule takeWhile_eq_take)
    also have "\<dots> = take (min (length ?l) (n - 1)) f" by (rule take_take)
    also have "min (length ?l) (n - 1) = length ?l" using le by simp
    finally show ?thesis .
  qed
  show ?thesis
  proof (cases "length ?l < n - 1 \<and> length ?l < length f")
    case True
    then have "length ?l < length ?p" by simp
    then have "?p ! length ?l = LF"
      using nth_length_takeWhile by blast
    then have nl: "f ! length ?l = LF" using True by simp
    have r: "l = take (Suc (length ?l)) f" "f' = drop (Suc (length ?l)) f"
      using assms f True by (auto simp: fgets_def Let_def)
    have fl: "f = l @ f'" unfolding r by (rule append_take_drop_id [symmetric])
    have "l = ?l @ [LF]"
      using True nl l r(1) by (simp add: take_Suc_conv_app_nth)
    then have "length l \<le> n - 1" "butlast l = ?l" "last l = LF" "l \<noteq> []"
      using True by (simp_all del: length_takeWhile_le)
    with fl lf show ?thesis by metis
  next
    case False
    then have r: "l = take (length ?l) f" "f' = drop (length ?l) f"
      using assms f by (auto simp: fgets_def Let_def split: if_splits)
    have "length ?l = n - 1 \<or> length ?l = length f"
    proof -
      have "length ?l \<le> n - 1" "length ?l \<le> length f"
        using le by (simp_all only: length_take)
      then show ?thesis using False by linarith
    qed
    moreover have "l = ?l" using l r(1) by simp
    moreover have "l \<noteq> []" using calculation f r by auto
    ultimately show ?thesis
      using lf r le by (auto dest: in_set_butlastD)
  qed
qed

interpretation fgets512: chunk_reader "fgets 512" "\<lambda>f. f" 511
proof unfold_locales
  fix s l s'
  show "fgets 512 s = None \<longleftrightarrow> s = []" by (simp add: fgets_None)
  assume "fgets 512 s = Some (l, s')"
  from fgets_Some [OF this] show "s = l @ s' \<and> l \<noteq> [] \<and> length l \<le> 511" "LF \<notin> set (butlast l)"
    "last l = LF \<or> length l = 511 \<or> s' = []"
    by simp_all
qed

section \<open>A file is its lines\<close>

function split_lines :: "string \<Rightarrow> string list" where
  "split_lines s =
     (if s = [] then []
      else takeWhile (\<lambda>c. c \<noteq> LF) s #
           (case dropWhile (\<lambda>c. c \<noteq> LF) s of [] \<Rightarrow> [] | _ # r \<Rightarrow> split_lines r))"
  by pat_completeness auto
termination
proof (relation "measure length", goal_cases)
  case (2 s x21 x22)
  then show ?case
    using length_dropWhile_le [of "\<lambda>c. c \<noteq> LF" s] by (metis in_measure length_Cons less_eq_Suc_le)
qed simp

declare split_lines.simps [simp del]

lemma split_lines_Nil [simp]: "split_lines [] = []"
  by (simp add: split_lines.simps)

lemma split_lines_line: "LF \<notin> set x \<Longrightarrow> split_lines (x @ LF # y) = x # split_lines y"
proof -
  assume x: "LF \<notin> set x"
  have "takeWhile (\<lambda>c. c \<noteq> LF) (x @ LF # y) = x" "dropWhile (\<lambda>c. c \<noteq> LF) (x @ LF # y) = LF # y"
    using x by (induction x) auto
  then show ?thesis by (subst split_lines.simps) simp
qed

lemma split_lines_last: "LF \<notin> set x \<Longrightarrow> x \<noteq> [] \<Longrightarrow> split_lines x = [x]"
proof -
  assume x: "LF \<notin> set x" "x \<noteq> []"
  have "takeWhile (\<lambda>c. c \<noteq> LF) x = x" "dropWhile (\<lambda>c. c \<noteq> LF) x = []"
    using x(1) by (induction x) auto
  then show ?thesis using x(2) by (subst split_lines.simps) (simp only: if_False list.case simp_thms)
qed

lemma split_lines_cases:
  obtains (Nil) "s = []" | (last) "s \<noteq> []" "LF \<notin> set s" | (line) x y where "s = x @ LF # y" "LF \<notin> set x"
proof (cases "LF \<in> set s")
  case True
  then show thesis using line by (metis split_list_first)
next
  case False
  then show thesis using Nil last by blast
qed

lemma split_lines_no_LF: "l \<in> set (split_lines s) \<Longrightarrow> LF \<notin> set l"
proof (induction s rule: split_lines.induct)
  case (1 s)
  show ?case
  proof (cases s rule: split_lines_cases)
    case Nil
    then show ?thesis using 1(2) by simp
  next
    case last
    then show ?thesis using 1(2) by (simp add: split_lines_last)
  next
    case (line x y)
    have "dropWhile (\<lambda>c. c \<noteq> LF) s = LF # y" using line by (induction x arbitrary: s) auto
    then have "l \<in> set (split_lines y) \<Longrightarrow> LF \<notin> set l"
      using 1(1) [of LF y] line(1) by simp
    then show ?thesis using 1(2) line by (auto simp: split_lines_line)
  qed
qed

lemma set_split_lines: "l \<in> set (split_lines s) \<Longrightarrow> set l \<subseteq> set s"
proof (induction s rule: split_lines.induct)
  case (1 s)
  show ?case
  proof (cases s rule: split_lines_cases)
    case Nil
    then show ?thesis using 1(2) by simp
  next
    case last
    then show ?thesis using 1(2) by (simp add: split_lines_last)
  next
    case (line x y)
    have "dropWhile (\<lambda>c. c \<noteq> LF) s = LF # y" using line by (induction x arbitrary: s) auto
    then have "l \<in> set (split_lines y) \<Longrightarrow> set l \<subseteq> set y"
      using 1(1) [of LF y] line(1) by simp
    then show ?thesis using 1(2) line by (auto simp: split_lines_line)
  qed
qed

end
