(* ===== verification/Rss_Util.thy ===== *)
theory Rss_Util
  imports Rss_Cstr
begin

text \<open>
  The string helpers of \<open>src/rss_util.c\<close>.  A string argument that may be \<open>NULL\<close> is an
  option, a destination array is the list of its characters.
\<close>

section \<open>Model\<close>

definition rss_strlcpy :: "string option \<Rightarrow> string option \<Rightarrow> nat \<Rightarrow> nat \<times> string option" where
  "rss_strlcpy dst src dst_size =
     (case dst of None \<Rightarrow> (0, None)
      | Some d \<Rightarrow>
        if dst_size < 1 then (0, Some d)
        else case src of None \<Rightarrow> (0, Some (put d 0 [NUL]))
          | Some s \<Rightarrow>
            let copied = take (dst_size - 1) s
            in (length copied + length (drop (length copied) s), Some (put d 0 (copied @ [NUL]))))"

text \<open>Stepping back from the last character: \<open>trim_end s k\<close> is the index \<open>end\<close> stops at.\<close>

fun trim_end :: "string \<Rightarrow> nat \<Rightarrow> nat" where
  "trim_end s 0 = 0"
| "trim_end s (Suc k) = (if isspace (s ! Suc k) then trim_end s k else Suc k)"

definition rss_trim :: "string \<Rightarrow> string" where
  "rss_trim s =
     (let s = dropWhile isspace s
      in if s = [] then s else take (trim_end s (length s - 1) + 1) s)"

definition rss_starts_with :: "string option \<Rightarrow> string option \<Rightarrow> bool" where
  "rss_starts_with s prfx =
     (case (s, prfx) of (Some s, Some p) \<Rightarrow> strncmp s p (length p) = 0 | _ \<Rightarrow> False)"

definition uchar :: "char \<Rightarrow> u8" where
  "uchar c = of_nat (ccode c)"

definition secure_buf :: "string \<Rightarrow> u8 list" where
  "secure_buf s = put (replicate 256 0) 0 (map uchar s)"

definition secure_diff :: "u8 list \<Rightarrow> u8 list \<Rightarrow> u32" where
  "secure_diff buf_a buf_b = foldl (\<lambda>diff i. diff OR ucast (buf_a ! i XOR buf_b ! i)) 0 [0..<256]"

definition rss_secure_compare :: "string option \<Rightarrow> string option \<Rightarrow> bool" where
  "rss_secure_compare a b =
     (case (a, b) of
        (Some a, Some b) \<Rightarrow>
          if length a > 255 \<or> length b > 255 then False
          else secure_diff (secure_buf a) (secure_buf b) = 0
      | _ \<Rightarrow> False)"

section \<open>Copying\<close>

lemma uchar_inject [simp]: "uchar c = uchar d \<longleftrightarrow> c = d"
proof
  assume "uchar c = uchar d"
  then have "unat (of_nat (ccode c) :: u8) = unat (of_nat (ccode d) :: u8)"
    by (simp add: uchar_def)
  then have "ccode c = ccode d"
    using ccode_lt [of c] ccode_lt [of d] by (simp add: unat_of_nat)
  then show "c = d" by simp
qed simp

lemma uchar_0 [simp]: "uchar c = 0 \<longleftrightarrow> c = NUL"
proof -
  have "uchar NUL = 0" by (simp add: uchar_def ccode_def)
  then show ?thesis using uchar_inject by metis
qed

text \<open>What a reader of the destination finds: at most \<open>dst_size - 1\<close> characters of the source.\<close>

lemma strlcpy_reads:
  assumes "cstr s" and "1 \<le> dst_size" and "dst_size \<le> length d"
  shows "rss_strlcpy (Some d) (Some s) dst_size = (n, Some d') \<Longrightarrow>
    n = length s \<and> c_str d' = take (dst_size - 1) s \<and> length d' = length d \<and> drop dst_size d' = drop dst_size d"
proof -
  assume a: "rss_strlcpy (Some d) (Some s) dst_size = (n, Some d')"
  have len: "length (take (dst_size - 1) s @ [NUL]) \<le> dst_size"
    using assms(2) by simp
  have d': "d' = put d 0 (take (dst_size - 1) s @ [NUL])" and n: "n = length s"
    using a assms(2) by (auto simp: rss_strlcpy_def Let_def)
  have "cstr (take (dst_size - 1) s)" using assms(1) by simp
  then have "c_str d' = take (dst_size - 1) s"
    by (simp add: d' put_def c_str_append_NUL)
  moreover have "length d' = length d"
    using len assms(3) by (simp add: d' put_def)
  moreover have "drop dst_size d' = drop dst_size d"
    using len assms(3) unfolding d' by (intro drop_put_after) simp_all
  ultimately show ?thesis using n by simp
qed

section \<open>Trimming\<close>

definition trimmed :: "string \<Rightarrow> bool" where
  "trimmed s \<longleftrightarrow> s = [] \<or> (\<not> isspace (hd s) \<and> \<not> isspace (last s))"

lemma trim_end_le: "trim_end s k \<le> k"
  by (induction s k rule: trim_end.induct) auto

lemma trim_end_stops: "\<not> isspace (s ! 0) \<Longrightarrow> \<not> isspace (s ! trim_end s k)"
  by (induction s k rule: trim_end.induct) auto

lemma trim_end_rest: "trim_end s k < i \<Longrightarrow> i \<le> k \<Longrightarrow> isspace (s ! i)"
  by (induction s k rule: trim_end.induct) (auto split: if_splits simp: le_Suc_eq)

lemma rss_trim_split:
  obtains ws ws' where "s = ws @ rss_trim s @ ws'" and "\<forall>c \<in> set ws. isspace c" and "\<forall>c \<in> set ws'. isspace c"
proof -
  let ?s = "dropWhile isspace s"
  let ?e = "trim_end ?s (length ?s - 1)"
  define ws' where "ws' = (if ?s = [] then [] else drop (?e + 1) ?s)"
  have "isspace c" if c: "c \<in> set ws'" for c
  proof -
    obtain i where "c = ?s ! (?e + 1 + i)" "?e + 1 + i < length ?s"
      using c by (auto simp: ws'_def in_set_conv_nth split: if_splits)
    then show "isspace c" using trim_end_rest [of ?s "length ?s - 1" "?e + 1 + i"] by simp
  qed
  moreover have "isspace c" if "c \<in> set (takeWhile isspace s)" for c
    using that by (rule set_takeWhileD [THEN conjunct2])
  moreover have "s = takeWhile isspace s @ rss_trim s @ ws'"
  proof -
    have "?s = rss_trim s @ ws'"
      by (cases "?s = []") (simp_all only: ws'_def rss_trim_def Let_def if_True if_False append_take_drop_id append_Nil simp_thms)
    then show ?thesis by (metis takeWhile_dropWhile_id)
  qed
  ultimately show ?thesis
    using that by blast
qed

lemma trimmed_rss_trim: "trimmed (rss_trim s)"
proof (cases "dropWhile isspace s")
  case (Cons c r)
  let ?s = "c # r"
  have ns: "\<not> isspace c"
    using Cons hd_dropWhile [of isspace s] by simp
  have e: "trim_end ?s (length r) < length ?s"
    using trim_end_le [of ?s "length r"] by simp
  have t: "rss_trim s = take (Suc (trim_end ?s (length r))) ?s"
    by (simp add: rss_trim_def Cons)
  have "last (rss_trim s) = ?s ! trim_end ?s (length r)"
    unfolding t take_Suc_conv_app_nth [OF e] by simp
  moreover have "hd (rss_trim s) = c" by (simp add: t)
  ultimately show ?thesis
    using ns trim_end_stops [of ?s "length r"] by (simp add: trimmed_def)
qed (simp add: rss_trim_def trimmed_def)

text \<open>The trimmed core of a string is the only way to write it as blanks around a trimmed string.\<close>

lemma rss_trim_unique:
  assumes "trimmed t" and "\<forall>c \<in> set ws. isspace c" and "\<forall>c \<in> set ws'. isspace c"
  shows "rss_trim (ws @ t @ ws') = t"
proof (cases "t = []")
  case True
  then have "dropWhile isspace (ws @ t @ ws') = []" using assms by auto
  then show ?thesis using True by (simp add: rss_trim_def)
next
  case False
  have dw: "dropWhile isspace (ws @ t @ ws') = t @ ws'"
    using assms False by (cases t) (auto simp: dropWhile_append trimmed_def)
  have "trim_end (t @ ws') (length t - 1 + k) = length t - 1" if "k \<le> length ws'" for k
    using that
  proof (induction k)
    case 0
    have "\<not> isspace ((t @ ws') ! (length t - 1))"
      using assms(1) False by (simp add: trimmed_def nth_append last_conv_nth)
    then show ?case
      using trim_end_rest [of "t @ ws'" "length t - 1" "length t - 1"] trim_end_le [of "t @ ws'" "length t - 1"]
      by (simp add: nat_less_le) (metis le_neq_implies_less)
  next
    case (Suc k)
    have "(t @ ws') ! Suc (length t - 1 + k) = ws' ! k"
      using False by (cases t) (simp_all add: nth_append)
    then have "isspace ((t @ ws') ! Suc (length t - 1 + k))"
      using Suc.prems assms(3) by simp
    then show ?case using Suc by simp
  qed
  from this [of "length ws'"] have e: "trim_end (t @ ws') (length (t @ ws') - 1) = length t - 1"
    using False by (cases t) (simp_all add: add.commute)
  show ?thesis
    unfolding rss_trim_def dw Let_def e using False by simp
qed

lemma rss_trim_trimmed [simp]: "trimmed t \<Longrightarrow> rss_trim t = t"
  using rss_trim_unique [of t "[]" "[]"] by simp

lemma set_rss_trim: "set (rss_trim s) \<subseteq> set s"
  by (rule rss_trim_split [of s]) (metis Un_upper1 Un_upper2 le_supI2 set_append)

lemma cstr_rss_trim [simp]: "cstr s \<Longrightarrow> cstr (rss_trim s)"
  by (erule cstr_sub) (rule set_rss_trim)

section \<open>Comparing\<close>

lemma fold_or_eq_0:
  fixes f :: "nat \<Rightarrow> 'a::len word"
  shows "foldl (\<lambda>d i. d OR f i) z xs = 0 \<longleftrightarrow> z = 0 \<and> (\<forall>i \<in> set xs. f i = 0)"
  by (induction xs arbitrary: z) (auto simp: or_eq_0_iff)

lemma secure_buf_nth: "length s \<le> 255 \<Longrightarrow> i < 256 \<Longrightarrow> secure_buf s ! i = (if i < length s then uchar (s ! i) else 0)"
  by (simp add: secure_buf_def put_def nth_append)

lemma ucast_eq_0: "(ucast (w :: u8) :: u32) = 0 \<longleftrightarrow> w = 0"
proof -
  have "unat (ucast w :: u32) = unat w"
    using unsigned_less [of w, where ?'a = nat] by (simp add: unsigned_ucast_eq take_bit_eq_mod)
  then show ?thesis by (metis unat_eq_zero)
qed

lemma xor_eq_0: "x XOR y = 0 \<longleftrightarrow> x = (y :: 'a::len word)"
proof
  assume "x XOR y = 0"
  then have "(x XOR y) XOR y = y" by simp
  then show "x = y" by (simp add: xor.assoc)
qed simp

lemma secure_diff_0: "secure_diff x y = 0 \<longleftrightarrow> (\<forall>i < 256. x ! i = y ! i)"
  by (auto simp: secure_diff_def fold_or_eq_0 ucast_eq_0 xor_eq_0)

lemma secure_compare_eq:
  assumes "cstr a" and "cstr b"
  shows "rss_secure_compare (Some a) (Some b) \<longleftrightarrow> a = b \<and> length a \<le> 255"
proof (cases "length a \<le> 255 \<and> length b \<le> 255")
  case True
  have "a = b" if eq: "\<forall>i < 256. secure_buf a ! i = secure_buf b ! i"
  proof (rule nth_equalityI)
    have "\<not> length x < length y" if "cstr y" "length x \<le> 255" "length y \<le> 255"
      "\<forall>i < 256. secure_buf x ! i = secure_buf y ! i" for x y
    proof
      assume l: "length x < length y"
      then have "uchar (y ! length x) = 0"
        using that(4) [rule_format, of "length x"] that(2,3) by (simp add: secure_buf_nth)
      then show False using that(1) l by (auto simp: cstr_def) (metis nth_mem)
    qed
    from this [of b a] this [of a b] show l: "length a = length b"
      using assms True eq by (metis linorder_neqE_nat)
    show "a ! i = b ! i" if "i < length a" for i
      using eq [rule_format, of i] that True l by (simp add: secure_buf_nth)
  qed
  then show ?thesis
    using True by (auto simp: rss_secure_compare_def secure_diff_0)
qed (auto simp: rss_secure_compare_def)

section \<open>Properties\<close>

text \<open>Two strings compare as equal exactly when they are the same string of at most 255 characters;
  the comparison of 256 padded bytes accepts no string for another, and no missing one.\<close>

lemma util_secure_compare:
  "(rss_secure_compare (Some (c_str a)) (Some (c_str b)) \<longleftrightarrow> c_str a = c_str b \<and> length (c_str a) \<le> 255)
   \<and> \<not> rss_secure_compare None y \<and> \<not> rss_secure_compare x None"
proof -
  have "\<not> rss_secure_compare None y" "\<not> rss_secure_compare x None"
    by (auto simp: rss_secure_compare_def split: option.split)
  then show ?thesis using secure_compare_eq [of "c_str a" "c_str b"] by simp
qed

text \<open>Trimming removes exactly the blanks around a string: the rest begins and ends with characters
  that are not blank, what is cut off is blank, and trimming again changes nothing.\<close>

lemma util_trim:
  "trimmed (rss_trim s) \<and> rss_trim (rss_trim s) = rss_trim s
   \<and> (\<exists>ws ws'. s = ws @ rss_trim s @ ws' \<and> list_all isspace ws \<and> list_all isspace ws')"
proof -
  obtain ws ws' where "s = ws @ rss_trim s @ ws'" "\<forall>c \<in> set ws. isspace c" "\<forall>c \<in> set ws'. isspace c"
    by (rule rss_trim_split)
  then show ?thesis
    using trimmed_rss_trim [of s] by (auto simp: list_all_iff)
qed

end
