(* ===== verification/Rss_Http.thy ===== *)
theory Rss_Http
  imports Rss_Util
begin

text \<open>
  The HTTP helpers of \<open>src/rss_http.c\<close>: the base64 decoder and the check of a request's
  \<open>Authorization\<close> header.  The decoder is proved to invert the encoding of RFC 4648, with or
  without foreign characters in between; the check is sound and complete for it.
  The table the C code fills on first use is the constant \<open>b64_table\<close>.
\<close>

section \<open>Decoder\<close>

definition b64_chars :: string where
  "b64_chars = ''ABCDEFGHIJKLMNOPQRSTUVWXYZabcdefghijklmnopqrstuvwxyz0123456789+/''"

fun b64_fill :: "string \<Rightarrow> nat \<Rightarrow> u8 list \<Rightarrow> u8 list" where
  "b64_fill [] i t = t"
| "b64_fill (c # cs) i t = b64_fill cs (i + 1) (t[ccode c := of_nat i])"

definition b64_table :: "u8 list" where
  "b64_table = b64_fill b64_chars 0 (replicate 256 0xFF)"

definition byte_char :: "u8 \<Rightarrow> char" where
  "byte_char w = char_of (unat w)"

text \<open>The loop: the characters written so far, and whether the input was decoded to its end.\<close>

fun b64_loop :: "string \<Rightarrow> nat \<Rightarrow> u32 \<Rightarrow> nat \<Rightarrow> string \<Rightarrow> bool \<times> string" where
  "b64_loop [] out_max buf bits out = (True, out)"
| "b64_loop (c # cs) out_max buf bits out =
     (if c = CHR ''='' then (True, out)
      else let v = b64_table ! ccode c
        in if v = 0xFF then b64_loop cs out_max buf bits out
           else let buf = push_bit 6 buf OR ucast v; bits = bits + 6
             in if bits \<ge> 8 then
                  if length out \<ge> out_max then (False, out)
                  else b64_loop cs out_max buf (bits - 8) (out @ [byte_char (ucast (drop_bit (bits - 8) buf))])
                else b64_loop cs out_max buf bits out)"

definition rss_base64_decode :: "string \<Rightarrow> string \<Rightarrow> nat \<Rightarrow> int \<times> string" where
  "rss_base64_decode input out out_max =
     (case b64_loop input out_max 0 0 [] of
        (False, written) \<Rightarrow> (-1, put out 0 written)
      | (True, written) \<Rightarrow>
          (int (length written), put out 0 (if length written < out_max then written @ [NUL] else written)))"

section \<open>Basic authentication\<close>

definition auth_needle :: string where
  "auth_needle = ''Authorization: Basic ''"

text \<open>The scan for the header; \<open>bol\<close> says that the position begins a line.\<close>

fun find_auth :: "bool \<Rightarrow> string \<Rightarrow> string option" where
  "find_auth bol [] = None"
| "find_auth bol (c # p) =
     (if bol \<and> strncasecmp (c # p) auth_needle (length auth_needle) = 0
      then Some (drop (length auth_needle) (c # p))
      else find_auth (c = LF) p)"

definition auth_token :: "string \<Rightarrow> string" where
  "auth_token auth = takeWhile (\<lambda>c. c \<noteq> CR \<and> c \<noteq> LF \<and> c \<noteq> CHR '' '') auth"

definition rss_http_check_basic_auth :: "string option \<Rightarrow> string option \<Rightarrow> string option \<Rightarrow> bool" where
  "rss_http_check_basic_auth request user pass =
     (case (request, user, pass) of
        (Some request, Some user, Some pass) \<Rightarrow>
          if user = [] then True
          else (case find_auth True request of None \<Rightarrow> False
            | Some auth \<Rightarrow>
              let (dlen, decoded) = rss_base64_decode (auth_token auth) (replicate 256 NUL) 255
              in if dlen \<le> 0 then False
                 else let decoded = decoded[nat dlen := NUL]
                   in case strchr (c_str decoded) (CHR '':'') of None \<Rightarrow> False
                      | Some colon \<Rightarrow>
                        let name = take (length (c_str decoded) - length colon) (c_str decoded);
                            user_ok = rss_secure_compare (Some name) (Some user);
                            pass_ok = rss_secure_compare (Some (tl colon)) (Some pass)
                        in user_ok \<and> pass_ok)
      | _ \<Rightarrow> False)"

section \<open>The reference encoding\<close>

text \<open>RFC 4648: three characters in four symbols, the last group padded.\<close>

definition b64_sym :: "nat \<Rightarrow> char" where
  "b64_sym i = b64_chars ! i"

fun base64_encode :: "string \<Rightarrow> string" where
  "base64_encode [] = []"
| "base64_encode [a] =
     [b64_sym (ccode a div 4), b64_sym (ccode a mod 4 * 16), CHR ''='', CHR ''='']"
| "base64_encode [a, b] =
     [b64_sym (ccode a div 4), b64_sym (ccode a mod 4 * 16 + ccode b div 16),
      b64_sym (ccode b mod 16 * 4), CHR ''='']"
| "base64_encode (a # b # c # s) =
     [b64_sym (ccode a div 4), b64_sym (ccode a mod 4 * 16 + ccode b div 16),
      b64_sym (ccode b mod 16 * 4 + ccode c div 64), b64_sym (ccode c mod 64)] @ base64_encode s"

lemma b64_symbols:
  "list_all (\<lambda>i. b64_table ! ccode (b64_sym i) = of_nat i \<and> b64_sym i \<noteq> CHR ''='' \<and> b64_sym i \<noteq> CR
     \<and> b64_sym i \<noteq> LF \<and> b64_sym i \<noteq> CHR '' '') [0..<64]"
  by code_simp

lemma b64_sym:
  assumes "i < 64"
  shows "b64_table ! ccode (b64_sym i) = of_nat i" "b64_sym i \<noteq> CHR ''=''" "b64_sym i \<noteq> CR"
    "b64_sym i \<noteq> LF" "b64_sym i \<noteq> CHR '' ''"
  using b64_symbols assms by (auto simp: list_all_iff)

text \<open>One symbol: the bits wait in the low end of the accumulator, whatever lies above them.\<close>

definition b64_push :: "u32 \<Rightarrow> nat \<Rightarrow> u32" where
  "b64_push buf i = push_bit 6 buf OR ucast (of_nat i :: u8)"

definition b64_pend :: "nat \<Rightarrow> u32 \<Rightarrow> nat" where
  "b64_pend k buf = unat buf mod 2 ^ k"

lemma unat_b64_push:
  assumes "i < 64" shows "unat (b64_push buf i) = (unat buf * 64 + i) mod 2 ^ 32"
proof -
  have i: "(ucast (of_nat i :: u8) :: u32) = of_nat i"
    using assms by (simp add: word_unat_eq_iff unsigned_ucast_eq unat_of_nat take_bit_eq_mod)
  have disj: "push_bit 6 buf AND of_nat i = 0"
  proof (rule bit_word_eqI)
    fix n assume n: "n < LENGTH(32)"
    have "\<not> bit i n" if "6 \<le> n"
    proof -
      have "take_bit 6 i = i" using assms by (simp add: take_bit_nat_eq_self)
      then show ?thesis using that by (metis bit_take_bit_iff not_le)
    qed
    then show "bit (push_bit 6 buf AND of_nat i) n = bit (0 :: u32) n"
      by (auto simp: bit_and_iff bit_push_bit_iff bit_of_nat_iff)
  qed
  have "b64_push buf i = push_bit 6 buf + of_nat i"
    using disj by (simp add: b64_push_def i disjunctive_add_eq_or)
  also have "\<dots> = of_nat (unat buf * 64 + i)"
    by (simp add: push_bit_eq_mult)
  finally have "unat (b64_push buf i) = unat (of_nat (unat buf * 64 + i) :: u32)" by (rule arg_cong)
  then show ?thesis by (simp only: unat_of_nat) simp
qed

lemma b64_pend_push:
  assumes "i < 64" and "k \<le> 26" shows "b64_pend (6 + k) (b64_push buf i) = b64_pend k buf * 64 + i"
proof -
  have "(2::nat) ^ (6 + k) dvd 2 ^ 32"
    using assms(2) by (intro le_imp_power_dvd) simp
  then have "b64_pend (6 + k) (b64_push buf i) = (unat buf * 64 + i) mod 2 ^ (6 + k)"
    unfolding b64_pend_def unat_b64_push [OF assms(1)] by (rule mod_mod_cancel)
  also have "\<dots> = (unat buf * 64 + i) mod (64 * 2 ^ k)"
    by (simp add: power_add)
  also have "\<dots> = b64_pend k buf * 64 + i"
  proof -
    have "(unat buf * 64 + i) mod (64 * 2 ^ k)
        = 64 * ((unat buf * 64 + i) div 64 mod 2 ^ k) + (unat buf * 64 + i) mod 64"
      by (rule mod_mult2_eq)
    then show ?thesis using assms(1) by (simp add: b64_pend_def)
  qed
  finally show ?thesis .
qed

lemma b64_pend_low:
  assumes "i < 64" and "k \<le> 6" shows "b64_pend k (b64_push buf i) = i mod 2 ^ k"
proof -
  have "(2::nat) ^ k dvd 2 ^ 6" "(2::nat) ^ k dvd 2 ^ 32"
    using assms(2) by (intro le_imp_power_dvd; simp)+
  then have "b64_pend k (b64_push buf i) = (unat buf * 64 + i) mod 2 ^ k" "(unat buf * 64) mod 2 ^ k = 0"
    unfolding b64_pend_def unat_b64_push [OF assms(1)] by (simp_all add: mod_mod_cancel)
  then show ?thesis by (metis add_0 mod_add_left_eq)
qed

lemma b64_char:
  assumes "k \<le> 24" shows "byte_char (ucast (drop_bit k buf)) = char_of (b64_pend (8 + k) buf div 2 ^ k)"
proof -
  have "unat (ucast (drop_bit k buf) :: u8) = unat buf div 2 ^ k mod 2 ^ 8"
  proof -
    have "unat (drop_bit k buf) = unat buf div 2 ^ k"
      unfolding unat_drop_bit_eq by (rule drop_bit_eq_div)
    then show ?thesis by (simp only: unsigned_ucast_eq take_bit_eq_mod) simp
  qed
  also have "\<dots> = b64_pend (8 + k) buf div 2 ^ k"
    by (simp add: b64_pend_def power_add mod_mult2_eq mult.commute [of 256])
  finally show ?thesis by (simp add: byte_char_def)
qed

lemma b64_loop_sym:
  assumes "i < 64"
  shows "b64_loop (b64_sym i # cs) m buf 0 out = b64_loop cs m (b64_push buf i) 6 out"
    and "k \<le> 5 \<Longrightarrow> length out < m \<Longrightarrow> b64_loop (b64_sym i # cs) m buf (Suc (Suc k)) out
      = b64_loop cs m (b64_push buf i) k (out @ [char_of ((b64_pend (Suc (Suc k)) buf * 64 + i) div 2 ^ k)])"
    and "length out \<ge> m \<Longrightarrow> b64_loop (b64_sym i # cs) m buf (Suc (Suc k)) out = (False, out)"
proof -
  have v: "(of_nat i :: u8) \<noteq> 0xFF"
  proof
    assume "(of_nat i :: u8) = 0xFF"
    then have "unat (of_nat i :: u8) = 255" by simp
    then show False using assms by (simp add: unat_of_nat)
  qed
  note step = b64_sym [OF assms] v Let_def b64_push_def [symmetric]
  show "b64_loop (b64_sym i # cs) m buf 0 out = b64_loop cs m (b64_push buf i) 6 out"
    by (simp add: step)
  show "length out \<ge> m \<Longrightarrow> b64_loop (b64_sym i # cs) m buf (Suc (Suc k)) out = (False, out)"
    by (simp add: step)
  assume k: "k \<le> 5" "length out < m"
  have "b64_pend (8 + k) (b64_push buf i) = b64_pend (Suc (Suc k)) buf * 64 + i"
    using b64_pend_push [OF assms, of "Suc (Suc k)" buf] k by simp
  then show "b64_loop (b64_sym i # cs) m buf (Suc (Suc k)) out
      = b64_loop cs m (b64_push buf i) k (out @ [char_of ((b64_pend (Suc (Suc k)) buf * 64 + i) div 2 ^ k)])"
    using k by (simp add: step b64_char)
qed

lemma b64_loop_emit:
  assumes "i < 64" and "k \<le> 5"
  shows "b64_loop (b64_sym i # cs) m buf (Suc (Suc k)) out =
    (if length out < m
     then b64_loop cs m (b64_push buf i) k (out @ [char_of ((b64_pend (Suc (Suc k)) buf * 64 + i) div 2 ^ k)])
     else (False, out))"
  using b64_loop_sym(2,3) assms by simp

text \<open>The three characters of a group and its four symbols.\<close>

lemma b64_group:
  fixes a b c :: nat
  assumes "a < 256" and "b < 256" and "c < 256"
  shows "a div 4 < 64" "a mod 4 * 16 < 64" "a mod 4 * 16 + b div 16 < 64" "b mod 16 * 4 < 64"
    "b mod 16 * 4 + c div 64 < 64" "c mod 64 < 64"
    "(a div 4 mod 64 * 64 + a mod 4 * 16) div 16 = a"
    "(a div 4 mod 64 * 64 + (a mod 4 * 16 + b div 16)) div 16 = a"
    "((a mod 4 * 16 + b div 16) mod 16 * 64 + b mod 16 * 4) div 4 = b"
    "((a mod 4 * 16 + b div 16) mod 16 * 64 + (b mod 16 * 4 + c div 64)) div 4 = b"
    "(b mod 16 * 4 + c div 64) mod 4 * 64 + c mod 64 = c"
proof -
  have glue: "(x * 64 + (y * w + t)) div w = x * (64 div w) + y" if t: "t < w" and w: "w dvd 64" for x y t w :: nat
  proof -
    obtain v where v: "64 = w * v" using w by (rule dvdE)
    have eq: "x * 64 + (y * w + t) = t + w * (x * v + y)"
      unfolding v by (simp add: algebra_simps)
    have "64 div w = v" using v t by (metis nonzero_mult_div_cancel_left not_less_zero)
    moreover have "(t + w * (x * v + y)) div w = x * v + y" using t by simp
    ultimately show ?thesis by (simp only: eq)
  qed
  show "a div 4 < 64" "a mod 4 * 16 < 64" "b mod 16 * 4 < 64" "c mod 64 < 64"
    using assms by simp_all
  have q: "a div 4 < 64" "b div 16 < 16" "c div 64 < 4" using assms by simp_all
  have r: "a mod 4 < 4" "b mod 16 < 16" "c mod 64 < 64" by simp_all
  show "a mod 4 * 16 + b div 16 < 64" "b mod 16 * 4 + c div 64 < 64"
    using q r by linarith+
  show "(a div 4 mod 64 * 64 + a mod 4 * 16) div 16 = a"
    using glue [of 0 16 "a div 4" "a mod 4"] q(1) by simp
  show "(a div 4 mod 64 * 64 + (a mod 4 * 16 + b div 16)) div 16 = a"
    using glue [of "b div 16" 16 "a div 4" "a mod 4"] q by simp
  have b: "(a mod 4 * 16 + b div 16) mod 16 = b div 16"
    using q(2) by simp
  show "((a mod 4 * 16 + b div 16) mod 16 * 64 + b mod 16 * 4) div 4 = b"
    using glue [of 0 4 "b div 16" "b mod 16"] q by (simp add: b)
  show "((a mod 4 * 16 + b div 16) mod 16 * 64 + (b mod 16 * 4 + c div 64)) div 4 = b"
    using glue [of "c div 64" 4 "b div 16" "b mod 16"] q by (simp add: b)
  have "(b mod 16 * 4 + c div 64) mod 4 = c div 64"
    using q(3) by simp
  then show "(b mod 16 * 4 + c div 64) mod 4 * 64 + c mod 64 = c"
    by simp
qed

lemma char_of_ccode [simp]: "char_of (ccode c) = c"
  by (simp add: ccode_def)

lemma b64_loop_eq_sign [simp]: "b64_loop (CHR ''='' # cs) m buf bits out = (True, out)"
  by simp

lemma b64_step0: "i < 64 \<Longrightarrow> b64_loop (b64_sym i # cs) m buf 0 out = b64_loop cs m (b64_push buf i) 6 out"
  by (rule b64_loop_sym)

lemma b64_step6: "i < 64 \<Longrightarrow> b64_loop (b64_sym i # cs) m buf 6 out =
    (if length out < m then b64_loop cs m (b64_push buf i) 4 (out @ [char_of ((b64_pend 6 buf * 64 + i) div 16)])
     else (False, out))"
  using b64_loop_emit [of i 4] by (simp del: b64_loop.simps)

lemma b64_step4: "i < 64 \<Longrightarrow> b64_loop (b64_sym i # cs) m buf 4 out =
    (if length out < m then b64_loop cs m (b64_push buf i) 2 (out @ [char_of ((b64_pend 4 buf * 64 + i) div 4)])
     else (False, out))"
  using b64_loop_emit [of i 2] by (simp del: b64_loop.simps)

lemma b64_step2: "i < 64 \<Longrightarrow> b64_loop (b64_sym i # cs) m buf 2 out =
    (if length out < m then b64_loop cs m (b64_push buf i) 0 (out @ [char_of (b64_pend 2 buf * 64 + i)])
     else (False, out))"
  using b64_loop_emit [of i 0] by (simp del: b64_loop.simps flip: numeral_2_eq_2)

lemma b64_loop_encode:
  "length out \<le> m \<Longrightarrow> b64_loop (base64_encode s) m buf 0 out =
    (if length out + length s \<le> m then (True, out @ s) else (False, out @ take (m - length out) s))"
proof (induction s arbitrary: buf out rule: base64_encode.induct)
  case 1
  then show ?case by simp
next
  case (2 a)
  then show ?case
    using b64_group [of "ccode a" "ccode a" "ccode a", OF ccode_lt ccode_lt ccode_lt]
    by (simp add: b64_step0 b64_step6 b64_pend_low del: b64_loop.simps(2))
next
  case (3 a b)
  define i j k where "i = ccode a div 4" and "j = ccode a mod 4 * 16 + ccode b div 16"
    and "k = ccode b mod 16 * 4"
  have g: "i < 64" "j < 64" "k < 64" "(i mod 64 * 64 + j) div 16 = ccode a" "(j mod 16 * 64 + k) div 4 = ccode b"
    unfolding i_def j_def k_def by (rule b64_group [OF ccode_lt ccode_lt ccode_lt])+
  have enc: "base64_encode [a, b] = [b64_sym i, b64_sym j, b64_sym k, CHR ''='']"
    by (simp add: i_def j_def k_def)
  consider "length out + 2 \<le> m" | "m = length out" | "m = length out + 1"
    using 3 by linarith
  then show ?case
    using g by cases (simp_all add: enc b64_step0 b64_step6 b64_step4 b64_pend_low del: b64_loop.simps(2) base64_encode.simps)
next
  case (4 a b c s)
  define i j k l where "i = ccode a div 4" and "j = ccode a mod 4 * 16 + ccode b div 16"
    and "k = ccode b mod 16 * 4 + ccode c div 64" and "l = ccode c mod 64"
  have g: "i < 64" "j < 64" "k < 64" "l < 64" "(i mod 64 * 64 + j) div 16 = ccode a"
    "(j mod 16 * 64 + k) div 4 = ccode b" "k mod 4 * 64 + l = ccode c"
    unfolding i_def j_def k_def l_def by (rule b64_group [OF ccode_lt ccode_lt ccode_lt])+
  have enc: "base64_encode (a # b # c # s) = b64_sym i # b64_sym j # b64_sym k # b64_sym l # base64_encode s"
    by (simp add: i_def j_def k_def l_def)
  consider "length out + 3 \<le> m" | "m = length out" | "m = length out + 1" | "m = length out + 2"
    using 4(2) by linarith
  then show ?case
  proof cases
    case 1
    then have "take (m - length out) (a # b # c # s) = a # b # c # take (m - Suc (Suc (Suc (length out)))) s"
      by (simp add: take_Cons' numeral_3_eq_3)
    then show ?thesis
      using 1 g by (simp add: enc 4(1) b64_step0 b64_step6 b64_step4 b64_step2 b64_pend_low
          del: b64_loop.simps(2) base64_encode.simps)
  qed (use g in \<open>simp_all add: enc b64_step0 b64_step6 b64_step4 b64_step2 b64_pend_low
          del: b64_loop.simps(2) base64_encode.simps\<close>)
qed

section \<open>Any input\<close>

definition in_alphabet :: "char \<Rightarrow> bool" where
  "in_alphabet c \<longleftrightarrow> b64_table ! ccode c \<noteq> 0xFF"

lemma b64_loop_skips:
  "b64_loop cs m buf bits out = b64_loop (filter in_alphabet (takeWhile (\<lambda>c. c \<noteq> CHR ''='') cs)) m buf bits out"
  by (induction cs arbitrary: buf bits out) (auto simp: in_alphabet_def Let_def)

lemma b64_loop_length: "b64_loop cs m buf bits out = (ok, out') \<Longrightarrow> length out \<le> m \<Longrightarrow> length out' \<le> m"
  by (induction cs arbitrary: buf bits out) (auto simp: Let_def split: if_splits)

text \<open>The decoder inverts the RFC 4648 encoding, with or without padding and with any characters
  outside the alphabet in between; data that does not fit the buffer is refused with \<open>-1\<close>.\<close>

lemma http_base64_roundtrip:
  assumes "filter in_alphabet (takeWhile (\<lambda>c. c \<noteq> CHR ''='') t)
    = filter in_alphabet (takeWhile (\<lambda>c. c \<noteq> CHR ''='') (base64_encode s))"
  shows "rss_base64_decode t out out_max =
    (if length s \<le> out_max then (int (length s), put out 0 (if length s < out_max then s @ [NUL] else s))
     else (-1, put out 0 (take out_max s)))"
proof -
  have "b64_loop t out_max 0 0 [] = b64_loop (base64_encode s) out_max 0 0 []"
    using b64_loop_skips [of t] b64_loop_skips [of "base64_encode s"] assms by simp
  then show ?thesis
    by (simp add: rss_base64_decode_def b64_loop_encode)
qed

lemma http_base64_roundtrip_witness:
  "rss_base64_decode (base64_encode ''ab:c'') (replicate 8 NUL) 8 = (4, ''ab:c'' @ NUL # replicate 3 NUL)"
  by (subst http_base64_roundtrip [OF refl]) (simp add: put_def)

lemma drop_put_short: "length src \<le> n \<Longrightarrow> drop n (put buf 0 src) = drop n buf"
  by (simp add: drop_put_after)

lemma length_put_0: "length (put buf 0 src) = max (length src) (length buf)"
  by (simp add: put_def)

text \<open>Whatever the input, the decoder writes only the first \<open>out_max\<close> characters of the buffer and
  returns a length within it or \<open>-1\<close>.\<close>

lemma http_base64_bounds:
  "case rss_base64_decode input out out_max of
     (n, out') \<Rightarrow> -1 \<le> n \<and> n \<le> int out_max \<and> drop out_max out' = drop out_max out
       \<and> (length out < out_max \<or> length out' = length out)"
proof -
  obtain ok w where w: "b64_loop input out_max 0 0 [] = (ok, w)"
    by (cases "b64_loop input out_max 0 0 []")
  then have "length w \<le> out_max"
    by (rule b64_loop_length) simp
  then show ?thesis
    by (cases ok; cases "length out < out_max")
      (simp_all add: rss_base64_decode_def w length_put_0 drop_put_short)
qed

section \<open>The authorization header\<close>

definition needle_match :: "string \<Rightarrow> bool" where
  "needle_match n \<longleftrightarrow> map ctolower n = map ctolower auth_needle"

lemma find_auth_sound:
  "find_auth bol req = Some auth \<Longrightarrow> cstr req \<Longrightarrow>
    \<exists>pre n. req = pre @ n @ auth \<and> needle_match n \<and> (if pre = [] then bol else last pre = LF)"
proof (induction bol req rule: find_auth.induct)
  case (2 bol c p)
  let ?k = "length auth_needle"
  show ?case
  proof (cases "bol \<and> strncasecmp (c # p) auth_needle ?k = 0")
    case True
    have "cstr auth_needle" by (simp add: auth_needle_def)
    then have "take ?k (map ctolower (c # p)) = map ctolower auth_needle"
      using True 2(3) by (simp add: strncasecmp_def strncmp_eq_0 del: list.map)
    then have "map ctolower (take ?k (c # p)) = map ctolower auth_needle"
      by (simp only: take_map)
    then have "needle_match (take ?k (c # p))"
      by (simp only: needle_match_def)
    moreover have "auth = drop ?k (c # p)" using True 2(2) by simp
    ultimately show ?thesis
      using True append_take_drop_id [of ?k "c # p"] by (intro exI [of _ "[]"] exI [of _ "take ?k (c # p)"]) auto
  next
    case False
    then have "find_auth (c = LF) p = Some auth" using 2(2) by (simp only: find_auth.simps if_False)
    then obtain pre n where "p = pre @ n @ auth" "needle_match n" "if pre = [] then c = LF else last pre = LF"
      using 2(1) [OF False] 2(3) by auto
    then show ?thesis by (intro exI [of _ "c # pre"] exI [of _ n]) (auto split: if_splits)
  qed
qed simp


text \<open>A scan that finds nothing in the lines before the header reaches it.\<close>

lemma needle_lower: "map ctolower auth_needle = ''authorization: basic ''"
  by code_simp

lemma ctolower_LF: "ctolower LF = LF"
  by code_simp

lemma needle_no_LF: "needle_match n \<Longrightarrow> LF \<notin> set n"
proof
  assume "needle_match n" "LF \<in> set n"
  then have "ctolower LF \<in> set (map ctolower auth_needle)"
    unfolding needle_match_def by (metis image_eqI set_map)
  then show False unfolding needle_lower ctolower_LF by simp
qed

lemma find_auth_match:
  assumes "cstr (n @ auth)" and "needle_match n"
  shows "find_auth True (n @ auth) = Some auth"
proof -
  have len: "length n = length auth_needle"
    using assms(2) by (metis needle_match_def length_map)
  have "cstr auth_needle" by (simp add: auth_needle_def)
  moreover have "take (length auth_needle) (map ctolower (n @ auth)) = map ctolower auth_needle"
    using assms(2) len by (simp add: needle_match_def)
  ultimately have "strncasecmp (n @ auth) auth_needle (length auth_needle) = 0"
    using assms(1) by (simp add: strncasecmp_def strncmp_eq_0 del: map_append cstr_simps(3))
  moreover obtain c p where "n @ auth = c # p"
    using len by (cases n) (simp_all add: auth_needle_def)
  ultimately show ?thesis
    using len by (metis append_eq_conv_conj find_auth.simps(2))
qed

lemma strncasecmp_needle_app:
  assumes "cstr (xs @ LF # ys)" and "strncasecmp (xs @ LF # ys) auth_needle (length auth_needle) = 0"
  shows "strncasecmp (xs @ [LF]) auth_needle (length auth_needle) = 0"
proof -
  let ?k = "length auth_needle"
  have cn: "cstr auth_needle" by (simp add: auth_needle_def)
  have t: "take ?k (map ctolower (xs @ LF # ys)) = map ctolower auth_needle"
    using assms cn by (simp add: strncasecmp_def strncmp_eq_0 del: map_append list.map)
  then have m: "needle_match (take ?k (xs @ LF # ys))"
    by (simp only: needle_match_def take_map)
  have "?k \<le> length xs"
  proof (rule ccontr)
    assume "\<not> ?k \<le> length xs"
    then have "LF \<in> set (take ?k (xs @ LF # ys))"
      by (cases "?k - length xs") auto
    then show False using needle_no_LF [OF m] by simp
  qed
  then have "take ?k (map ctolower (xs @ [LF])) = map ctolower auth_needle"
    using t by simp
  then show ?thesis
    using assms(1) cn by (simp add: strncasecmp_def strncmp_eq_0 del: map_append list.map)
qed

lemma find_auth_skip:
  assumes "cstr (pre @ LF # rest)" and "find_auth bol (pre @ [LF]) = None"
  shows "find_auth bol (pre @ LF # rest) = find_auth True rest"
  using assms
proof (induction pre arbitrary: bol)
  case Nil
  have "\<not> (bol \<and> strncasecmp (LF # rest) auth_needle (length auth_needle) = 0)"
    using Nil strncasecmp_needle_app [of "[]" rest] by (auto split: if_splits)
  then show ?case by auto
next
  case (Cons c pre)
  have "\<not> (bol \<and> strncasecmp (c # pre @ LF # rest) auth_needle (length auth_needle) = 0)"
    using Cons.prems strncasecmp_needle_app [of "c # pre" rest] by (auto split: if_splits)
  then show ?case using Cons by (auto split: if_splits)
qed


lemma takeWhile_token:
  assumes "list_all (\<lambda>c. c \<noteq> CR \<and> c \<noteq> LF \<and> c \<noteq> CHR '' '') tok"
    and "rest = [] \<or> hd rest \<in> {CR, LF, CHR '' ''}"
  shows "auth_token (tok @ rest) = tok"
proof -
  have "takeWhile P (xs @ ys) = xs" if "list_all P xs" "ys = [] \<or> \<not> P (hd ys)" for P and xs ys :: string
    using that by (induction xs) (cases ys, auto)
  then show ?thesis
    using assms by (auto simp: auth_token_def)
qed

lemma encode_token: "list_all (\<lambda>c. c \<noteq> CR \<and> c \<noteq> LF \<and> c \<noteq> CHR '' '') (base64_encode s)"
proof (induction s rule: base64_encode.induct)
  case (2 a)
  then show ?case
    using b64_group(1,2) [OF ccode_lt ccode_lt ccode_lt] by (simp add: b64_sym)
next
  case (3 a b)
  then show ?case
    using b64_group(1,3,4) [OF ccode_lt ccode_lt ccode_lt] by (simp add: b64_sym)
next
  case (4 a b c s)
  then show ?case
    using b64_group(1,3,5,6) [OF ccode_lt ccode_lt ccode_lt] by (simp add: b64_sym)
qed simp

text \<open>What is checked once the header is found.\<close>

definition check_credentials :: "string \<Rightarrow> string \<Rightarrow> string \<Rightarrow> bool" where
  "check_credentials d user pass \<longleftrightarrow> d \<noteq> [] \<and>
     (\<exists>name pw. c_str d = name @ CHR '':'' # pw \<and> CHR '':'' \<notin> set name \<and> name = user \<and> pw = pass
        \<and> length user \<le> 255 \<and> length pass \<le> 255)"

lemma check_credentials_iff:
  assumes "c_str d = name @ CHR '':'' # pw" and "CHR '':'' \<notin> set name"
  shows "check_credentials d user pass \<longleftrightarrow>
    d \<noteq> [] \<and> name = user \<and> pw = pass \<and> length user \<le> 255 \<and> length pass \<le> 255"
proof -
  have "name = user \<and> pw = pass" if "c_str d = user @ CHR '':'' # pass" "CHR '':'' \<notin> set user"
    using first_unique [OF _ assms(2) that(2)] that(1) assms(1) by simp
  then show ?thesis
    using assms by (auto simp: check_credentials_def)
qed

lemma c_str_append_any: "c_str (d @ NUL # r) = c_str d"
  by (induction d) (auto simp: c_str_def)

lemma c_str_terminated:
  assumes "length d \<le> 255"
  shows "c_str ((put (replicate 256 NUL) 0 (if length d < 255 then d @ [NUL] else d))[length d := NUL]) = c_str d"
proof -
  have "(put (replicate 256 NUL) 0 (if length d < 255 then d @ [NUL] else d))[length d := NUL]
      = d @ NUL # replicate (255 - length d) NUL" (is "?l = ?r")
  proof (rule nth_equalityI)
    show "length ?l = length ?r" using assms by (simp add: put_def)
    show "?l ! i = ?r ! i" if "i < length ?l" for i
      using that assms by (auto simp: put_def nth_append nth_list_update nth_Cons split: nat.splits)
  qed
  then show ?thesis
    by (simp add: c_str_append_any)
qed

lemma check_auth_found:
  assumes "user \<noteq> []" and "cstr user" and "cstr pass" and "find_auth True request = Some auth"
  shows "rss_http_check_basic_auth (Some request) (Some user) (Some pass) \<longleftrightarrow>
    (case b64_loop (auth_token auth) 255 0 0 [] of (ok, d) \<Rightarrow> ok \<and> check_credentials d user pass)"
proof -
  obtain ok d where l: "b64_loop (auth_token auth) 255 0 0 [] = (ok, d)"
    by (cases "b64_loop (auth_token auth) 255 0 0 []")
  have len: "length d \<le> 255"
    using b64_loop_length [OF l] by simp
  show ?thesis
  proof (cases "ok \<and> d \<noteq> []")
    case False
    then show ?thesis
      using assms by (cases ok) (simp_all add: rss_http_check_basic_auth_def rss_base64_decode_def l check_credentials_def)
  next
    case True
    define buf where "buf = put (replicate 256 NUL) 0 (if length d < 255 then d @ [NUL] else d)"
    have cs: "c_str (buf[length d := NUL]) = c_str d"
      unfolding buf_def by (rule c_str_terminated [OF len])
    have dec: "rss_base64_decode (auth_token auth) (replicate 256 NUL) 255 = (int (length d), buf)"
      using True by (simp add: rss_base64_decode_def l buf_def)
    have "rss_http_check_basic_auth (Some request) (Some user) (Some pass) \<longleftrightarrow>
      (case strchr (c_str d) (CHR '':'') of None \<Rightarrow> False
       | Some colon \<Rightarrow> rss_secure_compare (Some (take (length (c_str d) - length colon) (c_str d))) (Some user)
            \<and> rss_secure_compare (Some (tl colon)) (Some pass))"
      using assms True by (simp add: rss_http_check_basic_auth_def dec cs Let_def split: option.split)
    also have "\<dots> \<longleftrightarrow> check_credentials d user pass"
    proof (cases "strchr (c_str d) (CHR '':'')")
      case None
      have "\<not> check_credentials d user pass"
        using None by (auto simp: strchr_None check_credentials_def)
      then show ?thesis unfolding None by simp
    next
      case (Some colon)
      then obtain name where n: "c_str d = name @ colon" "CHR '':'' \<notin> set name" "colon \<noteq> []" "hd colon = CHR '':''"
        by (auto simp: strchr_Some)
      then obtain pw where pw: "colon = CHR '':'' # pw" by (cases colon) auto
      have c: "cstr name" "cstr pw"
        using n(1) cstr_c_str [of d] by (simp_all add: pw)
      have "rss_secure_compare (Some name) (Some user) \<and> rss_secure_compare (Some pw) (Some pass)
          \<longleftrightarrow> check_credentials d user pass"
        using True c assms(2,3) by (auto simp: check_credentials_iff [OF n(1) [unfolded pw] n(2)] secure_compare_eq)
      then show ?thesis
        unfolding Some by (simp add: pw n(1))
    qed
    finally show ?thesis using True by (simp add: l)
  qed
qed


text \<open>C9. Authorization is sound: a request passes the check for a user only when one of its lines begins with
  the header, in any case of letters, and the token behind it decodes to the user name, a colon and the
  password, up to a terminator.  A user name with a colon can never pass.\<close>

lemma http_auth_sound:
  assumes "rss_http_check_basic_auth (Some request) (Some user) (Some pass)" and "user \<noteq> []"
    and "cstr request" and "cstr user" and "cstr pass"
  shows "(\<exists>pre n auth d. request = pre @ n @ auth \<and> (pre = [] \<or> last pre = LF)
      \<and> map ctolower n = ''authorization: basic ''
      \<and> b64_loop (auth_token auth) 255 0 0 [] = (True, d) \<and> c_str d = user @ CHR '':'' # pass)
    \<and> CHR '':'' \<notin> set user"
proof -
  obtain auth where auth: "find_auth True request = Some auth"
    using assms(1,2) by (cases "find_auth True request") (simp_all add: rss_http_check_basic_auth_def)
  obtain pre n where split: "request = pre @ n @ auth" "needle_match n" "pre = [] \<or> last pre = LF"
    using find_auth_sound [OF auth assms(3)] by (auto split: if_splits)
  obtain d where "b64_loop (auth_token auth) 255 0 0 [] = (True, d)" "check_credentials d user pass"
    using assms(1) check_auth_found [OF assms(2,4,5) auth] by (auto split: prod.splits)
  moreover from this have "c_str d = user @ CHR '':'' # pass" "CHR '':'' \<notin> set user"
    by (auto simp: check_credentials_def)
  moreover have "map ctolower n = ''authorization: basic ''"
    using split(2) unfolding needle_match_def needle_lower .
  ultimately show ?thesis
    using split(1,3) by (intro conjI exI [of _ pre] exI [of _ n] exI [of _ auth] exI [of _ d])
qed

text \<open>Authorization is complete: the first header line of a request whose token encodes the user name, a
  colon and the password is accepted, for credentials of up to 255 characters.  Longer ones are
  refused, where the comment in the code says that they are truncated.\<close>

lemma http_auth_complete:
  assumes "cstr request" and "cstr user" and "cstr pass" and "user \<noteq> []" and "CHR '':'' \<notin> set user"
    and "request = pre @ n @ base64_encode (user @ CHR '':'' # pass) @ rest"
    and "map ctolower n = ''authorization: basic ''"
    and "pre = [] \<or> last pre = LF" and "find_auth True pre = None"
    and "rest = [] \<or> hd rest \<in> {CR, LF, CHR '' ''}"
  shows "rss_http_check_basic_auth (Some request) (Some user) (Some pass)
    \<longleftrightarrow> length (user @ CHR '':'' # pass) \<le> 255"
proof -
  let ?cred = "user @ CHR '':'' # pass"
  have n: "needle_match n"
    using assms(7) by (simp add: needle_match_def needle_lower)
  have auth: "find_auth True request = Some (base64_encode ?cred @ rest)"
  proof (cases pre rule: rev_cases)
    case Nil
    then show ?thesis
      using find_auth_match [OF _ n] assms(1,6) by simp
  next
    case (snoc p x)
    then have pre: "pre = p @ [LF]" using assms(8) by simp
    then have "find_auth True (p @ LF # n @ base64_encode ?cred @ rest)
        = find_auth True (n @ base64_encode ?cred @ rest)"
      using assms(1,6,9) by (intro find_auth_skip) simp_all
    then show ?thesis
      using find_auth_match [OF _ n, of "base64_encode ?cred @ rest"] assms(1,6) pre by simp
  qed
  have tok: "auth_token (base64_encode ?cred @ rest) = base64_encode ?cred"
    by (rule takeWhile_token [OF encode_token assms(10)])
  have "check_credentials ?cred user pass \<longleftrightarrow> length user \<le> 255 \<and> length pass \<le> 255"
    using assms(2-5) check_credentials_iff [of ?cred user pass user pass] by auto
  then show ?thesis
    unfolding check_auth_found [OF assms(4,2,3) auth] tok
    by (simp add: b64_loop_encode)
qed

lemma http_auth_complete_witness:
  "rss_http_check_basic_auth
     (Some (''GET / HTTP/1.1'' @ [CR, LF] @ ''AUTHORIZATION: basic '' @ base64_encode ''root:pw'' @ [CR, LF]))
     (Some ''root'') (Some ''pw'')"
proof -
  have low: "map ctolower ''AUTHORIZATION: basic '' = ''authorization: basic ''" by code_simp
  have none: "find_auth True (''GET / HTTP/1.1'' @ [CR, LF]) = None" by code_simp
  have cs: "cstr (base64_encode ''root:pw'')" by code_simp
  show ?thesis
    by (subst http_auth_complete [where pre = "''GET / HTTP/1.1'' @ [CR, LF]" and n = "''AUTHORIZATION: basic ''"
          and rest = "[CR, LF]"]) (use low none cs in \<open>simp_all del: base64_encode.simps find_auth.simps\<close>)
qed

lemma http_auth_sound_witness:
  "\<exists>pre n auth d.
     ''Authorization: Basic '' @ base64_encode ''root:pw'' = pre @ n @ auth
     \<and> b64_loop (auth_token auth) 255 0 0 [] = (True, d) \<and> c_str d = ''root:pw''"
proof -
  have "rss_http_check_basic_auth (Some (''Authorization: Basic '' @ base64_encode ''root:pw'')) (Some ''root'') (Some ''pw'')"
    by code_simp
  moreover have "cstr (''Authorization: Basic '' @ base64_encode ''root:pw'')" by code_simp
  ultimately show ?thesis
    using http_auth_sound [of "''Authorization: Basic '' @ base64_encode ''root:pw''" "''root''" "''pw''"]
    by (simp del: base64_encode.simps) blast
qed

end
