(* ===== verification/Rss_Num.thy ===== *)
theory Rss_Num
  imports Rss_Cstr
begin

text \<open>
  Numbers in text: \<open>%d\<close> of \<open>printf\<close>, and \<open>strtol\<close> with base 0 as the configuration getters
  call it (decimal, \<open>0x\<close> and leading-zero octal), on a 64-bit \<open>long\<close>, with the narrowing to
  a 32-bit \<open>int\<close> written out.  A printed \<open>int\<close> is read back as itself.
\<close>

section \<open>Printing\<close>

definition digit :: "nat \<Rightarrow> char" where
  "digit d = char_of (48 + d)"

fun dec :: "nat \<Rightarrow> string" where
  "dec n = (if n < 10 then [digit n] else dec (n div 10) @ [digit (n mod 10)])"

declare dec.simps [simp del]

definition show_int :: "int \<Rightarrow> string" where
  "show_int i = (if i < 0 then CHR ''-'' # dec (nat (- i)) else dec (nat i))"

section \<open>Reading\<close>

definition digit_val :: "char \<Rightarrow> nat" where
  "digit_val c =
     (let n = ccode c
      in if 48 \<le> n \<and> n \<le> 57 then n - 48
         else if 97 \<le> n \<and> n \<le> 122 then n - 87
         else if 65 \<le> n \<and> n \<le> 90 then n - 55 else 255)"

definition digits_val :: "nat \<Rightarrow> string \<Rightarrow> nat" where
  "digits_val base ds = foldl (\<lambda>acc c. acc * base + digit_val c) 0 ds"

definition clamp_long :: "int \<Rightarrow> int" where
  "clamp_long i = (if i > 2 ^ 63 - 1 then 2 ^ 63 - 1 else if i < - (2 ^ 63) then - (2 ^ 63) else i)"

text \<open>The digits behind the sign, in the base their prefix selects, and the rest.\<close>

definition strtol_mag :: "string \<Rightarrow> (nat \<times> string) option" where
  "strtol_mag t =
     (let hex = (length t > 2 \<and> t ! 0 = CHR ''0'' \<and> (t ! 1 = CHR ''x'' \<or> t ! 1 = CHR ''X'') \<and> digit_val (t ! 2) < 16);
          base = (if hex then 16 else if t \<noteq> [] \<and> hd t = CHR ''0'' then 8 else 10);
          t = (if hex then drop 2 t else t);
          ds = takeWhile (\<lambda>c. digit_val c < base) t
      in if ds = [] then None else Some (digits_val base ds, drop (length ds) t))"

text \<open>\<open>strtol(s, &end, 0)\<close>: the value, and the rest of the string; the rest is \<open>s\<close> when nothing was converted.\<close>

definition strtol0 :: "string \<Rightarrow> int \<times> string" where
  "strtol0 s =
     (let t = dropWhile isspace s;
          neg = (t \<noteq> [] \<and> hd t = CHR ''-'');
          t = (if t \<noteq> [] \<and> (hd t = CHR ''-'' \<or> hd t = CHR ''+'') then tl t else t)
      in case strtol_mag t of None \<Rightarrow> (0, s)
         | Some (m, r) \<Rightarrow> (clamp_long (if neg then - int m else int m), r))"

text \<open>\<open>%d\<close> of \<open>sscanf\<close>: a conversion skips blanks, takes a sign and at most \<open>w\<close> characters in all.\<close>

definition scan_int :: "nat \<Rightarrow> string \<Rightarrow> (int \<times> string) option" where
  "scan_int w s =
     (let t = dropWhile isspace s;
          signed = (t \<noteq> [] \<and> (hd t = CHR ''-'' \<or> hd t = CHR ''+''));
          neg = (signed \<and> hd t = CHR ''-'');
          u = (if signed then tl t else t);
          ds = takeWhile isdigit (take (if signed then w - 1 else w) u);
          v = int (digits_val 10 ds)
      in if ds = [] then None else Some (if neg then - v else v, drop (length ds) u))"

definition to_int32 :: "int \<Rightarrow> int" where
  "to_int32 v = signed_take_bit 31 v"

section \<open>Round trip\<close>

lemma ccode_digit: "d < 10 \<Longrightarrow> ccode (digit d) = 48 + d"
  by (simp add: digit_def ccode_def)

lemma isdigit_digit: "d < 10 \<Longrightarrow> isdigit (digit d)"
  by (simp add: isdigit_def ccode_digit)

lemma digit_val_digit: "d < 10 \<Longrightarrow> digit_val (digit d) = d"
  by (simp add: digit_val_def ccode_digit Let_def)

lemma dec_digits: "c \<in> set (dec n) \<Longrightarrow> \<exists>d < 10. c = digit d"
proof (induction n rule: dec.induct)
  case (1 n)
  then show ?case
  proof (cases "n < 10")
    case True
    then show ?thesis using 1(2) by (subst (asm) dec.simps) auto
  next
    case False
    then have "c \<in> set (dec (n div 10)) \<or> c = digit (n mod 10)"
      using 1(2) by (subst (asm) dec.simps) auto
    then show ?thesis
      using 1(1) [OF False] by (metis mod_less_divisor zero_less_numeral)
  qed
qed

lemma dec_ne [simp]: "dec n \<noteq> []"
  by (subst dec.simps) simp

lemma length_dec: "n < 10 ^ w \<Longrightarrow> 0 < w \<Longrightarrow> length (dec n) \<le> w"
proof (induction w arbitrary: n)
  case (Suc w)
  show ?case
  proof (cases "n < 10")
    case True
    then show ?thesis by (simp add: dec.simps [of n])
  next
    case False
    then have "0 < w" using Suc.prems(1) by (cases w) auto
    moreover have "n div 10 < 10 ^ w" using Suc.prems(1) by (simp add: div_less_iff_less_mult mult.commute)
    ultimately show ?thesis using Suc.IH [of "n div 10"] False by (simp add: dec.simps [of n])
  qed
qed simp

lemma hd_dec: "n \<noteq> 0 \<Longrightarrow> \<exists>d. 0 < d \<and> d < 10 \<and> hd (dec n) = digit d"
proof (induction n rule: dec.induct)
  case (1 n)
  show ?case
  proof (cases "n < 10")
    case True
    then show ?thesis using 1(2) by (subst dec.simps) auto
  next
    case False
    then have "n div 10 \<noteq> 0" by simp
    then obtain d where "0 < d \<and> d < 10 \<and> hd (dec (n div 10)) = digit d"
      using 1(1) [OF False] by blast
    then show ?thesis using False by (subst dec.simps) (auto simp: hd_append)
  qed
qed

lemma digits_val_dec: "digits_val 10 (dec n) = n"
proof (induction n rule: dec.induct)
  case (1 n)
  then show ?case
    by (subst dec.simps) (auto simp: digits_val_def digit_val_digit)
qed

lemma dec_base: "takeWhile (\<lambda>c. digit_val c < 10) (dec n) = dec n"
  using dec_digits [of _ n] digit_val_digit by (intro takeWhile_eq_all_conv [THEN iffD2]) (metis (no_types, lifting))

lemma digit_no_space: "d < 10 \<Longrightarrow> \<not> isspace (digit d) \<and> digit d \<noteq> CHR ''-'' \<and> digit d \<noteq> CHR ''+'' \<and> digit d \<noteq> NUL"
proof -
  assume d: "d < 10"
  have "ccode CHR '' '' = 32" "ccode CHR ''-'' = 45" "ccode CHR ''+'' = 43" by (simp_all add: ccode_def)
  then show ?thesis
    using d ccode_digit [OF d] ccode_NUL by (auto simp: isspace_def)
qed

lemma cstr_dec [simp]: "cstr (dec n)"
  using dec_digits [of NUL n] digit_no_space unfolding cstr_def by metis

lemma cstr_show_int [simp]: "cstr (show_int i)"
  by (simp add: show_int_def)

lemma clamp_long_id: "- (2 ^ 63) \<le> i \<Longrightarrow> i < 2 ^ 63 \<Longrightarrow> clamp_long i = i"
  by (simp add: clamp_long_def)

lemma strtol_mag_dec: "strtol_mag (dec n) = Some (n, [])"
proof (cases "n = 0")
  case True
  have "strtol_mag (dec 0) = Some (0, [])" by code_simp
  then show ?thesis using True by simp
next
  case False
  then obtain d where d: "0 < d" "d < 10" "hd (dec n) = digit d"
    using hd_dec by blast
  have "ccode CHR ''0'' = 48" by (simp add: ccode_def)
  then have "digit d \<noteq> CHR ''0''"
    using ccode_digit [OF d(2)] d(1) by (metis add_cancel_left_right less_numeral_extra(3))
  then have "hd (dec n) \<noteq> CHR ''0''" "dec n ! 0 \<noteq> CHR ''0''"
    using d(3) by (simp_all add: hd_conv_nth)
  then show ?thesis
    unfolding strtol_mag_def Let_def by (simp only: simp_thms if_False dec_base digits_val_dec dec_ne) simp
qed

lemma strtol0_show_int:
  assumes "- (2 ^ 63) \<le> i" and "i < 2 ^ 63"
  shows "strtol0 (show_int i) = (i, [])"
proof -
  have clamp: "clamp_long i = i" using assms by (rule clamp_long_id)
  show ?thesis
  proof (cases "i < 0")
    case True
    have "dropWhile isspace (show_int i) = show_int i"
      using True by (simp add: show_int_def isspace_def ccode_def)
    then show ?thesis
      using True clamp by (simp add: strtol0_def show_int_def strtol_mag_dec)
  next
    case False
    obtain d where d: "d < 10" "hd (dec (nat i)) = digit d"
      using dec_digits hd_in_set dec_ne by metis
    then have "dropWhile isspace (dec (nat i)) = dec (nat i)"
      using digit_no_space [OF d(1)] by (cases "dec (nat i)") auto
    then show ?thesis
      using False clamp digit_no_space [OF d(1)] d(2)
      by (simp add: strtol0_def show_int_def strtol_mag_dec)
  qed
qed

lemma to_int32_id: "- (2 ^ 31) \<le> i \<Longrightarrow> i < 2 ^ 31 \<Longrightarrow> to_int32 i = i"
  by (simp add: to_int32_def signed_take_bit_int_eq_self)

lemma dec_isdigit: "c \<in> set (dec n) \<Longrightarrow> isdigit c"
  using dec_digits isdigit_digit by blast

text \<open>What \<open>%d\<close> printed is scanned back, whatever follows that is not a digit.\<close>

lemma scan_int_show_int:
  assumes "length (show_int i) \<le> w" and "r = [] \<or> \<not> isdigit (hd r)"
  shows "scan_int w (show_int i @ r) = Some (i, r)"
proof -
  have run: "takeWhile isdigit (take k (dec n @ r)) = dec n" if "length (dec n) \<le> k" for k n
  proof -
    have "take k (dec n @ r) = dec n @ take (k - length (dec n)) r" using that by simp
    moreover have "takeWhile isdigit (take m r) = []" for m using assms(2) by (cases r; cases m) auto
    ultimately show ?thesis using dec_isdigit by (simp add: takeWhile_append2)
  qed
  show ?thesis
  proof (cases "i < 0")
    case True
    have "dropWhile isspace (show_int i @ r) = show_int i @ r"
      using True by (simp add: show_int_def isspace_def ccode_def)
    then show ?thesis
      using True assms(1) run [of "nat (- i)" "w - 1"] by (simp add: scan_int_def show_int_def digits_val_dec)
  next
    case False
    obtain d ds where d: "d < 10" "dec (nat i) = digit d # ds"
      using dec_digits [of "hd (dec (nat i))" "nat i"] by (metis dec_ne list.collapse list.set_sel(1))
    have "dropWhile isspace (dec (nat i) @ r) = dec (nat i) @ r"
      using digit_no_space [OF d(1)] d(2) by simp
    moreover have "hd (dec (nat i) @ r) \<noteq> CHR ''-''" "hd (dec (nat i) @ r) \<noteq> CHR ''+''"
      using digit_no_space [OF d(1)] d(2) by simp_all
    ultimately show ?thesis
      using False assms(1) run [of "nat i" w] by (simp add: scan_int_def show_int_def digits_val_dec)
  qed
qed

end
