(* ===== verification/Rss_Log.thy ===== *)
theory Rss_Log imports Rss_Num Rss_Util begin

text \<open>
  The logger of \<open>src/rss_log.c\<close>: its state, and each call as the records it writes.  The text of a message,
  formatted by \<open>vsnprintf\<close>, and the clock are arguments.
\<close>

datatype rss_log_level_t = RSS_LOG_FATAL | RSS_LOG_ERROR | RSS_LOG_WARN | RSS_LOG_INFO | RSS_LOG_DEBUG | RSS_LOG_TRACE

datatype rss_log_target_t = RSS_LOG_TARGET_STDERR | RSS_LOG_TARGET_SYSLOG | RSS_LOG_TARGET_FILE | RSS_LOG_TARGET_BOTH

text \<open>The levels are an enumeration; comparisons are on its numbers.\<close>

fun level_num :: "rss_log_level_t \<Rightarrow> nat" where
  "level_num RSS_LOG_FATAL = 0"
| "level_num RSS_LOG_ERROR = 1"
| "level_num RSS_LOG_WARN = 2"
| "level_num RSS_LOG_INFO = 3"
| "level_num RSS_LOG_DEBUG = 4"
| "level_num RSS_LOG_TRACE = 5"

instantiation rss_log_level_t :: linorder
begin

definition less_eq_rss_log_level_t :: "rss_log_level_t \<Rightarrow> rss_log_level_t \<Rightarrow> bool" where
  "less_eq_rss_log_level_t a b \<longleftrightarrow> level_num a \<le> level_num b"

definition less_rss_log_level_t :: "rss_log_level_t \<Rightarrow> rss_log_level_t \<Rightarrow> bool" where
  "less_rss_log_level_t a b \<longleftrightarrow> level_num a < level_num b"

instance
proof
  fix a b c :: rss_log_level_t
  have inj: "level_num a = level_num b \<Longrightarrow> a = b" by (cases a; cases b) simp_all
  show "a < b \<longleftrightarrow> a \<le> b \<and> \<not> b \<le> a" "a \<le> a" "a \<le> b \<or> b \<le> a"
    by (auto simp: less_eq_rss_log_level_t_def less_rss_log_level_t_def)
  show "a \<le> b \<Longrightarrow> b \<le> c \<Longrightarrow> a \<le> c" by (simp add: less_eq_rss_log_level_t_def)
  show "a \<le> b \<Longrightarrow> b \<le> a \<Longrightarrow> a = b" by (rule inj) (simp add: less_eq_rss_log_level_t_def)
qed

end

fun level_name :: "rss_log_level_t \<Rightarrow> string" where
  "level_name RSS_LOG_FATAL = ''FATAL''"
| "level_name RSS_LOG_ERROR = ''ERROR''"
| "level_name RSS_LOG_WARN = ''WARN ''"
| "level_name RSS_LOG_INFO = ''INFO ''"
| "level_name RSS_LOG_DEBUG = ''DEBUG''"
| "level_name RSS_LOG_TRACE = ''TRACE''"

datatype prio = LOG_CRIT | LOG_ERR | LOG_WARNING | LOG_INFO | LOG_DEBUG

fun syslog_prio :: "rss_log_level_t \<Rightarrow> prio" where
  "syslog_prio RSS_LOG_FATAL = LOG_CRIT"
| "syslog_prio RSS_LOG_ERROR = LOG_ERR"
| "syslog_prio RSS_LOG_WARN = LOG_WARNING"
| "syslog_prio RSS_LOG_INFO = LOG_INFO"
| "syslog_prio RSS_LOG_DEBUG = LOG_DEBUG"
| "syslog_prio RSS_LOG_TRACE = LOG_DEBUG"

record log_state =
  s_daemon_name :: string
  s_level :: rss_log_level_t
  s_target :: rss_log_target_t
  s_fp :: "string option"
  syslog_open :: bool

datatype log_record = To_Syslog prio string | To_Stderr string | To_File string string

text \<open>\<open>opens\<close> tells whether the file can be opened for appending.\<close>

definition rss_log_init ::
  "(string \<Rightarrow> bool) \<Rightarrow> string option \<Rightarrow> rss_log_level_t \<Rightarrow> rss_log_target_t \<Rightarrow> string option \<Rightarrow> log_state \<Rightarrow> log_record list \<times> log_state" where
  "rss_log_init opens daemon_name level target log_file st =
     (let name = take 63 (case daemon_name of None \<Rightarrow> ''rss'' | Some n \<Rightarrow> n);
          st = st\<lparr>syslog_open := False, s_fp := None, s_daemon_name := name, s_level := level, s_target := target\<rparr>
      in if target = RSS_LOG_TARGET_SYSLOG \<or> target = RSS_LOG_TARGET_BOTH then ([], st\<lparr>syslog_open := True\<rparr>)
         else case (target, log_file) of
           (RSS_LOG_TARGET_FILE, Some f) \<Rightarrow>
             if opens f then ([], st\<lparr>s_fp := Some f\<rparr>)
             else ([To_Stderr (name @ '': failed to open log file '' @ f @ '', using stderr'' @ [LF])],
                   st\<lparr>s_target := RSS_LOG_TARGET_STDERR\<rparr>)
         | _ \<Rightarrow> ([], st))"

definition rss_log_set_level :: "rss_log_level_t \<Rightarrow> log_state \<Rightarrow> log_state" where
  "rss_log_set_level level st = st\<lparr>s_level := level\<rparr>"

definition rss_log_get_level :: "log_state \<Rightarrow> rss_log_level_t" where
  "rss_log_get_level st = s_level st"

text \<open>The name behind the last slash.\<close>

definition base_name :: "string \<Rightarrow> string" where
  "base_name f = rev (takeWhile (\<lambda>c. c \<noteq> CHR ''/'') (rev f))"

definition rss_vlog ::
  "rss_log_level_t \<Rightarrow> string \<Rightarrow> int \<Rightarrow> string \<Rightarrow> string \<Rightarrow> string \<Rightarrow> log_state \<Rightarrow> log_record list" where
  "rss_vlog level f line fmt msg tsbuf st =
     (if level > s_level st then []
      else
        let f = base_name f;
            sys = (if s_target st = RSS_LOG_TARGET_SYSLOG \<or> s_target st = RSS_LOG_TARGET_BOTH
              then [To_Syslog (syslog_prio level)
                 (''['' @ level_name level @ ''] '' @ f @ '':'' @ show_int line @ '': '' @ take 511 msg)] else [])
        in if s_target st = RSS_LOG_TARGET_SYSLOG then sys
           else
             let text = tsbuf @ '' '' @ s_daemon_name st @ '' ['' @ level_name level @ ''] '' @ f @ '':'' @ show_int line @ '': ''
                  @ msg @ (if fmt = [] \<or> last fmt \<noteq> LF then [LF] else [])
             in sys @ (case (s_target st, s_fp st) of (RSS_LOG_TARGET_FILE, Some p) \<Rightarrow> [To_File p text] | _ \<Rightarrow> [To_Stderr text]))"

text \<open>The places a target stands for.\<close>

definition goes_to :: "log_state \<Rightarrow> log_record \<Rightarrow> bool" where
  "goes_to st r \<longleftrightarrow> (case r of
     To_Syslog p m \<Rightarrow> s_target st \<in> {RSS_LOG_TARGET_SYSLOG, RSS_LOG_TARGET_BOTH}
   | To_Stderr m \<Rightarrow> s_target st \<in> {RSS_LOG_TARGET_STDERR, RSS_LOG_TARGET_BOTH} \<or> s_target st = RSS_LOG_TARGET_FILE \<and> s_fp st = None
   | To_File p m \<Rightarrow> s_target st = RSS_LOG_TARGET_FILE \<and> s_fp st = Some p)"

text \<open>
  A message is written exactly when its level is at or below the level set, once to every place of the
  target.
\<close>

lemma log_routing:
  "length (rss_vlog level f line fmt msg ts st)
     = (if level \<le> s_level st then if s_target st = RSS_LOG_TARGET_BOTH then 2 else 1 else 0)"
  "list_all (goes_to st) (rss_vlog level f line fmt msg ts st)"
  by (auto simp: rss_vlog_def goes_to_def Let_def not_less split: rss_log_target_t.splits option.splits)

text \<open>After an initialisation a message always finds its place: a file that cannot be opened falls back to stderr.\<close>

lemma log_init_target:
  "case rss_log_init opens n level target log_file st of (rs, st') \<Rightarrow>
     s_level st' = level \<and> list_all (goes_to st') rs
     \<and> (s_target st' = RSS_LOG_TARGET_FILE \<longrightarrow> s_fp st' = (case log_file of Some p \<Rightarrow> if opens p then Some p else None | None \<Rightarrow> None))
     \<and> (s_target st' = target \<or> s_target st' = RSS_LOG_TARGET_STDERR)
     \<and> (syslog_open st' \<longleftrightarrow> target \<in> {RSS_LOG_TARGET_SYSLOG, RSS_LOG_TARGET_BOTH})"
  by (cases target; cases log_file) (auto simp: rss_log_init_def Let_def goes_to_def)

end
