(* ===== verification/Rss_Config.thy ===== *)
theory Rss_Config
  imports Rss_Util Rss_Num
begin

text \<open>
  The running configuration of \<open>src/rss_config.c\<close>: the store of sections and entries with
  its getters, setters and removals.  The two linked lists are lists, newest element first,
  and a pointer to an element is its index.  A string argument that may be \<open>NULL\<close> is an
  option, as is the configuration itself; allocation is taken to succeed.

  The contract the rest of the library relies on is the locale \<open>config_store\<close>: what a lookup
  answers after each operation.  The store is shown to satisfy it, so that a
  configuration is a map from folded names to values for whoever uses it.
\<close>

section \<open>Data\<close>

abbreviation (input) MAX_LINE :: nat where "MAX_LINE \<equiv> 512"
abbreviation (input) MAX_SECN :: nat where "MAX_SECN \<equiv> 64"
abbreviation (input) MAX_KEY :: nat where "MAX_KEY \<equiv> 64"
abbreviation (input) MAX_VAL :: nat where "MAX_VAL \<equiv> 256"

record rss_config_entry_t =
  key :: string
  val :: string
  dirty :: bool
  defaulted :: bool
  removed :: bool

record rss_config_section_t =
  sec_name :: string
  sec_removed :: bool
  sec_dirty :: bool
  entries :: "rss_config_entry_t list"

type_synonym rss_config_t = "rss_config_section_t list"

text \<open>\<open>rss_strlcpy\<close> into an array field: the string a reader of the field finds.\<close>

definition field :: "nat \<Rightarrow> string \<Rightarrow> string" where
  "field n s = take (n - 1) (c_str s)"

fun index_of :: "('a \<Rightarrow> bool) \<Rightarrow> 'a list \<Rightarrow> nat option" where
  "index_of P [] = None"
| "index_of P (x # xs) = (if P x then Some 0 else map_option Suc (index_of P xs))"

section \<open>Operations\<close>

definition find_or_create_section :: "rss_config_t \<Rightarrow> string \<Rightarrow> nat \<times> rss_config_t" where
  "find_or_create_section cfg name =
     (case index_of (\<lambda>s. strcasecmp (sec_name s) name = 0) cfg of
        Some i \<Rightarrow> (i, cfg)
      | None \<Rightarrow> (0, \<lparr>sec_name = field MAX_SECN name, sec_removed = False, sec_dirty = False, entries = []\<rparr> # cfg))"

definition add_entry_ex :: "string \<Rightarrow> string \<Rightarrow> bool \<Rightarrow> bool \<Rightarrow> rss_config_entry_t list \<Rightarrow> rss_config_entry_t list" where
  "add_entry_ex k v drty dflt es =
     (case index_of (\<lambda>e. strcasecmp (key e) k = 0) es of
        Some i \<Rightarrow>
          let e = (es ! i)\<lparr>val := field MAX_VAL v, dirty := dirty (es ! i) \<or> drty\<rparr>
          in es[i := (if dflt then e\<lparr>defaulted := defaulted e \<or> removed e\<rparr>
                      else e\<lparr>defaulted := False, removed := False\<rparr>)]
      | None \<Rightarrow>
          \<lparr>key = field MAX_KEY k, val = field MAX_VAL v, dirty = drty, defaulted = dflt, removed = False\<rparr> # es)"

definition add_entry :: "string \<Rightarrow> string \<Rightarrow> rss_config_entry_t list \<Rightarrow> rss_config_entry_t list" where
  "add_entry k v = add_entry_ex k v False False"

definition add_entry_default :: "string \<Rightarrow> string \<Rightarrow> rss_config_entry_t list \<Rightarrow> rss_config_entry_t list" where
  "add_entry_default k v = add_entry_ex k v False True"

text \<open>Adding to a section that is created when it is missing.\<close>

definition in_section :: "(rss_config_section_t \<Rightarrow> rss_config_section_t) \<Rightarrow> string \<Rightarrow> rss_config_t \<Rightarrow> rss_config_t" where
  "in_section f name cfg = (case find_or_create_section cfg name of (i, cfg) \<Rightarrow> cfg[i := f (cfg ! i)])"

abbreviation or_empty :: "string option \<Rightarrow> string" where
  "or_empty s \<equiv> (case s of None \<Rightarrow> [] | Some s \<Rightarrow> s)"

fun find_entry_value :: "rss_config_entry_t list \<Rightarrow> string \<Rightarrow> string option" where
  "find_entry_value [] k = None"
| "find_entry_value (e # es) k =
     (if strcasecmp (key e) k = 0 \<and> \<not> defaulted e \<and> \<not> removed e then Some (val e) else find_entry_value es k)"

fun find_value :: "rss_config_t \<Rightarrow> string \<Rightarrow> string \<Rightarrow> string option" where
  "find_value [] sname k = None"
| "find_value (s # ss) sname k =
     (if strcasecmp (sec_name s) sname \<noteq> 0 then find_value ss sname k
      else case find_entry_value (entries s) k of Some v \<Rightarrow> Some v | None \<Rightarrow> find_value ss sname k)"

definition store_default :: "string \<Rightarrow> string \<Rightarrow> string \<Rightarrow> rss_config_t \<Rightarrow> rss_config_t" where
  "store_default sname k v = in_section (\<lambda>s. s\<lparr>entries := add_entry_default k v (entries s)\<rparr>) sname"

definition rss_config_get_str ::
  "rss_config_t option \<Rightarrow> string option \<Rightarrow> string option \<Rightarrow> string option \<Rightarrow> string option \<times> rss_config_t option" where
  "rss_config_get_str cfg sname k default_val =
     (case (cfg, k) of
        (Some cfg, Some k) \<Rightarrow>
          (case find_value cfg (or_empty sname) k of
             Some v \<Rightarrow> (Some v, Some cfg)
           | None \<Rightarrow>
             (case default_val of None \<Rightarrow> (None, Some cfg)
              | Some d \<Rightarrow>
                let (i, cfg) = find_or_create_section cfg (or_empty sname);
                    s = (cfg ! i)\<lparr>entries := add_entry_default k d (entries (cfg ! i))\<rparr>;
                    cfg = cfg[i := s]
                in case find (\<lambda>e. strcasecmp (key e) k = 0) (entries s) of
                     Some e \<Rightarrow> (Some (val e), Some cfg)
                   | None \<Rightarrow> (Some d, Some cfg)))
      | _ \<Rightarrow> (default_val, cfg))"

definition rss_config_get_int :: "rss_config_t option \<Rightarrow> string option \<Rightarrow> string \<Rightarrow> int \<Rightarrow> int \<times> rss_config_t option" where
  "rss_config_get_int cfg sname k default_val =
     (case rss_config_get_str cfg sname (Some k) None of
        (None, cfg) \<Rightarrow> (default_val, map_option (store_default (or_empty sname) k (show_int default_val)) cfg)
      | (Some v, cfg) \<Rightarrow>
          (case strtol0 (c_str v) of (n, end) \<Rightarrow> if end = c_str v then (default_val, cfg) else (to_int32 n, cfg)))"

definition rss_config_get_bool :: "rss_config_t option \<Rightarrow> string option \<Rightarrow> string \<Rightarrow> bool \<Rightarrow> bool \<times> rss_config_t option" where
  "rss_config_get_bool cfg sname k default_val =
     (case rss_config_get_str cfg sname (Some k) None of
        (None, cfg) \<Rightarrow>
          (default_val, map_option (store_default (or_empty sname) k (if default_val then ''true'' else ''false'')) cfg)
      | (Some v, cfg) \<Rightarrow>
          (if strcasecmp v ''true'' = 0 \<or> strcasecmp v ''yes'' = 0 \<or> strcasecmp v ''on'' = 0 \<or> strcmp v ''1'' = 0
           then (True, cfg)
           else if strcasecmp v ''false'' = 0 \<or> strcasecmp v ''no'' = 0 \<or> strcasecmp v ''off'' = 0 \<or> strcmp v ''0'' = 0
           then (False, cfg)
           else (default_val, cfg)))"

text \<open>The walks hand the callback one element after the other: the list of what it is called with.\<close>

definition rss_config_foreach :: "rss_config_t option \<Rightarrow> string option \<Rightarrow> (string \<times> string) list" where
  "rss_config_foreach cfg sname =
     (case cfg of None \<Rightarrow> []
      | Some cfg \<Rightarrow>
        concat (map (\<lambda>s. if strcasecmp (sec_name s) (or_empty sname) \<noteq> 0 \<or> sec_removed s then []
                         else map (\<lambda>e. (key e, val e)) (filter (\<lambda>e. \<not> removed e) (entries s))) cfg))"

definition rss_config_foreach_section :: "rss_config_t option \<Rightarrow> string option \<Rightarrow> string list" where
  "rss_config_foreach_section cfg prfx =
     (case cfg of None \<Rightarrow> []
      | Some cfg \<Rightarrow>
        let plen = length (or_empty prfx)
        in map sec_name (filter (\<lambda>s. \<not> (plen > 0 \<and> strncasecmp (sec_name s) (or_empty prfx) plen \<noteq> 0)
                                     \<and> \<not> sec_removed s) cfg))"

definition rss_config_set_str ::
  "rss_config_t option \<Rightarrow> string option \<Rightarrow> string option \<Rightarrow> string option \<Rightarrow> rss_config_t option" where
  "rss_config_set_str cfg sname k v =
     (case (cfg, k, v) of
        (Some cfg, Some k, Some v) \<Rightarrow>
          (case sname of None \<Rightarrow> Some cfg
           | Some sname \<Rightarrow>
             if c_str sname = [] then Some cfg
             else Some (in_section (\<lambda>s. s\<lparr>sec_removed := False, sec_dirty := False,
                                           entries := add_entry_ex k v True False (entries s)\<rparr>) sname cfg))
      | _ \<Rightarrow> cfg)"

definition rss_config_set_int :: "rss_config_t option \<Rightarrow> string option \<Rightarrow> string option \<Rightarrow> int \<Rightarrow> rss_config_t option" where
  "rss_config_set_int cfg sname k n = rss_config_set_str cfg sname k (Some (show_int n))"

definition rss_config_set_bool :: "rss_config_t option \<Rightarrow> string option \<Rightarrow> string option \<Rightarrow> bool \<Rightarrow> rss_config_t option" where
  "rss_config_set_bool cfg sname k b = rss_config_set_str cfg sname k (Some (if b then ''true'' else ''false''))"

fun unset_entry :: "string \<Rightarrow> rss_config_entry_t list \<Rightarrow> (bool \<times> rss_config_entry_t list) option" where
  "unset_entry k [] = None"
| "unset_entry k (e # es) =
     (if strcasecmp (key e) k \<noteq> 0 then map_option (apsnd (Cons e)) (unset_entry k es)
      else if defaulted e \<or> removed e then Some (False, e # es)
      else Some (True, e\<lparr>removed := True, dirty := True\<rparr> # es))"

fun unset_in :: "string \<Rightarrow> string \<Rightarrow> rss_config_t \<Rightarrow> bool \<times> rss_config_t" where
  "unset_in sname k [] = (False, [])"
| "unset_in sname k (s # ss) =
     (if strcasecmp (sec_name s) sname \<noteq> 0 then apsnd (Cons s) (unset_in sname k ss)
      else case unset_entry k (entries s) of
             Some (r, es) \<Rightarrow> (r, s\<lparr>entries := es\<rparr> # ss)
           | None \<Rightarrow> apsnd (Cons s) (unset_in sname k ss))"

definition rss_config_unset :: "rss_config_t option \<Rightarrow> string option \<Rightarrow> string option \<Rightarrow> bool \<times> rss_config_t option" where
  "rss_config_unset cfg sname k =
     (case (cfg, k) of
        (Some cfg, Some k) \<Rightarrow> apsnd Some (unset_in (or_empty sname) k cfg)
      | _ \<Rightarrow> (False, cfg))"

definition remove_entry :: "rss_config_entry_t \<Rightarrow> rss_config_entry_t" where
  "remove_entry e = (if defaulted e \<or> removed e then e else e\<lparr>removed := True, dirty := True\<rparr>)"

fun remove_in :: "string \<Rightarrow> rss_config_t \<Rightarrow> bool \<times> rss_config_t" where
  "remove_in sname [] = (False, [])"
| "remove_in sname (s # ss) =
     (if strcasecmp (sec_name s) sname \<noteq> 0 \<or> sec_removed s then apsnd (Cons s) (remove_in sname ss)
      else (True, s\<lparr>entries := map remove_entry (entries s), sec_removed := True, sec_dirty := True\<rparr> # ss))"

definition rss_config_remove_section :: "rss_config_t option \<Rightarrow> string option \<Rightarrow> bool \<times> rss_config_t option" where
  "rss_config_remove_section cfg sname =
     (case (cfg, sname) of
        (Some cfg, Some sname) \<Rightarrow> if c_str sname = [] then (False, Some cfg) else apsnd Some (remove_in sname cfg)
      | _ \<Rightarrow> (False, cfg))"

definition rss_config_has_dirty :: "rss_config_t option \<Rightarrow> bool" where
  "rss_config_has_dirty cfg =
     (case cfg of None \<Rightarrow> False
      | Some cfg \<Rightarrow> list_ex (\<lambda>s. (sec_removed s \<and> sec_dirty s) \<or> list_ex dirty (entries s)) cfg)"

section \<open>Lookups\<close>

lemma index_of_Some: "index_of P xs = Some i \<Longrightarrow> \<exists>ys x zs. xs = ys @ x # zs \<and> i = length ys \<and> P x \<and> (\<forall>y \<in> set ys. \<not> P y)"
proof (induction xs arbitrary: i)
  case (Cons a xs)
  show ?case
  proof (cases "P a")
    case True
    then show ?thesis using Cons.prems by (intro exI [of _ "[]"]) auto
  next
    case False
    then obtain j where j: "index_of P xs = Some j" "i = Suc j" using Cons.prems by auto
    then obtain ys x zs where "xs = ys @ x # zs" "j = length ys" "P x" "\<forall>y \<in> set ys. \<not> P y"
      using Cons.IH by blast
    then show ?thesis using False j by (intro exI [of _ "a # ys"]) auto
  qed
qed simp

lemma index_of_None: "index_of P xs = None \<longleftrightarrow> (\<forall>x \<in> set xs. \<not> P x)"
  by (induction xs) auto

lemma cstr_field [simp]: "cstr (field n s)"
  by (simp add: field_def)

lemma length_field: "length (field n s) \<le> n - 1"
  by (simp add: field_def)

lemma fold_name_field: "length (c_str s) < n \<Longrightarrow> fold_name (field n s) = fold_name s"
  by (simp add: field_def fold_name_def)

definition visible :: "rss_config_entry_t \<Rightarrow> bool" where
  "visible e \<longleftrightarrow> \<not> defaulted e \<and> \<not> removed e"

lemma find_entry_value_append:
  "find_entry_value (xs @ ys) k = (case find_entry_value xs k of Some v \<Rightarrow> Some v | None \<Rightarrow> find_entry_value ys k)"
  by (induction xs) auto

lemma find_entry_value_None:
  "find_entry_value es k = None \<longleftrightarrow> (\<forall>e \<in> set es. fold_name (key e) = fold_name k \<longrightarrow> \<not> visible e)"
  by (induction es) (auto simp: strcasecmp_fold visible_def)

lemma find_value_append:
  "find_value (xs @ ys) sname k = (case find_value xs sname k of Some v \<Rightarrow> Some v | None \<Rightarrow> find_value ys sname k)"
  by (induction xs) (auto split: option.split)

lemma find_value_None:
  "find_value cfg sname k = None \<longleftrightarrow>
    (\<forall>s \<in> set cfg. fold_name (sec_name s) = fold_name sname \<longrightarrow> find_entry_value (entries s) k = None)"
  by (induction cfg) (auto simp: strcasecmp_fold split: option.split)

lemma find_entry_value_cong: "fold_name k = fold_name k' \<Longrightarrow> find_entry_value es k = find_entry_value es k'"
  by (induction es) (simp_all add: strcasecmp_fold)

lemma find_value_cong:
  "fold_name sname = fold_name sname' \<Longrightarrow> fold_name k = fold_name k' \<Longrightarrow> find_value cfg sname k = find_value cfg sname' k'"
  by (induction cfg) (simp_all add: strcasecmp_fold find_entry_value_cong [of k k'] split: option.split)

section \<open>Adding an entry\<close>

definition set_entry :: "string \<Rightarrow> bool \<Rightarrow> bool \<Rightarrow> rss_config_entry_t \<Rightarrow> rss_config_entry_t" where
  "set_entry v drty dflt e =
     (if dflt then e\<lparr>val := field 256 v, dirty := dirty e \<or> drty, defaulted := defaulted e \<or> removed e\<rparr>
      else e\<lparr>val := field 256 v, dirty := dirty e \<or> drty, defaulted := False, removed := False\<rparr>)"

lemma add_entry_ex_cases:
  obtains (found) xs e ys where "es = xs @ e # ys" "fold_name (key e) = fold_name k"
      "\<forall>x \<in> set xs. fold_name (key x) \<noteq> fold_name k"
      "add_entry_ex k v drty dflt es = xs @ set_entry v drty dflt e # ys"
  | (new) "\<forall>x \<in> set es. fold_name (key x) \<noteq> fold_name k"
      "add_entry_ex k v drty dflt es =
         \<lparr>key = field 64 k, val = field 256 v, dirty = drty, defaulted = dflt, removed = False\<rparr> # es"
proof (cases "index_of (\<lambda>e. strcasecmp (key e) k = 0) es")
  case None
  have "\<forall>x \<in> set es. fold_name (key x) \<noteq> fold_name k"
    using None by (simp add: index_of_None strcasecmp_fold)
  moreover have "add_entry_ex k v drty dflt es =
         \<lparr>key = field 64 k, val = field 256 v, dirty = drty, defaulted = dflt, removed = False\<rparr> # es"
    unfolding add_entry_ex_def None by simp
  ultimately show thesis by (rule new)
next
  case (Some i)
  then obtain xs e ys where x: "es = xs @ e # ys" "i = length xs" "strcasecmp (key e) k = 0"
    "\<forall>x \<in> set xs. strcasecmp (key x) k \<noteq> 0"
    using index_of_Some by blast
  have "add_entry_ex k v drty dflt es = xs @ set_entry v drty dflt e # ys"
    unfolding add_entry_ex_def Some by (simp add: x(1,2) Let_def set_entry_def)
  then show thesis
    using found [of xs e ys] x by (simp add: strcasecmp_fold)
qed

lemma find_entry_no_match:
  "\<forall>x \<in> set xs. fold_name (key x) \<noteq> fold_name k \<Longrightarrow> find_entry_value xs k = None"
  by (simp add: find_entry_value_None)

lemma find_add_entry:
  assumes "length (c_str k) < 64"
  shows "find_entry_value (add_entry_ex k v drty False es) k' =
    (if fold_name k' = fold_name k then Some (field 256 v) else find_entry_value es k')"
proof (rule add_entry_ex_cases [of es k v drty False])
  fix xs e ys
  assume "es = xs @ e # ys" "fold_name (key e) = fold_name k" "\<forall>x \<in> set xs. fold_name (key x) \<noteq> fold_name k"
    "add_entry_ex k v drty False es = xs @ set_entry v drty False e # ys"
  then show ?thesis
    using find_entry_no_match [of xs k']
    by (auto simp: find_entry_value_append strcasecmp_fold set_entry_def split: option.split)
qed (use assms in \<open>auto simp: strcasecmp_fold fold_name_field\<close>)

lemma find_add_default:
  assumes "find_entry_value es k = None"
  shows "find_entry_value (add_entry_ex k v drty True es) k' = find_entry_value es k'"
proof (rule add_entry_ex_cases [of es k v drty True])
  fix xs e ys
  assume a: "es = xs @ e # ys" "fold_name (key e) = fold_name k"
    "add_entry_ex k v drty True es = xs @ set_entry v drty True e # ys"
  then have "\<not> visible e" using assms by (simp add: find_entry_value_None)
  then show ?thesis
    using a by (auto simp: find_entry_value_append visible_def set_entry_def split: option.split)
qed simp

text \<open>The section an addition works on: the first of its name, or a new one in front.\<close>

lemma in_section_cases:
  assumes "length (c_str name) < 64"
  obtains (found) xs s ys where "cfg = xs @ s # ys" "fold_name (sec_name s) = fold_name name"
      "\<forall>x \<in> set xs. fold_name (sec_name x) \<noteq> fold_name name" "in_section f name cfg = xs @ f s # ys"
  | (new) "\<forall>x \<in> set cfg. fold_name (sec_name x) \<noteq> fold_name name"
      "in_section f name cfg = f \<lparr>sec_name = field 64 name, sec_removed = False, sec_dirty = False, entries = []\<rparr> # cfg"
      "fold_name (field 64 name) = fold_name name"
proof (cases "index_of (\<lambda>s. strcasecmp (sec_name s) name = 0) cfg")
  case None
  have "\<forall>x \<in> set cfg. fold_name (sec_name x) \<noteq> fold_name name"
    using None by (simp add: index_of_None strcasecmp_fold)
  moreover have "in_section f name cfg = f \<lparr>sec_name = field 64 name, sec_removed = False, sec_dirty = False, entries = []\<rparr> # cfg"
    unfolding in_section_def find_or_create_section_def None by simp
  ultimately show thesis
    using new assms by (simp add: fold_name_field)
next
  case (Some i)
  then obtain xs s ys where x: "cfg = xs @ s # ys" "i = length xs" "strcasecmp (sec_name s) name = 0"
    "\<forall>x \<in> set xs. strcasecmp (sec_name x) name \<noteq> 0"
    using index_of_Some by blast
  have "in_section f name cfg = xs @ f s # ys"
    unfolding in_section_def find_or_create_section_def Some by (simp add: x(1,2))
  then show thesis
    using found [of xs s ys] x by (simp add: strcasecmp_fold)
qed

section \<open>Well-formed stores\<close>

definition entries_ok :: "rss_config_entry_t list \<Rightarrow> bool" where
  "entries_ok es \<longleftrightarrow> distinct (map (\<lambda>e. fold_name (key e)) es)
     \<and> (\<forall>e \<in> set es. cstr (key e) \<and> length (key e) < MAX_KEY \<and> cstr (val e) \<and> length (val e) < MAX_VAL)"

definition section_ok :: "rss_config_section_t \<Rightarrow> bool" where
  "section_ok s \<longleftrightarrow> cstr (sec_name s) \<and> length (sec_name s) < MAX_SECN \<and> entries_ok (entries s)
     \<and> (sec_removed s \<longrightarrow> (\<forall>e \<in> set (entries s). \<not> visible e))"

definition cfg_ok :: "rss_config_t \<Rightarrow> bool" where
  "cfg_ok cfg \<longleftrightarrow> distinct (map (\<lambda>s. fold_name (sec_name s)) cfg) \<and> (\<forall>s \<in> set cfg. section_ok s)"

lemma field_bounds: "length (field 64 s) < 64" "length (field 256 s) < 256"
  using length_field [of 64 s] length_field [of 256 s] by simp_all

lemma set_entry_key [simp]: "key (set_entry v drty dflt e) = key e" "val (set_entry v drty dflt e) = field 256 v"
  by (simp_all add: set_entry_def)

lemma entries_ok_add:
  assumes "entries_ok es" and "length (c_str k) < 64"
  shows "entries_ok (add_entry_ex k v drty dflt es)"
proof (rule add_entry_ex_cases [of es k v drty dflt])
  fix xs e ys
  assume "es = xs @ e # ys" "add_entry_ex k v drty dflt es = xs @ set_entry v drty dflt e # ys"
  then show ?thesis
    using assms(1) by (auto simp: entries_ok_def field_bounds)
next
  assume "\<forall>x \<in> set es. fold_name (key x) \<noteq> fold_name k"
    "add_entry_ex k v drty dflt es = \<lparr>key = field 64 k, val = field 256 v, dirty = drty, defaulted = dflt, removed = False\<rparr> # es"
  then show ?thesis
    using assms by (auto simp: entries_ok_def field_bounds fold_name_field)
qed

lemma invisible_add_default:
  assumes "\<forall>e \<in> set es. \<not> visible e"
  shows "\<forall>e \<in> set (add_entry_ex k v drty True es). \<not> visible e"
  by (rule add_entry_ex_cases [of es k v drty True]) (use assms in \<open>auto simp: visible_def set_entry_def\<close>)

lemma cfg_ok_replace:
  assumes "cfg_ok (xs @ s # ys)" and "section_ok s'" and "fold_name (sec_name s') = fold_name (sec_name s)"
  shows "cfg_ok (xs @ s' # ys)"
  using assms by (simp add: cfg_ok_def)

lemma find_value_replace_distinct:
  assumes "distinct (map (\<lambda>s. fold_name (sec_name s)) (xs @ s # ys))" and "fold_name (sec_name s') = fold_name (sec_name s)"
  shows "find_value (xs @ s' # ys) sname k =
    (if fold_name sname = fold_name (sec_name s) then find_entry_value (entries s') k
     else find_value (xs @ s # ys) sname k)"
proof -
  have "find_value xs sname k = None \<and> find_value ys sname k = None" if "fold_name sname = fold_name (sec_name s)"
  proof -
    have "fold_name (sec_name x) \<noteq> fold_name (sec_name s)" if "x \<in> set xs \<union> set ys" for x
      using assms(1) that by (auto simp: image_iff)
    then show ?thesis using that by (auto simp: find_value_None)
  qed
  then show ?thesis
    using assms(2) by (auto simp: find_value_append strcasecmp_fold split: option.split)
qed

lemma find_value_replace:
  assumes "cfg_ok (xs @ s # ys)" and "fold_name (sec_name s') = fold_name (sec_name s)"
  shows "find_value (xs @ s' # ys) sname k =
    (if fold_name sname = fold_name (sec_name s) then find_entry_value (entries s') k
     else find_value (xs @ s # ys) sname k)"
  using find_value_replace_distinct [of xs s ys s'] assms by (simp add: cfg_ok_def)

lemma find_value_at:
  assumes "cfg_ok (xs @ s # ys)" and "fold_name sname = fold_name (sec_name s)"
  shows "find_value (xs @ s # ys) sname k = find_entry_value (entries s) k"
  using find_value_replace [OF assms(1) refl, of sname k] assms(2) by (simp only: if_True simp_thms)

section \<open>Effect on lookups\<close>

lemma config_set:
  assumes "cfg_ok cfg" and "length (c_str sname) < 64" and "length (c_str k) < 64" and "c_str sname \<noteq> []"
    and "rss_config_set_str (Some cfg) (Some sname) (Some k) (Some v) = Some cfg'"
  shows "cfg_ok cfg' \<and> find_value cfg' s' k' =
    (if fold_name s' = fold_name sname \<and> fold_name k' = fold_name k then Some (field 256 v) else find_value cfg s' k')"
proof -
  let ?f = "\<lambda>s. s\<lparr>sec_removed := False, sec_dirty := False, entries := add_entry_ex k v True False (entries s)\<rparr>"
  have cfg': "cfg' = in_section ?f sname cfg"
    using assms(4,5) by (simp add: rss_config_set_str_def)
  show ?thesis
  proof (rule in_section_cases [OF assms(2), of cfg ?f])
    fix xs s ys
    assume x: "cfg = xs @ s # ys" "fold_name (sec_name s) = fold_name sname" "in_section ?f sname cfg = xs @ ?f s # ys"
    have ok: "section_ok (?f s)"
      using assms(1,3) by (simp add: x(1) cfg_ok_def section_ok_def entries_ok_add)
    have "cfg_ok cfg'"
      unfolding cfg' x(3) by (rule cfg_ok_replace [OF assms(1) [unfolded x(1)] ok]) simp
    moreover have "find_value cfg' s' k' = (if fold_name s' = fold_name (sec_name s) then
        find_entry_value (add_entry_ex k v True False (entries s)) k' else find_value cfg s' k')"
      using find_value_replace [OF assms(1) [unfolded x(1)], of "?f s" s' k'] unfolding cfg' x(3) x(1) [symmetric]
      by simp
    ultimately show ?thesis
      using find_value_at [of xs s ys s' k'] assms(1) find_add_entry [OF assms(3), of v True "entries s" k'] x(1,2)
      by auto
  next
    let ?s = "\<lparr>sec_name = field 64 sname, sec_removed = False, sec_dirty = False, entries = []\<rparr>"
    assume x: "\<forall>x \<in> set cfg. fold_name (sec_name x) \<noteq> fold_name sname" "in_section ?f sname cfg = ?f ?s # cfg"
      "fold_name (field 64 sname) = fold_name sname"
    have "section_ok (?f ?s)"
      using entries_ok_add [OF _ assms(3), of "[]" v True False]
      by (simp add: section_ok_def field_bounds entries_ok_def)
    then have "cfg_ok cfg'"
      using assms(1) x by (auto simp: cfg' cfg_ok_def)
    moreover have "find_value cfg s' k' = None" if "fold_name s' = fold_name sname"
      using x(1) that by (auto simp: find_value_None)
    ultimately show ?thesis
      using x by (auto simp: cfg' strcasecmp_fold find_add_entry [OF assms(3)] split: option.split)
  qed
qed

lemma config_default:
  assumes "cfg_ok cfg" and "length (c_str sname) < 64" and "length (c_str k) < 64" and "find_value cfg sname k = None"
  shows "cfg_ok (store_default sname k v cfg) \<and> find_value (store_default sname k v cfg) s' k' = find_value cfg s' k'"
proof -
  let ?f = "\<lambda>s. s\<lparr>entries := add_entry_default k v (entries s)\<rparr>"
  show ?thesis
  proof (rule in_section_cases [OF assms(2), of cfg ?f])
    fix xs s ys
    assume x: "cfg = xs @ s # ys" "fold_name (sec_name s) = fold_name sname" "in_section ?f sname cfg = xs @ ?f s # ys"
    have none: "find_entry_value (entries s) k = None"
      using find_value_at [of xs s ys sname k] assms(1,4) x(1,2) by simp
    have ok: "section_ok (?f s)"
      using assms(1,3) invisible_add_default [of "entries s" k v False]
      by (simp add: x(1) cfg_ok_def section_ok_def entries_ok_add add_entry_default_def)
    have "cfg_ok (store_default sname k v cfg)"
      unfolding store_default_def x(3) by (rule cfg_ok_replace [OF assms(1) [unfolded x(1)] ok]) simp
    moreover have "find_value (store_default sname k v cfg) s' k' = (if fold_name s' = fold_name (sec_name s) then
        find_entry_value (entries s) k' else find_value cfg s' k')"
      using find_value_replace [OF assms(1) [unfolded x(1)], of "?f s" s' k'] find_add_default [OF none, of v False k']
      unfolding store_default_def x(3) x(1) [symmetric] by (simp add: add_entry_default_def)
    ultimately show ?thesis
      using find_value_at [of xs s ys s' k'] assms(1) x(1) by auto
  next
    let ?s = "\<lparr>sec_name = field 64 sname, sec_removed = False, sec_dirty = False, entries = []\<rparr>"
    assume x: "\<forall>x \<in> set cfg. fold_name (sec_name x) \<noteq> fold_name sname" "in_section ?f sname cfg = ?f ?s # cfg"
      "fold_name (field 64 sname) = fold_name sname"
    have "section_ok (?f ?s)"
      using entries_ok_add [OF _ assms(3), of "[]" v False True]
      by (simp add: section_ok_def field_bounds entries_ok_def add_entry_default_def)
    moreover have "find_entry_value (add_entry_default k v []) k' = None"
      using find_add_default [of "[]" k v False k'] by (simp add: add_entry_default_def)
    ultimately show ?thesis
      using assms(1) x by (auto simp: store_default_def cfg_ok_def split: option.split)
  qed
qed

lemma unset_entry_cases:
  "unset_entry k es = r \<Longrightarrow>
    (r = None \<and> (\<forall>x \<in> set es. fold_name (key x) \<noteq> fold_name k))
    \<or> (\<exists>xs e ys. es = xs @ e # ys \<and> fold_name (key e) = fold_name k
        \<and> (\<forall>x \<in> set xs. fold_name (key x) \<noteq> fold_name k)
        \<and> r = Some (visible e, if visible e then xs @ e\<lparr>removed := True, dirty := True\<rparr> # ys else es))"
proof (induction es arbitrary: r)
  case (Cons a es)
  show ?case
  proof (cases "fold_name (key a) = fold_name k")
    case True
    then show ?thesis
      using Cons.prems by (intro disjI2 exI [of _ "[]"]) (auto simp: strcasecmp_fold visible_def)
  next
    case False
    from Cons.IH [OF refl] show ?thesis
    proof (elim disjE exE conjE)
      fix xs e ys
      assume "es = xs @ e # ys" "fold_name (key e) = fold_name k" "\<forall>x \<in> set xs. fold_name (key x) \<noteq> fold_name k"
        "unset_entry k es = Some (visible e, if visible e then xs @ e\<lparr>removed := True, dirty := True\<rparr> # ys else es)"
      then show ?thesis
        using Cons.prems False
        by (intro disjI2 exI [of _ "a # xs"] exI [of _ e] exI [of _ ys]) (auto simp: strcasecmp_fold)
    qed (use Cons.prems False in \<open>auto simp: strcasecmp_fold\<close>)
  qed
qed simp

lemma find_unset_entry:
  assumes "entries_ok es" and "unset_entry k es = Some (r, es')"
  shows "entries_ok es' \<and> (r \<longleftrightarrow> find_entry_value es k \<noteq> None)
    \<and> find_entry_value es' k' = (if fold_name k' = fold_name k then None else find_entry_value es k')
    \<and> ((\<forall>e \<in> set es. \<not> visible e) \<longrightarrow> (\<forall>e \<in> set es'. \<not> visible e))"
proof -
  obtain xs e ys where x: "es = xs @ e # ys" "fold_name (key e) = fold_name k"
    "\<forall>x \<in> set xs. fold_name (key x) \<noteq> fold_name k"
    "r = visible e" "es' = (if visible e then xs @ e\<lparr>removed := True, dirty := True\<rparr> # ys else es)"
    using unset_entry_cases [OF assms(2)] by auto
  have ys: "\<forall>x \<in> set ys. fold_name (key x) \<noteq> fold_name k"
    using assms(1) x(2) by (auto simp: x(1) entries_ok_def image_iff)
  have none: "find_entry_value xs k = None" "find_entry_value ys k = None"
    using x(3) ys by (simp_all add: find_entry_value_None)
  have same: "find_entry_value (xs @ e' # ys) k' =
      (if fold_name k' = fold_name k then None else find_entry_value es k')"
    if "\<not> visible e'" "key e' = key e" for e'
  proof (cases "fold_name k' = fold_name k")
    case True
    then show ?thesis
      using none that find_entry_value_cong [OF True] x(2)
      by (simp add: find_entry_value_append visible_def strcasecmp_fold)
  next
    case False
    then show ?thesis
      using that x(2) by (simp add: x(1) find_entry_value_append strcasecmp_fold split: option.split)
  qed
  have "r \<longleftrightarrow> find_entry_value es k \<noteq> None"
    using none x(2,4) by (simp add: x(1) find_entry_value_append strcasecmp_fold visible_def)
  moreover have "entries_ok es'"
    using assms(1) by (auto simp: x(5) x(1) entries_ok_def)
  moreover have "find_entry_value es' k' = (if fold_name k' = fold_name k then None else find_entry_value es k')"
  proof (cases "visible e")
    case True
    have "\<not> visible (e\<lparr>removed := True, dirty := True\<rparr>)" by (simp add: visible_def)
    then show ?thesis using same True x(5) by simp
  next
    case False
    then show ?thesis using same [OF False refl] x(1,5) by simp
  qed
  moreover have "(\<forall>e \<in> set es. \<not> visible e) \<longrightarrow> (\<forall>e \<in> set es'. \<not> visible e)"
    by (auto simp: x(5) x(1))
  ultimately show ?thesis by blast
qed

lemma folded_names:
  assumes "map sec_name xs = map sec_name ys"
  shows "map (\<lambda>s. fold_name (sec_name s)) xs = map (\<lambda>s. fold_name (sec_name s)) ys"
    "(\<lambda>s. fold_name (sec_name s)) ` set xs = (\<lambda>s. fold_name (sec_name s)) ` set ys"
proof -
  have m: "map (\<lambda>s. fold_name (sec_name s)) zs = map fold_name (map sec_name zs)" for zs by simp
  show *: "map (\<lambda>s. fold_name (sec_name s)) xs = map (\<lambda>s. fold_name (sec_name s)) ys"
    unfolding m assms by (rule refl)
  have "set (map (\<lambda>s. fold_name (sec_name s)) xs) = set (map (\<lambda>s. fold_name (sec_name s)) ys)"
    by (simp only: *)
  then show "(\<lambda>s. fold_name (sec_name s)) ` set xs = (\<lambda>s. fold_name (sec_name s)) ` set ys" by simp
qed

lemma unset_in_fold:
  "cfg_ok cfg \<Longrightarrow> unset_in sname k cfg = (r, cfg') \<Longrightarrow>
    cfg_ok cfg' \<and> (r \<longleftrightarrow> find_value cfg sname k \<noteq> None)
    \<and> map sec_name cfg' = map sec_name cfg
    \<and> find_value cfg' s' k' = (if fold_name s' = fold_name sname \<and> fold_name k' = fold_name k then None
                                else find_value cfg s' k')"
proof (induction cfg arbitrary: r cfg')
  case (Cons s ss)
  have ok: "cfg_ok ss" "section_ok s" and fresh: "\<forall>x \<in> set ss. fold_name (sec_name x) \<noteq> fold_name (sec_name s)"
    using Cons.prems(1) by (auto simp: cfg_ok_def image_iff)
  show ?case
  proof (cases "fold_name (sec_name s) = fold_name sname \<and> unset_entry k (entries s) \<noteq> None")
    case True
    then obtain es where u: "unset_entry k (entries s) = Some (r, es)" and cfg': "cfg' = s\<lparr>entries := es\<rparr> # ss"
      using Cons.prems(2) by (auto simp: strcasecmp_fold)
    have e: "entries_ok (entries s)" using ok(2) by (simp add: section_ok_def)
    have rest: "find_value ss sname k'' = None" for k''
      using fresh True by (auto simp: find_value_None)
    have rest': "find_value ss s' k'' = None" if "fold_name s' = fold_name sname" for k''
      using rest find_value_cong [OF that refl] by simp
    note f = find_unset_entry [OF e u]
    have "cfg_ok cfg'"
      using Cons.prems(1) f by (simp add: cfg' cfg_ok_def section_ok_def)
    moreover have "r \<longleftrightarrow> find_value (s # ss) sname k \<noteq> None"
      using f True rest by (simp add: strcasecmp_fold split: option.split)
    ultimately show ?thesis
      using f True rest' by (auto simp: cfg' strcasecmp_fold split: option.split)
  next
    case False
    obtain ss' where u: "unset_in sname k ss = (r, ss')" and cfg': "cfg' = s # ss'"
      using Cons.prems(2) False
      by (cases "unset_in sname k ss") (auto simp: strcasecmp_fold split: if_splits option.splits)
    note IH = Cons.IH [OF ok(1) u]
    have "cfg_ok cfg'"
      using IH ok(2) Cons.prems(1) folded_names [of ss' ss] by (auto simp: cfg' cfg_ok_def)
    moreover have none: "find_entry_value (entries s) k = None" if "fold_name (sec_name s) = fold_name sname"
    proof -
      have "unset_entry k (entries s) = None" using False that by blast
      from unset_entry_cases [OF this] show ?thesis by (auto simp: find_entry_value_None)
    qed
    moreover have "find_entry_value (entries s) k' = None"
      if "fold_name (sec_name s) = fold_name sname" "fold_name k' = fold_name k"
      using none [OF that(1)] find_entry_value_cong [OF that(2)] by simp
    ultimately show ?thesis
      using IH by (auto simp: cfg' strcasecmp_fold split: option.split)
  qed
qed (simp add: cfg_ok_def)

lemma find_remove_entries: "find_entry_value (map remove_entry es) k = None"
  by (induction es) (auto simp: remove_entry_def)

lemma remove_entry_fields [simp]: "key (remove_entry e) = key e" "val (remove_entry e) = val e" "\<not> visible (remove_entry e)"
  by (simp_all add: remove_entry_def visible_def)

lemma find_invisible: "\<forall>e \<in> set es. \<not> visible e \<Longrightarrow> find_entry_value es k = None"
  by (simp add: find_entry_value_None)

lemma remove_in_fold:
  "cfg_ok cfg \<Longrightarrow> remove_in sname cfg = (r, cfg') \<Longrightarrow>
    cfg_ok cfg' \<and> (r \<longleftrightarrow> (\<exists>s \<in> set cfg. fold_name (sec_name s) = fold_name sname \<and> \<not> sec_removed s))
    \<and> map sec_name cfg' = map sec_name cfg
    \<and> find_value cfg' s' k' = (if fold_name s' = fold_name sname then None else find_value cfg s' k')"
proof (induction cfg arbitrary: r cfg')
  case (Cons s ss)
  have ok: "cfg_ok ss" "section_ok s" and fresh: "\<forall>x \<in> set ss. fold_name (sec_name x) \<noteq> fold_name (sec_name s)"
    using Cons.prems(1) by (auto simp: cfg_ok_def image_iff)
  show ?case
  proof (cases "fold_name (sec_name s) = fold_name sname \<and> \<not> sec_removed s")
    case True
    then have cfg': "cfg' = s\<lparr>entries := map remove_entry (entries s), sec_removed := True, sec_dirty := True\<rparr> # ss"
      and r: "r" using Cons.prems(2) by (auto simp: strcasecmp_fold)
    have rest: "find_value ss s' k'' = None" if "fold_name s' = fold_name sname" for k''
      using fresh True that by (auto simp: find_value_None)
    have "cfg_ok cfg'"
      using Cons.prems(1) by (auto simp: cfg' cfg_ok_def section_ok_def entries_ok_def comp_def)
    then show ?thesis
      using True rest r by (auto simp: cfg' strcasecmp_fold find_remove_entries)
  next
    case False
    obtain ss' where u: "remove_in sname ss = (r, ss')" and cfg': "cfg' = s # ss'"
      using Cons.prems(2) False
      by (cases "remove_in sname ss") (auto simp: strcasecmp_fold split: if_splits)
    note IH = Cons.IH [OF ok(1) u]
    have "cfg_ok cfg'"
      using IH ok(2) Cons.prems(1) folded_names [of ss' ss] by (auto simp: cfg' cfg_ok_def)
    moreover have "find_entry_value (entries s) k' = None" if "fold_name (sec_name s) = fold_name sname"
      using False that ok(2) by (auto simp: section_ok_def intro: find_invisible)
    ultimately show ?thesis
      using IH False by (auto simp: cfg' strcasecmp_fold split: option.split)
  qed
qed (simp add: cfg_ok_def)

section \<open>The contract of a configuration\<close>

datatype config_op =
    SetStr string string string
  | GetDefault string string string
  | UnsetKey string string
  | RemoveSection string

text \<open>Section and key names an operation can store whole.\<close>

fun op_ok :: "config_op \<Rightarrow> bool" where
  "op_ok (SetStr s k v) \<longleftrightarrow> length (c_str s) < MAX_SECN \<and> length (c_str k) < MAX_KEY"
| "op_ok (GetDefault s k d) \<longleftrightarrow> length (c_str s) < MAX_SECN \<and> length (c_str k) < MAX_KEY"
| "op_ok (UnsetKey s k) \<longleftrightarrow> True"
| "op_ok (RemoveSection s) \<longleftrightarrow> True"

fun config_step :: "rss_config_t \<Rightarrow> config_op \<Rightarrow> rss_config_t" where
  "config_step c (SetStr s k v) = the (rss_config_set_str (Some c) (Some s) (Some k) (Some v))"
| "config_step c (GetDefault s k d) = the (snd (rss_config_get_str (Some c) (Some s) (Some k) (Some d)))"
| "config_step c (UnsetKey s k) = the (snd (rss_config_unset (Some c) (Some s) (Some k)))"
| "config_step c (RemoveSection s) = the (snd (rss_config_remove_section (Some c) (Some s)))"

text \<open>The abstract configuration: a map from folded section and key to the value.\<close>

type_synonym config_map = "string \<times> string \<Rightarrow> string option"

fun map_step :: "config_map \<Rightarrow> config_op \<Rightarrow> config_map" where
  "map_step m (SetStr s k v) = (if c_str s = [] then m else m((fold_name s, fold_name k) \<mapsto> field MAX_VAL v))"
| "map_step m (GetDefault s k d) = m"
| "map_step m (UnsetKey s k) = m((fold_name s, fold_name k) := None)"
| "map_step m (RemoveSection s) = (\<lambda>p. if c_str s \<noteq> [] \<and> fst p = fold_name s then None else m p)"

text \<open>
  What a user of a configuration relies on: each operation keeps the invariant and changes
  the lookups as the map changes.
\<close>

locale config_store =
  fixes inv :: "'c \<Rightarrow> bool"
    and look :: "'c \<Rightarrow> string \<Rightarrow> string \<Rightarrow> string option"
    and step :: "'c \<Rightarrow> config_op \<Rightarrow> 'c"
  assumes inv_step: "inv c \<Longrightarrow> op_ok a \<Longrightarrow> inv (step c a)"
    and look_set: "inv c \<Longrightarrow> op_ok (SetStr s k v) \<Longrightarrow> look (step c (SetStr s k v)) s' k' =
      (if c_str s \<noteq> [] \<and> fold_name s' = fold_name s \<and> fold_name k' = fold_name k then Some (field MAX_VAL v)
       else look c s' k')"
    and look_default: "inv c \<Longrightarrow> op_ok (GetDefault s k d) \<Longrightarrow> look (step c (GetDefault s k d)) s' k' = look c s' k'"
    and look_unset: "inv c \<Longrightarrow> look (step c (UnsetKey s k)) s' k' =
      (if fold_name s' = fold_name s \<and> fold_name k' = fold_name k then None else look c s' k')"
    and look_remove: "inv c \<Longrightarrow> look (step c (RemoveSection s)) s' k' =
      (if c_str s \<noteq> [] \<and> fold_name s' = fold_name s then None else look c s' k')"
begin

definition agrees :: "'c \<Rightarrow> config_map \<Rightarrow> bool" where
  "agrees c m \<longleftrightarrow> (\<forall>s k. look c s k = m (fold_name s, fold_name k))"

lemma agrees_step: "inv c \<Longrightarrow> op_ok a \<Longrightarrow> agrees c m \<Longrightarrow> agrees (step c a) (map_step m a)"
  by (cases a) (simp_all add: agrees_def look_set look_default look_unset look_remove del: op_ok.simps)

lemma agrees_run:
  "inv c \<Longrightarrow> list_all op_ok ops \<Longrightarrow> agrees c m \<Longrightarrow>
    inv (foldl step c ops) \<and> agrees (foldl step c ops) (foldl map_step m ops)"
proof (induction ops arbitrary: c m)
  case (Cons a ops)
  then show ?case
    using Cons.IH [of "step c a" "map_step m a"] inv_step [of c a] agrees_step [of c a m] by simp
qed simp

text \<open>Two lookups with the same folded names answer the same once a map agrees.\<close>

lemma look_fold: "agrees c m \<Longrightarrow> fold_name s = fold_name s' \<Longrightarrow> fold_name k = fold_name k' \<Longrightarrow> look c s k = look c s' k'"
  by (simp add: agrees_def)

lemma set_then_look:
  "inv c \<Longrightarrow> op_ok (SetStr s k v) \<Longrightarrow> c_str s \<noteq> [] \<Longrightarrow> look (step c (SetStr s k v)) s k = Some (field MAX_VAL v)"
  by (simp add: look_set del: op_ok.simps)

lemma unset_then_set:
  assumes "inv c" and "op_ok (SetStr s k v)" and "c_str s \<noteq> []"
  shows "look (step (step c (UnsetKey s k)) (SetStr s k v)) s' k' = look (step c (SetStr s k v)) s' k'"
proof -
  have "inv (step c (UnsetKey s k))" using assms(1) by (rule inv_step) simp
  then show ?thesis
    using assms by (auto simp: look_set look_unset simp del: op_ok.simps)
qed

end

lemma get_str_default:
  assumes "find_value cfg s k = None"
  shows "snd (rss_config_get_str (Some cfg) (Some s) (Some k) (Some d)) = Some (store_default s k d cfg)"
  using assms
  by (simp add: rss_config_get_str_def store_default_def in_section_def Let_def split: prod.split option.split)

lemma get_str_found:
  "find_value cfg s k = Some v \<Longrightarrow> rss_config_get_str (Some cfg) (Some s) (Some k) d = (Some v, Some cfg)"
  by (simp add: rss_config_get_str_def)

lemma step_default:
  assumes "cfg_ok c" and "op_ok (GetDefault s k d)"
  shows "cfg_ok (config_step c (GetDefault s k d)) \<and> find_value (config_step c (GetDefault s k d)) s' k' = find_value c s' k'"
proof (cases "find_value c s k")
  case None
  then show ?thesis
    using config_default [OF assms(1), of s k d s' k'] assms(2) get_str_default [OF None] by simp
next
  case (Some v)
  then show ?thesis using assms(1) by (simp add: get_str_found)
qed

lemma step_set:
  assumes "cfg_ok c" and "op_ok (SetStr s k v)"
  shows "cfg_ok (config_step c (SetStr s k v)) \<and> find_value (config_step c (SetStr s k v)) s' k' =
      (if c_str s \<noteq> [] \<and> fold_name s' = fold_name s \<and> fold_name k' = fold_name k then Some (field 256 v)
       else find_value c s' k')"
proof (cases "c_str s = []")
  case True
  then show ?thesis using assms(1) by (simp add: rss_config_set_str_def)
next
  case False
  obtain c' where c': "rss_config_set_str (Some c) (Some s) (Some k) (Some v) = Some c'"
    using False by (simp add: rss_config_set_str_def)
  then show ?thesis
    using config_set [OF assms(1) _ _ False c', of s' k'] assms(2) False by simp
qed

lemma step_unset:
  assumes "cfg_ok c"
  shows "cfg_ok (config_step c (UnsetKey s k)) \<and> find_value (config_step c (UnsetKey s k)) s' k' =
      (if fold_name s' = fold_name s \<and> fold_name k' = fold_name k then None else find_value c s' k')"
proof -
  obtain r c' where u: "unset_in s k c = (r, c')" by (cases "unset_in s k c")
  then show ?thesis
    using unset_in_fold [OF assms u, of s' k'] by (simp add: rss_config_unset_def)
qed

lemma step_remove:
  assumes "cfg_ok c"
  shows "cfg_ok (config_step c (RemoveSection s)) \<and> find_value (config_step c (RemoveSection s)) s' k' =
      (if c_str s \<noteq> [] \<and> fold_name s' = fold_name s then None else find_value c s' k')"
proof -
  obtain r c' where u: "remove_in s c = (r, c')" by (cases "remove_in s c")
  then show ?thesis
    using remove_in_fold [OF assms u, of s' k'] assms by (simp add: rss_config_remove_section_def)
qed

interpretation running: config_store cfg_ok find_value config_step
proof unfold_locales
  fix c a s k v d s' k'
  assume c: "cfg_ok c"
  show "op_ok a \<Longrightarrow> cfg_ok (config_step c a)"
    using step_set [OF c] step_default [OF c] step_unset [OF c] step_remove [OF c] by (cases a) blast+
  show "op_ok (SetStr s k v) \<Longrightarrow> find_value (config_step c (SetStr s k v)) s' k' =
      (if c_str s \<noteq> [] \<and> fold_name s' = fold_name s \<and> fold_name k' = fold_name k then Some (field 256 v)
       else find_value c s' k')"
    using step_set [OF c] by blast
  show "op_ok (GetDefault s k d) \<Longrightarrow> find_value (config_step c (GetDefault s k d)) s' k' = find_value c s' k'"
    using step_default [OF c] by blast
  show "find_value (config_step c (UnsetKey s k)) s' k' =
      (if fold_name s' = fold_name s \<and> fold_name k' = fold_name k then None else find_value c s' k')"
    using step_unset [OF c] by blast
  show "find_value (config_step c (RemoveSection s)) s' k' =
      (if c_str s \<noteq> [] \<and> fold_name s' = fold_name s then None else find_value c s' k')"
    using step_remove [OF c] by blast
qed

section \<open>Properties of the store\<close>

lemma cfg_ok_Nil [simp]: "cfg_ok []"
  by (simp add: cfg_ok_def)

text \<open>C17. The store refines a map from case-insensitive names to values: after any sequence of sets, removals,
  section removals and getters with defaults, from an empty configuration, every lookup answers
  what the map holds; in particular a default a getter stored for display is never
  configuration, and an unset key or removed section is gone until it is set again.\<close>

lemma config_refines_map:
  assumes "list_all op_ok ops"
  shows "cfg_ok (foldl config_step [] ops)
    \<and> find_value (foldl config_step [] ops) s k = foldl map_step (\<lambda>_. None) ops (fold_name s, fold_name k)"
proof -
  have "running.agrees [] (\<lambda>_. None)"
    by (simp add: running.agrees_def)
  from running.agrees_run [OF cfg_ok_Nil assms this] show ?thesis
    by (simp add: running.agrees_def)
qed

lemma config_refines_map_witness:
  "find_value (foldl config_step [] [SetStr ''rtsp'' ''port'' ''554'', GetDefault ''rtsp'' ''user'' ''root'',
      RemoveSection ''jpeg'', UnsetKey ''RTSP'' ''Port'', SetStr ''Rtsp'' ''PORT'' ''8554'']) ''rtsp'' ''port''
    = Some ''8554''"
proof -
  let ?ops = "[SetStr ''rtsp'' ''port'' ''554'', GetDefault ''rtsp'' ''user'' ''root'',
      RemoveSection ''jpeg'', UnsetKey ''RTSP'' ''Port'', SetStr ''Rtsp'' ''PORT'' ''8554'']"
  have ok: "list_all op_ok ?ops" by code_simp
  have "foldl map_step (\<lambda>_. None) ?ops (fold_name ''rtsp'', fold_name ''port'') = Some ''8554''"
    by code_simp
  then show ?thesis
    using config_refines_map [OF ok, of "''rtsp''" "''port''"] by simp
qed

section \<open>Typed values\<close>

lemma field_show_int:
  assumes "- (2 ^ 31) \<le> n" and "n < 2 ^ 31"
  shows "field 256 (show_int n) = show_int n"
proof -
  have "length (dec (nat \<bar>n\<bar>)) \<le> 10"
    using assms by (intro length_dec) auto
  then have "length (show_int n) \<le> 11"
    by (auto simp: show_int_def)
  then show ?thesis by (simp add: field_def)
qed

lemma show_int_ne [simp]: "show_int n \<noteq> []"
  by (simp add: show_int_def)

lemma get_int_found:
  assumes "find_value cfg s k = Some (show_int n)" and "- (2 ^ 31) \<le> n" and "n < 2 ^ 31"
  shows "rss_config_get_int (Some cfg) (Some s) k d = (n, Some cfg)"
  using assms strtol0_show_int [of n] show_int_ne [of n, symmetric]
  by (simp add: rss_config_get_int_def get_str_found to_int32_id)

lemma get_bool_found:
  assumes "find_value cfg s k = Some (if b then ''true'' else ''false'')"
  shows "rss_config_get_bool (Some cfg) (Some s) k d = (b, Some cfg)"
proof -
  have "strcasecmp ''true'' ''true'' = 0" "strcasecmp ''false'' ''false'' = 0"
    "strcasecmp ''false'' ''true'' \<noteq> 0" "strcasecmp ''false'' ''yes'' \<noteq> 0" "strcasecmp ''false'' ''on'' \<noteq> 0"
    "strcmp ''false'' ''1'' \<noteq> 0"
    by code_simp+
  then show ?thesis
    using assms by (cases b) (simp_all add: rss_config_get_bool_def get_str_found)
qed

lemma find_first: "\<forall>y \<in> set xs. \<not> P y \<Longrightarrow> P x \<Longrightarrow> find P (xs @ x # ys) = Some x"
  by (induction xs) simp_all

lemma find_stored_default:
  assumes "length (c_str k) < 64"
  shows "\<exists>e. find (\<lambda>e. strcasecmp (key e) k = 0) (add_entry_default k x es) = Some e \<and> val e = field 256 x"
  unfolding add_entry_default_def
proof (rule add_entry_ex_cases [of es k x False True])
  fix xs e ys
  assume "fold_name (key e) = fold_name k" "\<forall>x \<in> set xs. fold_name (key x) \<noteq> fold_name k"
    and eq: "add_entry_ex k x False True es = xs @ set_entry x False True e # ys"
  then have "find (\<lambda>e. strcasecmp (key e) k = 0) (xs @ set_entry x False True e # ys) = Some (set_entry x False True e)"
    by (intro find_first) (simp_all add: strcasecmp_fold)
  then show "\<exists>e. find (\<lambda>e. strcasecmp (key e) k = 0) (add_entry_ex k x False True es) = Some e \<and> val e = field 256 x"
    unfolding eq by simp
qed (use assms in \<open>simp add: strcasecmp_fold fold_name_field\<close>)

lemma get_str_value:
  assumes "length (c_str k) < MAX_KEY"
  shows "fst (rss_config_get_str (Some cfg) (Some s) (Some k) d) =
      (case find_value cfg s k of Some v \<Rightarrow> Some v | None \<Rightarrow> map_option (field MAX_VAL) d)"
proof (cases "find_value cfg s k")
  case (Some v)
  then show ?thesis by (simp add: get_str_found)
next
  case None
  show ?thesis
  proof (cases d)
    case d: (Some x)
    obtain i cfg' where c: "find_or_create_section cfg s = (i, cfg')"
      by (cases "find_or_create_section cfg s")
    obtain e where "find (\<lambda>e. strcasecmp (key e) k = 0) (add_entry_default k x (entries (cfg' ! i))) = Some e"
      "val e = field 256 x"
      using find_stored_default [OF assms] by blast
    then show ?thesis
      using None d by (simp add: rss_config_get_str_def c Let_def)
  qed (use None in \<open>simp add: rss_config_get_str_def\<close>)
qed

text \<open>The getters answer the stored value, or else the caller's default: a string as stored or the default
  cut to the value size, an integer or a truth value that was set as itself.\<close>

lemma config_getters:
  assumes "cfg_ok cfg" and "length (c_str s) < MAX_SECN" and "length (c_str k) < MAX_KEY" and "c_str s \<noteq> []"
  shows "fst (rss_config_get_str (Some cfg) (Some s) (Some k) d) =
      (case find_value cfg s k of Some v \<Rightarrow> Some v | None \<Rightarrow> map_option (field MAX_VAL) d)
    \<and> (- (2 ^ 31) > n \<or> n \<ge> 2 ^ 31
       \<or> fst (rss_config_get_int (rss_config_set_int (Some cfg) (Some s) (Some k) n) (Some s) k e) = n)
    \<and> fst (rss_config_get_bool (rss_config_set_bool (Some cfg) (Some s) (Some k) b) (Some s) k b') = b"
proof (intro conjI)
  show "fst (rss_config_get_str (Some cfg) (Some s) (Some k) d) =
      (case find_value cfg s k of Some v \<Rightarrow> Some v | None \<Rightarrow> map_option (field MAX_VAL) d)"
    by (rule get_str_value [OF assms(3)])
  have set: "find_value (the (rss_config_set_str (Some cfg) (Some s) (Some k) (Some v))) s k = Some (field 256 v)
      \<and> rss_config_set_str (Some cfg) (Some s) (Some k) (Some v) \<noteq> None" for v
    using step_set [OF assms(1), of s k v s k] assms(2-4) by (auto simp: rss_config_set_str_def)
  show "- (2 ^ 31) > n \<or> n \<ge> 2 ^ 31
       \<or> fst (rss_config_get_int (rss_config_set_int (Some cfg) (Some s) (Some k) n) (Some s) k e) = n"
    using set [of "show_int n"] get_int_found [of _ s k n e] field_show_int [of n]
    by (force simp: rss_config_set_int_def)
  show "fst (rss_config_get_bool (rss_config_set_bool (Some cfg) (Some s) (Some k) b) (Some s) k b') = b"
    using set [of "if b then ''true'' else ''false''"] get_bool_found [of _ s k b b']
    by (cases b) (force simp: rss_config_set_bool_def field_def c_str_def)+
qed

lemma config_getters_witness:
  "fst (rss_config_get_int (rss_config_set_int (Some []) (Some ''rtsp'') (Some ''port'') 554) (Some ''rtsp'') ''port'' 0) = 554"
  using config_getters [of "[]" "''rtsp''" "''port''" None 554 0 True True]
  by (simp add: c_str_def)

end
