(* ===== verification/Rss_Config_Load.thy ===== *)
theory Rss_Config_Load
  imports Rss_Config
begin

text \<open>
  The parser of \<open>src/rss_config.c\<close>: \<open>rss_config_load\<close> reading a file line by line with its
  512-byte buffer, and the plain writer \<open>config_write\<close> used when there is no file yet.

  A file is the string of its characters; it is given as an option, \<open>None\<close> when it cannot be
  opened.  The abstract view of a file is the map \<open>file_map\<close> of its lines: the last binding of
  a key in a section wins.  The loader is shown to compute that map for every file.
\<close>

section \<open>Lines\<close>

definition blank :: "char \<Rightarrow> bool" where
  "blank c \<longleftrightarrow> c = CHR '' '' \<or> c = CHR 0x09"

text \<open>The offset of the \<open>#\<close> that starts an inline comment: one behind a blank.\<close>

fun scan_comment :: "bool \<Rightarrow> string \<Rightarrow> nat option" where
  "scan_comment after_blank [] = None"
| "scan_comment after_blank (c # s) =
     (if c = CHR ''#'' \<and> after_blank then Some 0 else map_option Suc (scan_comment (blank c) s))"

definition find_inline_comment :: "string \<Rightarrow> nat option" where
  "find_inline_comment s = scan_comment False s"

fun blank_end :: "string \<Rightarrow> nat \<Rightarrow> nat" where
  "blank_end s 0 = 0"
| "blank_end s (Suc k) = (if blank (s ! Suc k) then blank_end s k else Suc k)"

definition strip_inline_comment :: "string \<Rightarrow> string" where
  "strip_inline_comment s =
     (case find_inline_comment s of None \<Rightarrow> s | Some p \<Rightarrow> take (blank_end s (p - 1) + 1) s)"

text \<open>What the parser makes of a line it has read.\<close>

datatype line_kind = Inert | Header string | Binding string string

definition parse_line :: "string \<Rightarrow> line_kind" where
  "parse_line line =
     (let s = rss_trim line
      in if s = [] \<or> hd s = CHR ''#'' \<or> hd s = CHR '';'' then Inert
         else if hd s = CHR ''['' then
           (case strchr s (CHR '']'') of None \<Rightarrow> Inert
            | Some rest \<Rightarrow> Header (field MAX_SECN (rss_trim (tl (take (length s - length rest) s)))))
         else
           (case strchr s (CHR ''='') of None \<Rightarrow> Inert
            | Some eq \<Rightarrow>
              let k = rss_trim (take (length s - length eq) s);
                  v = rss_trim (strip_inline_comment (rss_trim (tl eq)))
              in if k = [] then Inert else Binding k v))"

section \<open>Loading\<close>

definition load_line :: "rss_config_t \<times> string \<Rightarrow> string \<Rightarrow> rss_config_t \<times> string" where
  "load_line st line =
     (case parse_line line of
        Inert \<Rightarrow> st
      | Header name \<Rightarrow> (fst st, name)
      | Binding k v \<Rightarrow> (in_section (\<lambda>s. s\<lparr>entries := add_entry k v (entries s)\<rparr>) (snd st) (fst st), snd st))"

text \<open>The loop: a line that fills the buffer without its newline is dropped up to the next newline.\<close>

function load_lines :: "rss_config_t \<times> string \<Rightarrow> string \<Rightarrow> rss_config_t \<times> string" where
  "load_lines st f =
     (case fgets MAX_LINE f of None \<Rightarrow> st
      | Some (line, f') \<Rightarrow>
        let len = length (c_str line)
        in if len = MAX_LINE - 1 \<and> line ! (len - 1) \<noteq> LF then
             (case f' of [] \<Rightarrow> load_lines (load_line st (c_str line)) []
              | ch # f'' \<Rightarrow>
                if ch = LF then load_lines (load_line st (c_str line)) f''
                else load_lines st (tl (dropWhile (\<lambda>c. c \<noteq> LF) f'')))
           else load_lines (load_line st (c_str line)) f')"
  by pat_completeness auto
termination
proof (relation "measure (length \<circ> snd)", goal_cases)
  case 1
  then show ?case by simp
next
  case (2 st f x line f' len)
  then show ?case using fgets_Some [of 512 f line f'] by auto
next
  case (3 st f x line f' len ch f'')
  then show ?case using fgets_Some [of 512 f line f'] by auto
next
  case (4 st f x line f' len ch f'')
  have "length (tl (dropWhile (\<lambda>c. c \<noteq> LF) f'')) \<le> length f''"
    using length_dropWhile_le [of "\<lambda>c. c \<noteq> LF" f''] by simp
  then show ?case using 4 fgets_Some [of 512 f line f'] by auto
next
  case (5 st f x line f' len)
  then show ?case using fgets_Some [of 512 f line f'] by auto
qed

declare load_lines.simps [simp del]

definition rss_config_load :: "string option \<Rightarrow> rss_config_t option" where
  "rss_config_load file = map_option (\<lambda>f. fst (load_lines ([], []) f)) file"

section \<open>Writing a whole configuration\<close>

text \<open>
  \<open>snprintf\<close> into the room left of the output buffer; the offset moves by the length of the
  text even where the room is too small for it and its terminator.
\<close>

definition emit :: "nat \<Rightarrow> string \<Rightarrow> string \<Rightarrow> string" where
  "emit buf_size buf s =
     (let room = buf_size - length buf
      in buf @ (if length s < room then s else take (room - 1) s @ replicate (length s - (room - 1)) NUL))"

definition grow :: "nat \<Rightarrow> nat \<Rightarrow> nat" where
  "grow need buf_size = (if need > buf_size then need + 4096 else buf_size)"

definition write_header :: "string \<Rightarrow> nat \<times> string \<Rightarrow> nat \<times> string" where
  "write_header name st =
     (case st of (buf_size, buf) \<Rightarrow>
        let buf_size = grow (length buf + length name + 4) buf_size;
            buf = (if length buf > 0 then buf @ [LF] else buf)
        in (buf_size, emit buf_size buf (CHR ''['' # name @ CHR '']'' # [LF])))"

definition write_entry :: "rss_config_entry_t \<Rightarrow> nat \<times> string \<Rightarrow> nat \<times> string" where
  "write_entry e st =
     (case st of (buf_size, buf) \<Rightarrow>
        let buf_size = grow (length buf + length (key e) + length (val e) + 8) buf_size
        in (buf_size, emit buf_size buf (key e @ '' = '' @ val e @ [LF])))"

definition write_section :: "rss_config_section_t \<Rightarrow> nat \<times> string \<Rightarrow> nat \<times> string" where
  "write_section s st =
     (let ents = filter (\<lambda>e. \<not> defaulted e \<and> \<not> removed e) (entries s)
      in if ents = [] then st
         else fold write_entry (rev ents) (if sec_name s \<noteq> [] then write_header (sec_name s) st else st))"

definition config_write :: "rss_config_t \<Rightarrow> string" where
  "config_write cfg = (if cfg = [] then [] else snd (fold write_section (rev cfg) (4096, [])))"

section \<open>A file is its lines\<close>

definition join_lines :: "string list \<Rightarrow> string" where
  "join_lines ls = concat (map (\<lambda>l. l @ [LF]) ls)"

lemma join_lines_simps [simp]:
  "join_lines [] = []" "join_lines (l # ls) = l @ LF # join_lines ls" "join_lines (xs @ ys) = join_lines xs @ join_lines ys"
  by (simp_all add: join_lines_def)

lemma split_join_lines: "\<forall>l \<in> set ls. LF \<notin> set l \<Longrightarrow> split_lines (join_lines ls) = ls"
  by (induction ls) (simp_all add: split_lines_line)

section \<open>The loader works line by line\<close>

lemma isspace_LF [simp]: "isspace LF"
  by (simp add: isspace_def ccode_def)

lemma rss_trim_snoc_LF: "rss_trim (l @ [LF]) = rss_trim l"
proof -
  obtain ws ws' where "l = ws @ rss_trim l @ ws'" "\<forall>c \<in> set ws. isspace c" "\<forall>c \<in> set ws'. isspace c"
    by (rule rss_trim_split)
  then have "l @ [LF] = ws @ rss_trim l @ (ws' @ [LF])" "\<forall>c \<in> set (ws' @ [LF]). isspace c" by auto
  then show ?thesis
    using rss_trim_unique [OF trimmed_rss_trim] \<open>\<forall>c \<in> set ws. isspace c\<close> by metis
qed

lemma parse_line_snoc_LF: "parse_line (l @ [LF]) = parse_line l"
  by (simp add: parse_line_def rss_trim_snoc_LF)

definition line_step :: "rss_config_t \<times> string \<Rightarrow> string \<Rightarrow> rss_config_t \<times> string" where
  "line_step st l = (if length l \<ge> MAX_LINE then st else load_line st l)"

lemma dropWhile_LF: "LF \<notin> set x \<Longrightarrow> dropWhile (\<lambda>c. c \<noteq> LF) (x @ LF # y) = LF # y"
  by (induction x) auto

lemma dropWhile_no_LF: "LF \<notin> set x \<Longrightarrow> dropWhile (\<lambda>c. c \<noteq> LF) x = []"
  by (induction x) auto

lemma fgets_take:
  assumes "takeWhile (\<lambda>c. c \<noteq> LF) (take (n - 1) f) = l" and "f \<noteq> []" and "1 < n" and "length l = n - 1"
  shows "fgets n f = Some (take (n - 1) f, drop (n - 1) f)"
  unfolding fgets_def assms(1) Let_def using assms(2-4) by simp

lemma takeWhile_no_LF: "LF \<notin> set x \<Longrightarrow> takeWhile (\<lambda>c. c \<noteq> LF) x = x"
  by (induction x) auto

text \<open>A line of 512 characters or more is read in a chunk of 511 and dropped.\<close>

lemma fgets_long:
  assumes "LF \<notin> set x" and "512 \<le> length x"
  shows "fgets 512 (x @ r) = Some (take 511 x, drop 511 x @ r)"
proof -
  have t: "take (512 - 1) (x @ r) = take 511 x" using assms(2) by simp
  have "LF \<notin> set (take 511 x)" using assms(1) by (auto dest: in_set_takeD)
  then have "takeWhile (\<lambda>c. c \<noteq> LF) (take (512 - 1) (x @ r)) = take 511 x"
    unfolding t by (rule takeWhile_no_LF)
  from fgets_take [OF this] show ?thesis
    using assms(2) by fastforce
qed

lemma load_lines_eq: "cstr f \<Longrightarrow> load_lines st f = foldl line_step st (split_lines f)"
proof (induction "length f" arbitrary: f st rule: less_induct)
  case less
  have whole: "load_lines st f = load_lines (load_line st x) y"
    if "fgets 512 f = Some (x @ [LF], y)" "cstr (x @ [LF])" for x y
    using that by (subst load_lines.simps) (simp add: load_line_def parse_line_snoc_LF nth_append)
  show ?case
  proof (cases f rule: split_lines_cases)
    case Nil
    then show ?thesis by (subst load_lines.simps) (simp add: fgets_def)
  next
    case last
    obtain l f' where g: "fgets 512 f = Some (l, f')"
      using fgets_None [of 512 f] last(1) by (cases "fgets 512 f") auto
    show ?thesis
    proof (cases "length f \<le> 511")
      case True
      then have l: "l = f" "f' = []"
        using fgets512.next_last_line [OF g last(2)] by simp_all
      have nl: "\<And>i. i < length f \<Longrightarrow> f ! i \<noteq> LF" using last(2) by (metis nth_mem)
      have e: "load_lines st' [] = st'" for st'
        by (subst load_lines.simps) (simp add: fgets_def)
      show ?thesis
        using less.prems True last e by (subst load_lines.simps)
          (simp add: g l split_lines_last line_step_def Let_def)
    next
      case False
      then have g: "fgets 512 f = Some (take 511 f, drop 511 f)"
        using fgets_long [of f "[]"] last(2) by simp
      obtain ch f'' where d: "drop 511 f = ch # f''"
        using False by (cases "drop 511 f") auto
      have c: "ch \<noteq> LF" "LF \<notin> set f''" "f ! 510 \<noteq> LF"
      proof -
        have "set (ch # f'') \<subseteq> set f" unfolding d [symmetric] by (rule set_drop_subset)
        then show "ch \<noteq> LF" "LF \<notin> set f''" using last(2) by auto
        have "f ! 510 \<in> set f" using False by (intro nth_mem) simp
        then show "f ! 510 \<noteq> LF" using last(2) by metis
      qed
      have e: "load_lines st' [] = st'" for st'
        by (subst load_lines.simps) (simp add: fgets_def)
      show ?thesis
        using less.prems False last c e d by (subst load_lines.simps)
          (simp add: g split_lines_last line_step_def dropWhile_no_LF)
    qed
  next
    case (line x y)
    have y: "cstr y" "cstr x" "length y < length f" using less.prems line(1) by simp_all
    have f: "f \<noteq> []" using line by simp
    show ?thesis
    proof (cases "length x < 511")
      case True
      obtain l f' where g: "fgets 512 f = Some (l, f')"
        using fgets_None [of 512 f] f by (cases "fgets 512 f") auto
      then have "fgets 512 f = Some (x @ [LF], y)"
        using fgets512.next_full_line [OF g line] True by simp
      then show ?thesis
        using whole [of x y] less.hyps [OF y(3,1)] True y(2) line by (simp add: split_lines_line line_step_def)
    next
      case False
      show ?thesis
      proof (cases "length x = 511")
        case True
        have t: "take (512 - 1) f = x" using True line(1) by simp
        have "takeWhile (\<lambda>c. c \<noteq> LF) (take (512 - 1) f) = x"
          unfolding t by (rule takeWhile_no_LF [OF line(2)])
        from fgets_take [OF this f] have g: "fgets 512 f = Some (x, LF # y)"
          using True line(1) by simp
        have "x ! 510 \<in> set x" using True by (intro nth_mem) simp
        then have "x ! 510 \<noteq> LF" using line(2) by metis
        then show ?thesis
          using less.hyps [OF y(3,1)] True y(2) line
          by (subst load_lines.simps) (simp add: g [unfolded line(1)] split_lines_line line_step_def)
      next
        case long: False
        then have len: "512 \<le> length x" using False by simp
        have g: "fgets 512 f = Some (take 511 x, drop 511 x @ LF # y)"
          using fgets_long [OF line(2) len, of "LF # y"] line(1) by simp
        obtain ch f'' where d: "drop 511 x = ch # f''"
          using len by (cases "drop 511 x") auto
        have "LF \<notin> set (drop 511 x)" using line(2) by (auto dest: in_set_dropD)
        then have c: "ch \<noteq> LF" "LF \<notin> set f''" by (auto simp: d)
        have "x ! 510 \<in> set x" using len by (intro nth_mem) simp
        then have "x ! 510 \<noteq> LF" using line(2) by metis
        then show ?thesis
          using less.hyps [OF y(3,1)] len y(2) line c
          by (subst load_lines.simps) (simp add: g [unfolded line(1)] d split_lines_line line_step_def dropWhile_LF)
      qed
    qed
  qed
qed

section \<open>The map of a file\<close>

definition line_of :: "string \<Rightarrow> line_kind" where
  "line_of l = (if length l \<ge> MAX_LINE then Inert else parse_line l)"

text \<open>The bindings of a file, each with its section; \<open>cur\<close> is the section the lines begin in.\<close>

fun bindings :: "string \<Rightarrow> string list \<Rightarrow> (string \<times> string \<times> string) list" where
  "bindings cur [] = []"
| "bindings cur (l # ls) =
     (case line_of l of Inert \<Rightarrow> bindings cur ls | Header n \<Rightarrow> bindings n ls
      | Binding k v \<Rightarrow> (cur, field MAX_KEY k, field MAX_VAL v) # bindings cur ls)"

definition bind :: "config_map \<Rightarrow> string \<times> string \<times> string \<Rightarrow> config_map" where
  "bind m b = (case b of (s, k, v) \<Rightarrow> m((fold_name s, fold_name k) \<mapsto> v))"

definition file_map :: "string list \<Rightarrow> config_map" where
  "file_map ls = foldl bind (\<lambda>_. None) (bindings [] ls)"

section \<open>The loader computes the map\<close>

definition loaded :: "rss_config_t \<Rightarrow> bool" where
  "loaded cfg \<longleftrightarrow> distinct (map (\<lambda>s. fold_name (sec_name s)) cfg) \<and> (\<forall>s \<in> set cfg. \<forall>e \<in> set (entries s). visible e)"

lemma visible_add_entry:
  assumes "\<forall>e \<in> set es. visible e"
  shows "\<forall>e \<in> set (add_entry k v es). visible e"
  unfolding add_entry_def
  by (rule add_entry_ex_cases [of es k v False False]) (use assms in \<open>auto simp: visible_def set_entry_def\<close>)

lemma find_add_loaded:
  assumes "\<forall>e \<in> set es. length (key e) < 64"
  shows "find_entry_value (add_entry k v es) k' =
    (if fold_name k' = fold_name (field 64 k) then Some (field 256 v) else find_entry_value es k')"
proof (cases "length (c_str k) < 64")
  case True
  then show ?thesis by (simp add: add_entry_def find_add_entry fold_name_field)
next
  case False
  have "fold_name (key e) \<noteq> fold_name k" if "e \<in> set es" for e
  proof
    assume "fold_name (key e) = fold_name k"
    then have "length (c_str (key e)) = length (c_str k)" by (metis fold_name_def length_map)
    then show False using assms that False length_c_str [of "key e"] by fastforce
  qed
  then have "add_entry_ex k v False False es = \<lparr>key = field 64 k, val = field 256 v, dirty = False, defaulted = False, removed = False\<rparr> # es"
    by (rule_tac add_entry_ex_cases [of es k v False False]) auto
  then show ?thesis by (auto simp: add_entry_def strcasecmp_fold)
qed

definition load_ok :: "rss_config_t \<times> string \<Rightarrow> bool" where
  "load_ok st \<longleftrightarrow> loaded (fst st) \<and> length (snd st) < 64 \<and> cstr (snd st)
     \<and> (\<forall>s \<in> set (fst st). \<forall>e \<in> set (entries s). length (key e) < 64)"

lemma add_entry_keys:
  "\<forall>e \<in> set es. length (key e) < 64 \<Longrightarrow> \<forall>e \<in> set (add_entry k v es). length (key e) < 64"
  unfolding add_entry_def
  by (rule add_entry_ex_cases [of es k v False False]) (auto simp: field_bounds)

lemma load_binding:
  assumes "load_ok (cfg, cur)"
  shows "load_ok (in_section (\<lambda>s. s\<lparr>entries := add_entry k v (entries s)\<rparr>) cur cfg, cur)
    \<and> find_value (in_section (\<lambda>s. s\<lparr>entries := add_entry k v (entries s)\<rparr>) cur cfg) s' k' =
      (if fold_name s' = fold_name cur \<and> fold_name k' = fold_name (field 64 k) then Some (field 256 v)
       else find_value cfg s' k')"
proof -
  let ?f = "\<lambda>s. s\<lparr>entries := add_entry k v (entries s)\<rparr>"
  have cur: "length (c_str cur) < 64"
    using assms by (simp add: load_ok_def)
  show ?thesis
  proof (rule in_section_cases [OF cur, of cfg ?f])
    fix xs s ys
    assume x: "cfg = xs @ s # ys" "fold_name (sec_name s) = fold_name cur" "in_section ?f cur cfg = xs @ ?f s # ys"
    have keys: "\<forall>e \<in> set (entries s). length (key e) < 64"
      using assms by (simp add: load_ok_def x(1))
    have d: "distinct (map (\<lambda>s. fold_name (sec_name s)) (xs @ s # ys))"
      using assms by (simp add: load_ok_def loaded_def x(1))
    have "load_ok (in_section ?f cur cfg, cur)"
      using assms visible_add_entry [of "entries s" k v] add_entry_keys [OF keys, of k v]
      unfolding x(3) by (simp add: load_ok_def loaded_def x(1))
    moreover have "find_value (in_section ?f cur cfg) s' k' = (if fold_name s' = fold_name (sec_name s)
        then find_entry_value (add_entry k v (entries s)) k' else find_value cfg s' k')"
      using find_value_replace_distinct [OF d, of "?f s" s' k'] unfolding x(3) x(1) [symmetric] by simp
    moreover have "find_value cfg s' k' = find_entry_value (entries s) k'" if "fold_name s' = fold_name (sec_name s)"
      using find_value_replace_distinct [OF d, of s s' k'] that x(1) by simp
    ultimately show ?thesis
      using x(2) find_add_loaded [OF keys] by auto
  next
    let ?s = "\<lparr>sec_name = field 64 cur, sec_removed = False, sec_dirty = False, entries = []\<rparr>"
    assume x: "\<forall>x \<in> set cfg. fold_name (sec_name x) \<noteq> fold_name cur" "in_section ?f cur cfg = ?f ?s # cfg"
      "fold_name (field 64 cur) = fold_name cur"
    have "load_ok (in_section ?f cur cfg, cur)"
      using assms x visible_add_entry [of "[]" k v] add_entry_keys [of "[]" k v]
      by (auto simp: load_ok_def loaded_def)
    moreover have "find_value cfg s' k' = None" if "fold_name s' = fold_name cur"
      using x(1) that by (auto simp: find_value_None)
    ultimately show ?thesis
      using x(2,3) find_add_loaded [of "[]" k v k'] by (auto simp: strcasecmp_fold split: option.split)
  qed
qed

lemma load_agrees:
  "load_ok (cfg, cur) \<Longrightarrow> (\<And>s k. find_value cfg s k = m (fold_name s, fold_name k)) \<Longrightarrow>
    load_ok (foldl line_step (cfg, cur) ls) \<and>
    find_value (fst (foldl line_step (cfg, cur) ls)) s k = foldl bind m (bindings cur ls) (fold_name s, fold_name k)"
proof (induction ls arbitrary: cfg cur m)
  case Nil
  then show ?case by simp
next
  case (Cons l ls)
  show ?case
  proof (cases "line_of l")
    case Inert
    then have "line_step (cfg, cur) l = (cfg, cur)"
      by (auto simp: line_step_def line_of_def load_line_def split: if_splits)
    then show ?thesis using Cons Inert by simp
  next
    case (Header n)
    then have "line_step (cfg, cur) l = (cfg, n)" and n: "\<exists>x. n = field 64 x"
      by (auto simp: line_step_def line_of_def load_line_def parse_line_def Let_def split: if_splits option.splits)
    moreover have "load_ok (cfg, n)"
      using Cons.prems(1) n by (auto simp: load_ok_def field_bounds)
    ultimately show ?thesis using Cons.IH [of cfg n m] Cons.prems(2) Header by simp
  next
    case (Binding k v)
    let ?cfg = "in_section (\<lambda>s. s\<lparr>entries := add_entry k v (entries s)\<rparr>) cur cfg"
    have "line_step (cfg, cur) l = (?cfg, cur)"
      using Binding by (auto simp: line_step_def line_of_def load_line_def split: if_splits)
    moreover note Cons.IH [of ?cfg cur "bind m (cur, field 64 k, field 256 v)"]
    moreover have "find_value ?cfg s k' = bind m (cur, field 64 k, field 256 v) (fold_name s, fold_name k')" for s k'
      using load_binding [OF Cons.prems(1), of k v s k'] Cons.prems(2) by (auto simp: bind_def)
    ultimately show ?thesis
      using load_binding [OF Cons.prems(1), of k v] Binding by simp
  qed
qed

text \<open>C25. Loading a file gives the configuration its lines say: every lookup answers the last binding of
  the key in the section, with keys and sections compared without case, comments stripped and
  over-long lines ignored, whatever the file holds.\<close>

lemma config_load_map:
  assumes "cstr f"
  shows "case rss_config_load (Some f) of None \<Rightarrow> False
    | Some cfg \<Rightarrow> find_value cfg s k = file_map (split_lines f) (fold_name s, fold_name k)"
proof -
  have "load_ok ([], [])" by (simp add: load_ok_def loaded_def)
  from load_agrees [OF this, of "\<lambda>_. None" "split_lines f" s k] show ?thesis
    by (simp add: rss_config_load_def load_lines_eq [OF assms] file_map_def)
qed

lemma config_load_map_witness:
  "case rss_config_load (Some (join_lines [''[rtsp]'', ''  Port = 554  # default'', ''; port = 1'', ''[Jpeg]'', ''q=75'', ''[RTSP]'', ''port=8554''])) of
     None \<Rightarrow> False | Some cfg \<Rightarrow> find_value cfg ''rtsp'' ''PORT'' = Some ''8554'' \<and> find_value cfg ''jpeg'' ''Q'' = Some ''75''"
proof -
  let ?ls = "[''[rtsp]'', ''  Port = 554  # default'', ''; port = 1'', ''[Jpeg]'', ''q=75'', ''[RTSP]'', ''port=8554'']"
  have f: "cstr (join_lines ?ls)" by code_simp
  have ls: "split_lines (join_lines ?ls) = ?ls"
    by (rule split_join_lines) simp
  have "file_map ?ls (fold_name ''rtsp'', fold_name ''PORT'') = Some ''8554''"
    "file_map ?ls (fold_name ''jpeg'', fold_name ''Q'') = Some ''75''" by code_simp+
  then show ?thesis
    using config_load_map [OF f, of "''rtsp''" "''PORT''"] config_load_map [OF f, of "''jpeg''" "''Q''"]
    unfolding ls by (simp split: option.splits del: join_lines_simps)
qed

section \<open>Lines the parser reads back\<close>

definition key_ok :: "string \<Rightarrow> bool" where
  "key_ok k \<longleftrightarrow> k \<noteq> [] \<and> trimmed k \<and> hd k \<notin> {CHR ''#'', CHR '';'', CHR ''[''} \<and> CHR ''='' \<notin> set k"

definition comment_free :: "string \<Rightarrow> bool" where
  "comment_free v \<longleftrightarrow> trimmed v \<and> find_inline_comment v = None"

lemma rss_trim_spaces:
  assumes "\<forall>c \<in> set ws. isspace c" and "\<forall>c \<in> set ws'. isspace c"
  shows "rss_trim (ws @ s @ ws') = rss_trim s"
proof -
  obtain us us' where s: "s = us @ rss_trim s @ us'" "\<forall>c \<in> set us. isspace c" "\<forall>c \<in> set us'. isspace c"
    by (rule rss_trim_split)
  have "rss_trim ((ws @ us) @ rss_trim s @ (us' @ ws')) = rss_trim s"
    using assms s by (intro rss_trim_unique [OF trimmed_rss_trim]) auto
  then show ?thesis using s(1) by (metis append.assoc)
qed

text \<open>A trimmed line that begins with a word keeps the word and loses only blanks at the end.\<close>

lemma rss_trim_word:
  assumes "k \<noteq> []" and "trimmed k" and "\<forall>c \<in> set ws. isspace c"
  obtains y' ws' where "y = y' @ ws'" "rss_trim (ws @ k @ y) = k @ y'" "\<forall>c \<in> set ws'. isspace c"
proof -
  define ws' where "ws' = rev (takeWhile isspace (rev y))"
  define y' where "y' = rev (dropWhile isspace (rev y))"
  have y: "y = y' @ ws'"
    unfolding y'_def ws'_def by (metis rev_append rev_rev_ident takeWhile_dropWhile_id)
  have ws': "\<forall>c \<in> set ws'. isspace c"
    unfolding ws'_def by (simp add: ) (metis set_takeWhileD)
  have "y' = [] \<or> \<not> isspace (last y')"
    unfolding y'_def by (metis hd_dropWhile last_rev rev_is_Nil_conv)
  then have "trimmed (k @ y')"
    using assms(1,2) by (cases "y' = []") (auto simp: trimmed_def)
  then have "rss_trim (ws @ (k @ y') @ ws') = k @ y'"
    by (rule rss_trim_unique [OF _ assms(3) ws'])
  then show thesis using that y ws' by simp
qed

lemma isspace_not [simp]: "\<not> isspace (CHR ''='')" "\<not> isspace (CHR ''['')" "\<not> isspace (CHR '']'')" "isspace (CHR '' '')"
  "\<not> isspace (CHR ''#'')"
  by (simp_all add: isspace_def ccode_def)

lemma strchr_first: "c \<notin> set x \<Longrightarrow> strchr (x @ c # r) c = Some (c # r)"
  by (simp add: strchr_Some)

lemma parse_binding:
  assumes "key_ok k" and "\<forall>c \<in> set ws. isspace c" and "\<forall>c \<in> set gap. isspace c"
  shows "parse_line (ws @ k @ gap @ CHR ''='' # z) = Binding k (rss_trim (strip_inline_comment (rss_trim z)))"
proof -
  have k: "k \<noteq> []" "trimmed k" "CHR ''='' \<notin> set k" "hd k \<notin> {CHR ''#'', CHR '';'', CHR ''[''}"
    using assms(1) by (auto simp: key_ok_def)
  obtain y' ws' where y: "gap @ CHR ''='' # z = y' @ ws'" "rss_trim (ws @ k @ gap @ CHR ''='' # z) = k @ y'"
    "\<forall>c \<in> set ws'. isspace c"
    using rss_trim_word [OF k(1,2) assms(2), of "gap @ CHR ''='' # z"] by metis
  have "CHR ''='' \<notin> set ws'" using y(3) isspace_not(1) by blast
  then obtain r where r: "y' = gap @ CHR ''='' # r" "z = r @ ws'"
    using y(1) by (auto simp: append_eq_append_conv2 Cons_eq_append_conv)
  have g: "CHR ''='' \<notin> set gap" using assms(3) isspace_not(1) by blast
  have trim: "rss_trim (k @ gap) = k"
    using rss_trim_spaces [of "[]" gap k] assms(3) k(2) by simp
  have "strchr ((k @ gap) @ CHR ''='' # r) (CHR ''='') = Some (CHR ''='' # r)"
    using k(3) g by (intro strchr_first) simp
  moreover have "rss_trim r = rss_trim z"
    using rss_trim_spaces [of "[]" ws' r] y(3) r(2) by simp
  ultimately show ?thesis
    using k y(2) trim by (simp add: parse_line_def r(1) Let_def)
qed

lemma parse_header:
  assumes "trimmed n" and "CHR '']'' \<notin> set n"
  shows "parse_line (CHR ''['' # n @ [CHR '']'']) = Header (field MAX_SECN n)"
proof -
  have t: "rss_trim (CHR ''['' # n @ [CHR '']'']) = CHR ''['' # n @ [CHR '']'']"
    by (rule rss_trim_trimmed) (simp add: trimmed_def)
  have "strchr ((CHR ''['' # n) @ CHR '']'' # []) (CHR '']'') = Some [CHR '']'']"
    using assms(2) by (intro strchr_first) simp
  then show ?thesis
    using assms(1) by (simp add: parse_line_def t Let_def)
qed

lemma scan_comment_append:
  "scan_comment b x = None \<Longrightarrow>
    scan_comment b (x @ y) = map_option (\<lambda>i. length x + i) (scan_comment (if x = [] then b else blank (last x)) y)"
  by (induction x arbitrary: b) (auto simp: map_option_case split: if_splits option.splits)

lemma blank_not_hash [simp]: "\<not> blank (CHR ''#'')"
  by (simp add: blank_def)

lemma blank_isspace: "blank c \<Longrightarrow> isspace c"
  by (auto simp: blank_def isspace_def ccode_def)

lemma scan_blanks:
  "\<forall>c \<in> set bs. blank c \<Longrightarrow> bs \<noteq> [] \<Longrightarrow> scan_comment b (bs @ CHR ''#'' # r) = Some (length bs)"
proof (induction bs arbitrary: b)
  case (Cons c bs)
  then have "c \<noteq> CHR ''#''" by auto
  with Cons show ?case by (cases bs) auto
qed simp

lemma blank_end_stop: "\<forall>i. n < i \<and> i \<le> n + j \<longrightarrow> blank (s ! i) \<Longrightarrow> \<not> blank (s ! n) \<Longrightarrow> blank_end s (n + j) = n"
proof (induction j)
  case 0
  then show ?case by (cases n) auto
next
  case (Suc j)
  then show ?case by auto
qed

text \<open>A value is read back, behind which a comment may follow when it is not empty.\<close>

lemma read_value:
  assumes "comment_free v" and "com = [] \<or> v \<noteq> [] \<and> (\<exists>bs r. com = bs @ CHR ''#'' # r \<and> bs \<noteq> [] \<and> (\<forall>c \<in> set bs. blank c))"
    and "\<forall>c \<in> set ws. isspace c"
  shows "rss_trim (strip_inline_comment (rss_trim (ws @ v @ com))) = v"
proof (cases "com = []")
  case True
  have v: "trimmed v" "find_inline_comment v = None" using assms(1) by (simp_all add: comment_free_def)
  have "rss_trim (ws @ v @ []) = v"
    using rss_trim_spaces [of ws "[]" v] assms(3) v(1) by simp
  then show ?thesis using True v by (simp add: strip_inline_comment_def)
next
  case False
  then obtain bs r where com: "com = bs @ CHR ''#'' # r" "bs \<noteq> []" "\<forall>c \<in> set bs. blank c" and ne: "v \<noteq> []"
    using assms(2) by auto
  have v: "trimmed v" "find_inline_comment v = None" using assms(1) by (simp_all add: comment_free_def)
  obtain y' ws' where y: "com = y' @ ws'" "rss_trim (ws @ v @ com) = v @ y'" "\<forall>c \<in> set ws'. isspace c"
    using rss_trim_word [OF ne v(1) assms(3), of com] by metis
  have "CHR ''#'' \<notin> set ws'" using y(3) isspace_not(5) by blast
  then obtain r' where y': "y' = bs @ CHR ''#'' # r'"
    using y(1) com(1) by (auto simp: append_eq_append_conv2 Cons_eq_append_conv)
  have p: "find_inline_comment (v @ y') = Some (length v + length bs)"
    using v(2) scan_comment_append [of False v y'] scan_blanks [OF com(3,2)]
    by (simp add: find_inline_comment_def y')
  have nb: "\<not> blank (last v)"
    using v(1) ne blank_isspace by (auto simp: trimmed_def)
  have "blank_end (v @ y') ((length v - 1) + length bs) = length v - 1"
  proof (rule blank_end_stop, intro allI impI)
    fix i assume i: "length v - 1 < i \<and> i \<le> length v - 1 + length bs"
    then have "(v @ y') ! i = bs ! (i - length v)" "i - length v < length bs"
      using ne by (cases v; auto simp: y' nth_append)+
    then show "blank ((v @ y') ! i)" using com(3) by simp
  next
    show "\<not> blank ((v @ y') ! (length v - 1))"
      using nb ne by (simp add: nth_append last_conv_nth)
  qed
  moreover have "length v + length bs - 1 = (length v - 1) + length bs" using ne by (cases v) auto
  ultimately have "strip_inline_comment (v @ y') = v"
    using ne by (simp add: strip_inline_comment_def p)
  then show ?thesis using y(2) v(1) by simp
qed

section \<open>The plain writer\<close>

definition name_ok :: "string \<Rightarrow> bool" where
  "name_ok n \<longleftrightarrow> n \<noteq> [] \<and> trimmed n \<and> CHR '']'' \<notin> set n \<and> LF \<notin> set n"

definition entry_line :: "rss_config_entry_t \<Rightarrow> string" where
  "entry_line e = key e @ '' = '' @ val e"

definition header_line :: "string \<Rightarrow> string" where
  "header_line n = CHR ''['' # n @ [CHR '']'']"

definition section_lines :: "rss_config_section_t \<Rightarrow> string list \<Rightarrow> string list" where
  "section_lines s ls =
     (let ents = filter visible (entries s)
      in if ents = [] then ls
         else ls @ (if sec_name s \<noteq> [] then (if ls \<noteq> [] then [[]] else []) @ [header_line (sec_name s)] else [])
              @ map entry_line (rev ents))"

definition plain_lines :: "rss_config_t \<Rightarrow> string list" where
  "plain_lines cfg = fold section_lines (rev cfg) []"

lemma emit_fits: "length buf + length s < n \<Longrightarrow> emit n buf s = buf @ s"
  unfolding emit_def Let_def by (subst if_P) auto

lemma write_entries_fit:
  "length buf + length (join_lines (map entry_line es)) + 4 \<le> n \<Longrightarrow>
    fold write_entry es (n, buf) = (n, buf @ join_lines (map entry_line es))"
proof (induction es arbitrary: buf)
  case (Cons e es)
  have "emit n buf (key e @ '' = '' @ val e @ [LF]) = buf @ entry_line e @ [LF]"
    using Cons.prems by (subst emit_fits) (simp_all add: entry_line_def)
  then show ?case
    using Cons by (simp add: write_entry_def grow_def entry_line_def Let_def)
qed simp

text \<open>The header of a section in the plain writer: with something before it, it is the blank line, the
  name in brackets and a newline, except when the text ends exactly at the size of the
  buffer.  There the check of the room is one byte short, the newline is cut to the terminator and
  the first key of the section is lost to the next load.\<close>

lemma config_write_header:
  assumes "0 < length buf" and "length buf \<le> n"
  shows "snd (write_header name (n, buf))
    = buf @ LF # header_line name @ (if length buf + length name + 4 = n then [NUL] else [LF])"
proof (cases "length buf + length name + 4 = n")
  case True
  let ?h = "CHR ''['' # name @ [CHR '']'']"
  have n: "n - length (buf @ [LF]) = Suc (length ?h)" "grow (length buf + length name + 4) n = n"
    using True by (auto simp: grow_def)
  have "emit n (buf @ [LF]) (?h @ [LF]) = (buf @ [LF]) @ ?h @ [NUL]"
    unfolding emit_def n(1) Let_def by simp
  then show ?thesis
    using assms True n(2) by (simp add: write_header_def Let_def header_line_def)
next
  case False
  then have "length (buf @ [LF]) + length (CHR ''['' # name @ CHR '']'' # [LF])
      < grow (length buf + length name + 4) n"
    using assms by (auto simp: grow_def)
  then have "emit (grow (length buf + length name + 4) n) (buf @ [LF]) (CHR ''['' # name @ CHR '']'' # [LF])
      = (buf @ [LF]) @ CHR ''['' # name @ CHR '']'' # [LF]"
    by (rule emit_fits)
  then show ?thesis
    using assms False by (simp add: write_header_def Let_def header_line_def)
qed

lemma config_write_header_witness:
  "snd (write_header ''osd'' (12, ''a = 1'')) = ''a = 1'' @ [LF] @ ''[osd]'' @ [NUL]"
  by (subst config_write_header) (simp_all add: header_line_def)

end
