(* ===== verification/Rss_Config_Save.thy ===== *)
theory Rss_Config_Save
  imports Rss_Config_Load
begin

text \<open>
  Saving of \<open>src/rss_config.c\<close>: \<open>rss_config_save\<close> edits the existing file so that everything
  the configuration does not own survives.  The file is the list of its lines
  (\<open>loff\<close> and \<open>llen\<close> of the code); a dirty entry is bound to the lines of the file by
  their numbers, and the text is written out line by line.

  The second half of the theory says what the loops do: what a reference knows after the file
  has been read, and which lines are written for which line of the file.  The theory
  \<^theory_text>\<open>Rss_Config_Reload\<close> concludes from it what loading the saved file gives.
\<close>

section \<open>Classifying a line\<close>

record line_info_t =
  li_kind :: nat
  li_nonblank :: bool
  li_sec :: string
  li_key :: string
  li_key_end :: nat
  li_com_off :: "nat option"

definition comment_start :: "string \<Rightarrow> nat \<Rightarrow> nat" where
  "comment_start copy com = com - length (takeWhile blank (rev (take com copy)))"

definition classify_line :: "string \<Rightarrow> line_info_t" where
  "classify_line raw =
     (let li = \<lparr>li_kind = 0, li_nonblank = list_ex (\<lambda>c. \<not> isspace c) raw, li_sec = [], li_key = [],
                li_key_end = 0, li_com_off = None\<rparr>
      in if length raw \<ge> MAX_LINE then li
         else
           let copy = c_str raw; off = length (takeWhile isspace copy); s = rss_trim copy
           in if s = [] \<or> hd s = CHR ''#'' \<or> hd s = CHR '';'' then li
              else if hd s = CHR ''['' then
                (case strchr s (CHR '']'') of None \<Rightarrow> li
                 | Some rest \<Rightarrow>
                   li\<lparr>li_kind := 1,
                      li_sec := field MAX_SECN (rss_trim (tl (take (length s - length rest) s)))\<rparr>)
              else
                (case strchr s (CHR ''='') of None \<Rightarrow> li
                 | Some eq \<Rightarrow>
                   let cut = take (length s - length eq) s; k = rss_trim cut;
                       key_off = off + length (takeWhile isspace cut);
                       val_off = off + (length s - length eq) + 1 + length (takeWhile isspace (tl eq));
                       com = find_inline_comment (rss_trim (tl eq))
                   in if k = [] then li
                      else li\<lparr>li_kind := 2, li_key_end := key_off + length k, li_key := field MAX_KEY k,
                              li_com_off := map_option (\<lambda>p. comment_start copy (val_off + p)) com\<rparr>))"

section \<open>Dirty entries\<close>

record dirty_ref_t =
  dr_sec :: string
  dr_ent :: "rss_config_entry_t option"
  replace_line :: "nat option"
  rep_key_end :: nat
  rep_com_off :: "nat option"
  append_line :: "nat option"
  sec_in_file :: bool
  dr_done :: bool

definition dirty_ref :: "string \<Rightarrow> rss_config_entry_t option \<Rightarrow> dirty_ref_t" where
  "dirty_ref sec ent = \<lparr>dr_sec = sec, dr_ent = ent, replace_line = None, rep_key_end = 0, rep_com_off = None,
                         append_line = None, sec_in_file = False, dr_done = False\<rparr>"

definition collect_dirty :: "rss_config_t \<Rightarrow> dirty_ref_t list" where
  "collect_dirty cfg =
     rev (concat (map (\<lambda>s. (if sec_removed s \<and> sec_dirty s then [dirty_ref (sec_name s) None] else [])
                           @ map (\<lambda>e. dirty_ref (sec_name s) (Some e)) (filter dirty (entries s))) cfg))"

section \<open>Binding the entries to the file\<close>

definition bind_ref :: "nat \<Rightarrow> line_info_t \<Rightarrow> string \<Rightarrow> dirty_ref_t \<Rightarrow> dirty_ref_t" where
  "bind_ref l li cursec dr =
     (if strcasecmp (dr_sec dr) cursec \<noteq> 0 then dr
      else
        let dr = (if li_kind li = 1
                  then dr\<lparr>sec_in_file := True,
                          replace_line := (if dr_ent dr = None then Some l else replace_line dr)\<rparr> else dr);
            dr = (if li_nonblank li then dr\<lparr>append_line := Some l\<rparr> else dr)
        in case dr_ent dr of None \<Rightarrow> dr
           | Some e \<Rightarrow>
             if li_kind li = 2 \<and> strcasecmp (key e) (li_key li) = 0
             then dr\<lparr>replace_line := Some l, rep_key_end := li_key_end li, rep_com_off := li_com_off li\<rparr>
             else dr)"

text \<open>The references that make the line go: a removed section at its header, a removed key at each of its lines.\<close>

definition drops_header :: "line_info_t \<Rightarrow> string \<Rightarrow> dirty_ref_t \<Rightarrow> bool" where
  "drops_header li cursec dr \<longleftrightarrow> strcasecmp (dr_sec dr) cursec = 0 \<and> li_kind li = 1 \<and> dr_ent dr = None"

definition drops_key :: "line_info_t \<Rightarrow> string \<Rightarrow> dirty_ref_t \<Rightarrow> bool" where
  "drops_key li cursec dr \<longleftrightarrow>
     strcasecmp (dr_sec dr) cursec = 0 \<and> li_kind li = 2
     \<and> (case dr_ent dr of None \<Rightarrow> False | Some e \<Rightarrow> strcasecmp (key e) (li_key li) = 0 \<and> removed e)"

type_synonym bind_state = "string \<times> bool \<times> bool list \<times> dirty_ref_t list"

definition bind_line :: "bind_state \<Rightarrow> string \<Rightarrow> bind_state" where
  "bind_line st raw =
     (case st of (cursec, in_removed, drp, drs) \<Rightarrow>
        let li = classify_line raw;
            l = length drp;
            cursec = (if li_kind li = 1 then li_sec li else cursec);
            hdr = list_ex (drops_header li cursec) drs;
            in_removed = (if li_kind li = 1 then hdr else in_removed);
            gone = hdr \<or> list_ex (drops_key li cursec) drs \<or> (in_removed \<and> li_kind li \<noteq> 1 \<and> li_nonblank li)
        in (cursec, in_removed, drp @ [gone], map (bind_ref l li cursec) drs))"

definition bind_lines :: "string list \<Rightarrow> dirty_ref_t list \<Rightarrow> bind_state" where
  "bind_lines ls drs = foldl bind_line ([], False, [], drs) ls"

definition settle :: "dirty_ref_t list \<Rightarrow> dirty_ref_t list" where
  "settle drs =
     map (\<lambda>d. if (case dr_ent d of None \<Rightarrow> True | Some e \<Rightarrow> removed e) \<and> replace_line d = None
              then d\<lparr>dr_done := True\<rparr> else d) drs"

text \<open>The blank line above a dropped header goes with it.\<close>

fun drop_separators :: "string list \<Rightarrow> bool list \<Rightarrow> bool list" where
  "drop_separators (p # h # ls) (dp # dh # ds) =
     (dp \<or> (dh \<and> li_kind (classify_line h) = 1 \<and> \<not> li_nonblank (classify_line p)))
       # drop_separators (h # ls) (dh # ds)"
| "drop_separators ls ds = ds"

section \<open>Writing the edited file\<close>

definition entry_text :: "rss_config_entry_t \<Rightarrow> string" where
  "entry_text e = key e @ '' = '' @ val e @ [LF]"

definition finish :: "(dirty_ref_t \<Rightarrow> bool) \<Rightarrow> dirty_ref_t list \<Rightarrow> dirty_ref_t list" where
  "finish P drs = map (\<lambda>d. if P d then d\<lparr>dr_done := True\<rparr> else d) drs"

text \<open>The loop that writes the entries \<open>P\<close> holds of and marks them done.\<close>

definition put_entries :: "(dirty_ref_t \<Rightarrow> bool) \<Rightarrow> dirty_ref_t list \<times> string \<Rightarrow> dirty_ref_t list \<times> string" where
  "put_entries P st =
     (case st of (drs, out) \<Rightarrow>
        let todo = (\<lambda>d. dr_ent d \<noteq> None \<and> \<not> dr_done d \<and> P d)
        in (finish todo drs, out @ concat (map (\<lambda>d. entry_text (the (dr_ent d))) (filter todo drs))))"

definition replaced_line :: "string \<Rightarrow> dirty_ref_t \<Rightarrow> rss_config_entry_t \<Rightarrow> string" where
  "replaced_line raw r e =
     (let vlen = length (val e);
          keylen = rep_key_end r;
          comlen = (case rep_com_off r of None \<Rightarrow> 0 | Some c \<Rightarrow> length raw - c);
          comlen = (if keylen + 3 + vlen + comlen \<ge> MAX_LINE then 0 else comlen);
          keylen = (if keylen + 3 + vlen \<ge> MAX_LINE then 0 else keylen)
      in (if keylen > 0 then take keylen raw else key e) @ '' = '' @ val e
         @ (if comlen > 0 then drop (the (rep_com_off r)) raw else []))"

definition put_line :: "nat \<Rightarrow> string \<Rightarrow> bool \<Rightarrow> dirty_ref_t list \<times> string \<Rightarrow> dirty_ref_t list \<times> string" where
  "put_line l raw dropped st =
     (case st of (drs, out) \<Rightarrow>
        let rep = index_of (\<lambda>d. replace_line d = Some l) drs;
            mark = (\<lambda>i. drs[i := (drs ! i)\<lparr>dr_done := True\<rparr>]);
            st = (if dropped then (case rep of None \<Rightarrow> (drs, out) | Some i \<Rightarrow> (mark i, out))
                  else case rep of None \<Rightarrow> (drs, out @ raw @ [LF])
                       | Some i \<Rightarrow>
                         (case dr_ent (drs ! i) of None \<Rightarrow> (drs, out @ raw @ [LF])
                          | Some e \<Rightarrow> (mark i, out @ replaced_line raw (drs ! i) e @ [LF])))
        in put_entries (\<lambda>d. replace_line d = None \<and> append_line d = Some l) st)"

fun put_lines :: "nat \<Rightarrow> string list \<Rightarrow> bool list \<Rightarrow> dirty_ref_t list \<times> string \<Rightarrow> dirty_ref_t list \<times> string" where
  "put_lines l (raw # ls) (d # ds) st = put_lines (Suc l) ls ds (put_line l raw d st)"
| "put_lines l ls ds st = st"

definition separator :: "string \<Rightarrow> string" where
  "separator out =
     (if out \<noteq> [] \<and> \<not> (length out > 1 \<and> last out = LF \<and> last (butlast out) = LF) then out @ [LF] else out)"

text \<open>New sections: the first reference of one writes its header and the entries of all that follow.\<close>

function put_sections :: "dirty_ref_t list \<Rightarrow> string \<Rightarrow> string" where
  "put_sections [] out = out"
| "put_sections (d # ds) out =
     (if dr_ent d = None \<or> dr_done d \<or> sec_in_file d \<or> dr_sec d = [] then put_sections ds out
      else
        let (drs, out) = put_entries (\<lambda>d2. strcasecmp (dr_sec d2) (dr_sec d) = 0)
                           (d # ds, separator out @ CHR ''['' # dr_sec d @ CHR '']'' # [LF])
        in put_sections (tl drs) out)"
  by pat_completeness auto
termination
  by (relation "measure (length \<circ> fst)") (auto simp: put_entries_def finish_def Let_def)

declare put_sections.simps(2) [simp del]

definition config_write_surgical :: "string \<Rightarrow> dirty_ref_t list \<Rightarrow> string" where
  "config_write_surgical text drs =
     (let ls = split_lines text
      in case bind_lines ls drs of (cursec, in_removed, drp, drs) \<Rightarrow>
        let drs = settle drs;
            drp = drop_separators ls drp;
            st = put_entries (\<lambda>d. dr_sec d = [] \<and> replace_line d = None \<and> append_line d = None) (drs, []);
            (drs, out) = put_lines 0 ls drp st
        in put_sections drs out)"

text \<open>
  \<open>file\<close> is what \<open>rss_read_file\<close> returns, \<open>exists\<close> the answer of \<open>access\<close>, \<open>write_ok\<close> whether the
  atomic write succeeds.  The result is the return value, the text handed to the write, if any,
  and the configuration after the call.
\<close>

definition clear_dirty :: "rss_config_t \<Rightarrow> rss_config_t" where
  "clear_dirty cfg = map (\<lambda>s. s\<lparr>sec_dirty := False, entries := map (\<lambda>e. e\<lparr>dirty := False\<rparr>) (entries s)\<rparr>) cfg"

definition rss_config_save ::
  "rss_config_t option \<Rightarrow> string option \<Rightarrow> bool \<Rightarrow> bool \<Rightarrow> int \<times> string option \<times> rss_config_t option" where
  "rss_config_save cfg file exists write_ok =
     (case cfg of None \<Rightarrow> (-1, None, None)
      | Some cfg \<Rightarrow>
        let drs = collect_dirty cfg
        in if drs = [] \<and> exists then (0, None, Some cfg)
           else
             let text = (case file of Some text \<Rightarrow> config_write_surgical text drs | None \<Rightarrow> config_write cfg)
             in if write_ok then (0, Some text, Some (clear_dirty cfg)) else (-1, Some text, Some cfg))"

section \<open>A line is what the loader takes it for\<close>

lemma rss_trim_after_blanks:
  obtains ws' where "s = takeWhile isspace s @ rss_trim s @ ws'" "\<forall>c \<in> set ws'. isspace c"
proof -
  obtain ws ws' where s: "s = ws @ rss_trim s @ ws'" "\<forall>c \<in> set ws. isspace c" "\<forall>c \<in> set ws'. isspace c"
    by (rule rss_trim_split)
  show thesis
  proof (cases "rss_trim s")
    case Nil
    then have "\<forall>c \<in> set s. isspace c" using s by (metis Un_iff append_Nil set_append)
    then have tw: "takeWhile isspace s = s" by (simp only: takeWhile_eq_all_conv)
    have "s = takeWhile isspace s @ rss_trim s @ []" unfolding tw Nil by simp
    then show thesis by (rule that) simp
  next
    case (Cons c r)
    then have "\<not> isspace c" using trimmed_rss_trim [of s] by (simp add: trimmed_def)
    then have "takeWhile isspace (ws @ rss_trim s @ ws') = ws"
      using s(2) Cons by (simp add: takeWhile_append2)
    then have "takeWhile isspace s = ws" using s(1) by simp
    then show thesis using that [of ws'] s by simp
  qed
qed

lemma scan_comment_at:
  "scan_comment a s = Some p \<Longrightarrow> p < length s \<and> s ! p = CHR ''#'' \<and> (if p = 0 then a else blank (s ! (p - 1)))"
proof (induction s arbitrary: a p)
  case (Cons c s)
  show ?case
  proof (cases "c = CHR ''#'' \<and> a")
    case True
    then show ?thesis using Cons.prems by simp
  next
    case False
    then obtain q where q: "scan_comment (blank c) s = Some q" "p = Suc q"
      using Cons.prems by (auto split: if_splits)
    then show ?thesis using Cons.IH [OF q(1)] by (cases q) auto
  qed
qed simp

text \<open>What the comment offset of a binding line points at: the blanks in front of the mark.\<close>

lemma comment_start_run:
  assumes "raw = pre @ v @ suf" and "find_inline_comment v = Some p"
  shows "\<exists>bs r. drop (comment_start raw (length pre + p)) raw = bs @ CHR ''#'' # r \<and> bs \<noteq> [] \<and> (\<forall>c \<in> set bs. blank c)"
proof -
  have p: "p < length v" "v ! p = CHR ''#''" "0 < p" "blank (v ! (p - 1))"
    using scan_comment_at [of False v p] assms(2) by (auto simp: find_inline_comment_def split: if_splits)
  define x where "x = pre @ take p v"
  define y where "y = drop (Suc p) v @ suf"
  have raw: "raw = x @ CHR ''#'' # y"
    using id_take_nth_drop [OF p(1)] p(2) unfolding x_def y_def assms(1)
    by (metis append.assoc append_Cons)
  have len: "length x = length pre + p" using p(1) by (simp add: x_def)
  have "take p v = take (p - 1) v @ [v ! (p - 1)]"
    using p(1,3) take_Suc_conv_app_nth [of "p - 1" v] by simp
  then have last: "rev x = v ! (p - 1) # rev (pre @ take (p - 1) v)" by (simp add: x_def)
  define bs where "bs = rev (takeWhile blank (rev x))"
  have x: "x = rev (dropWhile blank (rev x)) @ bs"
    unfolding bs_def by (metis rev_append rev_rev_ident takeWhile_dropWhile_id)
  have "comment_start raw (length pre + p) = length x - length bs"
    unfolding comment_start_def raw len [symmetric] bs_def by simp
  moreover have "drop (length x - length bs) raw = bs @ CHR ''#'' # y"
  proof -
    have l: "length x - length bs = length (rev (dropWhile blank (rev x)))"
      by (subst x) simp
    have "raw = rev (dropWhile blank (rev x)) @ bs @ CHR ''#'' # y" using raw x by (metis append.assoc)
    then show ?thesis unfolding l by (metis append_eq_conv_conj)
  qed
  moreover have "bs \<noteq> []" unfolding bs_def last using p(4) by simp
  moreover have "\<forall>c \<in> set bs. blank c" unfolding bs_def by (auto dest: set_takeWhileD)
  ultimately show ?thesis by metis
qed

lemma trimmed_hd: "trimmed s \<Longrightarrow> s \<noteq> [] \<Longrightarrow> \<not> isspace (hd s)"
  by (simp add: trimmed_def)

lemma nonblank_trim: "rss_trim raw \<noteq> [] \<Longrightarrow> list_ex (\<lambda>c. \<not> isspace c) raw"
proof -
  assume t: "rss_trim raw \<noteq> []"
  have "hd (rss_trim raw) \<in> set raw" using set_rss_trim [of raw] t by (meson hd_in_set subsetD)
  then show ?thesis using trimmed_hd [OF trimmed_rss_trim t] by (auto simp: list_ex_iff)
qed

text \<open>The three kinds of lines, and what is known of each.\<close>

lemma classify_line_cases:
  assumes "cstr raw"
  obtains (inert) "li_kind (classify_line raw) = 0" "line_of raw = Inert"
  | (header) "li_kind (classify_line raw) = 1" "li_nonblank (classify_line raw)"
      "line_of raw = Header (li_sec (classify_line raw))"
      "cstr (li_sec (classify_line raw))"
  | (binding) ws k gap z where "li_kind (classify_line raw) = 2" "li_nonblank (classify_line raw)"
      "raw = ws @ k @ gap @ CHR ''='' # z" "key_ok k" "\<forall>c \<in> set ws. isspace c" "\<forall>c \<in> set gap. isspace c"
      "li_key (classify_line raw) = field 64 k" "li_key_end (classify_line raw) = length ws + length k"
      "\<And>c. li_com_off (classify_line raw) = Some c \<Longrightarrow>
        \<exists>bs r. drop c raw = bs @ CHR ''#'' # r \<and> bs \<noteq> [] \<and> (\<forall>c \<in> set bs. blank c)"
      "line_of raw = Binding k (rss_trim (strip_inline_comment (rss_trim z)))"
proof -
  define s where "s = rss_trim raw"
  define off where "off = length (takeWhile isspace raw)"
  note defs = classify_line_def line_of_def parse_line_def Let_def
  have c: "c_str raw = raw" using assms by simp
  consider (long) "512 \<le> length raw" | (short) "length raw < 512" by linarith
  then show thesis
  proof cases
    case long
    then show thesis using inert by (simp add: defs)
  next
    case short
    show thesis
    proof (cases "s = [] \<or> hd s = CHR ''#'' \<or> hd s = CHR '';''")
      case True
      then show thesis using short inert by (simp add: defs c s_def)
    next
      case False
      then have ne: "rss_trim raw \<noteq> []" by (simp add: s_def)
      note nb = nonblank_trim [OF ne]
      show thesis
      proof (cases "hd s = CHR ''[''")
        case True
        show thesis
        proof (cases "strchr s (CHR '']'')")
          case None
          then show thesis using short inert True ne False
            unfolding defs c s_def [symmetric] None by simp
        next
          case (Some rest)
          show thesis
          proof (rule header)
            show "li_kind (classify_line raw) = 1" "li_nonblank (classify_line raw)"
              using short True False nb unfolding defs c s_def [symmetric] Some by simp_all
            show "line_of raw = Header (li_sec (classify_line raw))" "cstr (li_sec (classify_line raw))"
              using short True False unfolding defs c s_def [symmetric] Some by simp_all
          qed
        qed
      next
        case nh: False
        show thesis
        proof (cases "strchr s (CHR ''='')")
          case None
          then show thesis using short inert nh False
            unfolding defs c s_def [symmetric] None by simp
        next
          case (Some eq)
          then obtain cut where cut: "s = cut @ eq" "CHR ''='' \<notin> set cut" "eq \<noteq> []" "hd eq = CHR ''=''"
            by (auto simp: strchr_Some)
          have tk: "take (length s - length eq) s = cut" by (simp add: cut(1))
          define k where "k = rss_trim cut"
          show thesis
          proof (cases "k = []")
            case True
            show thesis
              by (rule inert) (use short nh False True in \<open>simp_all add: defs c s_def [symmetric] Some tk k_def [symmetric]\<close>)
          next
            case k: False
            have ns: "\<not> isspace (hd s)"
              using trimmed_hd [OF trimmed_rss_trim ne] by (simp add: s_def)
            have cne: "cut \<noteq> []" using k rss_trim_trimmed [of "[]"] by (auto simp: k_def trimmed_def)
            then have hdc: "hd cut = hd s" "\<not> isspace (hd cut)" using ns cut(1) by simp_all
            then have cw: "takeWhile isspace cut = []" using cne by (cases cut) auto
            obtain gap where gap: "cut = k @ gap" "\<forall>c \<in> set gap. isspace c"
              using rss_trim_after_blanks [of cut] by (auto simp: cw k_def)
            obtain tr where tr: "raw = takeWhile isspace raw @ s @ tr" "\<forall>c \<in> set tr. isspace c"
              using rss_trim_after_blanks [of raw] by (auto simp: s_def)
            define ws where "ws = takeWhile isspace raw"
            define z where "z = tl eq @ tr"
            have raw: "raw = ws @ k @ gap @ CHR ''='' # z"
              using tr(1) cut gap unfolding z_def ws_def by (cases eq) auto
            have "trimmed k" using trimmed_rss_trim [of cut] by (simp only: k_def)
            then have ok: "key_ok k"
              using cut(2) gap(1) hdc nh False k by (auto simp: key_ok_def)
            have wsp: "\<forall>c \<in> set ws. isspace c" by (auto simp: ws_def dest: set_takeWhileD)
            let ?com = "find_inline_comment (rss_trim (tl eq))"
            let ?v = "off + (length s - length eq) + 1 + length (takeWhile isspace (tl eq))"
            have li: "li_kind (classify_line raw) = 2" "li_nonblank (classify_line raw)"
              "li_key (classify_line raw) = field 64 k" "li_key_end (classify_line raw) = off + length k"
              "li_com_off (classify_line raw) = map_option (\<lambda>p. comment_start raw (?v + p)) ?com"
              using short nh False nb k
              by (simp_all add: defs c s_def [symmetric] Some tk cw off_def k_def [symmetric])
            have com: "\<exists>bs r. drop x raw = bs @ CHR ''#'' # r \<and> bs \<noteq> [] \<and> (\<forall>c \<in> set bs. blank c)"
              if x: "li_com_off (classify_line raw) = Some x" for x
            proof -
              obtain p where p: "?com = Some p" "x = comment_start raw (?v + p)"
                using x li(5) by auto
              obtain ws' where v: "tl eq = takeWhile isspace (tl eq) @ rss_trim (tl eq) @ ws'"
                by (rule rss_trim_after_blanks)
              define pre where "pre = ws @ cut @ [CHR ''=''] @ takeWhile isspace (tl eq)"
              have "eq = CHR ''='' # tl eq" using cut(3,4) by (cases eq) auto
              then have "raw = ws @ cut @ [CHR ''=''] @ tl eq @ tr"
                using tr(1) cut(1) unfolding ws_def by (metis append.assoc append_Cons append_Nil)
              also have "\<dots> = ws @ cut @ [CHR ''=''] @ (takeWhile isspace (tl eq) @ rss_trim (tl eq) @ ws') @ tr"
                using v by simp
              finally have r: "raw = pre @ rss_trim (tl eq) @ (ws' @ tr)"
                unfolding pre_def by (simp only: append.assoc)
              have "?v = length pre" by (simp add: pre_def off_def ws_def cut(1))
              then show ?thesis using comment_start_run [OF r p(1)] p(2) by simp
            qed
            have "line_of raw = Binding k (rss_trim (strip_inline_comment (rss_trim z)))"
              using short parse_binding [OF ok wsp gap(2), of z] unfolding raw [symmetric] by (simp add: line_of_def)
            moreover have "off = length ws" by (simp add: off_def ws_def)
            ultimately show thesis
              using binding [OF li(1,2) raw ok wsp gap(2) li(3)] li(4) com by simp
          qed
        qed
      qed
    qed
  qed
qed

section \<open>What binding finds\<close>

abbreviation kind_of :: "string \<Rightarrow> nat" where "kind_of l \<equiv> li_kind (classify_line l)"
abbreviation nonblank :: "string \<Rightarrow> bool" where "nonblank l \<equiv> li_nonblank (classify_line l)"

text \<open>The section in force after some lines, and at a line.\<close>

definition sect :: "string list \<Rightarrow> string" where
  "sect ls = foldl (\<lambda>c l. if kind_of l = 1 then li_sec (classify_line l) else c) [] ls"

lemma sect_simps [simp]: "sect [] = []"
  "sect (ls @ [l]) = (if kind_of l = 1 then li_sec (classify_line l) else sect ls)"
  by (simp_all add: sect_def)

definition sec_at :: "string list \<Rightarrow> nat \<Rightarrow> string" where
  "sec_at ls l = sect (take (Suc l) ls)"

lemma sec_at_append [simp]: "l < length ls \<Longrightarrow> sec_at (ls @ xs) l = sec_at ls l"
  by (simp add: sec_at_def)

lemma sec_at_last [simp]: "sec_at (ls @ [x]) (length ls) = sect (ls @ [x])"
  by (simp add: sec_at_def)

definition refers :: "dirty_ref_t \<Rightarrow> string \<Rightarrow> bool" where
  "refers d c \<longleftrightarrow> fold_name (dr_sec d) = fold_name c"

definition matches :: "dirty_ref_t \<Rightarrow> string \<Rightarrow> string \<Rightarrow> bool" where
  "matches d c raw \<longleftrightarrow> refers d c \<and>
     (case dr_ent d of None \<Rightarrow> kind_of raw = 1
      | Some e \<Rightarrow> kind_of raw = 2 \<and> fold_name (key e) = fold_name (li_key (classify_line raw)))"

definition anchors :: "dirty_ref_t \<Rightarrow> string \<Rightarrow> string \<Rightarrow> bool" where
  "anchors d c raw \<longleftrightarrow> refers d c \<and> nonblank raw"

text \<open>\<open>last_line P n o\<close>: \<open>o\<close> is the last line below \<open>n\<close> with the property.\<close>

definition last_line :: "(nat \<Rightarrow> bool) \<Rightarrow> nat \<Rightarrow> nat option \<Rightarrow> bool" where
  "last_line P n r \<longleftrightarrow> (case r of None \<Rightarrow> \<forall>l < n. \<not> P l | Some i \<Rightarrow> i < n \<and> P i \<and> (\<forall>l. i < l \<and> l < n \<longrightarrow> \<not> P l))"

lemma last_line_0 [simp]: "last_line P 0 r \<longleftrightarrow> r = None"
  by (cases r) (simp_all add: last_line_def)

lemma last_line_Suc:
  "last_line P n r \<Longrightarrow> last_line P (Suc n) (if P n then Some n else r)"
  by (auto simp: last_line_def less_Suc_eq split: option.splits)

lemma last_line_cong: "(\<And>l. l < n \<Longrightarrow> P l = Q l) \<Longrightarrow> last_line P n r = last_line Q n r"
  by (auto simp: last_line_def split: option.splits)

definition bound :: "string list \<Rightarrow> dirty_ref_t \<Rightarrow> dirty_ref_t \<Rightarrow> bool" where
  "bound ls d0 d \<longleftrightarrow> dr_sec d = dr_sec d0 \<and> dr_ent d = dr_ent d0 \<and> dr_done d = dr_done d0
     \<and> last_line (\<lambda>l. matches d (sec_at ls l) (ls ! l)) (length ls) (replace_line d)
     \<and> last_line (\<lambda>l. anchors d (sec_at ls l) (ls ! l)) (length ls) (append_line d)
     \<and> (sec_in_file d \<longrightarrow> (\<exists>l < length ls. refers d (sec_at ls l) \<and> kind_of (ls ! l) = 1))
     \<and> (\<forall>r. replace_line d = Some r \<and> dr_ent d \<noteq> None \<longrightarrow>
          rep_key_end d = li_key_end (classify_line (ls ! r)) \<and> rep_com_off d = li_com_off (classify_line (ls ! r)))"

lemma bind_ref_fields [simp]: "dr_sec (bind_ref l li c d) = dr_sec d" "dr_ent (bind_ref l li c d) = dr_ent d"
  "dr_done (bind_ref l li c d) = dr_done d"
  by (simp_all add: bind_ref_def Let_def split: option.split)

lemma refers_bind_ref [simp]: "refers (bind_ref l li c' d) c = refers d c"
  "matches (bind_ref l li c' d) c raw = matches d c raw" "anchors (bind_ref l li c' d) c raw = anchors d c raw"
  by (simp_all add: refers_def matches_def anchors_def)

lemma bind_ref_replace:
  "replace_line (bind_ref l (classify_line raw) c d) = (if matches d c raw then Some l else replace_line d)"
  "append_line (bind_ref l (classify_line raw) c d) = (if anchors d c raw then Some l else append_line d)"
  "sec_in_file (bind_ref l (classify_line raw) c d) = (sec_in_file d \<or> refers d c \<and> kind_of raw = 1)"
  by (auto simp: bind_ref_def matches_def anchors_def refers_def strcasecmp_fold Let_def split: option.split)

lemma bind_ref_rep:
  "dr_ent d \<noteq> None \<Longrightarrow> rep_key_end (bind_ref l (classify_line raw) c d) =
    (if matches d c raw then li_key_end (classify_line raw) else rep_key_end d)"
  "dr_ent d \<noteq> None \<Longrightarrow> rep_com_off (bind_ref l (classify_line raw) c d) =
    (if matches d c raw then li_com_off (classify_line raw) else rep_com_off d)"
  by (auto simp: bind_ref_def matches_def refers_def strcasecmp_fold Let_def split: option.splits)

lemma bound_snoc:
  assumes "bound ls d0 d"
  shows "bound (ls @ [x]) d0 (bind_ref (length ls) (classify_line x) (sect (ls @ [x])) d)"
proof -
  let ?ls = "ls @ [x]" and ?d = "bind_ref (length ls) (classify_line x) (sect (ls @ [x])) d"
  have e: "l < length ls \<Longrightarrow> sec_at ?ls l = sec_at ls l \<and> ?ls ! l = ls ! l" for l
    by (simp add: nth_append)
  have n: "sec_at ?ls (length ls) = sect ?ls" "?ls ! length ls = x" by (simp_all only: sec_at_last nth_append_length)
  have "last_line (\<lambda>l. matches d (sec_at ?ls l) (?ls ! l)) (length ls) (replace_line d)"
    using assms e by (subst last_line_cong [where Q = "\<lambda>l. matches d (sec_at ls l) (ls ! l)"]) (auto simp: bound_def)
  from last_line_Suc [OF this]
  have "last_line (\<lambda>l. matches ?d (sec_at ?ls l) (?ls ! l)) (length ?ls) (replace_line ?d)"
    unfolding n refers_bind_ref by (simp add: bind_ref_replace(1) del: sect_simps)
  moreover
  have "last_line (\<lambda>l. anchors d (sec_at ?ls l) (?ls ! l)) (length ls) (append_line d)"
    using assms e by (subst last_line_cong [where Q = "\<lambda>l. anchors d (sec_at ls l) (ls ! l)"]) (auto simp: bound_def)
  from last_line_Suc [OF this]
  have "last_line (\<lambda>l. anchors ?d (sec_at ?ls l) (?ls ! l)) (length ?ls) (append_line ?d)"
    unfolding n refers_bind_ref by (simp add: bind_ref_replace(2) del: sect_simps)
  moreover have "\<exists>l < length ?ls. refers ?d (sec_at ?ls l) \<and> kind_of (?ls ! l) = 1" if "sec_in_file ?d"
  proof (cases "refers d (sect ?ls) \<and> kind_of x = 1")
    case True
    then show ?thesis using n by (intro exI [of _ "length ls"]) (simp del: sect_simps)
  next
    case False
    then have "sec_in_file d" using that unfolding bind_ref_replace(3) by blast
    then obtain l where "l < length ls" "refers d (sec_at ls l)" "kind_of (ls ! l) = 1"
      using assms by (auto simp: bound_def)
    then show ?thesis using e [of l] by (intro exI [of _ l]) (simp del: sect_simps)
  qed
  moreover have "rep_key_end ?d = li_key_end (classify_line (?ls ! r)) \<and> rep_com_off ?d = li_com_off (classify_line (?ls ! r))"
    if r: "replace_line ?d = Some r" "dr_ent ?d \<noteq> None" for r
  proof (cases "matches d (sect ?ls) x")
    case True
    then show ?thesis using r n by (simp add: bind_ref_replace(1) bind_ref_rep del: sect_simps)
  next
    case False
    then have rd: "replace_line d = Some r" using r(1) by (simp add: bind_ref_replace(1) del: sect_simps)
    then have "r < length ls" using assms by (simp add: bound_def last_line_def)
    then show ?thesis using r False rd e [of r] assms by (simp add: bound_def bind_ref_rep del: sect_simps)
  qed
  ultimately show ?thesis using assms unfolding bound_def by (simp del: sect_simps)
qed

text \<open>A section that leaves, and the lines that go.\<close>

definition leaving :: "dirty_ref_t list \<Rightarrow> string \<Rightarrow> bool" where
  "leaving drs c \<longleftrightarrow> (\<exists>d \<in> set drs. dr_ent d = None \<and> refers d c)"

definition gone :: "dirty_ref_t list \<Rightarrow> string \<Rightarrow> string \<Rightarrow> bool" where
  "gone drs c raw \<longleftrightarrow> (leaving drs c \<and> nonblank raw)
     \<or> (\<exists>d \<in> set drs. \<exists>e. dr_ent d = Some e \<and> removed e \<and> matches d c raw)"

lemma bound_refers:
  "bound ls d0 d \<Longrightarrow> refers d c = refers d0 c" "bound ls d0 d \<Longrightarrow> matches d c raw = matches d0 c raw"
  by (simp_all add: bound_def refers_def matches_def)

lemma list_all2_ex:
  "list_all2 R xs ys \<Longrightarrow> (\<And>x y. R x y \<Longrightarrow> P x = Q y) \<Longrightarrow> (\<exists>x \<in> set xs. P x) = (\<exists>y \<in> set ys. Q y)"
  by (induction rule: list_all2_induct) auto

lemma header_nonblank: "cstr raw \<Longrightarrow> kind_of raw = 1 \<Longrightarrow> nonblank raw"
  by (rule classify_line_cases [of raw]) auto

lemma bind_lines_spec:
  assumes "\<forall>d \<in> set drs. dr_ent d = None \<longrightarrow> fold_name (dr_sec d) \<noteq> []" and "\<forall>l \<in> set ls. cstr l"
    and "\<forall>d \<in> set drs. replace_line d = None \<and> append_line d = None \<and> \<not> sec_in_file d"
  shows "case bind_lines ls drs of (c, inr, drp, drs') \<Rightarrow>
    c = sect ls \<and> inr = leaving drs (sect ls) \<and> length drp = length ls
    \<and> (\<forall>l < length ls. drp ! l = gone drs (sec_at ls l) (ls ! l)) \<and> list_all2 (bound ls) drs drs'"
  using assms(2)
proof (induction ls rule: rev_induct)
  case Nil
  have "list_all2 (bound []) drs drs"
    using assms(3) by (auto simp: list_all2_same bound_def)
  then show ?case
    using assms(1) by (auto simp: bind_lines_def leaving_def refers_def fold_name_def)
next
  case (snoc x ls)
  obtain c inr drp drs' where st: "bind_lines ls drs = (c, inr, drp, drs')"
    by (metis prod_cases4)
  then have IH: "c = sect ls" "inr = leaving drs (sect ls)" "length drp = length ls"
    "\<forall>l < length ls. drp ! l = gone drs (sec_at ls l) (ls ! l)" "list_all2 (bound ls) drs drs'"
    using snoc by simp_all
  let ?c = "sect (ls @ [x])" and ?li = "classify_line x"
  have cx: "cstr x" using snoc.prems by simp
  have hdr: "list_ex (drops_header ?li ?c) drs' \<longleftrightarrow> kind_of x = 1 \<and> leaving drs ?c"
    using list_all2_ex [OF IH(5), where P = "\<lambda>d. dr_ent d = None \<and> refers d ?c" and Q = "\<lambda>d. dr_ent d = None \<and> refers d ?c"]
    by (auto simp: drops_header_def leaving_def list_ex_iff strcasecmp_fold bound_def refers_def simp del: sect_simps)
  have keyd: "drops_key ?li ?c d \<longleftrightarrow> (\<exists>e. dr_ent d = Some e \<and> removed e \<and> matches d ?c x)" for d
    by (auto simp: drops_key_def matches_def refers_def strcasecmp_fold split: option.split simp del: sect_simps)
  have key: "list_ex (drops_key ?li ?c) drs' \<longleftrightarrow> (\<exists>d \<in> set drs. \<exists>e. dr_ent d = Some e \<and> removed e \<and> matches d ?c x)"
  proof -
    have "(\<exists>d \<in> set drs. \<exists>e. dr_ent d = Some e \<and> removed e \<and> matches d ?c x)
        = (\<exists>d \<in> set drs'. \<exists>e. dr_ent d = Some e \<and> removed e \<and> matches d ?c x)"
    proof (rule list_all2_ex [OF IH(5)])
      fix a b assume ab: "bound ls a b"
      have "dr_ent b = dr_ent a" using ab unfolding bound_def by blast
      moreover have "matches b ?c x = matches a ?c x" by (rule bound_refers(2) [OF ab])
      ultimately show "(\<exists>e. dr_ent a = Some e \<and> removed e \<and> matches a ?c x)
          = (\<exists>e. dr_ent b = Some e \<and> removed e \<and> matches b ?c x)" by (simp only:)
    qed
    moreover have "list_ex (drops_key ?li ?c) drs'
        = (\<exists>d \<in> set drs'. \<exists>e. dr_ent d = Some e \<and> removed e \<and> matches d ?c x)"
      unfolding list_ex_iff by (rule bex_cong [OF refl]) (rule keyd)
    ultimately show ?thesis by (simp only:)
  qed
  have step: "bind_lines (ls @ [x]) drs =
    (?c, leaving drs ?c, drp @ [gone drs ?c x], map (bind_ref (length ls) ?li ?c) drs')"
  proof -
    have C: "(if kind_of x = 1 then li_sec ?li else c) = ?c" using IH(1) by simp
    have A: "(if kind_of x = 1 then list_ex (drops_header ?li ?c) drs' else inr) = leaving drs ?c"
      using hdr IH(2) by auto
    have B: "(list_ex (drops_header ?li ?c) drs' \<or> list_ex (drops_key ?li ?c) drs'
        \<or> leaving drs ?c \<and> kind_of x \<noteq> 1 \<and> nonblank x) = gone drs ?c x"
      using hdr key header_nonblank [OF cx] unfolding gone_def by blast
    have "bind_lines (ls @ [x]) drs = bind_line (c, inr, drp, drs') x"
      unfolding st [symmetric] by (simp add: bind_lines_def)
    then show ?thesis
      by (simp only: bind_line_def prod.case Let_def C A B IH(3))
  qed
  have b: "list_all2 (bound (ls @ [x])) drs (map (bind_ref (length ls) ?li ?c) drs')"
    using IH(5) by (auto simp: list_all2_map2 elim!: list_all2_mono intro!: bound_snoc simp del: sect_simps)
  have d: "(drp @ [gone drs ?c x]) ! l = gone drs (sec_at (ls @ [x]) l) ((ls @ [x]) ! l)" if "l < length (ls @ [x])" for l
  proof (cases "l < length ls")
    case True
    then show ?thesis using IH(3,4) by (simp add: nth_append del: sect_simps)
  next
    case False
    then have "l = length ls" using that by simp
    then show ?thesis using IH(3) by (simp add: nth_append del: sect_simps)
  qed
  show ?case unfolding step prod.case using b d IH(3) by (simp del: sect_simps)
qed

section \<open>What is written\<close>

lemma drop_separators_nth:
  "length ds = length ls \<Longrightarrow> length (drop_separators ls ds) = length ls
   \<and> (\<forall>l < length ls. drop_separators ls ds ! l =
        (ds ! l \<or> Suc l < length ls \<and> ds ! Suc l \<and> kind_of (ls ! Suc l) = 1 \<and> \<not> nonblank (ls ! l)))"
proof (induction ls ds rule: drop_separators.induct)
  case (1 p h ls dp dh ds)
  then show ?case by (auto simp: nth_Cons split: nat.split)
qed (auto simp: length_Suc_conv)

definition live :: "dirty_ref_t \<Rightarrow> bool" where
  "live d \<longleftrightarrow> (case dr_ent d of None \<Rightarrow> False | Some e \<Rightarrow> \<not> removed e)"

text \<open>Whether a reference is done before line \<open>l\<close> is written.\<close>

definition done_at :: "nat \<Rightarrow> dirty_ref_t \<Rightarrow> bool" where
  "done_at l d \<longleftrightarrow> (case replace_line d of Some r \<Rightarrow> r < l
     | None \<Rightarrow> \<not> live d \<or> (case append_line d of Some a \<Rightarrow> a < l | None \<Rightarrow> dr_sec d = []))"

definition stage :: "nat \<Rightarrow> dirty_ref_t list \<Rightarrow> dirty_ref_t list" where
  "stage l drs = map (\<lambda>d. d\<lparr>dr_done := done_at l d\<rparr>) drs"

definition ref_line :: "dirty_ref_t \<Rightarrow> string" where
  "ref_line d = entry_line (the (dr_ent d))"

definition appended :: "dirty_ref_t list \<Rightarrow> nat \<Rightarrow> dirty_ref_t list" where
  "appended drs l = filter (\<lambda>d. live d \<and> replace_line d = None \<and> append_line d = Some l) drs"

definition edited :: "dirty_ref_t list \<Rightarrow> nat \<Rightarrow> string \<Rightarrow> string" where
  "edited drs l raw = (case find (\<lambda>d. replace_line d = Some l) drs of None \<Rightarrow> raw
     | Some d \<Rightarrow> (case dr_ent d of None \<Rightarrow> raw | Some e \<Rightarrow> replaced_line raw d e))"

definition emitted :: "dirty_ref_t list \<Rightarrow> nat \<Rightarrow> string \<Rightarrow> bool \<Rightarrow> string list" where
  "emitted drs l raw dropped = (if dropped then [] else [edited drs l raw]) @ map ref_line (appended drs l)"

lemma entry_text_line: "entry_text e = entry_line e @ [LF]"
  by (simp add: entry_text_def entry_line_def)

lemma concat_entry_text: "concat (map (\<lambda>d. entry_text (the (dr_ent d))) ds) = join_lines (map ref_line ds)"
  by (induction ds) (simp_all add: entry_text_line ref_line_def)

lemma put_entries_marked:
  assumes "\<And>d. d \<in> set drs \<Longrightarrow> (dr_ent d \<noteq> None \<and> \<not> f d \<and> P d) = Q d"
    and "\<And>d b. P (d\<lparr>dr_done := b\<rparr>) = P d"
  shows "put_entries P (map (\<lambda>d. d\<lparr>dr_done := f d\<rparr>) drs, out)
    = (map (\<lambda>d. d\<lparr>dr_done := f d \<or> Q d\<rparr>) drs, out @ join_lines (map ref_line (filter Q drs)))"
proof -
  let ?todo = "\<lambda>d. dr_ent d \<noteq> None \<and> \<not> dr_done d \<and> P d" and ?f = "\<lambda>d. d\<lparr>dr_done := f d\<rparr>"
  have a: "finish ?todo (map ?f drs) = map (\<lambda>d. d\<lparr>dr_done := f d \<or> Q d\<rparr>) drs"
    using assms by (auto simp: finish_def)
  have "filter (?todo \<circ> ?f) drs = filter Q drs"
    using assms by (intro filter_cong) auto
  then have "filter ?todo (map ?f drs) = map ?f (filter Q drs)"
    by (simp only: filter_map)
  moreover have "map ref_line (map ?f (filter Q drs)) = map ref_line (filter Q drs)"
    by (simp add: ref_line_def)
  ultimately have "concat (map (\<lambda>d. entry_text (the (dr_ent d))) (filter ?todo (map ?f drs))) = join_lines (map ref_line (filter Q drs))"
    by (simp only: concat_entry_text)
  then show ?thesis using a by (simp add: put_entries_def Let_def)
qed

lemma find_first_of: "\<forall>x \<in> set xs. \<not> P x \<Longrightarrow> P d \<Longrightarrow> find P (xs @ d # ys) = Some d"
  by (induction xs) auto

lemma put_line_stage:
  assumes uniq: "\<And>xs d ys. drs = xs @ d # ys \<Longrightarrow> replace_line d = Some l \<Longrightarrow> \<forall>x \<in> set xs \<union> set ys. replace_line x \<noteq> Some l"
    and hdr: "\<And>d. d \<in> set drs \<Longrightarrow> dr_ent d = None \<Longrightarrow> replace_line d = Some l \<Longrightarrow> dropped"
  shows "put_line l raw dropped (stage l drs, join_lines out)
    = (stage (Suc l) drs, join_lines (out @ emitted drs l raw dropped))"
proof -
  let ?f = "\<lambda>d. done_at l d \<or> replace_line d = Some l"
  let ?mid = "map (\<lambda>d. d\<lparr>dr_done := ?f d\<rparr>) drs"
  let ?Q = "\<lambda>d. live d \<and> replace_line d = None \<and> append_line d = Some l"
  have last: "put_entries (\<lambda>d. replace_line d = None \<and> append_line d = Some l) (?mid, o')
      = (stage (Suc l) drs, o' @ join_lines (map ref_line (appended drs l)))" for o'
  proof -
    have "put_entries (\<lambda>d. replace_line d = None \<and> append_line d = Some l) (?mid, o')
        = (map (\<lambda>d. d\<lparr>dr_done := ?f d \<or> ?Q d\<rparr>) drs, o' @ join_lines (map ref_line (filter ?Q drs)))"
      by (rule put_entries_marked) (auto simp: done_at_def live_def split: option.splits)
    moreover have "(?f d \<or> ?Q d) = done_at (Suc l) d" for d
      by (auto simp: done_at_def less_Suc_eq split: option.splits)
    ultimately show ?thesis by (simp add: stage_def appended_def)
  qed
  show ?thesis
  proof (cases "index_of (\<lambda>d. replace_line d = Some l) (stage l drs)")
    case None
    then have n: "\<forall>d \<in> set drs. replace_line d \<noteq> Some l"
      by (auto simp: index_of_None stage_def)
    then have "?mid = stage l drs" by (auto simp: stage_def)
    moreover have "edited drs l raw = raw"
    proof -
      have "find (\<lambda>d. replace_line d = Some l) drs = None"
        unfolding find_None_iff using n by blast
      then show ?thesis unfolding edited_def by simp
    qed
    ultimately show ?thesis
      using last [of "if dropped then join_lines out else join_lines out @ raw @ [LF]"] None
      by (auto simp: put_line_def emitted_def Let_def)
  next
    case (Some i)
    then obtain sxs sd sys where x: "stage l drs = sxs @ sd # sys" "i = length sxs" "replace_line sd = Some l"
      "\<forall>y \<in> set sxs. replace_line y \<noteq> Some l"
      using index_of_Some by blast
    then obtain xs d ys where d: "drs = xs @ d # ys" "sxs = stage l xs" "sys = stage l ys" "sd = d\<lparr>dr_done := done_at l d\<rparr>"
      by (auto simp: stage_def map_eq_append_conv)
    have r: "replace_line d = Some l" using x(3) d(4) by simp
    have o: "\<forall>x \<in> set xs \<union> set ys. replace_line x \<noteq> Some l" by (rule uniq [OF d(1) r])
    have "(stage l drs) ! i = sd" unfolding x(1,2) by simp
    moreover have "(stage l drs)[i := sd\<lparr>dr_done := True\<rparr>] = ?mid"
      using o r unfolding x(1,2) by (auto simp: d stage_def list_update_append)
    ultimately have mark: "(stage l drs)[i := ((stage l drs) ! i)\<lparr>dr_done := True\<rparr>] = ?mid" "dr_ent (stage l drs ! i) = dr_ent d"
      "\<And>e. replaced_line raw (stage l drs ! i) e = replaced_line raw d e"
      using d(4) by (simp_all add: replaced_line_def Let_def)
    have "edited drs l raw = (case dr_ent d of None \<Rightarrow> raw | Some e \<Rightarrow> replaced_line raw d e)"
      unfolding edited_def d(1) using o r by (subst find_first_of) auto
    moreover have "dropped" if "dr_ent d = None" using hdr [of d] that d(1) r by simp
    ultimately show ?thesis
      using last [of "if dropped then join_lines out else join_lines out @ edited drs l raw @ [LF]"]
      unfolding put_line_def prod.case Some Let_def option.case mark
      by (cases dropped) (auto simp: emitted_def split: option.splits)
  qed
qed

definition out_lines :: "dirty_ref_t list \<Rightarrow> string list \<Rightarrow> bool list \<Rightarrow> nat \<Rightarrow> string list" where
  "out_lines drs ls drp n = concat (map (\<lambda>l. emitted drs l (ls ! l) (drp ! l)) [0..<n])"

lemma out_lines_simps [simp]: "out_lines drs ls drp 0 = []"
  "out_lines drs ls drp (Suc n) = out_lines drs ls drp n @ emitted drs n (ls ! n) (drp ! n)"
  by (simp_all add: out_lines_def)

lemma put_lines_stage:
  assumes uniq: "\<And>xs d ys l. drs = xs @ d # ys \<Longrightarrow> replace_line d = Some l \<Longrightarrow> \<forall>x \<in> set xs \<union> set ys. replace_line x \<noteq> Some l"
    and hdr: "\<And>d l. d \<in> set drs \<Longrightarrow> dr_ent d = None \<Longrightarrow> replace_line d = Some l \<Longrightarrow> drp ! l"
    and len: "length drp = length ls"
  shows "l \<le> length ls \<Longrightarrow>
    put_lines l (drop l ls) (drop l drp) (stage l drs, join_lines (tp @ out_lines drs ls drp l))
      = (stage (length ls) drs, join_lines (tp @ out_lines drs ls drp (length ls)))"
proof (induction "length ls - l" arbitrary: l)
  case 0
  then show ?case using len by simp
next
  case (Suc n)
  then have l: "l < length ls" by simp
  have "put_line l (ls ! l) (drp ! l) (stage l drs, join_lines (tp @ out_lines drs ls drp l))
      = (stage (Suc l) drs, join_lines ((tp @ out_lines drs ls drp l) @ emitted drs l (ls ! l) (drp ! l)))"
    using uniq hdr by (intro put_line_stage) blast+
  then show ?case
    using Suc.hyps(1) [of "Suc l"] Suc.hyps(2) l len
    unfolding Cons_nth_drop_Suc [OF l, symmetric] Cons_nth_drop_Suc [OF l [folded len], symmetric]
    by simp
qed

end
