(* ===== verification/Rss_Config_Reload.thy ===== *)
theory Rss_Config_Reload
  imports Rss_Config_Save
begin

text \<open>
  What a load finds in a file written by \<open>rss_config_save\<close>.  A file means the map of its lines;
  the edit is followed line by line, relating the map of the lines read so far to the map of the lines
  written so far (\<open>follows\<close>).  The result is that the saved file is the old one overridden by the
  dirty entries.
\<close>

section \<open>Reading back what is written\<close>

definition sem_line :: "string \<times> config_map \<Rightarrow> string \<Rightarrow> string \<times> config_map" where
  "sem_line st l = (case line_of l of Inert \<Rightarrow> st | Header n \<Rightarrow> (n, snd st)
     | Binding k v \<Rightarrow> (fst st, bind (snd st) (fst st, field 64 k, field 256 v)))"

abbreviation sem :: "string \<times> config_map \<Rightarrow> string list \<Rightarrow> string \<times> config_map" where
  "sem \<equiv> foldl sem_line"

lemma bindings_sem: "foldl bind m (bindings c ls) = snd (sem (c, m) ls)"
  by (induction ls arbitrary: c m) (simp_all add: sem_line_def split: line_kind.split)

lemma file_map_sem: "file_map ls = snd (sem ([], \<lambda>_. None) ls)"
  by (simp add: file_map_def bindings_sem)

lemma sem_sect: "\<forall>l \<in> set ls. cstr l \<Longrightarrow> fst (sem ([], m) ls) = sect ls"
proof (induction ls rule: rev_induct)
  case (snoc x ls)
  then have "cstr x" by simp
  then show ?case
    using snoc by (cases rule: classify_line_cases) (simp_all add: sem_line_def)
qed simp

text \<open>An entry that a line can hold.\<close>

definition writable :: "rss_config_entry_t \<Rightarrow> bool" where
  "writable e \<longleftrightarrow> cstr (key e) \<and> length (key e) < 64 \<and> LF \<notin> set (key e) \<and> key_ok (key e)
     \<and> cstr (val e) \<and> length (val e) < 256 \<and> LF \<notin> set (val e) \<and> comment_free (val e) \<and> val e \<noteq> []"

lemma field_short: "cstr s \<Longrightarrow> length s < n \<Longrightarrow> field n s = s"
  by (simp add: field_def)

lemma entry_line_of: "writable e \<Longrightarrow> line_of (entry_line e) = Binding (key e) (val e)"
proof -
  assume w: "writable e"
  have "parse_line ([] @ key e @ '' '' @ CHR ''='' # CHR '' '' # val e)
      = Binding (key e) (rss_trim (strip_inline_comment (rss_trim (CHR '' '' # val e))))"
    using w by (intro parse_binding) (simp_all add: writable_def)
  moreover have "rss_trim (strip_inline_comment (rss_trim ('' '' @ val e @ []))) = val e"
    using w by (intro read_value) (simp_all add: writable_def)
  ultimately show ?thesis
    using w by (simp add: line_of_def entry_line_def writable_def)
qed

lemma replaced_line_of:
  assumes "cstr raw" and "kind_of raw = 2" and "rep_key_end d = li_key_end (classify_line raw)"
    and "rep_com_off d = li_com_off (classify_line raw)" and "fold_name (key e) = fold_name (li_key (classify_line raw))"
    and "writable e"
  shows "\<exists>k'. line_of (replaced_line raw d e) = Binding k' (val e) \<and> fold_name (field 64 k') = fold_name (key e)"
  using assms(1)
proof (cases rule: classify_line_cases)
  case (binding ws k gap z)
  have w: "key_ok (key e)" "comment_free (val e)" "val e \<noteq> []" "cstr (key e)" "length (key e) < 64" "length (val e) < 256"
    using assms(6) by (simp_all add: writable_def)
  let ?n = "length ws + length k" and ?c = "case rep_com_off d of None \<Rightarrow> 0 | Some c \<Rightarrow> length raw - c"
  define com where "com = (if ?n + 3 + length (val e) + ?c < 512 \<and> 0 < ?c then drop (the (rep_com_off d)) raw else [])"
  define kp where "kp = (if ?n + 3 + length (val e) < 512 then ws @ k else key e)"
  have n: "0 < ?n" "take ?n raw = ws @ k" using binding(4) by (simp_all add: binding(3) key_ok_def)
  have "rep_key_end d = ?n" using assms(3) binding(8) by simp
  then have line: "replaced_line raw d e = kp @ '' '' @ CHR ''='' # '' '' @ val e @ com"
    using n unfolding replaced_line_def Let_def com_def kp_def by auto
  have com: "com = [] \<or> val e \<noteq> [] \<and> (\<exists>bs r. com = bs @ CHR ''#'' # r \<and> bs \<noteq> [] \<and> (\<forall>c \<in> set bs. blank c))"
    using binding(9) assms(4) w(3) unfolding com_def by (auto split: option.splits)
  have val: "rss_trim (strip_inline_comment (rss_trim ('' '' @ val e @ com))) = val e"
    using read_value [OF w(2) com, of "'' ''"] by simp
  have len: "length (replaced_line raw d e) < 512"
    unfolding line using w(5,6) by (auto simp: kp_def com_def split: option.splits)
  show ?thesis
  proof (cases "?n + 3 + length (val e) < 512")
    case True
    have "parse_line (ws @ k @ '' '' @ CHR ''='' # '' '' @ val e @ com)
        = Binding k (rss_trim (strip_inline_comment (rss_trim ('' '' @ val e @ com))))"
      using binding(4,5) by (intro parse_binding) simp_all
    then have "line_of (replaced_line raw d e) = Binding k (val e)"
      using len True val by (simp add: line_of_def line kp_def)
    moreover have "fold_name (field 64 k) = fold_name (key e)" using assms(5) binding(7) by simp
    ultimately show ?thesis by blast
  next
    case False
    have "parse_line ([] @ key e @ '' '' @ CHR ''='' # '' '' @ val e @ com)
        = Binding (key e) (rss_trim (strip_inline_comment (rss_trim ('' '' @ val e @ com))))"
      using w(1) by (intro parse_binding) simp_all
    then have "line_of (replaced_line raw d e) = Binding (key e) (val e)"
      using len False val by (simp add: line_of_def line kp_def)
    moreover have "field 64 (key e) = key e" using w(4,5) by (simp add: field_short)
    ultimately show ?thesis by metis
  qed
qed (use assms(2) in simp_all)

section \<open>The file follows the running configuration\<close>

definition covers :: "dirty_ref_t \<Rightarrow> string \<times> string \<Rightarrow> bool" where
  "covers d p \<longleftrightarrow> (case dr_ent d of None \<Rightarrow> False
     | Some e \<Rightarrow> fold_name (dr_sec d) = fst p \<and> fold_name (key e) = snd p)"

definition leaves :: "dirty_ref_t list \<Rightarrow> string \<Rightarrow> bool" where
  "leaves drs fs \<longleftrightarrow> (\<exists>d \<in> set drs. dr_ent d = None \<and> fold_name (dr_sec d) = fs)"

lemma leaving_leaves: "leaving drs c = leaves drs (fold_name c)"
  by (simp add: leaving_def leaves_def refers_def)

definition slot :: "dirty_ref_t \<Rightarrow> string \<times> string option" where
  "slot d = (fold_name (dr_sec d), map_option (\<lambda>e. fold_name (key e)) (dr_ent d))"

definition refs_ok :: "dirty_ref_t list \<Rightarrow> bool" where
  "refs_ok drs \<longleftrightarrow> distinct (map slot drs)
     \<and> (\<forall>d \<in> set drs. dr_ent d = None \<longrightarrow> fold_name (dr_sec d) \<noteq> [])
     \<and> (\<forall>d \<in> set drs. live d \<longrightarrow> writable (the (dr_ent d)) \<and> \<not> leaves drs (fold_name (dr_sec d))
          \<and> cstr (dr_sec d) \<and> length (dr_sec d) < 64 \<and> (dr_sec d = [] \<or> name_ok (dr_sec d)))"

lemma refs_unique: "refs_ok drs \<Longrightarrow> d \<in> set drs \<Longrightarrow> d' \<in> set drs \<Longrightarrow> slot d = slot d' \<Longrightarrow> d = d'"
  by (auto simp: refs_ok_def distinct_map inj_on_def)

lemma covers_slot: "covers d p \<longleftrightarrow> slot d = (fst p, Some (snd p))"
  by (auto simp: covers_def slot_def split: option.splits)

lemma covers_unique: "refs_ok drs \<Longrightarrow> d \<in> set drs \<Longrightarrow> d' \<in> set drs \<Longrightarrow> covers d p \<Longrightarrow> covers d' p \<Longrightarrow> d = d'"
  by (rule refs_unique) (simp_all add: covers_slot)

definition ref_val :: "dirty_ref_t \<Rightarrow> string" where
  "ref_val d = val (the (dr_ent d))"

text \<open>
  How the map of the text written so far relates to the map \<open>m\<close> of the lines read so far, when the
  references \<open>fin\<close> holds of have been written.
\<close>

definition follows :: "dirty_ref_t list \<Rightarrow> (dirty_ref_t \<Rightarrow> bool) \<Rightarrow> config_map \<Rightarrow> config_map \<Rightarrow> bool" where
  "follows drs fin m m' \<longleftrightarrow>
     (\<forall>p. leaves drs (fst p) \<longrightarrow> m' p = None)
     \<and> (\<forall>p. \<forall>d \<in> set drs. covers d p \<and> \<not> live d \<longrightarrow> m' p = None)
     \<and> (\<forall>p. \<forall>d \<in> set drs. covers d p \<and> live d \<and> fin d \<longrightarrow> m' p = Some (ref_val d))
     \<and> (\<forall>p. \<not> leaves drs (fst p) \<and> (\<forall>d \<in> set drs. \<not> covers d p) \<longrightarrow> m' p = m p)"

lemma sem_entries:
  assumes "\<And>d. d \<in> set ds \<Longrightarrow> d \<in> set drs \<and> live d \<and> refers d c" and "refs_ok drs"
  shows "fst (sem (c, m) (map ref_line ds)) = c
    \<and> snd (sem (c, m) (map ref_line ds)) p = (case find (\<lambda>d. covers d p) ds of None \<Rightarrow> m p | Some d \<Rightarrow> Some (ref_val d))"
  using assms(1)
proof (induction ds arbitrary: m)
  case (Cons d ds)
  have d: "d \<in> set drs" "live d" "refers d c" "writable (the (dr_ent d))"
    using Cons.prems [of d] assms(2) by (auto simp: refs_ok_def)
  obtain e where e: "dr_ent d = Some e" "ref_line d = entry_line e" "writable e"
    using d(2,4) by (auto simp: live_def ref_line_def split: option.splits)
  have f: "field 64 (key e) = key e" "field 256 (val e) = val e"
    using e(3) by (simp_all add: writable_def field_short)
  let ?m = "m((fold_name c, fold_name (key e)) \<mapsto> val e)"
  have s: "sem_line (c, m) (ref_line d) = (c, ?m)"
    using e f by (simp add: sem_line_def entry_line_of bind_def)
  have p: "covers d p \<longleftrightarrow> p = (fold_name c, fold_name (key e))"
    using d(3) e(1) by (cases p) (auto simp: covers_def refers_def)
  have again: "d' = d" if "find (\<lambda>d. covers d p) ds = Some d'" "covers d p" for d'
  proof -
    have "d' \<in> set ds" "covers d' p" using that(1) by (auto simp: find_Some_iff)
    then show ?thesis using Cons.prems [of d'] covers_unique [OF assms(2) _ d(1)] that(2) by auto
  qed
  have "fst (sem (c, ?m) (map ref_line ds)) = c
    \<and> snd (sem (c, ?m) (map ref_line ds)) p = (case find (\<lambda>d. covers d p) ds of None \<Rightarrow> ?m p | Some d \<Rightarrow> Some (ref_val d))"
    using Cons.prems by (intro Cons.IH) auto
  then show ?case
    using again s p e(1) by (auto simp: ref_val_def split: option.split)
qed simp

lemma follows_entries:
  assumes "follows drs f m m'" and "refs_ok drs"
    and "\<And>d. d \<in> set ds \<Longrightarrow> d \<in> set drs \<and> live d \<and> refers d c"
    and "\<And>d. d \<in> set drs \<Longrightarrow> live d \<Longrightarrow> g d \<Longrightarrow> f d \<or> d \<in> set ds"
  shows "follows drs g m (snd (sem (c, m') (map ref_line ds)))"
proof -
  let ?m = "snd (sem (c, m') (map ref_line ds))"
  have eq: "?m p = (case find (\<lambda>d. covers d p) ds of None \<Rightarrow> m' p | Some d \<Rightarrow> Some (ref_val d))" for p
    using sem_entries [of ds drs c m' p] assms(2,3) by blast
  have found: "d \<in> set ds \<and> covers d p" if "find (\<lambda>d. covers d p) ds = Some d" for d p
    using that by (auto simp: find_Some_iff)
  have none: "?m p = m' p" if "\<forall>d \<in> set ds. \<not> covers d p" for p
  proof -
    have "find (\<lambda>d. covers d p) ds = None" unfolding find_None_iff using that by blast
    then show ?thesis using eq by simp
  qed
  show ?thesis
    unfolding follows_def
  proof (intro conjI allI ballI impI)
    fix p :: "string \<times> string" assume p: "leaves drs (fst p)"
    have "\<not> covers d p" if "d \<in> set ds" for d
      using p assms(2) assms(3) [OF that] by (auto simp: covers_def refs_ok_def split: option.splits)
    moreover have "m' p = None" using assms(1) p unfolding follows_def by blast
    ultimately show "?m p = None" using none [of p] by simp
  next
    fix p :: "string \<times> string" and d assume d: "d \<in> set drs" "covers d p \<and> \<not> live d"
    have "\<not> covers d' p" if "d' \<in> set ds" for d'
      using assms(3) [OF that] covers_unique [OF assms(2) d(1), of d' p] d(2) by auto
    moreover have "m' p = None" using assms(1) d unfolding follows_def by blast
    ultimately show "?m p = None" using none [of p] by simp
  next
    fix p :: "string \<times> string" and d assume d: "d \<in> set drs" "covers d p \<and> live d \<and> g d"
    show "?m p = Some (ref_val d)"
    proof (cases "find (\<lambda>d. covers d p) ds")
      case None
      then have "d \<notin> set ds" using d(2) unfolding find_None_iff by blast
      then have "f d" using assms(4) d by blast
      then have "m' p = Some (ref_val d)" using assms(1) d unfolding follows_def by blast
      then show ?thesis using eq None by simp
    next
      case (Some d')
      then have "d' = d" using found [OF Some] assms(3) [of d'] covers_unique [OF assms(2) _ d(1), of d' p] d(2) by auto
      then show ?thesis using eq Some by simp
    qed
  next
    fix p :: "string \<times> string" assume p: "\<not> leaves drs (fst p) \<and> (\<forall>d \<in> set drs. \<not> covers d p)"
    then have "\<forall>d \<in> set ds. \<not> covers d p" using assms(3) by blast
    moreover have "m' p = m p" using assms(1) p unfolding follows_def by blast
    ultimately show "?m p = m p" using none [of p] by simp
  qed
qed

lemma matches_kind: "matches d c raw \<Longrightarrow> (dr_ent d = None \<and> kind_of raw = 1) \<or> (dr_ent d \<noteq> None \<and> kind_of raw = 2)"
  by (auto simp: matches_def split: option.splits)

lemma bound_replace: "bound ls d d \<Longrightarrow> replace_line d = Some l \<Longrightarrow> l < length ls \<and> matches d (sec_at ls l) (ls ! l)"
  by (auto simp: bound_def last_line_def)

lemma follows_I:
  assumes "\<And>p. leaves drs (fst p) \<Longrightarrow> m' p = None"
    and "\<And>p d. d \<in> set drs \<Longrightarrow> covers d p \<Longrightarrow> \<not> live d \<Longrightarrow> m' p = None"
    and "\<And>p d. d \<in> set drs \<Longrightarrow> covers d p \<Longrightarrow> live d \<Longrightarrow> f d \<Longrightarrow> m' p = Some (ref_val d)"
    and "\<And>p. \<not> leaves drs (fst p) \<Longrightarrow> \<forall>d \<in> set drs. \<not> covers d p \<Longrightarrow> m' p = m p"
  shows "follows drs f m m'"
  unfolding follows_def using assms by blast

lemma follows_D:
  assumes "follows drs f m m'"
  shows "leaves drs (fst p) \<Longrightarrow> m' p = None"
    and "d \<in> set drs \<Longrightarrow> covers d p \<Longrightarrow> \<not> live d \<Longrightarrow> m' p = None"
    and "d \<in> set drs \<Longrightarrow> covers d p \<Longrightarrow> live d \<Longrightarrow> f d \<Longrightarrow> m' p = Some (ref_val d)"
    and "\<not> leaves drs (fst p) \<Longrightarrow> \<forall>d \<in> set drs. \<not> covers d p \<Longrightarrow> m' p = m p"
  using assms unfolding follows_def by blast+

lemma follows_drop:
  assumes "follows drs f m m'" and "\<And>d. d \<in> set drs \<Longrightarrow> live d \<Longrightarrow> g d \<Longrightarrow> f d"
    and "\<And>p. m1 p \<noteq> m p \<Longrightarrow> leaves drs (fst p) \<or> (\<exists>d \<in> set drs. covers d p)"
  shows "follows drs g m1 m'"
proof (rule follows_I)
  fix p :: "string \<times> string" assume "\<not> leaves drs (fst p)" "\<forall>d \<in> set drs. \<not> covers d p"
  then show "m' p = m1 p" using follows_D(4) [OF assms(1)] assms(3) [of p] by metis
qed (use follows_D [OF assms(1)] assms(2) in blast)+

lemma follows_update:
  assumes "follows drs f m m'" and "\<not> leaves drs (fst p0)"
    and "\<And>d. d \<in> set drs \<Longrightarrow> covers d p0 \<Longrightarrow> live d \<and> (g d \<longrightarrow> y = ref_val d)"
    and "\<And>d. d \<in> set drs \<Longrightarrow> \<not> covers d p0 \<Longrightarrow> live d \<Longrightarrow> g d \<Longrightarrow> f d"
    and "\<forall>d \<in> set drs. \<not> covers d p0 \<Longrightarrow> x = y"
  shows "follows drs g (m(p0 \<mapsto> x)) (m'(p0 \<mapsto> y))"
proof (rule follows_I)
  fix p :: "string \<times> string" assume "leaves drs (fst p)"
  then show "(m'(p0 \<mapsto> y)) p = None" using follows_D(1) [OF assms(1)] assms(2) by auto
next
  fix p :: "string \<times> string" and d assume "d \<in> set drs" "covers d p" "\<not> live d"
  then show "(m'(p0 \<mapsto> y)) p = None" using follows_D(2) [OF assms(1)] assms(3) by auto
next
  fix p :: "string \<times> string" and d assume d: "d \<in> set drs" "covers d p" "live d" "g d"
  show "(m'(p0 \<mapsto> y)) p = Some (ref_val d)"
  proof (cases "p = p0")
    case True
    then show ?thesis using assms(3) d by simp
  next
    case False
    then have "\<not> covers d p0" using d(2) by (auto simp: covers_slot prod_eq_iff)
    then show ?thesis using False assms(4) d follows_D(3) [OF assms(1) d(1,2,3)] by simp
  qed
next
  fix p :: "string \<times> string" assume p: "\<not> leaves drs (fst p)" "\<forall>d \<in> set drs. \<not> covers d p"
  then show "(m'(p0 \<mapsto> y)) p = (m(p0 \<mapsto> x)) p"
    using assms(5) follows_D(4) [OF assms(1) p] by auto
qed

text \<open>The line itself, kept, replaced or dropped.\<close>

lemma follows_line:
  assumes ok: "refs_ok drs" and b: "\<forall>d \<in> set drs. bound ls d d" and l: "l < length ls"
    and cs: "\<forall>l \<in> set ls. cstr l"
    and drp: "drp = (gone drs (sec_at ls l) (ls ! l) \<or> sep)" "sep \<longrightarrow> \<not> nonblank (ls ! l)"
    and F: "follows drs (done_at l) m m'" and c: "\<not> leaving drs (sect (take l ls)) \<longrightarrow> c' = sect (take l ls)"
  shows "case sem (c', m') (if drp then [] else [edited drs l (ls ! l)]) of (c'', m'') \<Rightarrow>
     follows drs (\<lambda>d. done_at l d \<or> replace_line d = Some l) (snd (sem_line (sect (take l ls), m) (ls ! l))) m''
     \<and> (\<not> leaving drs (sec_at ls l) \<longrightarrow> c'' = sec_at ls l)"
proof -
  let ?raw = "ls ! l" and ?c0 = "sect (take l ls)"
  let ?fin = "\<lambda>d. done_at l d \<or> replace_line d = Some l"
  have cr: "cstr ?raw" using cs l by simp
  have at: "sec_at ls l = (if kind_of ?raw = 1 then li_sec (classify_line ?raw) else ?c0)"
    unfolding sec_at_def take_Suc_conv_app_nth [OF l] by simp
  have rep: "d \<in> set drs \<Longrightarrow> replace_line d = Some l \<Longrightarrow> matches d (sec_at ls l) ?raw" for d
    using b bound_replace by blast
  have plain: "edited drs l ?raw = ?raw" if "\<forall>d \<in> set drs. replace_line d \<noteq> Some l"
  proof -
    have "find (\<lambda>d. replace_line d = Some l) drs = None" unfolding find_None_iff using that by blast
    then show ?thesis by (simp add: edited_def)
  qed
  show ?thesis
    using cr
  proof (cases rule: classify_line_cases)
    case inert
    have n: "\<forall>d \<in> set drs. replace_line d \<noteq> Some l"
      using rep matches_kind inert(1) by fastforce
    then have "follows drs ?fin m m'" using F by (simp add: follows_def)
    then show ?thesis
      using inert c at plain [OF n] by (auto simp: sem_line_def)
  next
    case header
    have n: "\<forall>d \<in> set drs. live d \<longrightarrow> replace_line d \<noteq> Some l"
      using rep matches_kind header(1) by (fastforce simp: live_def split: option.splits)
    then have f: "follows drs ?fin m m'" using F by (auto simp: follows_def)
    show ?thesis
    proof (cases "leaving drs (sec_at ls l)")
      case True
      then have "drp" using drp header(2) by (simp add: gone_def)
      then show ?thesis using True f header(3) by (simp add: sem_line_def)
    next
      case False
      have "\<forall>d \<in> set drs. replace_line d \<noteq> Some l"
        using rep matches_kind header(1) False by (fastforce simp: leaving_def matches_def split: option.splits)
      then have "edited drs l ?raw = ?raw" by (rule plain)
      moreover have "\<not> drp"
        using False drp header(1,2) matches_kind by (fastforce simp: gone_def)
      ultimately show ?thesis using f header at by (simp add: sem_line_def)
    qed
  next
    case (binding ws k gap z)
    let ?v = "rss_trim (strip_inline_comment (rss_trim z))"
    let ?p = "(fold_name ?c0, fold_name (field 64 k))"
    have c0: "sec_at ls l = ?c0" using at binding(1) by simp
    have m: "snd (sem_line (?c0, m) ?raw) = m(?p \<mapsto> field 256 ?v)"
      using binding(10) by (simp add: sem_line_def bind_def)
    have cov: "covers d ?p \<longleftrightarrow> dr_ent d \<noteq> None \<and> matches d (sec_at ls l) ?raw" for d
      using binding(1,7) c0 by (auto simp: covers_def matches_def refers_def split: option.splits)
    have d: "drp = gone drs ?c0 ?raw" using drp binding(2) c0 by auto
    show ?thesis
    proof (cases drp)
      case True
      have away: "leaves drs (fst ?p) \<or> (\<exists>d \<in> set drs. covers d ?p \<and> \<not> live d)"
        using True d cov c0 by (auto simp: gone_def leaving_leaves live_def)
      have "\<not> (live d \<and> replace_line d = Some l)" if "d \<in> set drs" for d
      proof
        assume a: "live d \<and> replace_line d = Some l"
        then have cd: "covers d ?p" using rep [OF that] cov by (auto simp: live_def split: option.splits)
        then have "\<not> leaves drs (fst ?p)"
          using ok that a by (auto simp: refs_ok_def covers_def split: option.splits)
        then obtain d' where "d' \<in> set drs" "covers d' ?p" "\<not> live d'" using away by blast
        then show False using covers_unique [OF ok that _ cd] a by blast
      qed
      then have "follows drs ?fin (m(?p \<mapsto> field 256 ?v)) m'"
        using away by (intro follows_drop [OF F]) (auto split: if_splits)
      then show ?thesis using True c c0 unfolding m by simp
    next
      case False
      have nl: "\<not> leaves drs (fst ?p)" "\<not> leaving drs ?c0"
        using False d binding(2) by (auto simp: gone_def leaving_leaves)
      have lv: "live d'" if "d' \<in> set drs" "covers d' ?p" for d'
        using False d that cov c0 by (auto simp: gone_def live_def split: option.splits)
      have c': "c' = ?c0" using c nl by simp
      have upd: "follows drs ?fin (m(?p \<mapsto> x)) (m'(?p \<mapsto> y))"
        if "\<And>d. d \<in> set drs \<Longrightarrow> covers d ?p \<Longrightarrow> (replace_line d = Some l \<and> y = ref_val d) \<or> \<not> ?fin d"
          and "(\<forall>d \<in> set drs. \<not> covers d ?p) \<longrightarrow> x = y" for x y
      proof -
        have "done_at l d" if "d \<in> set drs" "\<not> covers d ?p" "live d" "?fin d" for d
        proof -
          have "replace_line d \<noteq> Some l"
          proof
            assume "replace_line d = Some l"
            then have "covers d ?p" using rep [OF that(1)] cov that(3) by (auto simp: live_def split: option.splits)
            then show False using that(2) by simp
          qed
          then show ?thesis using that(4) by simp
        qed
        then show ?thesis
          using nl lv that by (intro follows_update [OF F]) blast+
      qed
      show ?thesis
      proof (cases "find (\<lambda>d. replace_line d = Some l) drs")
        case None
        then have n: "\<forall>d \<in> set drs. replace_line d \<noteq> Some l" unfolding find_None_iff by blast
        have "\<not> ?fin d'" if "d' \<in> set drs" "covers d' ?p" for d'
        proof -
          have mt: "matches d' (sec_at ls l) ?raw" using cov that(2) by simp
          have "last_line (\<lambda>l. matches d' (sec_at ls l) (ls ! l)) (length ls) (replace_line d')"
            using b that(1) by (simp add: bound_def)
          then obtain r where "replace_line d' = Some r" "\<not> r < l"
            using mt l by (auto simp: last_line_def split: option.splits)
          then show ?thesis using n that(1) by (auto simp: done_at_def)
        qed
        then have "follows drs ?fin (m(?p \<mapsto> field 256 ?v)) (m'(?p \<mapsto> field 256 ?v))"
          by (intro upd) auto
        then show ?thesis
          using False plain [OF n] c' c0 binding(10) by (simp add: sem_line_def bind_def m del: fun_upd_apply)
      next
        case (Some d)
        then have dd: "d \<in> set drs" "replace_line d = Some l" by (auto simp: find_Some_iff)
        have mt: "matches d (sec_at ls l) ?raw" by (rule rep [OF dd])
        then have cd: "covers d ?p" using matches_kind [OF mt] binding(1) cov by simp
        obtain e where e: "dr_ent d = Some e" using cd by (auto simp: covers_def split: option.splits)
        have w: "writable e" using ok dd(1) lv [OF dd(1) cd] e by (auto simp: refs_ok_def)
        have "rep_key_end d = li_key_end (classify_line ?raw)" "rep_com_off d = li_com_off (classify_line ?raw)"
          using b dd e by (simp_all add: bound_def)
        moreover have "fold_name (key e) = fold_name (li_key (classify_line ?raw))"
          using mt e by (simp add: matches_def)
        ultimately obtain k' where k': "line_of (replaced_line ?raw d e) = Binding k' (val e)"
          "fold_name (field 64 k') = fold_name (key e)"
          using replaced_line_of [OF cr binding(1)] w by blast
        have "fold_name (key e) = snd ?p" using cd e by (simp add: covers_def)
        moreover have "field 256 (val e) = ref_val d" using w e by (simp add: writable_def field_short ref_val_def)
        ultimately have "sem_line (c', m') (replaced_line ?raw d e) = (?c0, m'(?p \<mapsto> ref_val d))"
          using k' c' by (simp add: sem_line_def bind_def)
        moreover have "follows drs ?fin (m(?p \<mapsto> field 256 ?v)) (m'(?p \<mapsto> ref_val d))"
          using dd cd covers_unique [OF ok dd(1)] by (intro upd) blast+
        ultimately show ?thesis
          using False c0 Some e by (simp add: edited_def m del: fun_upd_apply)
      qed
    qed
  qed
qed

definition first_lines :: "dirty_ref_t list \<Rightarrow> dirty_ref_t list" where
  "first_lines drs = filter (\<lambda>d. live d \<and> dr_sec d = [] \<and> replace_line d = None \<and> append_line d = None) drs"

lemma out_lines_follow:
  assumes ok: "refs_ok drs" and b: "\<forall>d \<in> set drs. bound ls d d" and cs: "\<forall>l \<in> set ls. cstr l"
    and drp: "\<forall>l < length ls. \<exists>sep. drp ! l = (gone drs (sec_at ls l) (ls ! l) \<or> sep) \<and> (sep \<longrightarrow> \<not> nonblank (ls ! l))"
  shows "l \<le> length ls \<Longrightarrow>
    case sem ([], \<lambda>_. None) (map ref_line (first_lines drs) @ out_lines drs ls drp l) of (c', m') \<Rightarrow>
      follows drs (done_at l) (snd (sem ([], \<lambda>_. None) (take l ls))) m'
      \<and> (\<not> leaving drs (sect (take l ls)) \<longrightarrow> c' = sect (take l ls))"
proof (induction l)
  case 0
  have "follows drs (\<lambda>_. False) (\<lambda>_. None) (\<lambda>_. None)" by (simp add: follows_def)
  moreover have f: "d \<in> set drs \<and> live d \<and> refers d []" if "d \<in> set (first_lines drs)" for d
    using that by (simp add: first_lines_def refers_def)
  moreover have "d \<in> set (first_lines drs)" if "d \<in> set drs" "live d" "done_at 0 d" for d
    using that by (auto simp: first_lines_def done_at_def split: option.splits)
  ultimately have "follows drs (done_at 0) (\<lambda>_. None) (snd (sem ([], \<lambda>_. None) (map ref_line (first_lines drs))))"
    using ok by (intro follows_entries) auto
  moreover have "fst (sem ([], \<lambda>_. None) (map ref_line (first_lines drs))) = []"
    using sem_entries [OF f ok] by blast
  ultimately show ?case by (simp add: case_prod_beta)
next
  case (Suc l)
  then have l: "l < length ls" by simp
  obtain c' m' where st: "sem ([], \<lambda>_. None) (map ref_line (first_lines drs) @ out_lines drs ls drp l) = (c', m')"
    by (cases "sem ([], \<lambda>_. None) (map ref_line (first_lines drs) @ out_lines drs ls drp l)")
  define m where "m = snd (sem ([], \<lambda>_. None) (take l ls))"
  have IH: "follows drs (done_at l) m m'" "\<not> leaving drs (sect (take l ls)) \<longrightarrow> c' = sect (take l ls)"
    using Suc st l by (simp_all add: m_def)
  obtain sep where sep: "drp ! l = (gone drs (sec_at ls l) (ls ! l) \<or> sep)" "sep \<longrightarrow> \<not> nonblank (ls ! l)"
    using drp l by blast
  obtain c'' m'' where mid: "sem (c', m') (if drp ! l then [] else [edited drs l (ls ! l)]) = (c'', m'')"
    by fastforce
  have F: "follows drs (\<lambda>d. done_at l d \<or> replace_line d = Some l) (snd (sem_line (sect (take l ls), m) (ls ! l))) m''"
    and c'': "\<not> leaving drs (sec_at ls l) \<longrightarrow> c'' = sec_at ls l"
    using follows_line [OF ok b l cs sep IH] mid by simp_all
  have app: "d \<in> set drs \<and> live d \<and> refers d c''" if "d \<in> set (appended drs l)" for d
  proof -
    have d: "d \<in> set drs" "live d" "append_line d = Some l" using that by (simp_all add: appended_def)
    then have "anchors d (sec_at ls l) (ls ! l)" using b by (auto simp: bound_def last_line_def)
    then have r: "refers d (sec_at ls l)" by (simp add: anchors_def)
    then have "\<not> leaving drs (sec_at ls l)"
      using ok d unfolding leaving_leaves refs_ok_def refers_def by metis
    then show ?thesis using c'' r d by simp
  qed
  have fin: "(done_at l d \<or> replace_line d = Some l) \<or> d \<in> set (appended drs l)"
    if "d \<in> set drs" "live d" "done_at (Suc l) d" for d
    using that by (auto simp: done_at_def appended_def less_Suc_eq split: option.splits)
  have s: "sem ([], \<lambda>_. None) (map ref_line (first_lines drs) @ out_lines drs ls drp (Suc l))
      = sem (c'', m'') (map ref_line (appended drs l))"
    using st mid by (simp add: emitted_def)
  have m: "snd (sem ([], \<lambda>_. None) (take (Suc l) ls)) = snd (sem_line (sect (take l ls), m) (ls ! l))"
  proof -
    have "fst (sem ([], \<lambda>_. None) (take l ls)) = sect (take l ls)"
      by (rule sem_sect) (use cs in \<open>auto dest: in_set_takeD\<close>)
    then have "sem ([], \<lambda>_. None) (take l ls) = (sect (take l ls), m)" by (simp add: m_def prod_eq_iff)
    then show ?thesis by (simp add: take_Suc_conv_app_nth [OF l])
  qed
  show ?case
    unfolding s m case_prod_beta sec_at_def [symmetric]
    using follows_entries [OF F ok app fin] sem_entries [OF app ok] c'' by blast
qed

section \<open>New sections\<close>

lemma separator_lines:
  obtains sep where "separator (join_lines out) = join_lines (out @ sep)" "sep = [] \<or> sep = [[]]"
proof (cases "separator (join_lines out) = join_lines out")
  case True
  then show thesis using that [of "[]"] by simp
next
  case False
  then have "separator (join_lines out) = join_lines out @ [LF]" by (simp add: separator_def split: if_splits)
  then show thesis using that [of "[[]]"] by simp
qed

lemma header_line_of: "name_ok n \<Longrightarrow> cstr n \<Longrightarrow> length n < 64 \<Longrightarrow> line_of (header_line n) = Header n"
  using parse_header [of n] by (simp add: name_ok_def line_of_def header_line_def field_short)

definition clean :: "string \<Rightarrow> bool" where
  "clean l \<longleftrightarrow> LF \<notin> set l \<and> cstr l"

lemma clean_entry_line: "writable e \<Longrightarrow> clean (entry_line e)"
  by (simp add: clean_def entry_line_def writable_def cstr_def)

definition undone :: "dirty_ref_t \<Rightarrow> bool" where
  "undone d \<longleftrightarrow> dr_ent d \<noteq> None \<and> \<not> dr_done d"

lemma put_entries_lines:
  "put_entries P (drs, join_lines out) =
    (finish (\<lambda>d. undone d \<and> P d) drs, join_lines (out @ map ref_line (filter (\<lambda>d. undone d \<and> P d) drs)))"
  by (simp add: put_entries_def undone_def concat_entry_text Let_def)

lemma line_of_Nil [simp]: "line_of [] = Inert"
proof -
  have "rss_trim [] = []" by (rule rss_trim_trimmed) (simp add: trimmed_def)
  then show ?thesis by (simp add: line_of_def parse_line_def)
qed

lemma put_sections_lines:
  assumes "refs_ok drs"
    and "\<And>d. d \<in> set ds \<Longrightarrow> undone d \<Longrightarrow> d \<in> set drs \<and> live d \<and> \<not> sec_in_file d \<and> dr_sec d \<noteq> []"
  shows "\<exists>new. put_sections ds (join_lines out) = join_lines (out @ new) \<and> (\<forall>l \<in> set new. clean l)
    \<and> (\<forall>c m p. (\<forall>d \<in> set ds. undone d \<and> covers d p \<longrightarrow> snd (sem (c, m) new) p = Some (ref_val d))
         \<and> ((\<forall>d \<in> set ds. undone d \<longrightarrow> \<not> covers d p) \<longrightarrow> snd (sem (c, m) new) p = m p))"
  using assms(2)
proof (induction "length ds" arbitrary: ds out)
  case 0
  then show ?case by (intro exI [of _ "[]"]) simp
next
  case (Suc n)
  then obtain d ds' where ds: "ds = d # ds'" "length ds' = n" by (cases ds) auto
  show ?case
  proof (cases "undone d")
    case False
    then have "put_sections ds (join_lines out) = put_sections ds' (join_lines out)"
      by (auto simp: ds put_sections.simps undone_def)
    moreover have "\<exists>new. put_sections ds' (join_lines out) = join_lines (out @ new) \<and> (\<forall>l \<in> set new. clean l)
      \<and> (\<forall>c m p. (\<forall>d \<in> set ds'. undone d \<and> covers d p \<longrightarrow> snd (sem (c, m) new) p = Some (ref_val d))
         \<and> ((\<forall>d \<in> set ds'. undone d \<longrightarrow> \<not> covers d p) \<longrightarrow> snd (sem (c, m) new) p = m p))"
      using Suc.prems ds by (intro Suc.hyps(1)) auto
    ultimately show ?thesis using False unfolding ds(1) by auto
  next
    case True
    let ?P = "\<lambda>d2. undone d2 \<and> strcasecmp (dr_sec d2) (dr_sec d) = 0"
    define es where "es = filter ?P ds"
    have d: "d \<in> set drs" "live d" "\<not> sec_in_file d" "dr_sec d \<noteq> []" using Suc.prems [of d] True ds by auto
    have sec: "cstr (dr_sec d)" "length (dr_sec d) < 64" "name_ok (dr_sec d)"
      using assms(1) d by (auto simp: refs_ok_def)
    obtain sep where sep: "separator (join_lines out) = join_lines (out @ sep)" "sep = [] \<or> sep = [[]]"
      by (rule separator_lines)
    define pre where "pre = sep @ [header_line (dr_sec d)]"
    have pre: "separator (join_lines out) @ CHR ''['' # dr_sec d @ CHR '']'' # [LF] = join_lines (out @ pre)"
      by (simp add: sep(1) pre_def header_line_def)
    have c: "\<not> (dr_ent d = None \<or> dr_done d \<or> sec_in_file d \<or> dr_sec d = [])"
      using True d(3,4) by (simp add: undone_def)
    have put: "put_sections ds (join_lines out) = put_sections (finish ?P ds') (join_lines (out @ pre @ map ref_line es))"
      unfolding ds(1) put_sections.simps(2) if_not_P [OF c] pre put_entries_lines prod.case es_def
      by (simp only: finish_def list.map list.sel append.assoc Let_def prod.case)
    have es: "d' \<in> set drs \<and> live d' \<and> refers d' (dr_sec d)" if "d' \<in> set es" for d'
      using Suc.prems that by (auto simp: es_def refers_def strcasecmp_fold)
    have fin: "d' \<in> set ds' \<and> undone d' \<and> \<not> ?P d'" if "d' \<in> set (finish ?P ds')" "undone d'" for d'
      using that by (auto simp: finish_def undone_def split: if_splits)
    have keep: "d' \<in> set (finish ?P ds')" if "d' \<in> set ds'" "\<not> ?P d'" for d'
      using that by (force simp: finish_def)
    have fin': "d' \<in> set drs \<and> live d' \<and> \<not> sec_in_file d' \<and> dr_sec d' \<noteq> []"
      if "d' \<in> set (finish ?P ds')" "undone d'" for d'
      using fin [OF that] Suc.prems [of d'] ds by simp
    have len': "n = length (finish ?P ds')" using ds by (simp add: finish_def)
    have "\<exists>new. put_sections (finish ?P ds') (join_lines (out @ pre @ map ref_line es)) = join_lines ((out @ pre @ map ref_line es) @ new)
      \<and> (\<forall>l \<in> set new. clean l)
      \<and> (\<forall>c m p. (\<forall>d \<in> set (finish ?P ds'). undone d \<and> covers d p \<longrightarrow> snd (sem (c, m) new) p = Some (ref_val d))
         \<and> ((\<forall>d \<in> set (finish ?P ds'). undone d \<longrightarrow> \<not> covers d p) \<longrightarrow> snd (sem (c, m) new) p = m p))"
      by (rule Suc.hyps(1) [OF len' fin'])
    then obtain new where new: "put_sections ds (join_lines out) = join_lines (out @ (pre @ map ref_line es @ new))"
      "\<forall>l \<in> set new. clean l"
      "\<And>c m p d. d \<in> set (finish ?P ds') \<Longrightarrow> undone d \<Longrightarrow> covers d p \<Longrightarrow> snd (sem (c, m) new) p = Some (ref_val d)"
      "\<And>c m p. \<forall>d \<in> set (finish ?P ds'). undone d \<longrightarrow> \<not> covers d p \<Longrightarrow> snd (sem (c, m) new) p = m p"
      unfolding put by auto
    have cl: "\<forall>l \<in> set (pre @ map ref_line es @ new). clean l"
    proof -
      have "clean (ref_line d')" if "d' \<in> set es" for d'
        using es [OF that] assms(1) by (auto simp: refs_ok_def ref_line_def intro!: clean_entry_line)
      moreover have "clean (header_line (dr_sec d))" using sec by (simp add: clean_def header_line_def name_ok_def cstr_def)
      ultimately show ?thesis using sep(2) new(2) by (auto simp: pre_def clean_def cstr_def)
    qed
    have sem_pre: "sem (c, m) pre = (dr_sec d, m)" for c m
      using sep(2) header_line_of [OF sec(3,1,2)] by (auto simp: pre_def sem_line_def)
    show ?thesis
    proof (intro exI conjI allI, rule new(1), rule cl)
      fix c :: string and m :: config_map and p :: "string \<times> string"
      define m1 where "m1 = snd (sem (dr_sec d, m) (map ref_line es))"
      have st: "sem (c, m) (pre @ map ref_line es @ new) = sem (dr_sec d, m1) new"
        using sem_entries [OF es assms(1)] by (simp add: sem_pre m1_def prod_eq_iff) (metis prod.collapse)
      have m1: "m1 p = (case find (\<lambda>d. covers d p) es of None \<Rightarrow> m p | Some d \<Rightarrow> Some (ref_val d))"
        using sem_entries [OF es assms(1)] by (simp add: m1_def)
      show "\<forall>d \<in> set ds. undone d \<and> covers d p \<longrightarrow> snd (sem (c, m) (pre @ map ref_line es @ new)) p = Some (ref_val d)"
      proof (intro ballI impI)
        fix d' assume d': "d' \<in> set ds" "undone d' \<and> covers d' p"
        have dd: "d' \<in> set drs" using Suc.prems d' by blast
        show "snd (sem (c, m) (pre @ map ref_line es @ new)) p = Some (ref_val d')"
        proof (cases "?P d'")
          case True
          have "find (\<lambda>d. covers d p) es = Some d'"
          proof (cases "find (\<lambda>d. covers d p) es")
            case None
            then show ?thesis using d' True unfolding find_None_iff by (auto simp: es_def)
          next
            case (Some x)
            then have "x \<in> set es" "covers x p" by (auto simp: find_Some_iff)
            then show ?thesis using Some covers_unique [OF assms(1) _ dd, of x p] es d' by auto
          qed
          moreover have "\<not> covers x p" if "x \<in> set (finish ?P ds')" "undone x" for x
          proof
            assume "covers x p"
            then have "x = d'" using covers_unique [OF assms(1) _ dd, of x p] fin [OF that] Suc.prems [of x] d' ds by auto
            then show False using fin [OF that] True by blast
          qed
          ultimately show ?thesis using new(4) st m1 by simp
        next
          case False
          then have "d' \<in> set ds'" using d' True ds by (auto simp: strcasecmp_fold)
          then show ?thesis using new(3) [OF keep] False d' st by simp
        qed
      qed
      show "(\<forall>d \<in> set ds. undone d \<longrightarrow> \<not> covers d p) \<longrightarrow> snd (sem (c, m) (pre @ map ref_line es @ new)) p = m p"
      proof
        assume n: "\<forall>d \<in> set ds. undone d \<longrightarrow> \<not> covers d p"
        have "find (\<lambda>d. covers d p) es = None" unfolding find_None_iff using n by (auto simp: es_def)
        moreover have "\<forall>d \<in> set (finish ?P ds'). undone d \<longrightarrow> \<not> covers d p" using fin n ds by auto
        ultimately show "snd (sem (c, m) (pre @ map ref_line es @ new)) p = m p" using new(4) st m1 by simp
      qed
    qed
  qed
qed

section \<open>The whole edit\<close>

lemma clean_split_lines: "cstr f \<Longrightarrow> l \<in> set (split_lines f) \<Longrightarrow> clean l"
  using split_lines_no_LF [of l f] set_split_lines [of l f] by (auto simp: clean_def cstr_def)

lemma clean_replaced: "clean raw \<Longrightarrow> writable e \<Longrightarrow> clean (replaced_line raw d e)"
  by (auto simp: replaced_line_def Let_def clean_def cstr_def writable_def dest: in_set_takeD in_set_dropD)

lemma clean_out_lines:
  assumes ok: "refs_ok drs" and b: "\<forall>d \<in> set drs. bound ls d d" and cs: "\<forall>l \<in> set ls. clean l"
    and drp: "\<forall>l < length ls. gone drs (sec_at ls l) (ls ! l) \<longrightarrow> drp ! l"
  shows "n \<le> length ls \<Longrightarrow> \<forall>l \<in> set (map ref_line (first_lines drs) @ out_lines drs ls drp n). clean l"
proof (induction n)
  case 0
  show ?case using ok by (auto simp: first_lines_def refs_ok_def ref_line_def intro!: clean_entry_line)
next
  case (Suc l)
  then have l: "l < length ls" by simp
  have raw: "clean (ls ! l)" using cs l by simp
  have "clean (ref_line d)" if "d \<in> set (appended drs l)" for d
    using that ok by (auto simp: appended_def refs_ok_def ref_line_def intro!: clean_entry_line)
  moreover have "clean (edited drs l (ls ! l))" if "\<not> drp ! l"
  proof (cases "find (\<lambda>d. replace_line d = Some l) drs")
    case None
    then show ?thesis using raw by (simp add: edited_def)
  next
    case (Some d)
    then have d: "d \<in> set drs" "replace_line d = Some l" by (auto simp: find_Some_iff)
    then have m: "matches d (sec_at ls l) (ls ! l)" using b bound_replace by blast
    show ?thesis
    proof (cases "dr_ent d")
      case None
      then show ?thesis using Some raw by (simp add: edited_def)
    next
      case e: (Some e)
      have "\<not> gone drs (sec_at ls l) (ls ! l)" using drp l that by blast
      then have "\<not> removed e" using d(1) m e by (auto simp: gone_def)
      then have "writable e" using ok d(1) e by (auto simp: refs_ok_def live_def)
      then show ?thesis using Some e raw by (simp add: edited_def clean_replaced)
    qed
  qed
  ultimately show ?case using Suc.IH l by (auto simp: emitted_def)
qed

lemma refs_ok_cong:
  assumes "list_all2 (\<lambda>a b. dr_sec b = dr_sec a \<and> dr_ent b = dr_ent a) xs ys"
  shows "refs_ok xs = refs_ok ys" "leaves xs fs = leaves ys fs"
proof -
  have l: "leaves xs fs = leaves ys fs" for fs
    unfolding leaves_def by (rule list_all2_ex [OF assms]) simp
  have s: "map slot xs = map slot ys"
    using assms by (induction rule: list_all2_induct) (simp_all add: slot_def)
  have a: "(\<forall>x \<in> set xs. P (dr_sec x) (dr_ent x)) = (\<forall>y \<in> set ys. P (dr_sec y) (dr_ent y))" for P
    using assms by (induction rule: list_all2_induct) simp_all
  show "leaves xs fs = leaves ys fs" by (rule l)
  show "refs_ok xs = refs_ok ys"
    using a [of "\<lambda>s e. e = None \<longrightarrow> fold_name s \<noteq> []"]
      a [of "\<lambda>s e. (case e of None \<Rightarrow> False | Some e \<Rightarrow> \<not> removed e) \<longrightarrow> writable (the e) \<and> \<not> leaves xs (fold_name s)
            \<and> cstr s \<and> length s < 64 \<and> (s = [] \<or> name_ok s)"]
    unfolding refs_ok_def live_def s l by simp
qed

lemma find_covers_cong:
  assumes "list_all2 (\<lambda>a b. dr_sec b = dr_sec a \<and> dr_ent b = dr_ent a) xs ys"
  shows "map_option dr_ent (find (\<lambda>d. covers d p) xs) = map_option dr_ent (find (\<lambda>d. covers d p) ys)"
  using assms
proof (induction rule: list_all2_induct)
  case (Cons x xs y ys)
  then have "dr_sec y = dr_sec x" "dr_ent y = dr_ent x" by blast+
  then have "covers x p = covers y p" by (simp only: covers_def)
  then show ?case using Cons by simp
qed simp

text \<open>What the references ask of a map.\<close>

definition asked :: "dirty_ref_t list \<Rightarrow> config_map \<Rightarrow> config_map" where
  "asked drs m p = (if leaves drs (fst p) then None
     else case find (\<lambda>d. covers d p) drs of None \<Rightarrow> m p | Some d \<Rightarrow> if live d then Some (ref_val d) else None)"

lemma asked_cong:
  assumes "list_all2 (\<lambda>a b. dr_sec b = dr_sec a \<and> dr_ent b = dr_ent a) xs ys"
  shows "asked xs m p = asked ys m p"
proof -
  have l: "leaves xs (fst p) = leaves ys (fst p)" by (rule refs_ok_cong(2) [OF assms])
  have f: "map_option dr_ent (find (\<lambda>d. covers d p) xs) = map_option dr_ent (find (\<lambda>d. covers d p) ys)"
    by (rule find_covers_cong [OF assms])
  show ?thesis
  proof (cases "find (\<lambda>d. covers d p) xs")
    case None
    then have "find (\<lambda>d. covers d p) ys = None" using f by simp
    then show ?thesis using None l by (simp only: asked_def option.case)
  next
    case (Some x)
    then obtain y where "find (\<lambda>d. covers d p) ys = Some y" "dr_ent y = dr_ent x" using f by (auto simp: map_option_case split: option.splits)
    then show ?thesis using Some l by (simp only: asked_def option.case live_def ref_val_def)
  qed
qed

definition fresh :: "dirty_ref_t \<Rightarrow> bool" where
  "fresh d \<longleftrightarrow> replace_line d = None \<and> append_line d = None \<and> \<not> sec_in_file d \<and> \<not> dr_done d"

lemma surgical_map:
  assumes "cstr f" and ok0: "refs_ok drs0" and fr: "\<forall>d \<in> set drs0. fresh d"
  shows "cstr (config_write_surgical f drs0)
    \<and> file_map (split_lines (config_write_surgical f drs0)) p = asked drs0 (file_map (split_lines f)) p"
proof -
  define ls where "ls = split_lines f"
  define n where "n = length ls"
  have cl: "\<forall>l \<in> set ls. clean l" using clean_split_lines [OF assms(1)] by (simp add: ls_def)
  then have cs: "\<forall>l \<in> set ls. cstr l" by (simp add: clean_def)
  obtain c inr drp0 drs where bl: "bind_lines ls drs0 = (c, inr, drp0, drs)" by (metis prod_cases4)
  have nul: "\<forall>d \<in> set drs0. dr_ent d = None \<longrightarrow> fold_name (dr_sec d) \<noteq> []" using ok0 by (simp add: refs_ok_def)
  have fr': "\<forall>d \<in> set drs0. replace_line d = None \<and> append_line d = None \<and> \<not> sec_in_file d"
    using fr by (simp add: fresh_def)
  have B: "length drp0 = length ls" "\<forall>l < length ls. drp0 ! l = gone drs0 (sec_at ls l) (ls ! l)"
    "list_all2 (bound ls) drs0 drs"
    using bind_lines_spec [OF nul cs fr'] bl by simp_all
  have same: "list_all2 (\<lambda>a b. dr_sec b = dr_sec a \<and> dr_ent b = dr_ent a) drs0 drs"
    using B(3) by (rule list_all2_mono) (simp add: bound_def)
  have ok: "refs_ok drs" using refs_ok_cong(1) [OF same] ok0 by simp
  have b: "\<forall>d \<in> set drs. bound ls d d \<and> \<not> dr_done d"
  proof
    fix d assume "d \<in> set drs"
    then obtain d0 where "d0 \<in> set drs0" "bound ls d0 d"
      using B(3) by (metis (no_types, lifting) in_set_conv_nth list_all2_conv_all_nth)
    then show "bound ls d d \<and> \<not> dr_done d" using fr by (auto simp: bound_def fresh_def)
  qed
  then have bb: "\<forall>d \<in> set drs. bound ls d d" by blast
  have g: "gone drs0 s raw = gone drs s raw" for s raw
  proof -
    have "leaving drs0 s = leaving drs s" using refs_ok_cong(2) [OF same] by (simp add: leaving_leaves)
    moreover have "(\<exists>d \<in> set drs0. \<exists>e. dr_ent d = Some e \<and> removed e \<and> matches d s raw)
        = (\<exists>d \<in> set drs. \<exists>e. dr_ent d = Some e \<and> removed e \<and> matches d s raw)"
      by (rule list_all2_ex [OF same]) (simp add: matches_def refers_def)
    ultimately show ?thesis by (simp add: gone_def)
  qed
  define drp where "drp = drop_separators ls drp0"
  have D: "length drp = length ls"
    "\<forall>l < length ls. drp ! l = (drp0 ! l \<or> Suc l < length ls \<and> drp0 ! Suc l \<and> kind_of (ls ! Suc l) = 1 \<and> \<not> nonblank (ls ! l))"
    using drop_separators_nth [OF B(1)] by (simp_all add: drp_def)
  have sep: "\<forall>l < length ls. \<exists>sep. drp ! l = (gone drs (sec_at ls l) (ls ! l) \<or> sep) \<and> (sep \<longrightarrow> \<not> nonblank (ls ! l))"
  proof (intro allI impI)
    fix l assume l: "l < length ls"
    let ?s = "Suc l < length ls \<and> drp0 ! Suc l \<and> kind_of (ls ! Suc l) = 1 \<and> \<not> nonblank (ls ! l)"
    show "\<exists>sep. drp ! l = (gone drs (sec_at ls l) (ls ! l) \<or> sep) \<and> (sep \<longrightarrow> \<not> nonblank (ls ! l))"
      using D(2) B(2) l g by (intro exI [of _ ?s]) simp
  qed
  have gd: "\<forall>l < length ls. gone drs (sec_at ls l) (ls ! l) \<longrightarrow> drp ! l" using sep by blast
  \<comment> \<open>the globals at the top\<close>
  have settle: "settle drs = map (\<lambda>d. d\<lparr>dr_done := \<not> live d \<and> replace_line d = None\<rparr>) drs"
    using b by (auto simp: settle_def live_def split: option.splits)
  let ?tops = "map ref_line (first_lines drs)"
  have "put_entries (\<lambda>d. dr_sec d = [] \<and> replace_line d = None \<and> append_line d = None) (settle drs, [])
      = (map (\<lambda>d. d\<lparr>dr_done := (\<not> live d \<and> replace_line d = None)
            \<or> (live d \<and> dr_sec d = [] \<and> replace_line d = None \<and> append_line d = None)\<rparr>) drs,
         [] @ join_lines (map ref_line (filter (\<lambda>d. live d \<and> dr_sec d = [] \<and> replace_line d = None \<and> append_line d = None) drs)))"
    unfolding settle by (rule put_entries_marked) (auto simp: live_def split: option.splits)
  moreover have "((\<not> live d \<and> replace_line d = None)
            \<or> (live d \<and> dr_sec d = [] \<and> replace_line d = None \<and> append_line d = None)) = done_at 0 d" for d
    by (auto simp: done_at_def split: option.splits)
  ultimately have tops: "put_entries (\<lambda>d. dr_sec d = [] \<and> replace_line d = None \<and> append_line d = None) (settle drs, [])
      = (stage 0 drs, join_lines (?tops @ out_lines drs ls drp 0))"
    by (simp add: stage_def first_lines_def)
  \<comment> \<open>the lines\<close>
  have rep: "matches d (sec_at ls l) (ls ! l) \<and> l < length ls" if "d \<in> set drs" "replace_line d = Some l" for d l
    using bb bound_replace that by blast
  have uniq: "\<forall>x \<in> set xs \<union> set ys. replace_line x \<noteq> Some l" if "drs = xs @ d # ys" "replace_line d = Some l" for xs d ys l
  proof (intro ballI notI)
    fix x assume x: "x \<in> set xs \<union> set ys" "replace_line x = Some l"
    have m: "matches x (sec_at ls l) (ls ! l)" "matches d (sec_at ls l) (ls ! l)"
      using rep [of x l] rep [of d l] that x by auto
    then have "slot x = slot d" using matches_kind [OF m(1)] matches_kind [OF m(2)]
      by (auto simp: slot_def matches_def refers_def split: option.splits)
    moreover have "distinct (map slot (xs @ d # ys))" using ok that(1) by (simp add: refs_ok_def)
    ultimately show False using x(1) by (auto simp flip: \<open>slot x = slot d\<close>)
  qed
  have hdr: "drp ! l" if "d \<in> set drs" "dr_ent d = None" "replace_line d = Some l" for d l
  proof -
    have "matches d (sec_at ls l) (ls ! l)" "l < length ls" using rep that by simp_all
    then have "leaving drs (sec_at ls l)" "kind_of (ls ! l) = 1" "cstr (ls ! l)"
      using that cs by (auto simp: leaving_def matches_def)
    then have "gone drs (sec_at ls l) (ls ! l)" using header_nonblank by (simp add: gone_def)
    then show ?thesis using gd \<open>l < length ls\<close> by blast
  qed
  have lines: "put_lines 0 ls drp (stage 0 drs, join_lines (?tops @ out_lines drs ls drp 0))
      = (stage n drs, join_lines (?tops @ out_lines drs ls drp n))"
    using put_lines_stage [of drs drp ls 0 ?tops, OF uniq hdr D(1)] by (simp add: n_def)
  \<comment> \<open>the new sections\<close>
  have sst: "list_all2 (\<lambda>a b. dr_sec b = dr_sec a \<and> dr_ent b = dr_ent a) drs (stage n drs)"
    by (simp add: stage_def list_all2_map2 list_all2_same)
  have oks: "refs_ok (stage n drs)" using refs_ok_cong(1) [OF sst] ok by simp
  have todo: "d \<in> set (stage n drs) \<and> live d \<and> \<not> sec_in_file d \<and> dr_sec d \<noteq> []"
    if d: "d \<in> set (stage n drs)" "undone d" for d
  proof -
    obtain d0 where d0: "d0 \<in> set drs" "d = d0\<lparr>dr_done := done_at n d0\<rparr>" using d(1) by (auto simp: stage_def)
    have nd: "\<not> done_at n d0" "dr_ent d0 \<noteq> None" using d(2) d0(2) by (simp_all add: undone_def)
    have bd: "bound ls d0 d0" using bb d0(1) by blast
    have r: "replace_line d0 = None" using nd(1) bound_replace [OF bd] by (auto simp: done_at_def n_def split: option.splits)
    then have a: "live d0" "append_line d0 = None" "dr_sec d0 \<noteq> []"
      using nd(1) bd by (auto simp: done_at_def n_def bound_def last_line_def split: option.splits)
    have "\<not> sec_in_file d0"
    proof
      assume "sec_in_file d0"
      then obtain l where l: "l < length ls" "refers d0 (sec_at ls l)" "kind_of (ls ! l) = 1"
        using bd by (auto simp: bound_def)
      then have "anchors d0 (sec_at ls l) (ls ! l)" using header_nonblank cs by (simp add: anchors_def)
      then show False using bd a(2) l(1) by (auto simp: bound_def last_line_def)
    qed
    then show ?thesis using a d(1) d0(2) by (simp add: live_def)
  qed
  obtain new where new: "put_sections (stage n drs) (join_lines (?tops @ out_lines drs ls drp n))
      = join_lines ((?tops @ out_lines drs ls drp n) @ new)" "\<forall>l \<in> set new. clean l"
    "\<And>c m p d. d \<in> set (stage n drs) \<Longrightarrow> undone d \<Longrightarrow> covers d p \<Longrightarrow> snd (sem (c, m) new) p = Some (ref_val d)"
    "\<And>c m p. \<forall>d \<in> set (stage n drs). undone d \<longrightarrow> \<not> covers d p \<Longrightarrow> snd (sem (c, m) new) p = m p"
  proof -
    have "\<exists>new. put_sections (stage n drs) (join_lines (?tops @ out_lines drs ls drp n))
        = join_lines ((?tops @ out_lines drs ls drp n) @ new) \<and> (\<forall>l \<in> set new. clean l)
      \<and> (\<forall>c m p. (\<forall>d \<in> set (stage n drs). undone d \<and> covers d p \<longrightarrow> snd (sem (c, m) new) p = Some (ref_val d))
         \<and> ((\<forall>d \<in> set (stage n drs). undone d \<longrightarrow> \<not> covers d p) \<longrightarrow> snd (sem (c, m) new) p = m p))"
      by (rule put_sections_lines [OF oks]) (rule todo)
    then show thesis by (elim exE conjE) (rule that; blast)
  qed
  let ?out = "(?tops @ out_lines drs ls drp n) @ new"
  have outp: "config_write_surgical f drs0 = join_lines ?out"
    unfolding config_write_surgical_def ls_def [symmetric] bl Let_def prod.case tops drp_def [symmetric] lines
    by (rule new(1))
  have cleans: "\<forall>l \<in> set ?out. clean l"
    using clean_out_lines [OF ok bb cl gd, of n] new(2) by (auto simp: n_def)
  then have spl: "split_lines (config_write_surgical f drs0) = ?out"
    unfolding outp by (intro split_join_lines) (auto simp: clean_def)
  have cst: "cstr (config_write_surgical f drs0)"
    using cleans unfolding outp join_lines_def by (auto simp: clean_def cstr_def)
  \<comment> \<open>the map\<close>
  obtain c' m' where st: "sem ([], \<lambda>_. None) (?tops @ out_lines drs ls drp n) = (c', m')"
    by (cases "sem ([], \<lambda>_. None) (?tops @ out_lines drs ls drp n)")
  have F: "follows drs (done_at n) (file_map ls) m'"
    using out_lines_follow [OF ok bb cs sep, of n] st by (simp add: n_def file_map_sem)
  have fm: "file_map (split_lines (config_write_surgical f drs0)) p = snd (sem (c', m') new) p"
    unfolding spl file_map_sem st [unfolded foldl_append] foldl_append by (rule refl)
  have cov: "covers (d\<lparr>dr_done := x\<rparr>) p = covers d p" "ref_val (d\<lparr>dr_done := x\<rparr>) = ref_val d"
    "live (d\<lparr>dr_done := x\<rparr>) = live d" for d x by (simp_all add: covers_def ref_val_def live_def split: option.split)
  have "snd (sem (c', m') new) p = asked drs (file_map ls) p"
  proof (cases "find (\<lambda>d. covers d p) drs")
    case None
    then have n0: "\<forall>d \<in> set drs. \<not> covers d p" unfolding find_None_iff by blast
    then have "snd (sem (c', m') new) p = m' p" by (intro new(4)) (auto simp: stage_def cov)
    then show ?thesis
      using None follows_D(1) [OF F, of p] follows_D(4) [OF F, of p] n0 by (auto simp: asked_def)
  next
    case (Some d)
    then have d: "d \<in> set drs" "covers d p" by (auto simp: find_Some_iff)
    let ?d = "d\<lparr>dr_done := done_at n d\<rparr>"
    have ds: "?d \<in> set (stage n drs)" using d(1) by (simp add: stage_def)
    have ne: "dr_ent d \<noteq> None" using d(2) by (auto simp: covers_def split: option.splits)
    show ?thesis
    proof (cases "undone ?d")
      case True
      have "live d" using todo [OF ds True] by (simp add: cov)
      moreover have "\<not> leaves drs (fst p)"
        using ok d calculation by (auto simp: refs_ok_def covers_def split: option.splits)
      moreover have "snd (sem (c', m') new) p = Some (ref_val d)"
        using new(3) [OF ds True] d(2) by (simp add: cov)
      ultimately show ?thesis using Some by (simp add: asked_def)
    next
      case False
      then have dn: "done_at n d" using ne by (simp add: undone_def)
      have "\<not> covers x p" if "x \<in> set (stage n drs)" "undone x" for x
      proof
        assume "covers x p"
        then have "x = ?d" using covers_unique [OF oks that(1) ds] d(2) by (simp add: cov)
        then show False using that(2) False by simp
      qed
      then have "snd (sem (c', m') new) p = m' p" by (intro new(4)) blast
      then show ?thesis
        using Some follows_D(1) [OF F, of p] follows_D(2) [OF F d(1,2)] follows_D(3) [OF F d(1,2)] dn ok d
        by (auto simp: asked_def refs_ok_def covers_def split: option.splits)
    qed
  qed
  then show ?thesis using cst fm asked_cong [OF same] by (simp add: ls_def)
qed

section \<open>Saving a configuration\<close>

text \<open>What a configuration asks of the map of its file: its dirty entries override it, its removed sections leave it.\<close>

definition dirty_map :: "rss_config_t \<Rightarrow> config_map \<Rightarrow> config_map" where
  "dirty_map cfg m p =
     (case find (\<lambda>s. fold_name (sec_name s) = fst p) cfg of None \<Rightarrow> m p
      | Some s \<Rightarrow>
        if sec_removed s \<and> sec_dirty s then None
        else case find (\<lambda>e. dirty e \<and> fold_name (key e) = snd p) (entries s) of None \<Rightarrow> m p
             | Some e \<Rightarrow> if removed e then None else Some (val e))"

text \<open>Entries the file format can hold: its values are not quoted.\<close>

definition savable :: "rss_config_t \<Rightarrow> bool" where
  "savable cfg \<longleftrightarrow> (\<forall>s \<in> set cfg. \<forall>e \<in> set (entries s). dirty e \<and> \<not> removed e \<longrightarrow>
     \<not> defaulted e \<and> writable e \<and> (sec_name s = [] \<or> name_ok (sec_name s)))"

lemma find_unique: "d \<in> set xs \<Longrightarrow> P d \<Longrightarrow> (\<And>x. x \<in> set xs \<Longrightarrow> P x \<Longrightarrow> x = d) \<Longrightarrow> find P xs = Some d"
proof (induction xs)
  case (Cons a xs)
  show ?case
  proof (cases "P a")
    case True
    then have "a = d" using Cons.prems(3) [of a] by simp
    then show ?thesis using Cons.prems(2) by simp
  next
    case False
    then have "d \<in> set xs" using Cons.prems(1,2) by auto
    then have "find P xs = Some d" by (rule Cons.IH [OF _ Cons.prems(2)]) (rule Cons.prems(3), simp_all)
    then show ?thesis using False by simp
  qed
qed simp

lemma in_set_map_concat: "x \<in> set (map f (concat (map g xs))) \<Longrightarrow> \<exists>s \<in> set xs. x \<in> set (map f (g s))"
  unfolding set_map set_concat by blast

lemma in_collect_dirty:
  "d \<in> set (collect_dirty cfg) \<longleftrightarrow> (\<exists>s \<in> set cfg. (sec_removed s \<and> sec_dirty s \<and> d = dirty_ref (sec_name s) None)
     \<or> (\<exists>e \<in> set (entries s). dirty e \<and> d = dirty_ref (sec_name s) (Some e)))"
proof -
  have "d \<in> set ((if sec_removed s \<and> sec_dirty s then [dirty_ref (sec_name s) None] else [])
        @ map (\<lambda>e. dirty_ref (sec_name s) (Some e)) (filter dirty (entries s)))
    \<longleftrightarrow> (sec_removed s \<and> sec_dirty s \<and> d = dirty_ref (sec_name s) None)
      \<or> (\<exists>e \<in> set (entries s). dirty e \<and> d = dirty_ref (sec_name s) (Some e))" for s
    by (cases "sec_removed s \<and> sec_dirty s") (simp_all add: image_iff Bex_def conj_assoc, blast+)
  note one = this
  show ?thesis
    unfolding collect_dirty_def set_rev set_concat set_map UN_iff Union_iff bex_simps
    by (rule bex_cong [OF refl]) (rule one)
qed

lemma dirty_ref_fields [simp]: "dr_sec (dirty_ref s e) = s" "dr_ent (dirty_ref s e) = e"
  "slot (dirty_ref s e) = (fold_name s, map_option (\<lambda>e. fold_name (key e)) e)" "fresh (dirty_ref s e)"
  by (simp_all add: dirty_ref_def slot_def fresh_def)

lemma leaves_collect:
  "leaves (collect_dirty cfg) fs \<longleftrightarrow> (\<exists>s \<in> set cfg. sec_removed s \<and> sec_dirty s \<and> fold_name (sec_name s) = fs)"
proof
  assume "leaves (collect_dirty cfg) fs"
  then obtain d where d: "d \<in> set (collect_dirty cfg)" "dr_ent d = None" "fold_name (dr_sec d) = fs"
    unfolding leaves_def by blast
  then show "\<exists>s \<in> set cfg. sec_removed s \<and> sec_dirty s \<and> fold_name (sec_name s) = fs"
    unfolding in_collect_dirty by auto
next
  assume "\<exists>s \<in> set cfg. sec_removed s \<and> sec_dirty s \<and> fold_name (sec_name s) = fs"
  then obtain s where s: "s \<in> set cfg" "sec_removed s" "sec_dirty s" "fold_name (sec_name s) = fs" by blast
  then have "dirty_ref (sec_name s) None \<in> set (collect_dirty cfg)" unfolding in_collect_dirty by blast
  then show "leaves (collect_dirty cfg) fs" unfolding leaves_def using s(4) by (metis dirty_ref_fields(1,2))
qed

lemma distinct_collect:
  assumes "cfg_ok cfg"
  shows "distinct (map slot (collect_dirty cfg))"
proof -
  let ?g = "\<lambda>s. (if sec_removed s \<and> sec_dirty s then [dirty_ref (sec_name s) None] else [])
      @ map (\<lambda>e. dirty_ref (sec_name s) (Some e)) (filter dirty (entries s))"
  have first: "fst x = fold_name (sec_name s)" if "x \<in> set (map slot (?g s))" for x s
    using that by (auto split: if_splits)
  have one: "distinct (map slot (?g s))" if "section_ok s" for s
  proof -
    have "distinct (map (\<lambda>e. fold_name (key e)) (filter dirty (entries s)))"
      using that by (simp add: section_ok_def entries_ok_def distinct_map_filter)
    then show ?thesis by (auto simp: distinct_map inj_on_def comp_def)
  qed
  have "distinct (map slot (concat (map ?g cfg)))"
    using assms
  proof (induction cfg)
    case (Cons s cfg)
    have IH: "distinct (map slot (concat (map ?g cfg)))"
      using Cons by (simp add: cfg_ok_def)
    have "fst x \<noteq> fold_name (sec_name s)" if x: "x \<in> set (map slot (concat (map ?g cfg)))" for x
    proof -
      obtain s' where s': "s' \<in> set cfg" "x \<in> set (map slot (?g s'))"
        using in_set_map_concat [OF x] by blast
      have "fold_name (sec_name s) \<notin> (\<lambda>s. fold_name (sec_name s)) ` set cfg"
        using Cons.prems by (simp add: cfg_ok_def)
      then have "fold_name (sec_name s') \<noteq> fold_name (sec_name s)" using s'(1) by (metis image_eqI)
      then show ?thesis using first [OF s'(2)] by simp
    qed
    then have "set (map slot (?g s)) \<inter> set (map slot (concat (map ?g cfg))) = {}"
      using first by blast
    moreover have "distinct (map slot (?g s))" using one Cons.prems by (simp add: cfg_ok_def)
    ultimately show ?case using IH unfolding list.map concat.simps map_append distinct_append by blast
  qed simp
  then show ?thesis by (simp add: collect_dirty_def rev_map [symmetric])
qed

lemma same_section:
  "cfg_ok cfg \<Longrightarrow> s \<in> set cfg \<Longrightarrow> s' \<in> set cfg \<Longrightarrow> fold_name (sec_name s) = fold_name (sec_name s') \<Longrightarrow> s = s'"
  by (auto simp: cfg_ok_def distinct_map inj_on_def)

lemma refs_ok_collect:
  assumes "cfg_ok cfg" and "savable cfg" and "\<forall>s \<in> set cfg. sec_removed s \<longrightarrow> sec_name s \<noteq> []"
  shows "refs_ok (collect_dirty cfg)"
  unfolding refs_ok_def
proof (intro conjI ballI impI)
  show "distinct (map slot (collect_dirty cfg))" by (rule distinct_collect [OF assms(1)])
next
  fix d assume "d \<in> set (collect_dirty cfg)" "dr_ent d = None"
  then obtain s where "s \<in> set cfg" "sec_removed s" "d = dirty_ref (sec_name s) None"
    by (auto simp: in_collect_dirty)
  then show "fold_name (dr_sec d) \<noteq> []"
    using assms(1,3) by (auto simp: fold_name_def cfg_ok_def section_ok_def)
next
  fix d assume "d \<in> set (collect_dirty cfg)" "live d"
  then obtain s e where s: "s \<in> set cfg" "e \<in> set (entries s)" "dirty e" "d = dirty_ref (sec_name s) (Some e)" "\<not> removed e"
    by (auto simp: in_collect_dirty live_def)
  then have e: "\<not> defaulted e" "writable e" "sec_name s = [] \<or> name_ok (sec_name s)"
    using assms(2) by (auto simp: savable_def)
  have sec: "section_ok s" using assms(1) s(1) by (simp add: cfg_ok_def)
  show "writable (the (dr_ent d))" "dr_sec d = [] \<or> name_ok (dr_sec d)" "cstr (dr_sec d)" "length (dr_sec d) < 64"
    using e s(4) sec by (simp_all add: section_ok_def)
  show "\<not> leaves (collect_dirty cfg) (fold_name (dr_sec d))"
  proof
    assume "leaves (collect_dirty cfg) (fold_name (dr_sec d))"
    then obtain s' where "s' \<in> set cfg" "sec_removed s'" "fold_name (sec_name s') = fold_name (sec_name s)"
      using s(4) by (auto simp: leaves_collect)
    then have "sec_removed s" using same_section [OF assms(1) s(1)] by metis
    then have "\<not> visible e" using sec s(2) by (simp add: section_ok_def)
    then show False using e(1) s(5) by (simp add: visible_def)
  qed
qed

lemma asked_collect:
  assumes "cfg_ok cfg"
  shows "asked (collect_dirty cfg) m p = dirty_map cfg m p"
proof (cases "find (\<lambda>s. fold_name (sec_name s) = fst p) cfg")
  case None
  then have n: "\<forall>s \<in> set cfg. fold_name (sec_name s) \<noteq> fst p" unfolding find_None_iff by blast
  then have "find (\<lambda>d. covers d p) (collect_dirty cfg) = None"
    unfolding find_None_iff by (auto simp: in_collect_dirty covers_slot)
  moreover have "\<not> leaves (collect_dirty cfg) (fst p)" using n by (simp add: leaves_collect)
  ultimately show ?thesis using None by (simp add: asked_def dirty_map_def)
next
  case (Some s)
  then have s: "s \<in> set cfg" "fold_name (sec_name s) = fst p" by (auto simp: find_Some_iff)
  have only: "s' = s" if "s' \<in> set cfg" "fold_name (sec_name s') = fst p" for s'
    using same_section [OF assms that(1) s(1)] that(2) s(2) by simp
  have lv: "leaves (collect_dirty cfg) (fst p) \<longleftrightarrow> sec_removed s \<and> sec_dirty s"
    unfolding leaves_collect using s only by metis
  have in_s: "\<exists>e \<in> set (entries s). dirty e \<and> fold_name (key e) = snd p \<and> d = dirty_ref (sec_name s) (Some e)"
    if d: "d \<in> set (collect_dirty cfg)" "covers d p" for d
  proof -
    obtain s' where s': "s' \<in> set cfg" "(sec_removed s' \<and> sec_dirty s' \<and> d = dirty_ref (sec_name s') None)
        \<or> (\<exists>e \<in> set (entries s'). dirty e \<and> d = dirty_ref (sec_name s') (Some e))"
      using d(1) unfolding in_collect_dirty by blast
    moreover have "d \<noteq> dirty_ref (sec_name s') None" using d(2) by (auto simp: covers_slot)
    ultimately obtain e where e: "e \<in> set (entries s')" "dirty e" "d = dirty_ref (sec_name s') (Some e)" by blast
    then have "fold_name (sec_name s') = fst p" "fold_name (key e) = snd p" using d(2) by (simp_all add: covers_slot)
    then show ?thesis using e only [OF s'(1)] by blast
  qed
  show ?thesis
  proof (cases "find (\<lambda>e. dirty e \<and> fold_name (key e) = snd p) (entries s)")
    case None
    then have "find (\<lambda>d. covers d p) (collect_dirty cfg) = None"
      unfolding find_None_iff using in_s by blast
    then show ?thesis using Some None lv by (simp add: asked_def dirty_map_def)
  next
    case e: (Some e)
    then have ee: "e \<in> set (entries s)" "dirty e" "fold_name (key e) = snd p" by (auto simp: find_Some_iff)
    have "entries_ok (entries s)" using assms s(1) by (simp add: cfg_ok_def section_ok_def)
    then have only_e: "x = e" if "x \<in> set (entries s)" "fold_name (key x) = snd p" for x
      using that ee by (auto simp: entries_ok_def distinct_map inj_on_def)
    have "find (\<lambda>d. covers d p) (collect_dirty cfg) = Some (dirty_ref (sec_name s) (Some e))"
    proof (intro find_unique)
      show "dirty_ref (sec_name s) (Some e) \<in> set (collect_dirty cfg)"
        unfolding in_collect_dirty using ee s(1) by blast
      show "covers (dirty_ref (sec_name s) (Some e)) p" using ee(3) s(2) by (simp add: covers_slot)
      fix d assume "d \<in> set (collect_dirty cfg)" "covers d p"
      from in_s [OF this] show "d = dirty_ref (sec_name s) (Some e)" using only_e by blast
    qed
    then show ?thesis using Some e lv by (simp add: asked_def dirty_map_def live_def ref_val_def)
  qed
qed

lemma save_edits:
  assumes "cfg_ok cfg" and "savable cfg" and "\<forall>s \<in> set cfg. sec_removed s \<longrightarrow> sec_name s \<noteq> []" and "cstr f"
  shows "case rss_config_save (Some cfg) (Some f) True True of (ret, written, cfg') \<Rightarrow>
    ret = 0 \<and> cfg' = (if rss_config_has_dirty (Some cfg) then Some (clear_dirty cfg) else Some cfg)
    \<and> (case written of None \<Rightarrow> \<not> rss_config_has_dirty (Some cfg) | Some f' \<Rightarrow> cstr f' \<and> rss_config_has_dirty (Some cfg))
    \<and> file_map (split_lines (case written of None \<Rightarrow> f | Some f' \<Rightarrow> f')) = dirty_map cfg (file_map (split_lines f))"
proof -
  have hd: "rss_config_has_dirty (Some cfg) \<longleftrightarrow> collect_dirty cfg \<noteq> []"
  proof -
    have "collect_dirty cfg \<noteq> [] \<longleftrightarrow> (\<exists>d. d \<in> set (collect_dirty cfg))" by (cases "collect_dirty cfg") auto
    also have "\<dots> \<longleftrightarrow> (\<exists>s \<in> set cfg. (sec_removed s \<and> sec_dirty s) \<or> (\<exists>e \<in> set (entries s). dirty e))"
      unfolding in_collect_dirty by blast
    finally show ?thesis by (simp add: rss_config_has_dirty_def list_ex_iff)
  qed
  have "\<forall>d \<in> set (collect_dirty cfg). fresh d" by (auto simp: in_collect_dirty)
  note map = surgical_map [OF assms(4) refs_ok_collect [OF assms(1-3)] this]
  show ?thesis
  proof (cases "collect_dirty cfg = []")
    case True
    have "dirty_map cfg m p = m p" for m p
      using asked_collect [OF assms(1), of m p] unfolding True by (simp add: asked_def leaves_def)
    then show ?thesis using True hd by (auto simp: rss_config_save_def)
  next
    case False
    have "file_map (split_lines (config_write_surgical f (collect_dirty cfg))) p = dirty_map cfg (file_map (split_lines f)) p" for p
      using map asked_collect [OF assms(1)] by simp
    then show ?thesis using False hd map by (auto simp: rss_config_save_def)
  qed
qed

text \<open>C18. A save edits exactly what the configuration changed: whatever else the file holds, loading the text
  it leaves gives the old file overridden by the dirty entries, without the keys that were unset
  and without the sections that were removed.  A save with nothing dirty leaves the file alone.\<close>

lemma config_save_edits:
  assumes "cfg_ok cfg" and "savable cfg" and "\<forall>s \<in> set cfg. sec_removed s \<longrightarrow> sec_name s \<noteq> []" and "cstr f"
  shows "case rss_config_save (Some cfg) (Some f) True True of (ret, written, cfg') \<Rightarrow>
    ret = 0 \<and> cfg' = (if rss_config_has_dirty (Some cfg) then Some (clear_dirty cfg) else Some cfg)
    \<and> (case written of None \<Rightarrow> \<not> rss_config_has_dirty (Some cfg) | Some f' \<Rightarrow> cstr f' \<and> rss_config_has_dirty (Some cfg))
    \<and> file_map (split_lines (case written of None \<Rightarrow> f | Some f' \<Rightarrow> f')) = dirty_map cfg (file_map (split_lines f))"
  using assms by (rule save_edits)

lemma config_save_edits_witness:
  "case rss_config_save
      (Some [\<lparr>sec_name = ''osd'', sec_removed = False, sec_dirty = False, entries =
               [\<lparr>key = ''Size'', val = ''20'', dirty = True, defaulted = False, removed = False\<rparr>,
                \<lparr>key = ''pos'', val = ''1'', dirty = True, defaulted = False, removed = True\<rparr>,
                \<lparr>key = ''font'', val = ''mono'', dirty = True, defaulted = False, removed = False\<rparr>]\<rparr>,
             \<lparr>sec_name = ''old'', sec_removed = True, sec_dirty = True, entries = []\<rparr>])
      (Some (join_lines [''# overlay'', ''[osd]'', ''  size = 10  # px'', ''pos = 1'', [], ''[old]'', ''a = 1'', ''b'', ''[rtsp]'', ''port = 554'']))
      True True of
     (ret, written, cfg') \<Rightarrow> ret = 0 \<and> written \<noteq> None
       \<and> file_map (split_lines (the written)) (''osd'', ''size'') = Some ''20''
       \<and> file_map (split_lines (the written)) (''osd'', ''pos'') = None
       \<and> file_map (split_lines (the written)) (''old'', ''a'') = None
       \<and> file_map (split_lines (the written)) (''rtsp'', ''port'') = Some ''554''"
  (is "case rss_config_save (Some ?cfg) (Some (join_lines ?ls)) True True of (ret, written, cfg') \<Rightarrow> ?P ret written")
proof -
  have f: "cstr (join_lines ?ls)" by code_simp
  have ls: "split_lines (join_lines ?ls) = ?ls" by (rule split_join_lines) simp
  have cfg: "cfg_ok ?cfg" "savable ?cfg" "\<forall>s \<in> set ?cfg. sec_removed s \<longrightarrow> sec_name s \<noteq> []" by code_simp+
  have d: "rss_config_has_dirty (Some ?cfg)" by code_simp
  have m: "dirty_map ?cfg (file_map ?ls) (''osd'', ''size'') = Some ''20''"
    "dirty_map ?cfg (file_map ?ls) (''osd'', ''pos'') = None" "dirty_map ?cfg (file_map ?ls) (''old'', ''a'') = None"
    "dirty_map ?cfg (file_map ?ls) (''rtsp'', ''port'') = Some ''554''" by code_simp+
  show ?thesis
    using config_save_edits [OF cfg f] d m unfolding ls
    by (auto split: prod.splits option.splits simp del: join_lines_simps)
qed

end
