(* ===== verification/Rss_Config_Life.thy ===== *)
theory Rss_Config_Life
  imports Rss_Config_Reload
begin

text \<open>
  A configuration from load to save: the operations of \<^theory_text>\<open>Rss_Config\<close>, the loader of
  \<^theory_text>\<open>Rss_Config_Load\<close> and the editor of \<^theory_text>\<open>Rss_Config_Save\<close> together.  The invariant
  \<open>tracked\<close> says that an entry without changes says what the file says; every operation and
  every save keeps it, so memory and file follow the same abstract map.
\<close>

section \<open>Names and values the file can hold\<close>

definition text_key :: "string \<Rightarrow> bool" where
  "text_key k \<longleftrightarrow> cstr k \<and> length k < 64 \<and> LF \<notin> set k \<and> key_ok k"

definition text_val :: "string \<Rightarrow> bool" where
  "text_val v \<longleftrightarrow> cstr v \<and> length v < 256 \<and> LF \<notin> set v \<and> comment_free v \<and> v \<noteq> []"

definition text_name :: "string \<Rightarrow> bool" where
  "text_name n \<longleftrightarrow> cstr n \<and> length n < 64 \<and> (n = [] \<or> name_ok n)"

lemma text_keyD: "text_key k \<Longrightarrow> c_str k = k" "text_key k \<Longrightarrow> field 64 k = k" "text_key k \<Longrightarrow> length k < 64"
  by (simp_all add: text_key_def field_short)

section \<open>The configuration tracks its file\<close>

text \<open>
  An entry without changes says what the file says: its value when it is visible, nothing when it is not.
\<close>

definition sane_entry :: "config_map \<Rightarrow> string \<Rightarrow> rss_config_entry_t \<Rightarrow> bool" where
  "sane_entry m fs e \<longleftrightarrow> text_key (key e) \<and> (dirty e \<and> \<not> removed e \<longrightarrow> visible e \<and> text_val (val e))
     \<and> (\<not> dirty e \<longrightarrow> m (fs, fold_name (key e)) = (if visible e then Some (val e) else None))"

definition sane_sec :: "config_map \<Rightarrow> rss_config_section_t \<Rightarrow> bool" where
  "sane_sec m s \<longleftrightarrow> text_name (sec_name s) \<and> (sec_removed s \<longrightarrow> sec_name s \<noteq> [])
     \<and> (\<forall>e \<in> set (entries s). sane_entry m (fold_name (sec_name s)) e)"

definition has :: "rss_config_t \<Rightarrow> string \<Rightarrow> string \<Rightarrow> bool" where
  "has cfg s k \<longleftrightarrow> (\<exists>x \<in> set cfg. fold_name (sec_name x) = fold_name s \<and> (\<exists>e \<in> set (entries x). fold_name (key e) = fold_name k))"

definition tracked :: "rss_config_t \<Rightarrow> config_map \<Rightarrow> bool" where
  "tracked cfg m \<longleftrightarrow> cfg_ok cfg \<and> (\<forall>s \<in> set cfg. sane_sec m s) \<and> (\<forall>s k. m (fold_name s, fold_name k) \<noteq> None \<longrightarrow> has cfg s k)"

text \<open>Adding an entry to a section keeps the section sane when the entry it touches stays sane.\<close>

lemma sane_add_entry:
  assumes "\<forall>e \<in> set es. sane_entry m fs e" and "text_key k"
    and "\<And>e. e \<in> set es \<Longrightarrow> fold_name (key e) = fold_name k \<Longrightarrow> sane_entry m fs (set_entry v drty dflt e)"
    and "\<forall>e \<in> set es. fold_name (key e) \<noteq> fold_name k \<Longrightarrow>
      sane_entry m fs \<lparr>key = k, val = field 256 v, dirty = drty, defaulted = dflt, removed = False\<rparr>"
  shows "\<forall>e \<in> set (add_entry_ex k v drty dflt es). sane_entry m fs e"
proof (rule add_entry_ex_cases [of es k v drty dflt])
  fix xs e ys
  assume x: "es = xs @ e # ys" "fold_name (key e) = fold_name k"
    "add_entry_ex k v drty dflt es = xs @ set_entry v drty dflt e # ys"
  show ?thesis using assms(1) assms(3) [of e] x by auto
next
  assume x: "\<forall>x \<in> set es. fold_name (key x) \<noteq> fold_name k"
    "add_entry_ex k v drty dflt es = \<lparr>key = field 64 k, val = field 256 v, dirty = drty, defaulted = dflt, removed = False\<rparr> # es"
  show ?thesis using assms(1) assms(4) [OF x(1)] text_keyD [OF assms(2)] x(2) by simp
qed

lemma keys_add_entry:
  "fold_name k' \<in> (\<lambda>e. fold_name (key e)) ` set es \<Longrightarrow> fold_name k' \<in> (\<lambda>e. fold_name (key e)) ` set (add_entry_ex k v drty dflt es)"
  by (rule add_entry_ex_cases [of es k v drty dflt]) auto

lemma key_added:
  "text_key k \<Longrightarrow> fold_name k \<in> (\<lambda>e. fold_name (key e)) ` set (add_entry_ex k v drty dflt es)"
  by (rule add_entry_ex_cases [of es k v drty dflt]) (auto simp: image_iff text_keyD intro: sym)

lemma has_iff: "has cfg s k \<longleftrightarrow> (\<exists>x \<in> set cfg. fold_name (sec_name x) = fold_name s \<and> fold_name k \<in> (\<lambda>e. fold_name (key e)) ` set (entries x))"
  by (auto simp: has_def image_iff) (metis+)

text \<open>One lemma for all that add: a set, a default, a line of the file.\<close>

lemma in_section_sane:
  assumes secs: "\<forall>s \<in> set cfg. sane_sec m s" and name: "text_name name"
    and f: "\<And>s. s \<in> set cfg \<Longrightarrow> fold_name (sec_name s) = fold_name name \<Longrightarrow> sane_sec m s \<Longrightarrow> sane_sec m (f s)"
      "\<And>s. sec_name (f s) = sec_name s"
      "\<And>s k. fold_name k \<in> (\<lambda>e. fold_name (key e)) ` set (entries s) \<Longrightarrow> fold_name k \<in> (\<lambda>e. fold_name (key e)) ` set (entries (f s))"
    and new: "\<forall>s \<in> set cfg. fold_name (sec_name s) \<noteq> fold_name name \<Longrightarrow>
      sane_sec m (f \<lparr>sec_name = name, sec_removed = False, sec_dirty = False, entries = []\<rparr>)"
  shows "(\<forall>s \<in> set (in_section f name cfg). sane_sec m s) \<and> (\<forall>s k. has cfg s k \<longrightarrow> has (in_section f name cfg) s k)"
proof -
  have n: "length (c_str name) < 64" "field 64 name = name"
    using name by (simp_all add: text_name_def field_short)
  show ?thesis
  proof (rule in_section_cases [OF n(1), of cfg f])
    fix xs s ys
    assume x: "cfg = xs @ s # ys" "fold_name (sec_name s) = fold_name name" "in_section f name cfg = xs @ f s # ys"
    then show ?thesis
      using secs f(1) [of s] f(2,3) by (auto simp: has_iff)
  next
    assume x: "\<forall>x \<in> set cfg. fold_name (sec_name x) \<noteq> fold_name name"
      "in_section f name cfg = f \<lparr>sec_name = field 64 name, sec_removed = False, sec_dirty = False, entries = []\<rparr> # cfg"
    then show ?thesis using secs new [OF x(1)] n(2) by (auto simp: has_def)
  qed
qed

lemma tracked_set:
  assumes "tracked cfg m" and "text_name s" and "text_key k" and "text_val v" and "s \<noteq> []"
  shows "tracked (config_step cfg (SetStr s k v)) m"
proof -
  let ?f = "\<lambda>x. x\<lparr>sec_removed := False, sec_dirty := False, entries := add_entry_ex k v True False (entries x)\<rparr>"
  have n: "c_str s = s" "length s < 64" using assms(2) by (simp_all add: text_name_def)
  have step: "config_step cfg (SetStr s k v) = in_section ?f s cfg"
    using assms(5) n(1) by (simp add: rss_config_set_str_def)
  have v: "field 256 v = v" using assms(4) by (simp add: text_val_def field_short)
  have add: "\<forall>e \<in> set (add_entry_ex k v True False es). sane_entry m fs e" if "\<forall>e \<in> set es. sane_entry m fs e" for es fs
    using that assms(3,4) by (intro sane_add_entry) (auto simp: sane_entry_def set_entry_def visible_def v)
  have "cfg_ok (config_step cfg (SetStr s k v))"
    using step_set [of cfg s k v] assms(1) n text_keyD [OF assms(3)] by (simp add: tracked_def del: config_step.simps)
  moreover have "(\<forall>x \<in> set (in_section ?f s cfg). sane_sec m x) \<and> (\<forall>s' k. has cfg s' k \<longrightarrow> has (in_section ?f s cfg) s' k)"
    using assms(1,2) by (intro in_section_sane) (auto simp: tracked_def sane_sec_def keys_add_entry intro!: add)
  ultimately show ?thesis
    using assms(1) unfolding step by (simp add: tracked_def)
qed

lemma tracked_default:
  assumes "tracked cfg m" and "text_name s" and "text_key k"
  shows "tracked (config_step cfg (GetDefault s k d)) m"
proof (cases "find_value cfg s k")
  case (Some v)
  then show ?thesis using assms(1) by (simp add: get_str_found)
next
  case None
  let ?f = "\<lambda>x. x\<lparr>entries := add_entry_ex k d False True (entries x)\<rparr>"
  have n: "c_str s = s" "length s < 64" using assms(2) by (simp_all add: text_name_def)
  have step: "config_step cfg (GetDefault s k d) = in_section ?f s cfg"
    using get_str_default [OF None] by (simp add: store_default_def add_entry_default_def)
  have inv: "\<not> visible e" if "x \<in> set cfg" "fold_name (sec_name x) = fold_name s" "e \<in> set (entries x)" "fold_name (key e) = fold_name k" for x e
    using None that by (auto simp: find_value_None find_entry_value_None)
  have none: "m (fold_name s, fold_name k) = None" if "\<forall>x \<in> set cfg. fold_name (sec_name x) = fold_name s \<longrightarrow> (\<forall>e \<in> set (entries x). fold_name (key e) \<noteq> fold_name k)"
    using assms(1) that unfolding tracked_def has_def by blast
  have uniq: "x = y" if "x \<in> set cfg" "y \<in> set cfg" "fold_name (sec_name x) = fold_name s" "fold_name (sec_name y) = fold_name s" for x y
    using same_section [of cfg x y] assms(1) that by (simp add: tracked_def)
  have old: "sane_sec m (?f x)" if x: "x \<in> set cfg" "fold_name (sec_name x) = fold_name s" "sane_sec m x" for x
  proof -
    have "\<forall>e \<in> set (add_entry_ex k d False True (entries x)). sane_entry m (fold_name (sec_name x)) e"
    proof (rule sane_add_entry)
      show "\<forall>e \<in> set (entries x). sane_entry m (fold_name (sec_name x)) e" using x(3) by (simp add: sane_sec_def)
      show "text_key k" by (rule assms(3))
      fix e assume e: "e \<in> set (entries x)" "fold_name (key e) = fold_name k"
      then have "\<not> visible e" "sane_entry m (fold_name (sec_name x)) e" using inv x by (auto simp: sane_sec_def)
      then show "sane_entry m (fold_name (sec_name x)) (set_entry d False True e)"
        by (auto simp: sane_entry_def set_entry_def visible_def)
    next
      assume "\<forall>e \<in> set (entries x). fold_name (key e) \<noteq> fold_name k"
      then have "m (fold_name s, fold_name k) = None" using none uniq x by metis
      then show "sane_entry m (fold_name (sec_name x)) \<lparr>key = k, val = field 256 d, dirty = False, defaulted = True, removed = False\<rparr>"
        using x(2) assms(3) by (simp add: sane_entry_def visible_def)
    qed
    then show ?thesis using x(3) by (simp add: sane_sec_def)
  qed
  have new: "sane_sec m (?f \<lparr>sec_name = s, sec_removed = False, sec_dirty = False, entries = []\<rparr>)"
    if "\<forall>x \<in> set cfg. fold_name (sec_name x) \<noteq> fold_name s"
  proof -
    have "m (fold_name s, fold_name k) = None" using none that by blast
    then have "\<forall>e \<in> set (add_entry_ex k d False True []). sane_entry m (fold_name s) e"
      using assms(3) by (intro sane_add_entry) (auto simp: sane_entry_def visible_def)
    then show ?thesis using assms(2) by (simp add: sane_sec_def)
  qed
  have "cfg_ok (config_step cfg (GetDefault s k d))"
    using step_default [of cfg s k d] assms(1) n text_keyD [OF assms(3)] by (simp add: tracked_def del: config_step.simps)
  moreover have "(\<forall>x \<in> set (in_section ?f s cfg). sane_sec m x) \<and> (\<forall>s' k. has cfg s' k \<longrightarrow> has (in_section ?f s cfg) s' k)"
    using assms(1,2) old new by (intro in_section_sane) (auto simp: tracked_def keys_add_entry)
  ultimately show ?thesis
    using assms(1) unfolding step by (simp add: tracked_def)
qed

text \<open>What unsetting and removing do to the store.\<close>

definition takes_out :: "rss_config_section_t \<Rightarrow> rss_config_section_t \<Rightarrow> bool" where
  "takes_out s s' \<longleftrightarrow> sec_name s' = sec_name s \<and> (sec_removed s' \<longrightarrow> sec_removed s \<or> sec_name s \<noteq> [])
     \<and> list_all2 (\<lambda>e e'. key e' = key e \<and> (e' = e \<or> removed e' \<and> dirty e')) (entries s) (entries s')"

lemma takes_out_refl [simp]: "takes_out s s"
  by (simp add: takes_out_def list_all2_same)

lemma takes_out_refls [simp]: "list_all2 takes_out ss ss"
  by (simp add: list_all2_same)

lemma takes_out_unset_in: "unset_in s k cfg = (r, cfg') \<Longrightarrow> list_all2 takes_out cfg cfg'"
proof (induction cfg arbitrary: r cfg')
  case (Cons x cfg)
  show ?case
  proof (cases "strcasecmp (sec_name x) s = 0 \<and> unset_entry k (entries x) \<noteq> None")
    case True
    then obtain r es where u: "unset_entry k (entries x) = Some (r, es)" by auto
    obtain xs e ys where "entries x = xs @ e # ys"
      "es = (if visible e then xs @ e\<lparr>removed := True, dirty := True\<rparr> # ys else entries x)"
      using unset_entry_cases [OF u] by auto
    then have "takes_out x (x\<lparr>entries := es\<rparr>)"
      by (simp add: takes_out_def list_all2_same list_all2_append)
    then show ?thesis using Cons.prems True u by auto
  next
    case False
    then have "\<exists>r ss. unset_in s k cfg = (r, ss) \<and> cfg' = x # ss"
      using Cons.prems by (cases "unset_in s k cfg") (auto split: if_splits option.splits)
    then show ?thesis using Cons.IH by auto
  qed
qed simp

lemma takes_out_remove_in: "remove_in s cfg = (r, cfg') \<Longrightarrow> c_str s \<noteq> [] \<Longrightarrow> list_all2 takes_out cfg cfg'"
proof (induction cfg arbitrary: r cfg')
  case (Cons x cfg)
  show ?case
  proof (cases "strcasecmp (sec_name x) s = 0 \<and> \<not> sec_removed x")
    case True
    then have "sec_name x \<noteq> []" using Cons.prems(2) by (auto simp: strcasecmp_fold fold_name_def)
    then have "takes_out x (x\<lparr>entries := map remove_entry (entries x), sec_removed := True, sec_dirty := True\<rparr>)"
      by (auto simp: takes_out_def list_all2_map2 list_all2_same remove_entry_def)
    then show ?thesis using Cons.prems True by auto
  next
    case False
    then have "\<exists>r ss. remove_in s cfg = (r, ss) \<and> cfg' = x # ss"
      using Cons.prems by (cases "remove_in s cfg") (auto split: if_splits)
    then show ?thesis using Cons.IH Cons.prems(2) by auto
  qed
qed simp

lemma list_all2_from:
  assumes "list_all2 R xs ys"
  shows "y \<in> set ys \<Longrightarrow> \<exists>x \<in> set xs. R x y" and "x \<in> set xs \<Longrightarrow> \<exists>y \<in> set ys. R x y"
  using assms by (induction rule: list_all2_induct) auto

lemma sane_takes_out: "sane_sec m s \<Longrightarrow> takes_out s s' \<Longrightarrow> sane_sec m s'"
proof -
  assume s: "sane_sec m s" "takes_out s s'"
  have "sane_entry m (fold_name (sec_name s')) e'" if e': "e' \<in> set (entries s')" for e'
  proof -
    obtain e where e: "e \<in> set (entries s)" "key e' = key e" "e' = e \<or> removed e' \<and> dirty e'"
      using s(2) list_all2_from(1) [OF _ e'] unfolding takes_out_def by blast
    then have "sane_entry m (fold_name (sec_name s)) e" using s(1) by (simp add: sane_sec_def)
    then show ?thesis using e s(2) by (auto simp: sane_entry_def takes_out_def)
  qed
  then show ?thesis using s by (auto simp: sane_sec_def takes_out_def)
qed

lemma takes_out_keys: "takes_out s s' \<Longrightarrow> (\<lambda>e. fold_name (key e)) ` set (entries s') = (\<lambda>e. fold_name (key e)) ` set (entries s)"
proof -
  assume "takes_out s s'"
  then have "list_all2 (\<lambda>e e'. key e' = key e \<and> (e' = e \<or> removed e' \<and> dirty e')) (entries s) (entries s')"
    by (simp add: takes_out_def)
  then have "map (\<lambda>e. fold_name (key e)) (entries s') = map (\<lambda>e. fold_name (key e)) (entries s)"
    by (induction rule: list_all2_induct) simp_all
  then show ?thesis by (metis list.set_map)
qed

lemma tracked_takes_out:
  assumes "tracked cfg m" and "list_all2 takes_out cfg cfg'" and "cfg_ok cfg'"
  shows "tracked cfg' m"
proof -
  have pick: "\<exists>x \<in> set cfg. takes_out x x'" if "x' \<in> set cfg'" for x'
    by (rule list_all2_from(1) [OF assms(2) that])
  have pick': "\<exists>x' \<in> set cfg'. takes_out x x'" if "x \<in> set cfg" for x
    by (rule list_all2_from(2) [OF assms(2) that])
  have "sane_sec m x'" if "x' \<in> set cfg'" for x'
    using pick [OF that] sane_takes_out assms(1) by (auto simp: tracked_def)
  moreover have "has cfg' s k" if hk: "has cfg s k" for s k
  proof -
    obtain x where x: "x \<in> set cfg" "fold_name (sec_name x) = fold_name s" "fold_name k \<in> (\<lambda>e. fold_name (key e)) ` set (entries x)"
      using hk unfolding has_iff by blast
    obtain x' where "x' \<in> set cfg'" "takes_out x x'" using pick' [OF x(1)] by blast
    then show ?thesis using x takes_out_keys [of x x'] unfolding has_iff by (metis takes_out_def)
  qed
  ultimately show ?thesis using assms(1,3) by (simp add: tracked_def)
qed

text \<open>The operations with names and values that the file can hold.\<close>

fun op_text :: "config_op \<Rightarrow> bool" where
  "op_text (SetStr s k v) \<longleftrightarrow> text_name s \<and> text_key k \<and> text_val v"
| "op_text (GetDefault s k d) \<longleftrightarrow> text_name s \<and> text_key k"
| "op_text (UnsetKey s k) \<longleftrightarrow> True"
| "op_text (RemoveSection s) \<longleftrightarrow> True"

lemma op_text_ok: "op_text a \<Longrightarrow> op_ok a"
  by (cases a) (auto simp: text_name_def text_keyD)

lemma tracked_step:
  assumes "tracked cfg m" and "op_text a"
  shows "tracked (config_step cfg a) m"
proof -
  have ok: "cfg_ok cfg" using assms(1) by (simp add: tracked_def)
  then have ok': "cfg_ok (config_step cfg a)" using running.inv_step op_text_ok [OF assms(2)] by blast
  show ?thesis
  proof (cases a)
    case (SetStr s k v)
    then show ?thesis
      using tracked_set [OF assms(1), of s k v] assms by (cases "s = []") (auto simp: rss_config_set_str_def c_str_def)
  next
    case (GetDefault s k d)
    then show ?thesis using tracked_default [OF assms(1), of s k d] assms(2) by simp
  next
    case (UnsetKey s k)
    obtain r c' where u: "unset_in s k cfg = (r, c')" by (cases "unset_in s k cfg")
    then have "config_step cfg a = c'" by (simp add: UnsetKey rss_config_unset_def)
    then show ?thesis using tracked_takes_out [OF assms(1) takes_out_unset_in [OF u]] ok' by simp
  next
    case (RemoveSection s)
    show ?thesis
    proof (cases "c_str s = []")
      case True
      then show ?thesis using assms(1) by (simp add: RemoveSection rss_config_remove_section_def)
    next
      case False
      obtain r c' where u: "remove_in s cfg = (r, c')" by (cases "remove_in s cfg")
      then have "config_step cfg a = c'" using False by (simp add: RemoveSection rss_config_remove_section_def)
      then show ?thesis using tracked_takes_out [OF assms(1) takes_out_remove_in [OF u False]] ok' by simp
    qed
  qed
qed

section \<open>Loading\<close>

text \<open>Names that are not cut by the fields they are stored in.\<close>

definition names_fit :: "string \<Rightarrow> bool" where
  "names_fit f \<longleftrightarrow> list_all (\<lambda>l. case line_of l of Inert \<Rightarrow> True | Header n \<Rightarrow> text_name n | Binding k v \<Rightarrow> length k < 64)
     (split_lines f)"

definition clean_sec :: "rss_config_section_t \<Rightarrow> bool" where
  "clean_sec s \<longleftrightarrow> text_name (sec_name s) \<and> \<not> sec_removed s
     \<and> (\<forall>e \<in> set (entries s). text_key (key e) \<and> \<not> dirty e \<and> visible e)"

lemma clean_add_entry:
  assumes "\<forall>e \<in> set es. text_key (key e) \<and> \<not> dirty e \<and> visible e" and "text_key k"
  shows "\<forall>e \<in> set (add_entry k v es). text_key (key e) \<and> \<not> dirty e \<and> visible e"
  unfolding add_entry_def
  by (rule add_entry_ex_cases [of es k v False False])
    (use assms text_keyD(2) [OF assms(2)] in \<open>auto simp: set_entry_def visible_def\<close>)

lemma load_clean_step:
  assumes "cfg_ok cfg" and "\<forall>s \<in> set cfg. clean_sec s" and "text_name cur" and "text_key k"
  shows "let cfg' = in_section (\<lambda>s. s\<lparr>entries := add_entry k v (entries s)\<rparr>) cur cfg
    in cfg_ok cfg' \<and> (\<forall>s \<in> set cfg'. clean_sec s)"
proof -
  let ?f = "\<lambda>s. s\<lparr>entries := add_entry k v (entries s)\<rparr>"
  have cur: "length (c_str cur) < 64" "field 64 cur = cur"
    using assms(3) by (simp_all add: text_name_def field_short)
  have k: "length (c_str k) < 64" using text_keyD [OF assms(4)] by simp
  have ok: "section_ok (?f s)" if "section_ok s" "\<not> sec_removed s" for s
  proof -
    have "entries_ok (entries s)" using that(1) by (simp add: section_ok_def)
    then have "entries_ok (add_entry k v (entries s))" unfolding add_entry_def by (rule entries_ok_add) (rule k)
    then show ?thesis using that by (simp add: section_ok_def)
  qed
  have cl: "clean_sec (?f s)" if "clean_sec s" for s
  proof -
    have "\<forall>e \<in> set (entries s). text_key (key e) \<and> \<not> dirty e \<and> visible e" using that by (simp add: clean_sec_def)
    from clean_add_entry [OF this assms(4)] show ?thesis using that by (simp add: clean_sec_def)
  qed
  show ?thesis
  proof (rule in_section_cases [OF cur(1), of cfg ?f])
    fix xs s ys
    assume x: "cfg = xs @ s # ys" "in_section ?f cur cfg = xs @ ?f s # ys"
    have s: "section_ok s" "clean_sec s" using assms(1,2) by (simp_all add: x(1) cfg_ok_def)
    have "section_ok (?f s)" using ok s by (simp add: clean_sec_def)
    then have "cfg_ok (xs @ ?f s # ys)" by (rule cfg_ok_replace [OF assms(1) [unfolded x(1)]]) simp
    then show ?thesis using cl [OF s(2)] assms(2) [unfolded x(1)] unfolding x(2) Let_def by simp
  next
    let ?s = "\<lparr>sec_name = field 64 cur, sec_removed = False, sec_dirty = False, entries = []\<rparr>"
    assume x: "\<forall>x \<in> set cfg. fold_name (sec_name x) \<noteq> fold_name cur" "in_section ?f cur cfg = ?f ?s # cfg"
    have "section_ok ?s" "clean_sec ?s"
      using assms(3) cur(2) by (simp_all add: section_ok_def entries_ok_def clean_sec_def text_name_def)
    then have "section_ok (?f ?s)" "clean_sec (?f ?s)" using ok [of ?s] cl [of ?s] by simp_all
    then show ?thesis using assms(1,2) x(1) cur(2) unfolding x(2) Let_def by (auto simp: cfg_ok_def)
  qed
qed

lemma line_key_text: "clean l \<Longrightarrow> line_of l = Binding k v \<Longrightarrow> length k < 64 \<Longrightarrow> text_key k"
proof -
  assume l: "clean l" "line_of l = Binding k v" "length k < 64"
  then have "cstr l" by (simp add: clean_def)
  then show ?thesis
  proof (cases rule: classify_line_cases)
    case (binding ws k' gap z)
    then show ?thesis using l by (auto simp: text_key_def clean_def cstr_def)
  qed (use l(2) in simp_all)
qed

lemma load_clean:
  assumes "\<forall>l \<in> set ls. clean l \<and> (case line_of l of Inert \<Rightarrow> True | Header n \<Rightarrow> text_name n | Binding k v \<Rightarrow> length k < 64)"
    and "cfg_ok cfg" and "\<forall>s \<in> set cfg. clean_sec s" and "text_name cur"
  shows "cfg_ok (fst (foldl line_step (cfg, cur) ls)) \<and> (\<forall>s \<in> set (fst (foldl line_step (cfg, cur) ls)). clean_sec s)"
  using assms
proof (induction ls arbitrary: cfg cur)
  case (Cons l ls)
  obtain cfg' cur' where st: "line_step (cfg, cur) l = (cfg', cur')" by (cases "line_step (cfg, cur) l")
  have "cfg_ok cfg' \<and> (\<forall>s \<in> set cfg'. clean_sec s) \<and> text_name cur'"
  proof (cases "line_of l")
    case Inert
    then have "line_step (cfg, cur) l = (cfg, cur)"
      by (auto simp: line_step_def line_of_def load_line_def split: if_splits)
    then show ?thesis using st Cons.prems by simp
  next
    case (Header n)
    then have "line_step (cfg, cur) l = (cfg, n)"
      by (auto simp: line_step_def line_of_def load_line_def split: if_splits)
    then show ?thesis using st Cons.prems Header by auto
  next
    case (Binding k v)
    then have "line_step (cfg, cur) l = (in_section (\<lambda>s. s\<lparr>entries := add_entry k v (entries s)\<rparr>) cur cfg, cur)"
      by (auto simp: line_step_def line_of_def load_line_def split: if_splits)
    moreover have "text_key k" using Cons.prems(1) Binding by (intro line_key_text [of l k v]) auto
    ultimately show ?thesis using st load_clean_step [OF Cons.prems(2-4), of k v] Cons.prems(4) by (simp add: Let_def)
  qed
  then show ?case using Cons.IH [of cfg' cur'] Cons.prems(1) st by simp
qed simp

lemma find_visible: "entries_ok es \<Longrightarrow> e \<in> set es \<Longrightarrow> visible e \<Longrightarrow> find_entry_value es (key e) = Some (val e)"
proof (induction es)
  case (Cons x es)
  show ?case
  proof (cases "e = x")
    case True
    then show ?thesis using Cons.prems(3) by (simp add: visible_def strcasecmp_fold)
  next
    case False
    then have "fold_name (key x) \<noteq> fold_name (key e)" using Cons.prems(1,2) by (auto simp: entries_ok_def)
    then show ?thesis using Cons False by (simp add: strcasecmp_fold entries_ok_def)
  qed
qed simp

lemma find_value_in:
  assumes "cfg_ok cfg" and "s \<in> set cfg" and "fold_name sname = fold_name (sec_name s)"
  shows "find_value cfg sname k = find_entry_value (entries s) k"
proof -
  obtain xs ys where "cfg = xs @ s # ys" using assms(2) by (meson split_list)
  then show ?thesis using find_value_at [of xs s ys sname k] assms by simp
qed

lemma loaded_map: "cstr f \<Longrightarrow> find_value (the (rss_config_load (Some f))) s k = file_map (split_lines f) (fold_name s, fold_name k)"
proof -
  assume f: "cstr f"
  have "load_ok ([], [])" by (simp add: load_ok_def loaded_def)
  from load_agrees [OF this, of "\<lambda>_. None" "split_lines f" s k] show ?thesis
    by (simp add: rss_config_load_def load_lines_eq [OF f] file_map_def)
qed

lemma load_tracked:
  assumes "cstr f" and "names_fit f"
  shows "tracked (the (rss_config_load (Some f))) (file_map (split_lines f))"
proof -
  let ?cfg = "the (rss_config_load (Some f))"
  have "\<forall>l \<in> set (split_lines f). clean l \<and> (case line_of l of Inert \<Rightarrow> True | Header n \<Rightarrow> text_name n | Binding k v \<Rightarrow> length k < 64)"
    using assms clean_split_lines by (simp add: names_fit_def list_all_iff)
  from load_clean [OF this, of "[]" "[]"]
  have c: "cfg_ok ?cfg" "\<forall>s \<in> set ?cfg. clean_sec s"
    by (simp_all add: rss_config_load_def load_lines_eq [OF assms(1)] text_name_def)
  have "sane_sec (file_map (split_lines f)) s" if s: "s \<in> set ?cfg" for s
  proof -
    have "file_map (split_lines f) (fold_name (sec_name s), fold_name (key e)) = Some (val e)"
      if e: "e \<in> set (entries s)" for e
    proof -
      have "visible e" using c(2) s e by (simp add: clean_sec_def)
      moreover have "entries_ok (entries s)" using c(1) s by (simp add: cfg_ok_def section_ok_def)
      ultimately show ?thesis
        using find_visible [OF _ e] find_value_in [OF c(1) s refl, of "key e"] loaded_map [OF assms(1), of "sec_name s" "key e"] by simp
    qed
    then show ?thesis using c(2) s by (auto simp: sane_sec_def clean_sec_def sane_entry_def)
  qed
  moreover have "has ?cfg s k" if m: "file_map (split_lines f) (fold_name s, fold_name k) \<noteq> None" for s k
  proof -
    have "find_value ?cfg s k \<noteq> None" using m loaded_map [OF assms(1)] by simp
    then show ?thesis unfolding find_value_None find_entry_value_None has_def by blast
  qed
  ultimately show ?thesis using c(1) by (simp add: tracked_def)
qed

section \<open>Saving\<close>

lemma dirty_map_at:
  assumes "cfg_ok cfg" and "s \<in> set cfg" and "e \<in> set (entries s)"
  shows "dirty_map cfg m (fold_name (sec_name s), fold_name (key e)) =
    (if sec_removed s \<and> sec_dirty s then None else if dirty e then (if removed e then None else Some (val e))
     else m (fold_name (sec_name s), fold_name (key e)))"
proof -
  have "find (\<lambda>x. fold_name (sec_name x) = fold_name (sec_name s)) cfg = Some s"
    using assms(2) same_section [OF assms(1) _ assms(2)] by (intro find_unique) auto
  moreover have ok: "entries_ok (entries s)" using assms(1,2) by (simp add: cfg_ok_def section_ok_def)
  have only: "x = e" if "x \<in> set (entries s)" "fold_name (key x) = fold_name (key e)" for x
    using ok that assms(3) by (auto simp: entries_ok_def distinct_map inj_on_def)
  have "find (\<lambda>x. dirty x \<and> fold_name (key x) = fold_name (key e)) (entries s) = (if dirty e then Some e else None)"
  proof (cases "dirty e")
    case True
    have "find (\<lambda>x. dirty x \<and> fold_name (key x) = fold_name (key e)) (entries s) = Some e"
      using True assms(3) only by (intro find_unique) auto
    then show ?thesis using True by simp
  next
    case False
    have "find (\<lambda>x. dirty x \<and> fold_name (key x) = fold_name (key e)) (entries s) = None"
      unfolding find_None_iff using only False by blast
    then show ?thesis using False by simp
  qed
  ultimately show ?thesis by (simp add: dirty_map_def)
qed

lemma dirty_map_absent: "\<not> has cfg s k \<Longrightarrow> m (fold_name s, fold_name k) = None \<Longrightarrow> dirty_map cfg m (fold_name s, fold_name k) = None"
proof -
  assume n: "\<not> has cfg s k" "m (fold_name s, fold_name k) = None"
  show ?thesis
  proof (cases "find (\<lambda>x. fold_name (sec_name x) = fold_name s) cfg")
    case None
    then show ?thesis using n(2) by (simp add: dirty_map_def)
  next
    case (Some x)
    then have x: "x \<in> set cfg" "fold_name (sec_name x) = fold_name s" by (auto simp: find_Some_iff)
    have "find (\<lambda>e. dirty e \<and> fold_name (key e) = fold_name k) (entries x) = None"
      unfolding find_None_iff using n(1) x unfolding has_def by blast
    then show ?thesis using Some n(2) by (simp add: dirty_map_def)
  qed
qed

lemma tracked_lookup:
  assumes "tracked cfg m"
  shows "dirty_map cfg m (fold_name s, fold_name k) = find_value cfg s k"
proof (cases "has cfg s k")
  case True
  then obtain x e where x: "x \<in> set cfg" "fold_name (sec_name x) = fold_name s" "e \<in> set (entries x)" "fold_name (key e) = fold_name k"
    by (auto simp: has_def)
  have ok: "cfg_ok cfg" "section_ok x" "sane_sec m x" using assms x(1) by (auto simp: tracked_def cfg_ok_def)
  have f: "find_value cfg s k = find_entry_value (entries x) (key e)"
    using find_value_in [OF ok(1) x(1), of s k] x(2) find_entry_value_cong [OF x(4)] by simp
  have v: "find_entry_value (entries x) (key e) = (if visible e then Some (val e) else None)"
  proof (cases "visible e")
    case True
    then show ?thesis using find_visible [OF _ x(3)] ok(2) by (simp add: section_ok_def)
  next
    case False
    have "y = e" if "y \<in> set (entries x)" "fold_name (key y) = fold_name (key e)" for y
      using ok(2) that x(3) by (auto simp: section_ok_def entries_ok_def distinct_map inj_on_def)
    then have "find_entry_value (entries x) (key e) = None" unfolding find_entry_value_None using False by blast
    then show ?thesis using False by simp
  qed
  have "sane_entry m (fold_name (sec_name x)) e" using ok(3) x(3) by (simp add: sane_sec_def)
  moreover have "sec_removed x \<longrightarrow> \<not> visible e" using ok(2) x(3) by (simp add: section_ok_def)
  ultimately show ?thesis
    using dirty_map_at [OF ok(1) x(1,3), of m] f v x(2,4) by (auto simp: sane_entry_def visible_def)
next
  case False
  then have "m (fold_name s, fold_name k) = None" using assms unfolding tracked_def by blast
  then have "dirty_map cfg m (fold_name s, fold_name k) = None" by (rule dirty_map_absent [OF False])
  moreover have "find_value cfg s k = None"
    unfolding find_value_None find_entry_value_None using False unfolding has_def by blast
  ultimately show ?thesis by simp
qed

lemma clear_dirty_lookup: "find_value (clear_dirty cfg) s k = find_value cfg s k"
proof -
  have e: "find_entry_value (map (\<lambda>e. e\<lparr>dirty := False\<rparr>) es) k = find_entry_value es k" for es
    by (induction es) simp_all
  show ?thesis by (induction cfg) (simp_all add: clear_dirty_def e split: option.split)
qed

lemma clear_dirty_ok:
  assumes "cfg_ok cfg"
  shows "cfg_ok (clear_dirty cfg)"
proof -
  have "section_ok (s\<lparr>sec_dirty := False, entries := map (\<lambda>e. e\<lparr>dirty := False\<rparr>) (entries s)\<rparr>)" if "section_ok s" for s
    using that by (auto simp: section_ok_def entries_ok_def visible_def comp_def)
  then show ?thesis using assms by (auto simp: cfg_ok_def clear_dirty_def comp_def)
qed

lemma tracked_clear:
  assumes "tracked cfg m"
  shows "tracked (clear_dirty cfg) (dirty_map cfg m)"
proof -
  have ok: "cfg_ok cfg" using assms by (simp add: tracked_def)
  have "sane_sec (dirty_map cfg m) (s\<lparr>sec_dirty := False, entries := map (\<lambda>e. e\<lparr>dirty := False\<rparr>) (entries s)\<rparr>)"
    if s: "s \<in> set cfg" for s
  proof -
    have S: "sane_sec m s" "section_ok s" using assms s by (auto simp: tracked_def cfg_ok_def)
    have "sane_entry (dirty_map cfg m) (fold_name (sec_name s)) (e\<lparr>dirty := False\<rparr>)" if e: "e \<in> set (entries s)" for e
    proof -
      have "sane_entry m (fold_name (sec_name s)) e" "sec_removed s \<longrightarrow> \<not> visible e"
        using S e by (auto simp: sane_sec_def section_ok_def)
      then show ?thesis using dirty_map_at [OF ok s e, of m] by (auto simp: sane_entry_def visible_def)
    qed
    then show ?thesis using S by (auto simp: sane_sec_def)
  qed
  then have "\<forall>s \<in> set (clear_dirty cfg). sane_sec (dirty_map cfg m) s" by (auto simp: clear_dirty_def)
  moreover have "has (clear_dirty cfg) s k" if d: "dirty_map cfg m (fold_name s, fold_name k) \<noteq> None" for s k
  proof -
    have "has cfg s k" using dirty_map_absent [of cfg s k m] d assms unfolding tracked_def by blast
    then show ?thesis by (auto simp: has_def clear_dirty_def)
  qed
  ultimately show ?thesis using clear_dirty_ok [OF ok] by (simp add: tracked_def)
qed

section \<open>The life of a configuration\<close>

datatype life_event = Change config_op | Save

fun life_step :: "rss_config_t \<times> string \<Rightarrow> life_event \<Rightarrow> rss_config_t \<times> string" where
  "life_step (c, f) (Change a) = (config_step c a, f)"
| "life_step (c, f) Save =
     (case rss_config_save (Some c) (Some f) True True of (ret, written, c') \<Rightarrow>
        (the c', case written of None \<Rightarrow> f | Some f' \<Rightarrow> f'))"

fun life_text :: "life_event \<Rightarrow> bool" where
  "life_text (Change a) \<longleftrightarrow> op_text a"
| "life_text Save \<longleftrightarrow> True"

fun life_map :: "config_map \<Rightarrow> life_event \<Rightarrow> config_map" where
  "life_map m (Change a) = map_step m a"
| "life_map m Save = m"

definition alive :: "config_map \<Rightarrow> rss_config_t \<times> string \<Rightarrow> bool" where
  "alive m st \<longleftrightarrow> cstr (snd st) \<and> tracked (fst st) (file_map (split_lines (snd st))) \<and> running.agrees (fst st) m"

lemma tracked_savable: "tracked cfg m \<Longrightarrow> savable cfg \<and> (\<forall>s \<in> set cfg. sec_removed s \<longrightarrow> sec_name s \<noteq> [])"
  by (fastforce simp: tracked_def sane_sec_def sane_entry_def savable_def writable_def text_key_def text_val_def text_name_def visible_def)

lemma save_life:
  assumes "alive m (c, f)"
  shows "alive m (life_step (c, f) Save)
    \<and> file_map (split_lines (snd (life_step (c, f) Save))) = dirty_map c (file_map (split_lines f))"
proof -
  have a: "cstr f" "tracked c (file_map (split_lines f))" "running.agrees c m" using assms by (simp_all add: alive_def)
  have ok: "cfg_ok c" using a(2) by (simp add: tracked_def)
  obtain ret written c' where st: "rss_config_save (Some c) (Some f) True True = (ret, written, c')"
    by (cases "rss_config_save (Some c) (Some f) True True")
  let ?f = "case written of None \<Rightarrow> f | Some f' \<Rightarrow> f'"
  have s: "c' = (if rss_config_has_dirty (Some c) then Some (clear_dirty c) else Some c)"
    "case written of None \<Rightarrow> \<not> rss_config_has_dirty (Some c) | Some f' \<Rightarrow> cstr f' \<and> rss_config_has_dirty (Some c)"
    "file_map (split_lines ?f) = dirty_map c (file_map (split_lines f))"
    using save_edits [OF ok _ _ a(1)] tracked_savable [OF a(2)] st by auto
  have "alive m (the c', ?f)"
  proof (cases written)
    case None
    then show ?thesis using s assms by simp
  next
    case (Some f')
    then have "c' = Some (clear_dirty c)" "cstr f'" using s(1,2) by auto
    moreover have "tracked (clear_dirty c) (file_map (split_lines f'))"
      using tracked_clear [OF a(2)] s(3) Some by simp
    moreover have "running.agrees (clear_dirty c) m"
      using a(3) by (simp add: running.agrees_def clear_dirty_lookup)
    ultimately show ?thesis using Some by (simp add: alive_def)
  qed
  then show ?thesis using st s(3) by simp
qed

lemma alive_step: "alive m st \<Longrightarrow> life_text ev \<Longrightarrow> alive (life_map m ev) (life_step st ev)"
proof (cases ev)
  case (Change a)
  assume m: "alive m st" "life_text ev"
  then have "cfg_ok (fst st)" by (simp add: alive_def tracked_def)
  then show ?thesis
    using m Change tracked_step [of "fst st" "file_map (split_lines (snd st))" a] op_text_ok [of a]
      running.agrees_step [of "fst st" a m]
    by (cases st) (simp add: alive_def)
next
  case Save
  assume "alive m st"
  then show ?thesis using save_life [of m "fst st" "snd st"] Save by simp
qed

lemma alive_run:
  "alive m st \<Longrightarrow> list_all life_text evs \<Longrightarrow> alive (foldl life_map m evs) (foldl life_step st evs)"
  by (induction evs arbitrary: m st) (simp_all add: alive_step)

text \<open>C1. Configuration and file never part: load any file whose names fit the fields, then set, unset, read with
  defaults, remove sections and save in any order.  At every point the running configuration answers
  what the abstract map of the file after the same changes holds, and once saved, a new
  load of the file answers the same for every section and key: no change is lost and nothing else changes.\<close>

lemma config_life:
  assumes "cstr f" and "names_fit f" and "list_all life_text evs"
  shows "case foldl life_step (the (rss_config_load (Some f)), f) (evs @ [Save]) of (c, f') \<Rightarrow>
    find_value c s k = foldl life_map (file_map (split_lines f)) evs (fold_name s, fold_name k)
    \<and> find_value (the (rss_config_load (Some f'))) s k = find_value c s k"
proof -
  let ?M = "foldl life_map (file_map (split_lines f)) evs"
  have "alive (file_map (split_lines f)) (the (rss_config_load (Some f)), f)"
    using assms load_tracked by (simp add: alive_def running.agrees_def loaded_map)
  from alive_run [OF this assms(3)]
  have a: "alive ?M (foldl life_step (the (rss_config_load (Some f)), f) evs)" .
  obtain c0 f0 where st: "foldl life_step (the (rss_config_load (Some f)), f) evs = (c0, f0)"
    by (cases "foldl life_step (the (rss_config_load (Some f)), f) evs")
  obtain c f' where sv: "life_step (c0, f0) Save = (c, f')" by (cases "life_step (c0, f0) Save")
  have b: "alive ?M (c, f')" "file_map (split_lines f') = dirty_map c0 (file_map (split_lines f0))"
    using save_life [of ?M c0 f0] a st sv by simp_all
  have "find_value (the (rss_config_load (Some f'))) s k = find_value c0 s k"
    using loaded_map [of f' s k] b a st tracked_lookup [of c0] by (simp add: alive_def)
  moreover have "find_value c0 s k = ?M (fold_name s, fold_name k)" "find_value c s k = ?M (fold_name s, fold_name k)"
    using a b(1) st by (simp_all add: alive_def running.agrees_def)
  ultimately show ?thesis using st sv by (simp del: life_step.simps)
qed

lemma config_life_witness:
  "case foldl life_step (the (rss_config_load (Some (join_lines [''[rtsp]'', ''Port = 554  # default'', ''[osd]'', ''x = 1'', ''[jpeg]'', ''q = 75'']))),
      join_lines [''[rtsp]'', ''Port = 554  # default'', ''[osd]'', ''x = 1'', ''[jpeg]'', ''q = 75''])
      ([Change (SetStr ''rtsp'' ''port'' ''8554''), Save, Change (RemoveSection ''osd''), Change (GetDefault ''jpeg'' ''fps'' ''5''),
        Change (SetStr ''log'' ''level'' ''info'')] @ [Save]) of
     (c, f') \<Rightarrow> find_value (the (rss_config_load (Some f'))) ''rtsp'' ''port'' = Some ''8554''
       \<and> find_value (the (rss_config_load (Some f'))) ''osd'' ''x'' = None
       \<and> find_value (the (rss_config_load (Some f'))) ''jpeg'' ''Q'' = Some ''75''
       \<and> find_value (the (rss_config_load (Some f'))) ''LOG'' ''level'' = Some ''info''
       \<and> find_value (the (rss_config_load (Some f'))) ''jpeg'' ''fps'' = None"
  (is "case foldl life_step (_, join_lines ?ls) (?evs @ [Save]) of (c, f') \<Rightarrow> _ c f'")
proof -
  have f: "cstr (join_lines ?ls)" by code_simp
  have ls: "split_lines (join_lines ?ls) = ?ls" by (rule split_join_lines) simp
  have n: "names_fit (join_lines ?ls)" unfolding names_fit_def ls by code_simp
  have e: "list_all life_text ?evs" by code_simp
  have m: "foldl life_map (file_map ?ls) ?evs (fold_name ''rtsp'', fold_name ''port'') = Some ''8554''"
    "foldl life_map (file_map ?ls) ?evs (fold_name ''osd'', fold_name ''x'') = None"
    "foldl life_map (file_map ?ls) ?evs (fold_name ''jpeg'', fold_name ''Q'') = Some ''75''"
    "foldl life_map (file_map ?ls) ?evs (fold_name ''LOG'', fold_name ''level'') = Some ''info''"
    "foldl life_map (file_map ?ls) ?evs (fold_name ''jpeg'', fold_name ''fps'') = None" by code_simp+
  note life = config_life [OF f n e, unfolded ls]
  show ?thesis
    using life [of "''rtsp''" "''port''", unfolded m] life [of "''osd''" "''x''", unfolded m]
      life [of "''jpeg''" "''Q''", unfolded m] life [of "''LOG''" "''level''", unfolded m]
      life [of "''jpeg''" "''fps''", unfolded m]
    by (auto simp del: join_lines_simps foldl_append foldl_Cons split: prod.splits)
qed

text \<open>
  The hypothesis that values are not empty is needed: an empty value written over one with an inline comment
  leaves the comment where a value is expected, and the next load reads it as the value.
\<close>

lemma config_save_empty_value:
  "file_map (split_lines (config_write_surgical (join_lines [''[a]'', ''k = 1  # one''])
      (collect_dirty [\<lparr>sec_name = ''a'', sec_removed = False, sec_dirty = False, entries =
         [\<lparr>key = ''k'', val = [], dirty = True, defaulted = False, removed = False\<rparr>]\<rparr>]))) (''a'', ''k'')
    = Some ''# one''"
  by code_simp

end
