(* ===== verification/Rss_Daemon_Lock.thy ===== *)
theory Rss_Daemon_Lock imports Rss_Prelude begin

text \<open>
  The protocol of the PID file, from \<open>rss_daemonize\<close> and \<open>rss_daemon_cleanup\<close>: any number of processes that
  start, run and end one daemon, one system call per step: \<open>open\<close> and \<open>flock\<close> of \<open>rss_daemonize\<close>, its close of a
  file locked by another, \<open>unlink\<close> of \<open>rss_daemon_cleanup\<close>, and the end of the process, which closes its files.  A path is bound to a file (an inode, numbered by
  its creation); \<open>flock\<close> locks the file, not the path, and a lock is held until its process ends.
\<close>

datatype pc =
    Idle
  | Opened nat   \<comment> \<open>behind \<open>open\<close>\<close>
  | Holding nat  \<comment> \<open>behind \<open>flock\<close>, up to the return of \<open>rss_daemonize\<close>\<close>
  | Up nat       \<comment> \<open>the daemon runs\<close>
  | Leaving nat  \<comment> \<open>behind the \<open>unlink\<close> of \<open>rss_daemon_cleanup\<close>, before the end of the process\<close>

record lock_world =
  bound :: "nat option"
  fresh :: nat
  holder :: "nat \<Rightarrow> nat option"
  pcs :: "nat \<Rightarrow> pc"

abbreviation at_pc :: "lock_world \<Rightarrow> nat \<Rightarrow> pc \<Rightarrow> lock_world" where
  "at_pc w p c \<equiv> w\<lparr>pcs := (pcs w)(p := c)\<rparr>"

inductive lock_step :: "lock_world \<Rightarrow> lock_world \<Rightarrow> bool" where
  open_there: "pcs w p = Idle \<Longrightarrow> bound w = Some i \<Longrightarrow> lock_step w (at_pc w p (Opened i))"
| open_create: "pcs w p = Idle \<Longrightarrow> bound w = None \<Longrightarrow>
    lock_step w (at_pc (w\<lparr>bound := Some (fresh w), fresh := Suc (fresh w)\<rparr>) p (Opened (fresh w)))"
| flock: "pcs w p = Opened i \<Longrightarrow> holder w i = None \<Longrightarrow>
    lock_step w (at_pc (w\<lparr>holder := (holder w)(i := Some p)\<rparr>) p (Holding i))"
| running_already: "pcs w p = Opened i \<Longrightarrow> holder w i \<noteq> None \<Longrightarrow> lock_step w (at_pc w p Idle)"
| started: "pcs w p = Holding i \<Longrightarrow> lock_step w (at_pc w p (Up i))"
| unlink: "pcs w p = Up i \<Longrightarrow> lock_step w (at_pc (w\<lparr>bound := None\<rparr>) p (Leaving i))"
| ends: "pcs w p = Holding i \<or> pcs w p = Up i \<or> pcs w p = Leaving i \<Longrightarrow>
    lock_step w (at_pc (w\<lparr>holder := (holder w)(i := None)\<rparr>) p Idle)"

definition boot :: lock_world where
  "boot = \<lparr>bound = None, fresh = 0, holder = \<lambda>_. None, pcs = \<lambda>_. Idle\<rparr>"

inductive lock_reach :: "lock_world \<Rightarrow> bool" where
  boot: "lock_reach boot"
| step: "lock_reach w \<Longrightarrow> lock_step w w' \<Longrightarrow> lock_reach w'"

text \<open>The runs in which no process is between its \<open>open\<close> and its \<open>flock\<close> when a daemon removes the file.\<close>

definition no_opener :: "lock_world \<Rightarrow> bool" where
  "no_opener w \<longleftrightarrow> (\<forall>q i. pcs w q \<noteq> Opened i)"

inductive calm_reach :: "lock_world \<Rightarrow> bool" where
  boot: "calm_reach boot"
| step: "calm_reach w \<Longrightarrow> lock_step w w' \<Longrightarrow> bound w \<noteq> None \<and> bound w' = None \<longrightarrow> no_opener w \<Longrightarrow> calm_reach w'"

definition single :: "lock_world \<Rightarrow> bool" where
  "single w \<longleftrightarrow> (\<forall>p q i j. pcs w p = Up i \<longrightarrow> pcs w q = Up j \<longrightarrow> p = q)"

section \<open>A lock has one holder\<close>

text \<open>The file a process has locked, and the file it refers to on its way up to the end of the daemon.\<close>

fun locks :: "pc \<Rightarrow> nat option" where
  "locks (Holding i) = Some i"
| "locks (Up i) = Some i"
| "locks (Leaving i) = Some i"
| "locks _ = None"

fun refers :: "pc \<Rightarrow> nat option" where
  "refers (Opened i) = Some i"
| "refers (Holding i) = Some i"
| "refers (Up i) = Some i"
| "refers _ = None"

definition lock_inv :: "lock_world \<Rightarrow> bool" where
  "lock_inv w \<longleftrightarrow> (\<forall>i p. holder w i = Some p \<longleftrightarrow> locks (pcs w p) = Some i)"

lemma lock_invI: "(\<And>i p. holder w i = Some p \<longleftrightarrow> locks (pcs w p) = Some i) \<Longrightarrow> lock_inv w"
  by (simp add: lock_inv_def)

lemma lock_invD: "lock_inv w \<Longrightarrow> holder w i = Some p \<longleftrightarrow> locks (pcs w p) = Some i"
  by (simp add: lock_inv_def)

lemma one_holder: "lock_inv w \<Longrightarrow> locks (pcs w p) = Some i \<Longrightarrow> locks (pcs w q) = Some i \<Longrightarrow> p = q"
  using lock_invD [of w i p] lock_invD [of w i q] by simp

lemma lock_inv_step:
  assumes inv: "lock_inv w" and "lock_step w w'"
  shows "lock_inv w'"
  using assms(2)
proof (cases rule: lock_step.cases)
  case (flock p i)
  have "locks (pcs w q) \<noteq> Some i" for q using lock_invD [OF inv, of i q] flock(3) by simp
  then show ?thesis using flock lock_invD [OF inv] by (intro lock_invI) auto
next
  case (ends p i)
  have "locks (pcs w p) = Some i" using ends(2) by auto
  then show ?thesis using ends(1) lock_invD [OF inv] one_holder [OF inv] by (intro lock_invI) auto
qed (use lock_invD [OF inv] in \<open>auto intro!: lock_invI split: if_splits\<close>)

lemma lock_inv_reach: "lock_reach w \<Longrightarrow> lock_inv w"
proof (induction rule: lock_reach.induct)
  case boot
  then show ?case by (simp add: lock_inv_def boot_def)
qed (rule lock_inv_step)

text \<open>In calm runs every process on its way refers to the file the path is bound to.\<close>

definition bound_inv :: "lock_world \<Rightarrow> bool" where
  "bound_inv w \<longleftrightarrow> (\<forall>p i. refers (pcs w p) = Some i \<longrightarrow> bound w = Some i)"

lemma bound_invI: "(\<And>p i. refers (pcs w p) = Some i \<Longrightarrow> bound w = Some i) \<Longrightarrow> bound_inv w"
  by (simp add: bound_inv_def)

lemma bound_invD: "bound_inv w \<Longrightarrow> refers (pcs w p) = Some i \<Longrightarrow> bound w = Some i"
  by (simp add: bound_inv_def)

lemma bound_inv_step:
  assumes inv: "bound_inv w" and lk: "lock_inv w" and "lock_step w w'"
    and calm: "bound w \<noteq> None \<and> bound w' = None \<longrightarrow> no_opener w"
  shows "bound_inv w'"
  using assms(3)
proof (cases rule: lock_step.cases)
  case (unlink p i)
  have b: "bound w = Some i" using bound_invD [OF inv, of p i] unlink(2) by simp
  then have none: "no_opener w" using calm unlink(1) by simp
  have "q = p" if r: "refers (pcs w q) = Some j" for q j
  proof -
    have "locks (pcs w q) = Some j" using r none by (cases "pcs w q") (auto simp: no_opener_def)
    moreover have "j = i" using bound_invD [OF inv r] b by simp
    ultimately show ?thesis using one_holder [OF lk, of q i p] unlink(2) by simp
  qed
  then show ?thesis using unlink by (auto intro!: bound_invI split: if_splits)
next
  case (open_create p)
  then show ?thesis using bound_invD [OF inv] by (intro bound_invI) (force split: if_splits)
next
  case (open_there p i)
  then show ?thesis using bound_invD [OF inv] by (intro bound_invI) (force split: if_splits)
next
  case (flock p i)
  then show ?thesis using bound_invD [OF inv, of p i] bound_invD [OF inv] by (intro bound_invI) (force split: if_splits)
next
  case (running_already p i)
  then show ?thesis using bound_invD [OF inv] by (intro bound_invI) (force split: if_splits)
next
  case (started p i)
  then show ?thesis using bound_invD [OF inv, of p i] bound_invD [OF inv] by (intro bound_invI) (force split: if_splits)
next
  case (ends p i)
  then show ?thesis using bound_invD [OF inv] by (intro bound_invI) (force split: if_splits)
qed

lemma calm_inv: "calm_reach w \<Longrightarrow> lock_inv w \<and> bound_inv w"
proof (induction rule: calm_reach.induct)
  case boot
  then show ?case by (simp add: lock_inv_def bound_inv_def boot_def)
next
  case (step w w')
  then show ?case using lock_inv_step [of w w'] bound_inv_step [of w w'] by blast
qed

text \<open>C12. One daemon at a time: in every run in which no other process is between opening and locking the
  PID file when a daemon removes it, at most one process runs the daemon, and every lock has one holder.\<close>

lemma daemon_single:
  assumes "calm_reach w"
  shows "single w \<and> lock_inv w"
proof -
  have inv: "lock_inv w" "bound_inv w" using calm_inv [OF assms] by simp_all
  have "p = q" if up: "pcs w p = Up i" "pcs w q = Up j" for p q i j
  proof -
    have "bound w = Some i" "bound w = Some j"
      using bound_invD [OF inv(2), of p i] bound_invD [OF inv(2), of q j] up by simp_all
    then show ?thesis using one_holder [OF inv(1), of p i q] up by simp
  qed
  then show ?thesis using inv(1) unfolding single_def by blast
qed

lemma daemon_single_witness:
  "\<exists>w. calm_reach w \<and> pcs w 0 = Up 0 \<and> single w \<and> lock_inv w"
proof -
  have go: "calm_reach w \<Longrightarrow> lock_step w w' \<Longrightarrow> bound w' \<noteq> None \<Longrightarrow> calm_reach w'" for w w'
    by (rule calm_reach.step) (assumption, assumption, auto)
  note s0 = go [OF calm_reach.boot lock_step.open_create [of _ 0], unfolded boot_def, simplified]
  note s1 = go [OF s0 lock_step.flock [of _ 0 0], simplified]
  note s2 = go [OF s1 lock_step.started [of _ 0 0], simplified]
  show ?thesis by (rule exI, rule conjI, rule s2, rule conjI) (simp, rule daemon_single [OF s2])
qed

text \<open>The run of the overlap: a process that has opened the file locks it after the daemon has removed it and
  ended; the next one finds no file, makes a new one and locks that.\<close>

lemma overlap_run:
  "\<exists>w. lock_reach w \<and> pcs w 1 = Up 0 \<and> pcs w 2 = Up 1"
proof -
  have go: "lock_reach w \<Longrightarrow> lock_step w w' \<Longrightarrow> lock_reach w'" for w w' by (rule lock_reach.step)
  note s0 = go [OF lock_reach.boot lock_step.open_create [of _ 0], unfolded boot_def, simplified]
  note s1 = go [OF s0 lock_step.flock [of _ 0 0], simplified]
  note s2 = go [OF s1 lock_step.started [of _ 0 0], simplified]
  note s3 = go [OF s2 lock_step.open_there [of _ 1 0], simplified]
  note s4 = go [OF s3 lock_step.unlink [of _ 0 0], simplified]
  note s5 = go [OF s4 lock_step.ends [of _ 0 0], simplified]
  note s6 = go [OF s5 lock_step.flock [of _ 1 0], simplified]
  note s7 = go [OF s6 lock_step.started [of _ 1 0], simplified]
  note s8 = go [OF s7 lock_step.open_create [of _ 2], simplified]
  note s9 = go [OF s8 lock_step.flock [of _ 2 1], simplified]
  note s10 = go [OF s9 lock_step.started [of _ 2 1], simplified]
  show ?thesis by (rule exI, rule conjI, rule s10) simp
qed

text \<open>Without that condition two processes can run the same daemon: the removal of the PID file by a
  daemon that ends takes the name from a file another process has already opened and is about to lock.\<close>

lemma daemon_overlap: "\<exists>w. lock_reach w \<and> \<not> single w"
proof -
  have one_two: "(1::nat) \<noteq> 2" by simp
  obtain w where "lock_reach w" "pcs w 1 = Up 0" "pcs w 2 = Up 1" using overlap_run by blast
  moreover from this have "\<not> single w" using one_two unfolding single_def by metis
  ultimately show ?thesis by blast
qed

end
