(* ===== verification/Rss_Daemon.thy ===== *)
theory Rss_Daemon imports Rss_Log Rss_Config_Life Rss_Daemon_Lock begin

text \<open>
  The life of a daemon, from \<open>src/rss_daemon.c\<close>: the PID file, the double fork, signals and restart,
  scheduling, and the start-up sequence.  A function that calls the operating system is written over its
  answers and yields the calls it makes; of a logged message only the level is recorded.
\<close>

section \<open>The PID file\<close>

definition make_pid_path :: "string \<Rightarrow> string" where
  "make_pid_path name = take 127 (''/var/run/rss/'' @ name @ ''.pid'')"

text \<open>What \<open>kill(pid, 0)\<close> answers.\<close>

datatype kill_answer = Alive | Not_Permitted | No_Process

text \<open>
  \<open>rss_daemon_check\<close>: the argument is the text behind the path, \<open>None\<close> if it cannot be opened.  C leaves the
  conversion of a number that is no \<open>int\<close> undefined (\<open>None\<close>).
\<close>

definition rss_daemon_check :: "string option \<Rightarrow> (int \<Rightarrow> kill_answer) \<Rightarrow> int option" where
  "rss_daemon_check f kill =
     (case f of None \<Rightarrow> Some 0
      | Some s \<Rightarrow>
          (case scan_int (length s) s of None \<Rightarrow> Some 0
           | Some (pid, _) \<Rightarrow>
               if to_int32 pid \<noteq> pid then None
               else if pid \<le> 0 then Some 0
               else (case kill pid of Alive \<Rightarrow> Some pid | Not_Permitted \<Rightarrow> Some pid | No_Process \<Rightarrow> Some 0)))"

section \<open>Daemonization\<close>

record daemonize_answers =
  pid_opens :: bool
  lock_free :: bool
  first_fork :: int
  setsid_ok :: bool
  second_fork :: int
  null_fd :: int
  chdir_ok :: bool
  trunc_ok :: bool
  getpid :: int
  wrote :: int

datatype daemon_op =
    Mkdir_p string
  | Open_pid string
  | Flock
  | Close_pid
  | Check
  | Print_err
  | Fork
  | Setsid
  | Dup_null int
  | Close_null
  | Chdir string
  | Umask nat
  | Log rss_log_level_t
  | Ftruncate
  | Lseek
  | Write string
  | Unlink string
  | Execv string "string list"
  | Set_affinity int
  | Set_fifo int
  | Banner string
  | Post_banner
  | Usage
  | Print_record log_record
  | Ipc_set_log

datatype outcome = Returns int | Exits int

definition redirect :: "int \<Rightarrow> daemon_op list" where
  "redirect fd = (if fd \<ge> 0 then Dup_null 0 # Dup_null 1 # Dup_null 2 # (if fd > 2 then [Close_null] else []) else [])"

definition pid_line :: "int \<Rightarrow> string" where
  "pid_line pid = take 15 (show_int pid @ [LF])"

text \<open>The part behind the forks.\<close>

definition put_pid :: "daemonize_answers \<Rightarrow> daemon_op list \<times> outcome" where
  "put_pid w =
     (let ops = Ftruncate # (if trunc_ok w then [] else [Log RSS_LOG_WARN]) @ [Lseek, Write (pid_line (getpid w))]
      in if wrote w \<noteq> int (length (show_int (getpid w) @ [LF])) then (ops @ [Close_pid], Returns (- 1))
         else (ops, Returns 0))"

text \<open>The double fork; \<open>None\<close> in the process that goes on.\<close>

definition detach :: "daemonize_answers \<Rightarrow> daemon_op list \<times> outcome option" where
  "detach w =
     (if first_fork w < 0 then ([Fork, Close_pid], Some (Returns (- 1)))
      else if first_fork w > 0 then ([Fork, Print_err], Some (Exits 0))
      else if \<not> setsid_ok w then ([Fork, Setsid], Some (Returns (- 1)))
      else if second_fork w < 0 then ([Fork, Setsid, Fork], Some (Returns (- 1)))
      else if second_fork w > 0 then ([Fork, Setsid, Fork], Some (Exits 0))
      else ([Fork, Setsid, Fork] @ redirect (null_fd w) @ [Chdir ''/''] @ (if chdir_ok w then [] else [Log RSS_LOG_WARN]) @ [Umask 0],
            None))"

definition rss_daemonize :: "daemonize_answers \<Rightarrow> string \<Rightarrow> bool \<Rightarrow> daemon_op list \<times> outcome" where
  "rss_daemonize w name already_daemon =
     (let ops = [Mkdir_p ''/var/run/rss'', Open_pid (make_pid_path name)]
      in if \<not> pid_opens w then (ops, Returns (- 1))
         else if \<not> lock_free w then (ops @ [Flock, Close_pid, Check, Print_err], Returns (- 1))
         else case (if already_daemon then ([], None) else detach w) of
           (ops', Some r) \<Rightarrow> (ops @ [Flock] @ ops', r)
         | (ops', None) \<Rightarrow> (case put_pid w of (ops'', r) \<Rightarrow> (ops @ [Flock] @ ops' @ ops'', r)))"

text \<open>What the calls leave in the PID file: the truncation empties it, the text replaces what stands at its start.\<close>

fun pid_file_after :: "daemonize_answers \<Rightarrow> daemon_op list \<Rightarrow> string \<Rightarrow> string" where
  "pid_file_after w [] s = s"
| "pid_file_after w (Ftruncate # ops) s = pid_file_after w ops (if trunc_ok w then [] else s)"
| "pid_file_after w (Write t # ops) s = pid_file_after w ops (put s 0 (take (nat (wrote w)) t))"
| "pid_file_after w (_ # ops) s = pid_file_after w ops s"

section \<open>Signals, shutdown and restart\<close>

datatype sig = SIGTERM | SIGINT | SIGHUP | SIGPIPE

datatype sig_action = SIG_DFL | SIG_IGN | Sig_Term_Handler

record run_state =
  g_running :: int
  g_restart :: int
  g_argv :: "string list"
  g_exe_path :: string
  sig_table :: "sig \<Rightarrow> sig_action"

definition sig_term_handler :: "run_state \<Rightarrow> run_state" where
  "sig_term_handler st = st\<lparr>g_running := 0\<rparr>"

definition rss_signal_init :: "run_state \<Rightarrow> run_state" where
  "rss_signal_init st = st\<lparr>g_running := 1,
     sig_table := (sig_table st)(SIGTERM := Sig_Term_Handler, SIGINT := Sig_Term_Handler, SIGHUP := SIG_IGN, SIGPIPE := SIG_IGN)\<rparr>"

definition rss_daemon_request_shutdown :: "run_state \<Rightarrow> run_state" where
  "rss_daemon_request_shutdown st = st\<lparr>g_running := 0\<rparr>"

definition rss_daemon_request_restart :: "run_state \<Rightarrow> run_state" where
  "rss_daemon_request_restart st = st\<lparr>g_restart := 1, g_running := 0\<rparr>"

definition rss_daemon_restart_pending :: "run_state \<Rightarrow> bool" where
  "rss_daemon_restart_pending st \<longleftrightarrow> g_restart st \<noteq> 0"

definition rss_running :: "run_state \<Rightarrow> int" where
  "rss_running st = g_running st"

text \<open>\<open>execv\<close> comes back only when it fails.\<close>

definition rss_daemon_exec :: "run_state \<Rightarrow> daemon_op list" where
  "rss_daemon_exec st =
     [Log RSS_LOG_INFO, Execv (if g_exe_path st \<noteq> [] then g_exe_path st else g_argv st ! 0) (g_argv st), Log RSS_LOG_FATAL]"

definition rss_daemon_cleanup :: "string \<Rightarrow> run_state \<Rightarrow> daemon_op list" where
  "rss_daemon_cleanup name st =
     Unlink (make_pid_path name) # (if rss_daemon_restart_pending st then rss_daemon_exec st else [])"

text \<open>What happens to a running daemon: a signal, or a request from its control socket.  A signal left to its default ends the process.\<close>

datatype event = Signal sig | Shutdown | Restart

fun on_event :: "event \<Rightarrow> run_state \<Rightarrow> run_state option" where
  "on_event (Signal s) st = (case sig_table st s of SIG_DFL \<Rightarrow> None | SIG_IGN \<Rightarrow> Some st | Sig_Term_Handler \<Rightarrow> Some (sig_term_handler st))"
| "on_event Shutdown st = Some (rss_daemon_request_shutdown st)"
| "on_event Restart st = Some (rss_daemon_request_restart st)"

fun on_events :: "event list \<Rightarrow> run_state \<Rightarrow> run_state option" where
  "on_events [] st = Some st"
| "on_events (e # es) st = (case on_event e st of None \<Rightarrow> None | Some st \<Rightarrow> on_events es st)"

section \<open>Scheduling\<close>

record sched_answers =
  online :: int
  affinity_ok :: bool
  fifo_ok :: bool

definition get_num_cpus :: "int \<Rightarrow> int" where
  "get_num_cpus n = (if n > 0 then to_int32 n else 1)"

definition apply_scheduling :: "sched_answers \<Rightarrow> rss_config_t option \<Rightarrow> string \<Rightarrow> daemon_op list \<times> rss_config_t option" where
  "apply_scheduling w cfg name =
     (let ncpus = get_num_cpus (online w);
          (cpu, cfg) = rss_config_get_int cfg (Some name) ''cpu_affinity'' (- 1);
          ops = (if cpu \<ge> 0 then
                   if ncpus \<le> 1 then [Log RSS_LOG_DEBUG]
                   else if cpu \<ge> ncpus then [Log RSS_LOG_WARN]
                   else [Set_affinity cpu, Log (if affinity_ok w then RSS_LOG_INFO else RSS_LOG_WARN)]
                 else []);
          (prio, cfg) = rss_config_get_int cfg (Some name) ''sched_priority'' (- 1);
          ops' = (if prio > 0 then [Set_fifo prio, Log (if fifo_ok w then RSS_LOG_INFO else RSS_LOG_WARN)] else [])
      in (ops @ ops', cfg))"

section \<open>Start-up\<close>

record rss_daemon_ctx_t =
  ctx_name :: string
  ctx_cfg :: "rss_config_t option"
  ctx_config_path :: string
  ctx_running :: bool   \<comment> \<open>the pointer to the run flag is set\<close>
  ctx_foreground :: bool
  ctx_debug :: bool

record init_answers =
  build_hash :: "string option"
  build_time :: "string option"
  build_platform :: "string option"
  has_hook :: bool
  has_ipc :: bool
  file_text :: "string \<Rightarrow> string option"
  log_opens :: "string \<Rightarrow> bool"
  exe_link :: "string option"
  resolved :: "string option"
  daemonizes :: daemonize_answers
  schedules :: sched_answers

record init_state =
  ctx :: rss_daemon_ctx_t
  logs :: log_state
  run :: run_state

definition banner :: "string option \<Rightarrow> string option \<Rightarrow> string option \<Rightarrow> string \<Rightarrow> string option \<Rightarrow> string" where
  "banner hash btime plat name features =
     (let u = (\<lambda>v. case v of None \<Rightarrow> ''unknown'' | Some t \<Rightarrow> t)
      in take 255 (''Raptor Streaming System '' @ [CHR 0xE2, CHR 0x80, CHR 0x94] @ '' '' @ name @ '' ['' @ u hash @ ''] built for ''
           @ u plat @ '' on '' @ u btime @ (case features of None \<Rightarrow> [] | Some f \<Rightarrow> '' ('' @ f @ '')'')))"

text \<open>A leading space is skipped, an empty list of features is none.\<close>

definition trim_features :: "string option \<Rightarrow> string option" where
  "trim_features features =
     (case features of None \<Rightarrow> None
      | Some f \<Rightarrow> (let f = (if f \<noteq> [] \<and> hd f = CHR '' '' then tl f else f) in if f = [] then None else Some f))"

text \<open>What \<open>getopt\<close> finds in the argument list, in order.\<close>

datatype getopt_item = Opt_c string | Opt_f | Opt_d | Opt_v | Opt_h | Opt_other

record options =
  o_config_path :: string
  o_foreground :: bool
  o_debug :: bool
  o_show_help :: bool

fun parse_options :: "getopt_item list \<Rightarrow> options \<Rightarrow> int + options" where
  "parse_options [] opt = Inr opt"
| "parse_options (Opt_c p # is) opt = parse_options is (opt\<lparr>o_config_path := p\<rparr>)"
| "parse_options (Opt_f # is) opt = parse_options is (opt\<lparr>o_foreground := True\<rparr>)"
| "parse_options (Opt_d # is) opt = parse_options is (opt\<lparr>o_debug := True\<rparr>)"
| "parse_options (Opt_v # is) opt = Inl 1"
| "parse_options (Opt_h # is) opt = parse_options is (opt\<lparr>o_show_help := True\<rparr>)"
| "parse_options (Opt_other # is) opt = Inl (- 1)"

definition level_of :: "string \<Rightarrow> rss_log_level_t option" where
  "level_of s =
     (if s = ''fatal'' then Some RSS_LOG_FATAL else if s = ''error'' then Some RSS_LOG_ERROR
      else if s = ''warn'' then Some RSS_LOG_WARN else if s = ''info'' then Some RSS_LOG_INFO
      else if s = ''debug'' then Some RSS_LOG_DEBUG else if s = ''trace'' then Some RSS_LOG_TRACE else None)"

definition init_level :: "bool \<Rightarrow> string \<Rightarrow> rss_log_level_t" where
  "init_level debug s = (if debug then RSS_LOG_TRACE else case level_of s of None \<Rightarrow> RSS_LOG_INFO | Some l \<Rightarrow> l)"

definition init_target :: "bool \<Rightarrow> string \<Rightarrow> rss_log_target_t" where
  "init_target foreground s =
     (if foreground then RSS_LOG_TARGET_STDERR else if s = ''stderr'' then RSS_LOG_TARGET_STDERR
      else if s = ''file'' then RSS_LOG_TARGET_FILE else RSS_LOG_TARGET_SYSLOG)"

definition string_of :: "string option \<Rightarrow> string" where
  "string_of v = (case v of None \<Rightarrow> [] | Some s \<Rightarrow> s)"

text \<open>Logging is initialised again from the configuration.\<close>

definition relog :: "(string \<Rightarrow> bool) \<Rightarrow> options \<Rightarrow> string \<Rightarrow> rss_config_t option \<Rightarrow> log_state \<Rightarrow>
    log_record list \<times> log_state \<times> rss_config_t option" where
  "relog opens opt name cfg st =
     (let (cfg_level, cfg) = rss_config_get_str cfg (Some ''log'') (Some ''level'') (Some ''info'');
          (cfg_target, cfg) = rss_config_get_str cfg (Some ''log'') (Some ''target'') (Some ''syslog'');
          (cfg_file, cfg) = rss_config_get_str cfg (Some ''log'') (Some ''file'') (Some []);
          f = string_of cfg_file;
          (rs, st) = rss_log_init opens (Some name) (init_level (o_debug opt) (string_of cfg_level))
            (init_target (o_foreground opt) (string_of cfg_target)) (if f \<noteq> [] then Some f else None) st
      in (rs, st, cfg))"

definition exe_path :: "string option \<Rightarrow> string option \<Rightarrow> string list \<Rightarrow> string" where
  "exe_path link real argv =
     (case link of Some l \<Rightarrow> take 255 l
      | None \<Rightarrow> (case real of Some r \<Rightarrow> if argv \<noteq> [] then take 255 r else [] | None \<Rightarrow> []))"

text \<open>The start behind the loading of the configuration.\<close>

definition init_configured :: "init_answers \<Rightarrow> string \<Rightarrow> string list \<Rightarrow> options \<Rightarrow> rss_config_t \<Rightarrow> init_state \<Rightarrow>
    daemon_op list \<times> outcome \<times> init_state" where
  "init_configured w name argv opt cfg st =
     (let (rs, logs1, cfg) = relog (log_opens w) opt name (Some cfg) (logs st);
          st = st\<lparr>logs := logs1, ctx := (ctx st)\<lparr>ctx_cfg := cfg\<rparr>,
                  run := (run st)\<lparr>g_argv := argv, g_exe_path := exe_path (exe_link w) (resolved w) argv\<rparr>\<rparr>
      in case rss_daemonize (daemonizes w) name (o_foreground opt) of
           (ops, Exits c) \<Rightarrow> (map Print_record rs @ ops, Exits c, st)
         | (ops, Returns r) \<Rightarrow>
             if r < 0 then (map Print_record rs @ ops @ [Log RSS_LOG_FATAL], Returns (- 1), st\<lparr>ctx := (ctx st)\<lparr>ctx_cfg := None\<rparr>\<rparr>)
             else
               let (ops', cfg) = apply_scheduling (schedules w) cfg name
               in (map Print_record rs @ ops @ (if has_ipc w then [Ipc_set_log] else []) @ ops' @ [Log RSS_LOG_INFO], Returns 0,
                   st\<lparr>run := rss_signal_init (run st), ctx := (ctx st)\<lparr>ctx_running := True, ctx_cfg := cfg\<rparr>\<rparr>))"

text \<open>The options before any argument is read.\<close>

definition no_options :: options where
  "no_options = \<lparr>o_config_path = ''/etc/raptor.conf'', o_foreground = False, o_debug = False, o_show_help = False\<rparr>"

text \<open>
  \<open>ctx_ptr\<close> and \<open>name_ptr\<close> are the pointers of the caller, \<open>None\<close> for \<open>NULL\<close>; what the context held before is
  overwritten.  The state is \<open>None\<close> when the call touches nothing.
\<close>

definition rss_daemon_init :: "init_answers \<Rightarrow> rss_daemon_ctx_t option \<Rightarrow> string option \<Rightarrow> string list \<Rightarrow> getopt_item list \<Rightarrow>
    string option \<Rightarrow> log_state \<Rightarrow> run_state \<Rightarrow> daemon_op list \<times> outcome \<times> init_state option" where
  "rss_daemon_init w ctx_ptr name_ptr argv items features logs0 run0 =
     (if ctx_ptr = None \<or> name_ptr = None then ([], Returns (- 1), None)
      else let
          name = the name_ptr;
          c0 = \<lparr>ctx_name = name, ctx_cfg = None, ctx_config_path = [], ctx_running = False, ctx_foreground = False, ctx_debug = False\<rparr>;
          st = \<lparr>ctx = c0, logs = logs0, run = run0\<rparr>;
          ops = Banner (banner (build_hash w) (build_time w) (build_platform w) name (trim_features features))
            # (if has_hook w then [Post_banner] else [])
      in case parse_options items no_options of
           Inl r \<Rightarrow> (if r < 0 then ops @ [Usage] else ops, Returns r, Some st)
         | Inr opt \<Rightarrow>
             if o_show_help opt then (ops @ [Usage], Returns 1, Some st)
             else
               let st = st\<lparr>ctx := c0\<lparr>ctx_config_path := o_config_path opt, ctx_foreground := o_foreground opt, ctx_debug := o_debug opt\<rparr>,
                     logs := snd (rss_log_init (log_opens w) (Some name) (if o_debug opt then RSS_LOG_TRACE else RSS_LOG_INFO)
                               RSS_LOG_TARGET_BOTH None (logs st))\<rparr>
               in case rss_config_load (file_text w (o_config_path opt)) of
                    None \<Rightarrow> (ops @ [Log RSS_LOG_FATAL], Returns (- 1), Some st)
                  | Some cfg \<Rightarrow> (case init_configured w name argv opt cfg st of (ops', out, st) \<Rightarrow> (ops @ ops', out, Some st)))"

lemma length_show_int:
  assumes "- (2 ^ 31) \<le> i" and "i < 2 ^ 31"
  shows "length (show_int i) \<le> 11"
proof -
  have "nat i < 10 ^ 10" "nat (- i) < 10 ^ 10" using assms by simp_all
  then have "length (dec (nat i)) \<le> 10" "length (dec (nat (- i))) \<le> 10" using length_dec by simp_all
  then show ?thesis by (simp add: show_int_def)
qed

lemma pid_line_whole: "- (2 ^ 31) \<le> i \<Longrightarrow> i < 2 ^ 31 \<Longrightarrow> pid_line i = show_int i @ [LF]"
  using length_show_int [of i] by (simp add: pid_line_def)

text \<open>A machine on which everything succeeds, for concrete runs.\<close>

definition fair :: "string \<Rightarrow> init_answers" where
  "fair f = \<lparr>build_hash = None, build_time = None, build_platform = None, has_hook = False, has_ipc = False,
      file_text = (\<lambda>p. Some f), log_opens = (\<lambda>p. True), exe_link = None,
      resolved = None, daemonizes = \<lparr>pid_opens = True, lock_free = True, first_fork = 0, setsid_ok = True, second_fork = 0,
        null_fd = 3, chdir_ok = True, trunc_ok = True, getpid = 77, wrote = 3\<rparr>,
      schedules = \<lparr>online = 1, affinity_ok = True, fifo_ok = True\<rparr>\<rparr>"

section \<open>Properties of daemonization\<close>

text \<open>Where the calls of one process leave it in the protocol of the PID file, \<open>i\<close> being the file it opens.\<close>

fun pc_after :: "bool \<Rightarrow> nat \<Rightarrow> daemon_op list \<Rightarrow> pc \<Rightarrow> pc" where
  "pc_after free i [] c = c"
| "pc_after free i (Open_pid p # ops) c = pc_after free i ops (Opened i)"
| "pc_after free i (Flock # ops) c = pc_after free i ops (if free then Holding i else c)"
| "pc_after free i (Close_pid # ops) c = pc_after free i ops Idle"
| "pc_after free i (Unlink p # ops) c = pc_after free i ops (Leaving i)"
| "pc_after free i (_ # ops) c = pc_after free i ops c"

lemma pc_after_append [simp]: "pc_after free i (xs @ ys) c = pc_after free i ys (pc_after free i xs c)"
  by (induction free i xs c rule: pc_after.induct) simp_all

lemma pid_file_after_append [simp]: "pid_file_after w (xs @ ys) s = pid_file_after w ys (pid_file_after w xs s)"
  by (induction w xs s rule: pid_file_after.induct) simp_all

lemma redirect_after [simp]: "pc_after free i (redirect fd) c = c" "pid_file_after w (redirect fd) s = s"
  by (simp_all add: redirect_def)

lemma detach_after:
  assumes "detach w = (ops, res)"
  shows "res = None \<longleftrightarrow> first_fork w = 0 \<and> setsid_ok w \<and> second_fork w = 0"
    and "res \<noteq> Some (Returns 0)"
    and "pid_file_after w ops s = s"
    and "res = None \<Longrightarrow> pc_after free i ops c = c"
  using assms by (auto simp: detach_def split: if_splits)

lemma put_pid_after:
  assumes "put_pid w = (ops, r)"
  shows "r = Returns (if wrote w = int (length (show_int (getpid w) @ [LF])) then 0 else - 1)"
    and "pc_after free i ops c = (if r = Returns 0 then c else Idle)"
    and "pid_file_after w ops s = put (if trunc_ok w then [] else s) 0 (take (nat (wrote w)) (pid_line (getpid w)))"
  using assms by (auto simp: put_pid_def Let_def split: if_splits)

lemma daemonize_ok_wrote:
  assumes "rss_daemonize w name already = (ops, Returns 0)"
  shows "wrote w = int (length (show_int (getpid w) @ [LF]))"
proof -
  obtain pops pr where p: "put_pid w = (pops, pr)" by (cases "put_pid w")
  obtain dops res where d: "detach w = (dops, res)" by (cases "detach w")
  show ?thesis
    using assms put_pid_after(1) [OF p] detach_after(2) [OF d]
    by (cases res) (auto simp: rss_daemonize_def p d Let_def split: if_splits)
qed

text \<open>
  Daemonizing succeeds exactly if the PID file could be opened and locked, the process is the last one of the
  double fork (or none was asked for) and the whole PID was written; and then the process holds the lock, while a
  file somebody else has locked is left as it is.
\<close>

lemma daemonize_outcome:
  "case rss_daemonize w name already of (ops, r) \<Rightarrow>
     (r = Returns 0 \<longleftrightarrow> pid_opens w \<and> lock_free w \<and> (already \<or> first_fork w = 0 \<and> setsid_ok w \<and> second_fork w = 0)
        \<and> wrote w = int (length (show_int (getpid w)) + 1))
     \<and> (if r = Returns 0 then pc_after (lock_free w) i ops Idle = Holding i
        else if pid_opens w \<and> \<not> lock_free w then pc_after False i ops Idle = Idle \<and> pid_file_after w ops s = s
        else True)"
proof (cases "pid_opens w \<and> lock_free w")
  case False
  then show ?thesis by (auto simp: rss_daemonize_def Let_def)
next
  case True
  obtain pops pr where p: "put_pid w = (pops, pr)" by (cases "put_pid w")
  note after = put_pid_after [OF p]
  show ?thesis
  proof (cases already)
    case True
    then show ?thesis using \<open>pid_opens w \<and> lock_free w\<close> after(1,2) by (simp add: rss_daemonize_def p)
  next
    case False
    obtain dops res where d: "detach w = (dops, res)" by (cases "detach w")
    show ?thesis
      using \<open>pid_opens w \<and> lock_free w\<close> False after(1,2) detach_after [OF d]
      by (cases res) (auto simp: rss_daemonize_def p d)
  qed
qed

text \<open>
  C30. \<open>rss_daemon_check\<close> finds the daemon that started: whatever the PID file held, and even if it could not be
  truncated, the check answers the PID of the last daemonization while that process lives, permitted to signal it
  or not, and 0 when it is gone.
\<close>

lemma daemon_check_finds:
  assumes run: "rss_daemonize w name already = (ops, Returns 0)"
    and pid: "0 < getpid w" "getpid w < 2 ^ 31"
  shows "rss_daemon_check (Some (pid_file_after w ops old)) kill = Some (if kill (getpid w) = No_Process then 0 else getpid w)"
proof -
  let ?t = "if trunc_ok w then [] else old" and ?l = "show_int (getpid w) @ [LF]"
  obtain pops pr where p: "put_pid w = (pops, pr)" by (cases "put_pid w")
  obtain dops res where d: "detach w = (dops, res)" by (cases "detach w")
  note after = put_pid_after [OF p] and dafter = detach_after [OF d]
  have line: "pid_line (getpid w) = ?l" using pid by (simp add: pid_line_whole)
  have wrote: "wrote w = int (length ?l)" using daemonize_ok_wrote [OF run] by simp
  have "pid_file_after w ops old = put ?t 0 ?l"
    using run dafter(2,3) after(3) [of old] line wrote
    by (cases res) (auto simp: rss_daemonize_def p d Let_def split: if_splits)
  then have held: "pid_file_after w ops old = show_int (getpid w) @ (LF # drop (length ?l) ?t)" by (simp add: put_def)
  have "\<not> isdigit LF" by (simp add: isdigit_def ccode_def)
  then have "scan_int (length (show_int (getpid w) @ (LF # drop (length ?l) ?t))) (show_int (getpid w) @ (LF # drop (length ?l) ?t))
      = Some (getpid w, LF # drop (length ?l) ?t)"
    by (intro scan_int_show_int) simp_all
  moreover have "to_int32 (getpid w) = getpid w" using pid by (intro to_int32_id) simp_all
  ultimately show ?thesis
    unfolding held rss_daemon_check_def using pid by (simp split: kill_answer.split)
qed

lemma daemon_check_finds_witness:
  "rss_daemon_check (Some (pid_file_after (daemonizes (fair []) \<lparr>trunc_ok := False\<rparr>)
      (fst (rss_daemonize (daemonizes (fair []) \<lparr>trunc_ok := False\<rparr>) ''rvd'' False)) ''31415'')) (\<lambda>p. Not_Permitted) = Some 77"
proof -
  let ?w = "daemonizes (fair []) \<lparr>trunc_ok := False\<rparr>"
  obtain ops out where run: "rss_daemonize ?w ''rvd'' False = (ops, out)" by (cases "rss_daemonize ?w ''rvd'' False")
  have "out = Returns 0"
    using run by (auto simp: fair_def rss_daemonize_def detach_def put_pid_def Let_def show_int_def dec.simps)
  with run daemon_check_finds [of ?w "''rvd''" False ops "''31415''" "\<lambda>p. Not_Permitted"] show ?thesis
    by (simp add: fair_def)
qed

section \<open>Properties of a running daemon\<close>

definition stops :: "event \<Rightarrow> bool" where
  "stops e \<longleftrightarrow> e \<in> {Signal SIGTERM, Signal SIGINT, Shutdown, Restart}"

definition handles :: "run_state \<Rightarrow> bool" where
  "handles st \<longleftrightarrow> sig_table st SIGTERM = Sig_Term_Handler \<and> sig_table st SIGINT = Sig_Term_Handler
     \<and> sig_table st SIGHUP = SIG_IGN \<and> sig_table st SIGPIPE = SIG_IGN"

lemma on_event_handles:
  "handles st \<Longrightarrow> \<exists>st'. on_event e st = Some st' \<and> handles st' \<and> g_running st' = (if stops e then 0 else g_running st)
     \<and> g_restart st' = (if e = Restart then 1 else g_restart st)"
proof (cases e)
  case (Signal s)
  then show "handles st \<Longrightarrow> ?thesis" by (cases s) (simp_all add: handles_def stops_def sig_term_handler_def)
qed (simp_all add: handles_def stops_def rss_daemon_request_shutdown_def rss_daemon_request_restart_def)

lemma on_events_handles:
  "handles st \<Longrightarrow> \<exists>st'. on_events es st = Some st' \<and> g_running st' = (if \<exists>e \<in> set es. stops e then 0 else g_running st)
     \<and> g_restart st' = (if Restart \<in> set es then 1 else g_restart st)"
proof (induction es arbitrary: st)
  case (Cons e es)
  obtain st1 where s1: "on_event e st = Some st1" "handles st1" "g_running st1 = (if stops e then 0 else g_running st)"
      "g_restart st1 = (if e = Restart then 1 else g_restart st)"
    using on_event_handles [OF Cons.prems] by blast
  obtain st2 where s2: "on_events es st1 = Some st2" "g_running st2 = (if \<exists>e \<in> set es. stops e then 0 else g_running st1)"
      "g_restart st2 = (if Restart \<in> set es then 1 else g_restart st1)"
    using Cons.IH [OF s1(2)] by blast
  have "on_events (e # es) st = Some st2" using s1(1) s2(1) by simp
  then show ?case using s1(3,4) s2(2,3) by (intro exI [of _ st2]) simp
qed simp

text \<open>
  With the handlers of \<open>rss_signal_init\<close> installed nothing that happens ends the process at once: it is told to
  stop exactly by a SIGTERM, a SIGINT, a shutdown or a restart request, SIGHUP and SIGPIPE change nothing, and the
  cleanup executes the daemon again exactly if a restart was requested, whatever arrived before or after.
\<close>

lemma daemon_events:
  "case on_events es (rss_signal_init st) of None \<Rightarrow> False
   | Some st' \<Rightarrow>
       rss_running st' = (if \<exists>e \<in> set es. stops e then 0 else 1)
       \<and> (rss_daemon_restart_pending st' \<longleftrightarrow> Restart \<in> set es \<or> rss_daemon_restart_pending st)
       \<and> hd (rss_daemon_cleanup name st') = Unlink (make_pid_path name)
       \<and> ((\<exists>exe argv. Execv exe argv \<in> set (rss_daemon_cleanup name st')) \<longleftrightarrow> rss_daemon_restart_pending st')"
proof -
  have "handles (rss_signal_init st)" by (simp add: handles_def rss_signal_init_def)
  from on_events_handles [OF this, of es] obtain st' where "on_events es (rss_signal_init st) = Some st'"
      "g_running st' = (if \<exists>e \<in> set es. stops e then 0 else 1)" "g_restart st' = (if Restart \<in> set es then 1 else g_restart st)"
    by (auto simp: rss_signal_init_def)
  then show ?thesis
    by (simp add: rss_running_def rss_daemon_restart_pending_def rss_daemon_cleanup_def rss_daemon_exec_def)
qed

section \<open>Properties of the start-up\<close>

text \<open>What the file configures for the logger.\<close>

definition log_setting :: "string \<Rightarrow> string \<Rightarrow> string \<Rightarrow> string" where
  "log_setting f k d = (case file_map (split_lines f) (fold_name ''log'', fold_name k) of None \<Rightarrow> d | Some v \<Rightarrow> v)"

definition chosen_target :: "(string \<Rightarrow> bool) \<Rightarrow> bool \<Rightarrow> string \<Rightarrow> rss_log_target_t" where
  "chosen_target opens foreground f =
     (let t = init_target foreground (log_setting f ''target'' ''syslog''); p = log_setting f ''file'' []
      in if t = RSS_LOG_TARGET_FILE \<and> p \<noteq> [] \<and> \<not> opens p then RSS_LOG_TARGET_STDERR else t)"

text \<open>A getter with a default, on a configuration that agrees with the file.\<close>

definition loaded_as :: "string \<Rightarrow> rss_config_t option \<Rightarrow> bool" where
  "loaded_as f c \<longleftrightarrow> (\<exists>cfg. c = Some cfg \<and> cfg_ok cfg \<and> (\<forall>s k. find_value cfg s k = file_map (split_lines f) (fold_name s, fold_name k)))"

lemma get_log_setting:
  assumes "loaded_as f c" and "length k < 64" and "cstr k" and "cstr d" and "length d < 256"
    and "rss_config_get_str c (Some ''log'') (Some k) (Some d) = (v, c')"
  shows "loaded_as f c' \<and> string_of v = log_setting f k d"
proof -
  obtain cfg where c: "c = Some cfg" "cfg_ok cfg" "\<And>s k. find_value cfg s k = file_map (split_lines f) (fold_name s, fold_name k)"
    using assms(1) by (auto simp: loaded_as_def)
  have small: "length (c_str ''log'') < 64" "length (c_str k) < 64" using assms(2) c_str_cstr [OF assms(3)] by (code_simp, simp)
  have d: "field 256 d = d" using assms(5) c_str_cstr [OF assms(4)] by (simp add: field_def)
  have "v = (case find_value cfg ''log'' k of Some v \<Rightarrow> Some v | None \<Rightarrow> Some d)"
    using get_str_value [OF small(2), of cfg "''log''" "Some d"] assms(6) c(1) d by (simp split: option.splits)
  then have v: "string_of v = log_setting f k d"
    using c(3) by (simp add: log_setting_def string_of_def split: option.splits)
  have "loaded_as f c'"
  proof (cases "find_value cfg ''log'' k")
    case None
    then have "c' = Some (store_default ''log'' k d cfg)"
      using get_str_default [OF None, of d] assms(6) c(1) by simp
    then show ?thesis using config_default [OF c(2) small None, of d] c(3) by (simp add: loaded_as_def)
  next
    case (Some x)
    then have "c' = c" using assms(6) c(1) get_str_found [OF Some, of "Some d"] by auto
    then show ?thesis using assms(1) by simp
  qed
  then show ?thesis using v by simp
qed

lemma get_int_keeps:
  assumes "loaded_as f c" and "length (c_str s) < 64" and "length (c_str k) < 64"
    and "rss_config_get_int c (Some s) k d = (v, c')"
  shows "loaded_as f c'"
proof -
  obtain cfg where c: "c = Some cfg" "cfg_ok cfg" "\<And>s k. find_value cfg s k = file_map (split_lines f) (fold_name s, fold_name k)"
    using assms(1) by (auto simp: loaded_as_def)
  show ?thesis
  proof (cases "find_value cfg s k")
    case None
    have "c' = Some (store_default s k (show_int d) cfg)"
      using assms(4) None by (auto simp: rss_config_get_int_def rss_config_get_str_def c(1))
    then show ?thesis using config_default [OF c(2) assms(2,3) None, of "show_int d"] c(3) by (simp add: loaded_as_def)
  next
    case (Some x)
    have "c' = c" using assms(4) Some by (simp add: rss_config_get_int_def get_str_found c(1) split: prod.splits if_splits)
    then show ?thesis using assms(1) by simp
  qed
qed

lemma relog_as_configured:
  assumes "loaded_as f c" and "relog opens opt name c st = (rs, st', c')"
  shows "loaded_as f c' \<and> s_level st' = init_level (o_debug opt) (log_setting f ''level'' ''info'')
     \<and> s_target st' = chosen_target opens (o_foreground opt) f"
proof -
  obtain v1 c1 where g1: "rss_config_get_str c (Some ''log'') (Some ''level'') (Some ''info'') = (v1, c1)" by fastforce
  obtain v2 c2 where g2: "rss_config_get_str c1 (Some ''log'') (Some ''target'') (Some ''syslog'') = (v2, c2)" by fastforce
  obtain v3 c3 where g3: "rss_config_get_str c2 (Some ''log'') (Some ''file'') (Some []) = (v3, c3)" by fastforce
  have s1: "loaded_as f c1 \<and> string_of v1 = log_setting f ''level'' ''info''"
    by (rule get_log_setting [OF assms(1) _ _ _ _ g1]) code_simp+
  have s2: "loaded_as f c2 \<and> string_of v2 = log_setting f ''target'' ''syslog''"
    by (rule get_log_setting [OF _ _ _ _ _ g2]) (use s1 in simp, code_simp+)
  have s3: "loaded_as f c3 \<and> string_of v3 = log_setting f ''file'' []"
    by (rule get_log_setting [OF _ _ _ _ _ g3]) (use s2 in simp, code_simp+)
  show ?thesis
    using assms(2) s1 s2 s3
    by (auto simp: relog_def g1 g2 g3 rss_log_init_def chosen_target_def Let_def split: prod.splits if_splits rss_log_target_t.splits)
qed

lemma scheduling_keeps:
  assumes "loaded_as f c" and "length (c_str name) < 64" and "apply_scheduling w c name = (ops, c')"
  shows "loaded_as f c' \<and> pc_after free i ops x = x"
proof -
  obtain v1 c1 where g1: "rss_config_get_int c (Some name) ''cpu_affinity'' (- 1) = (v1, c1)" by fastforce
  obtain v2 c2 where g2: "rss_config_get_int c1 (Some name) ''sched_priority'' (- 1) = (v2, c2)" by fastforce
  have k: "length (c_str ''cpu_affinity'') < 64" "length (c_str ''sched_priority'') < 64" by code_simp+
  have "loaded_as f c1" by (rule get_int_keeps [OF assms(1,2) k(1) g1])
  then have "loaded_as f c2" by (rule get_int_keeps [OF _ assms(2) k(2) g2])
  then show ?thesis using assms(3) by (auto simp: apply_scheduling_def g1 g2 Let_def)
qed

lemma print_records_after [simp]: "pc_after free i (map Print_record rs) c = c"
  by (induction rs) simp_all

lemma signal_init [simp]: "handles (rss_signal_init st)" "rss_running (rss_signal_init st) = 1"
  by (simp_all add: handles_def rss_signal_init_def rss_running_def)

lemma parse_options_Inl: "parse_options items opt = Inl r \<Longrightarrow> r = 1 \<or> r = - 1"
  by (induction items opt rule: parse_options.induct) auto

text \<open>The processes of the double fork: a parent left behind by either fork, and the one that goes on.\<close>

definition fork_parent :: "daemonize_answers \<Rightarrow> bool" where
  "fork_parent w \<longleftrightarrow> first_fork w > 0 \<or> first_fork w = 0 \<and> setsid_ok w \<and> second_fork w > 0"

definition fork_child :: "daemonize_answers \<Rightarrow> bool" where
  "fork_child w \<longleftrightarrow> first_fork w = 0 \<and> setsid_ok w \<and> second_fork w = 0"

definition has_lock :: "daemonize_answers \<Rightarrow> bool" where
  "has_lock w \<longleftrightarrow> pid_opens w \<and> lock_free w"

definition pid_written :: "daemonize_answers \<Rightarrow> bool" where
  "pid_written w \<longleftrightarrow> wrote w = int (length (show_int (getpid w) @ [LF]))"

lemma detach_result:
  "case snd (detach w) of None \<Rightarrow> fork_child w | Some (Exits c) \<Rightarrow> c = 0 \<and> fork_parent w | Some (Returns r) \<Rightarrow> r < 0 \<and> \<not> fork_parent w"
  by (simp add: detach_def fork_parent_def fork_child_def)

lemma daemonize_result:
  assumes "rss_daemonize w name already = (ops, out)"
  shows "case out of
      Exits c \<Rightarrow> c = 0 \<and> has_lock w \<and> \<not> already \<and> fork_parent w
    | Returns r \<Rightarrow> \<not> (has_lock w \<and> \<not> already \<and> fork_parent w)
        \<and> (if r < 0 then True
           else r = 0 \<and> has_lock w \<and> (already \<or> fork_child w) \<and> pid_written w \<and> pc_after (lock_free w) i ops c = Holding i)"
proof -
  obtain pops pr where p: "put_pid w = (pops, pr)" by (cases "put_pid w")
  obtain dops res where d: "detach w = (dops, res)" by (cases "detach w")
  note after = put_pid_after(1,2) [OF p] and dafter = detach_after(4) [OF d]
  have one: "\<not> (fork_child w \<and> fork_parent w)" by (simp add: fork_child_def fork_parent_def)
  show ?thesis
  proof (cases "has_lock w")
    case False
    then show ?thesis using assms by (auto simp: rss_daemonize_def has_lock_def Let_def split: if_splits)
  next
    case lock: True
    show ?thesis
    proof (cases already)
      case True
      then show ?thesis using assms lock after by (auto simp: rss_daemonize_def has_lock_def pid_written_def p split: if_splits)
    next
      case False
      then show ?thesis
        using assms lock after dafter one detach_result [of w]
        by (cases res) (auto simp: rss_daemonize_def has_lock_def pid_written_def p d split: if_splits outcome.splits)
    qed
  qed
qed

lemma init_configured_outcome:
  assumes "loaded_as f (Some cfg)" and "length (c_str name) < 64" and "init_configured w name argv opt cfg st = (ops, out, st')"
  shows "ctx_config_path (ctx st') = ctx_config_path (ctx st) \<and> ctx_foreground (ctx st') = ctx_foreground (ctx st) \<and> ctx_debug (ctx st') = ctx_debug (ctx st)
     \<and> ctx_name (ctx st') = ctx_name (ctx st) \<and>
     (case out of
        Exits c \<Rightarrow> c = 0 \<and> has_lock (daemonizes w) \<and> \<not> o_foreground opt \<and> fork_parent (daemonizes w)
      | Returns r \<Rightarrow> \<not> (has_lock (daemonizes w) \<and> \<not> o_foreground opt \<and> fork_parent (daemonizes w)) \<and>
          (if r = 0 then
            has_lock (daemonizes w) \<and> (o_foreground opt \<or> fork_child (daemonizes w)) \<and> pid_written (daemonizes w)
            \<and> loaded_as f (ctx_cfg (ctx st')) \<and> rss_running (run st') = 1 \<and> handles (run st')
            \<and> pc_after (lock_free (daemonizes w)) i ops c0 = Holding i
            \<and> s_level (logs st') = init_level (o_debug opt) (log_setting f ''level'' ''info'')
            \<and> s_target (logs st') = chosen_target (log_opens w) (o_foreground opt) f
          else ctx_cfg (ctx st') = None \<and> r = - 1))"
proof -
  obtain rs logs1 c1 where l: "relog (log_opens w) opt name (Some cfg) (logs st) = (rs, logs1, c1)" by (metis prod_cases3)
  note log = relog_as_configured [OF assms(1) l]
  obtain dops dout where d: "rss_daemonize (daemonizes w) name (o_foreground opt) = (dops, dout)" by fastforce
  note dae = daemonize_result [OF d]
  obtain sops c2 where s: "apply_scheduling (schedules w) c1 name = (sops, c2)" by fastforce
  have sch: "loaded_as f c2" "\<And>free i x. pc_after free i sops x = x"
    using scheduling_keeps [OF _ assms(2) s] log by blast+
  show ?thesis
  proof (cases dout)
    case (Exits e)
    then show ?thesis using assms(3) dae by (auto simp: init_configured_def l d Let_def)
  next
    case (Returns r)
    show ?thesis
      using assms(3) dae [of i] log sch Returns
      by (auto simp: init_configured_def l d s Let_def split: if_splits)
  qed
qed

text \<open>The starts that leave a parent behind: they reach the double fork, and this process is not the one that goes on.\<close>

definition left_behind :: "init_answers \<Rightarrow> getopt_item list \<Rightarrow> bool" where
  "left_behind w items \<longleftrightarrow>
     (case parse_options items no_options of Inl r \<Rightarrow> False
      | Inr opt \<Rightarrow> \<not> o_show_help opt \<and> file_text w (o_config_path opt) \<noteq> None
          \<and> has_lock (daemonizes w) \<and> \<not> o_foreground opt \<and> fork_parent (daemonizes w))"

text \<open>
  C11. How a start ends.  Without a context or a name it is refused and touches nothing.  The process exits on the
  way, with 0, exactly if it is a parent of the double fork; every failed fork is a return.  With 0 the process is
  the last one of the double fork or none was asked for, its PID is written whole, it holds the lock of its PID file,
  the run flag is set, SIGTERM and SIGINT stop it while SIGHUP and SIGPIPE are ignored, the context holds a
  configuration that reads as the file, and the logger has the level and the target the file configures unless
  \<open>-d\<close> and \<open>-f\<close> override them.  With 1 or -1 the context holds no configuration.
\<close>

lemma daemon_init_outcome:
  assumes readable: "\<forall>p f. file_text w p = Some f \<longrightarrow> cstr f \<and> names_fit f"
    and name: "case name_ptr of None \<Rightarrow> True | Some name \<Rightarrow> length (c_str name) < 64"
  shows "case rss_daemon_init w ctx_ptr name_ptr argv items features logs0 run0 of
     (ops, out, None) \<Rightarrow> (ctx_ptr = None \<or> name_ptr = None) \<and> ops = [] \<and> out = Returns (- 1)
   | (ops, out, Some st) \<Rightarrow> ctx_ptr \<noteq> None \<and> name_ptr = Some (ctx_name (ctx st)) \<and>
     (case out of
        Exits c \<Rightarrow> c = 0 \<and> left_behind w items \<and> \<not> ctx_foreground (ctx st)
      | Returns r \<Rightarrow> \<not> left_behind w items \<and>
          (if r = 0 then
            (case file_text w (ctx_config_path (ctx st)) of None \<Rightarrow> False
             | Some f \<Rightarrow>
                 (ctx_foreground (ctx st) \<or> fork_child (daemonizes w)) \<and> pid_written (daemonizes w)
                 \<and> loaded_as f (ctx_cfg (ctx st)) \<and> rss_running (run st) = 1 \<and> handles (run st)
                 \<and> pc_after (lock_free (daemonizes w)) i ops Idle = Holding i
                 \<and> s_level (logs st) = init_level (ctx_debug (ctx st)) (log_setting f ''level'' ''info'')
                 \<and> s_target (logs st) = chosen_target (log_opens w) (ctx_foreground (ctx st)) f)
          else ctx_cfg (ctx st) = None \<and> (r = 1 \<or> r = - 1)))"
proof (cases "ctx_ptr = None \<or> name_ptr = None")
  case True
  then show ?thesis by (simp add: rss_daemon_init_def)
next
  case ptrs: False
  then obtain c n where ptr: "ctx_ptr = Some c" "name_ptr = Some n" by auto
  show ?thesis
  proof (cases "parse_options items no_options")
    case (Inl r)
    then show ?thesis using parse_options_Inl [OF Inl] by (auto simp: rss_daemon_init_def ptr Let_def left_behind_def)
  next
    case (Inr opt)
    show ?thesis
    proof (cases "o_show_help opt \<or> file_text w (o_config_path opt) = None")
      case True
      then show ?thesis
        by (cases "o_show_help opt") (simp_all add: rss_daemon_init_def ptr Inr Let_def rss_config_load_def left_behind_def)
    next
      case False
      then obtain f where f: "file_text w (o_config_path opt) = Some f" by auto
      obtain cfg where c: "rss_config_load (Some f) = Some cfg" by (simp add: rss_config_load_def)
      have "tracked cfg (file_map (split_lines f))" using load_tracked [of f] readable f c by simp
      then have "loaded_as f (Some cfg)" using c loaded_map [of f] readable f by (simp add: loaded_as_def tracked_def)
      have n: "length (c_str n) < 64" using name ptr by simp
      let ?c0 = "\<lparr>ctx_name = n, ctx_cfg = None, ctx_config_path = o_config_path opt, ctx_running = False,
        ctx_foreground = o_foreground opt, ctx_debug = o_debug opt\<rparr>"
      let ?st = "\<lparr>ctx = ?c0, logs = snd (rss_log_init (log_opens w) (Some n) (if o_debug opt then RSS_LOG_TRACE else RSS_LOG_INFO)
        RSS_LOG_TARGET_BOTH None logs0), run = run0\<rparr>"
      obtain ops' out st' where ic: "init_configured w n argv opt cfg ?st = (ops', out, st')" by (metis prod_cases3)
      let ?hd = "Banner (banner (build_hash w) (build_time w) (build_platform w) n (trim_features features))
        # (if has_hook w then [Post_banner] else [])"
      have run: "rss_daemon_init w ctx_ptr name_ptr argv items features logs0 run0 = (?hd @ ops', out, Some st')"
        using False by (simp add: rss_daemon_init_def ptr Inr Let_def f c ic split del: if_split)
      have behind: "left_behind w items \<longleftrightarrow> has_lock (daemonizes w) \<and> \<not> o_foreground opt \<and> fork_parent (daemonizes w)"
        using False by (simp add: left_behind_def Inr)
      from init_configured_outcome [OF \<open>loaded_as f (Some cfg)\<close> n ic, of i Idle] show ?thesis
        unfolding run behind by (cases out) (simp_all add: f ptr)
    qed
  qed
qed

lemma daemon_init_outcome_witness:
  "\<forall>c logs0 run0. case rss_daemon_init (fair (join_lines [''[log]'', ''Level = debug  # verbose''])) (Some c) (Some ''rvd'')
       [''rvd'', ''-f''] [Opt_f] None logs0 run0 of
     (ops, out, None) \<Rightarrow> False
   | (ops, out, Some st) \<Rightarrow> out = Returns 0 \<and> s_level (logs st) = RSS_LOG_DEBUG \<and> s_target (logs st) = RSS_LOG_TARGET_STDERR
       \<and> pc_after True 5 ops Idle = Holding 5"
proof (intro allI)
  fix c :: rss_daemon_ctx_t and logs0 :: log_state and run0 :: run_state
  let ?ls = "[''[log]'', ''Level = debug  # verbose'']"
  let ?f = "join_lines ?ls"
  obtain ops out res where res: "rss_daemon_init (fair ?f) (Some c) (Some ''rvd'') [''rvd'', ''-f''] [Opt_f] None logs0 run0 = (ops, out, res)"
    by (metis prod_cases3)
  obtain st where st: "res = Some st"
    using res by (auto simp: rss_daemon_init_def fair_def no_options_def rss_config_load_def Let_def split: prod.splits)
  note run = res [unfolded st]
  have f: "cstr ?f" by code_simp
  have ls: "split_lines ?f = ?ls" by (rule split_join_lines) simp
  have n: "names_fit ?f" unfolding names_fit_def ls by code_simp
  have level: "log_setting ?f ''level'' ''info'' = ''debug''" unfolding log_setting_def ls by code_simp
  have out: "out = Returns 0 \<and> ctx_config_path (ctx st) = ''/etc/raptor.conf'' \<and> ctx_foreground (ctx st) \<and> \<not> ctx_debug (ctx st)"
    using run
    by (auto simp: rss_daemon_init_def no_options_def init_configured_def fair_def rss_config_load_def rss_daemonize_def put_pid_def Let_def
        show_int_def dec.simps split: prod.splits)
  have "length (c_str ''rvd'') < 64" by code_simp
  with daemon_init_outcome [where w = "fair ?f" and ctx_ptr = "Some c" and name_ptr = "Some ''rvd''" and argv = "[''rvd'', ''-f'']" and items = "[Opt_f]"
      and features = None and ?logs0.0 = logs0 and ?run0.0 = run0 and i = 5] f n
  have "s_level (logs st) = init_level (ctx_debug (ctx st)) (log_setting ?f ''level'' ''info'')
      \<and> s_target (logs st) = chosen_target (\<lambda>p. True) (ctx_foreground (ctx st)) ?f \<and> pc_after True 5 ops Idle = Holding 5"
    unfolding run using out by (simp add: fair_def del: join_lines_simps)
  then show "case rss_daemon_init (fair ?f) (Some c) (Some ''rvd'') [''rvd'', ''-f''] [Opt_f] None logs0 run0 of
     (ops, out, None) \<Rightarrow> False
   | (ops, out, Some st) \<Rightarrow> out = Returns 0 \<and> s_level (logs st) = RSS_LOG_DEBUG \<and> s_target (logs st) = RSS_LOG_TARGET_STDERR
       \<and> pc_after True 5 ops Idle = Holding 5"
    using out unfolding run by (simp add: level init_level_def level_of_def chosen_target_def init_target_def Let_def del: join_lines_simps)
qed

end
