(* ===== verification/Rss_Vui.thy ===== *)
theory Rss_Vui imports Rss_Prelude "HOL-Library.State_Monad" "HOL-Library.Signed_Division" begin

text \<open>
  The SPS editor of \<open>src/rss_vui.c\<close>: a walk over the bits of an H.264 or H.265 sequence
  parameter set to the colour declarations of its VUI, and an edit in place of the one flag or byte
  found there.

  The walk is a state monad over the bit reader \<open>vui_bits_t\<close>, statement by statement as in the code.
  C leaves \<open>1u << 32\<close> and signed overflow undefined; the reader carries a flag \<open>vb_undef\<close> that records
  such a step, and what is computed after it is of no meaning.
\<close>

section \<open>The bit reader\<close>

abbreviation (input) VUI_RBSP_MAX :: nat where "VUI_RBSP_MAX \<equiv> 1024"
abbreviation (input) VUI_ABSENT :: int where "VUI_ABSENT \<equiv> -2"
abbreviation (input) VUI_BAD :: int where "VUI_BAD \<equiv> -1"

record vui_bits_t =
  vb_buf :: bytes
  vb_size :: nat
  vb_bit :: nat
  vb_overflow :: bool
  vb_undef :: bool

type_synonym 'a reader = "(vui_bits_t, 'a) state"

fun vb_loop :: "nat \<Rightarrow> u32 \<Rightarrow> vui_bits_t \<Rightarrow> u32 \<times> vui_bits_t" where
  "vb_loop 0 v b = (v, b)"
| "vb_loop (Suc n) v b =
     (if vb_bit b \<ge> vb_size b * 8 then (0, b\<lparr>vb_overflow := True\<rparr>)
      else vb_loop n (push_bit 1 v OR (ucast (drop_bit (7 - vb_bit b mod 8) (vb_buf b ! (vb_bit b div 8))) AND 1))
             (b\<lparr>vb_bit := vb_bit b + 1\<rparr>))"

definition vb_read :: "int \<Rightarrow> u32 reader" where
  "vb_read n = State (vb_loop (nat n) 0)"

function ue_zeros :: "nat \<Rightarrow> vui_bits_t \<Rightarrow> nat \<times> vui_bits_t" where
  "ue_zeros zeros b =
     (if vb_overflow b then (zeros, b)
      else case run_state (vb_read 1) b of (v, b) \<Rightarrow>
        if v = 0 \<and> zeros < 32 then ue_zeros (Suc zeros) b else (zeros, b))"
  by pat_completeness auto
termination by (relation "measure (\<lambda>(z, b). 32 - z)") auto

declare ue_zeros.simps [simp del]

definition undefined_if :: "bool \<Rightarrow> unit reader" where
  "undefined_if c = State_Monad.update (\<lambda>b. b\<lparr>vb_undef := vb_undef b \<or> c\<rparr>)"

definition vb_ue :: "u32 reader" where
  "vb_ue = do {
     zeros \<leftarrow> State (ue_zeros 0);
     undefined_if (zeros \<ge> 32);
     r \<leftarrow> vb_read (int zeros);
     State_Monad.return (push_bit zeros 1 - 1 + r)
   }"

definition vb_se :: "int reader" where
  "vb_se = do {
     v \<leftarrow> vb_ue;
     State_Monad.return (if v AND 1 \<noteq> 0 then uint ((v + 1) div 2) else - uint (v div 2))
   }"

text \<open>A statement repeated \<open>n\<close> times.\<close>

fun times_do :: "nat \<Rightarrow> unit reader \<Rightarrow> unit reader" where
  "times_do 0 p = State_Monad.return ()"
| "times_do (Suc n) p = do { p; times_do n p }"

definition skip_bits :: "int \<Rightarrow> unit reader" where
  "skip_bits n = do { vb_read n; State_Monad.return () }"

definition skip_ue :: "unit reader" where
  "skip_ue = do { vb_ue; State_Monad.return () }"

definition skip_se :: "unit reader" where
  "skip_se = do { vb_se; State_Monad.return () }"

text \<open>The returns of a walk: the bit reached, or no such block, unless the reader ran over the end.\<close>

definition at_bit :: "int reader" where
  "at_bit = do { b \<leftarrow> State_Monad.get; State_Monad.return (if vb_overflow b then VUI_BAD else int (vb_bit b)) }"

definition is_absent :: "int reader" where
  "is_absent = do { b \<leftarrow> State_Monad.get; State_Monad.return (if vb_overflow b then VUI_BAD else VUI_ABSENT) }"

text \<open>From \<open>vui_parameters_present\<close> to \<open>video_full_range_flag\<close>, the same in both codecs.\<close>

definition vui_signal_type :: "int reader" where
  "vui_signal_type = do {
     vui_present \<leftarrow> vb_read 1;
     if vui_present = 0 then is_absent
     else do {
       aspect_present \<leftarrow> vb_read 1;
       (if aspect_present \<noteq> 0
        then do { idc \<leftarrow> vb_read 8; if idc = 255 then do { vb_read 16; skip_bits 16 } else State_Monad.return () }
        else State_Monad.return ());
       overscan \<leftarrow> vb_read 1;
       (if overscan \<noteq> 0 then skip_bits 1 else State_Monad.return ());
       signal_present \<leftarrow> vb_read 1;
       if signal_present = 0 then is_absent
       else do { vb_read 3; at_bit }
     }
   }"

section \<open>The H.264 walk\<close>

text \<open>\<open>%\<close> truncates towards zero; the sum is computed in 32 bits with sign.\<close>

fun scaling_entries :: "nat \<Rightarrow> int \<Rightarrow> int \<Rightarrow> unit reader" where
  "scaling_entries 0 lst nxt = State_Monad.return ()"
| "scaling_entries (Suc n) lst nxt = do {
     nxt \<leftarrow> (if nxt \<noteq> 0
       then do {
         d \<leftarrow> vb_se;
         undefined_if (lst + d < - (2 ^ 31) \<or> lst + d + 256 > 2 ^ 31 - 1);
         State_Monad.return ((lst + d + 256) smod 256)
       }
       else State_Monad.return nxt);
     scaling_entries n (if nxt = 0 then lst else nxt) nxt
   }"

definition h264_scaling_list :: "nat \<Rightarrow> unit reader" where
  "h264_scaling_list n = scaling_entries n 8 8"

fun h264_scaling_lists :: "nat \<Rightarrow> nat \<Rightarrow> unit reader" where
  "h264_scaling_lists i 0 = State_Monad.return ()"
| "h264_scaling_lists i (Suc n) = do {
     present \<leftarrow> vb_read 1;
     (if present \<noteq> 0 then h264_scaling_list (if i < 6 then 16 else 64) else State_Monad.return ());
     h264_scaling_lists (Suc i) n
   }"

definition h264_high :: "unit reader" where
  "h264_high = do {
     chroma_format_idc \<leftarrow> vb_ue;
     (if chroma_format_idc = 3 then skip_bits 1 else State_Monad.return ());
     vb_ue; vb_ue; vb_read 1;
     matrix \<leftarrow> vb_read 1;
     if matrix \<noteq> 0 then h264_scaling_lists 0 (if chroma_format_idc = 3 then 12 else 8)
     else State_Monad.return ()
   }"

text \<open>\<open>False\<close> when the walk gives up.\<close>

definition h264_poc :: "bool reader" where
  "h264_poc = do {
     poc_type \<leftarrow> vb_ue;
     if poc_type = 0 then do { vb_ue; State_Monad.return True }
     else if poc_type = 1 then do {
       vb_read 1; vb_se; vb_se;
       n \<leftarrow> vb_ue;
       if n > 255 then State_Monad.return False
       else do { times_do (unat n) skip_se; State_Monad.return True }
     }
     else State_Monad.return True
   }"

definition skip_window :: "unit reader" where
  "skip_window = do {
     window \<leftarrow> vb_read 1;
     if window \<noteq> 0 then do { vb_ue; vb_ue; vb_ue; skip_ue } else State_Monad.return ()
   }"

definition h264_full_range_bit :: "int reader" where
  "h264_full_range_bit = do {
     profile_idc \<leftarrow> vb_read 8;
     vb_read 8; vb_read 8; vb_ue;
     (if profile_idc \<in> {100, 110, 122, 244, 44, 83, 86, 118, 128, 138, 139, 134, 135} then h264_high
      else State_Monad.return ());
     vb_ue;
     ok \<leftarrow> h264_poc;
     if \<not> ok then State_Monad.return VUI_BAD
     else do {
       vb_ue; vb_read 1; vb_ue; vb_ue;
       frame_mbs_only \<leftarrow> vb_read 1;
       (if frame_mbs_only = 0 then skip_bits 1 else State_Monad.return ());
       vb_read 1;
       skip_window;
       vui_signal_type
     }
   }"

section \<open>The H.265 walk\<close>

fun read_presents :: "nat \<Rightarrow> (u32 \<times> u32) list reader" where
  "read_presents 0 = State_Monad.return []"
| "read_presents (Suc n) = do {
     profile_present \<leftarrow> vb_read 1;
     level_present \<leftarrow> vb_read 1;
     ps \<leftarrow> read_presents n;
     State_Monad.return ((profile_present, level_present) # ps)
   }"

fun sub_layers :: "(u32 \<times> u32) list \<Rightarrow> unit reader" where
  "sub_layers [] = State_Monad.return ()"
| "sub_layers (p # ps) = do {
     (if fst p \<noteq> 0 then do { vb_read 8; vb_read 32; vb_read 32; skip_bits 16 } else State_Monad.return ());
     (if snd p \<noteq> 0 then skip_bits 8 else State_Monad.return ());
     sub_layers ps
   }"

definition h265_profile_tier_level :: "nat \<Rightarrow> unit reader" where
  "h265_profile_tier_level max_sub_layers_minus1 = do {
     vb_read 8; vb_read 32; vb_read 32; vb_read 16; vb_read 8;
     ps \<leftarrow> read_presents (min max_sub_layers_minus1 8);
     (if max_sub_layers_minus1 > 0 then times_do (8 - max_sub_layers_minus1) (skip_bits 2)
      else State_Monad.return ());
     sub_layers ps
   }"

definition scaling_matrix :: "nat \<Rightarrow> unit reader" where
  "scaling_matrix size_id = do {
     pred_mode \<leftarrow> vb_read 1;
     if pred_mode = 0 then skip_ue
     else do {
       (if size_id > 1 then skip_se else State_Monad.return ());
       times_do (min 64 (2 ^ (4 + 2 * size_id))) skip_se
     }
   }"

definition h265_scaling_list_data :: "unit reader" where
  "h265_scaling_list_data = do {
     times_do 6 (scaling_matrix 0);
     times_do 6 (scaling_matrix 1);
     times_do 6 (scaling_matrix 2);
     times_do 2 (scaling_matrix 3)
   }"

fun kept_pocs :: "nat \<Rightarrow> nat reader" where
  "kept_pocs 0 = State_Monad.return 0"
| "kept_pocs (Suc n) = do {
     used \<leftarrow> vb_read 1;
     use_delta \<leftarrow> (if used = 0 then vb_read 1 else State_Monad.return 1);
     k \<leftarrow> kept_pocs n;
     State_Monad.return ((if used \<noteq> 0 \<or> use_delta \<noteq> 0 then 1 else 0) + k)
   }"

text \<open>One set: its number of delta pictures, \<open>None\<close> when the walk gives up.\<close>

definition h265_st_ref_pic_set :: "nat list \<Rightarrow> nat option reader" where
  "h265_st_ref_pic_set num_delta_pocs = do {
     inter_pred \<leftarrow> (if num_delta_pocs \<noteq> [] then vb_read 1 else State_Monad.return 0);
     n \<leftarrow> (if inter_pred \<noteq> 0
       then do {
         vb_read 1; vb_ue;
         k \<leftarrow> kept_pocs (Suc (last num_delta_pocs));
         State_Monad.return (Some k)
       }
       else do {
         neg \<leftarrow> vb_ue;
         pos \<leftarrow> vb_ue;
         if neg > 64 \<or> pos > 64 then State_Monad.return None
         else do {
           times_do (unat neg) (do { vb_ue; skip_bits 1 });
           times_do (unat pos) (do { vb_ue; skip_bits 1 });
           State_Monad.return (Some (unat neg + unat pos))
         }
       });
     b \<leftarrow> State_Monad.get;
     State_Monad.return (if vb_overflow b then None else n)
   }"

fun h265_ref_pic_sets :: "nat \<Rightarrow> nat list \<Rightarrow> bool reader" where
  "h265_ref_pic_sets 0 ns = State_Monad.return True"
| "h265_ref_pic_sets (Suc i) ns = do {
     n \<leftarrow> h265_st_ref_pic_set ns;
     case n of None \<Rightarrow> State_Monad.return False | Some n \<Rightarrow> h265_ref_pic_sets i (ns @ [n])
   }"

definition h265_long_term :: "u32 \<Rightarrow> bool reader" where
  "h265_long_term log2_max_poc_lsb_minus4 = do {
     present \<leftarrow> vb_read 1;
     if present = 0 then State_Monad.return True
     else do {
       n \<leftarrow> vb_ue;
       if n > 32 then State_Monad.return False
       else do {
         times_do (unat n) (do { vb_read (sint (log2_max_poc_lsb_minus4 + 4)); skip_bits 1 });
         State_Monad.return True
       }
     }
   }"

definition h265_coding :: "unit reader" where
  "h265_coding = do {
     vb_ue; vb_ue; vb_ue; vb_ue; vb_ue; vb_ue;
     scaling_enabled \<leftarrow> vb_read 1;
     (if scaling_enabled \<noteq> 0
      then do { data \<leftarrow> vb_read 1; if data \<noteq> 0 then h265_scaling_list_data else State_Monad.return () }
      else State_Monad.return ());
     vb_read 1; vb_read 1;
     pcm \<leftarrow> vb_read 1;
     if pcm \<noteq> 0 then do { vb_read 4; vb_read 4; vb_ue; vb_ue; skip_bits 1 } else State_Monad.return ()
   }"

definition h265_full_range_bit :: "int reader" where
  "h265_full_range_bit = do {
     vb_read 4;
     max_sub_layers_minus1 \<leftarrow> vb_read 3;
     vb_read 1;
     h265_profile_tier_level (unat max_sub_layers_minus1);
     vb_ue;
     chroma_format_idc \<leftarrow> vb_ue;
     (if chroma_format_idc = 3 then skip_bits 1 else State_Monad.return ());
     vb_ue; vb_ue;
     skip_window;
     vb_ue; vb_ue;
     log2_max_poc_lsb_minus4 \<leftarrow> vb_ue;
     ordering_present \<leftarrow> vb_read 1;
     times_do (if ordering_present \<noteq> 0 then Suc (unat max_sub_layers_minus1) else 1)
       (do { vb_ue; vb_ue; skip_ue });
     h265_coding;
     num_sets \<leftarrow> vb_ue;
     if num_sets > 64 then State_Monad.return VUI_BAD
     else do {
       ok \<leftarrow> h265_ref_pic_sets (unat num_sets) [];
       if \<not> ok then State_Monad.return VUI_BAD
       else do {
         ok \<leftarrow> h265_long_term log2_max_poc_lsb_minus4;
         if \<not> ok then State_Monad.return VUI_BAD
         else do { vb_read 1; vb_read 1; vui_signal_type }
       }
     }
   }"

section \<open>Escaping\<close>

definition vui_skip :: "bytes \<Rightarrow> nat \<Rightarrow> bool" where
  "vui_skip src i \<longleftrightarrow> i \<ge> 2 \<and> src ! i = 3 \<and> src ! (i - 1) = 0 \<and> src ! (i - 2) = 0
     \<and> i + 1 < length src \<and> src ! (i + 1) \<le> 3"

definition vui_unescape :: "bytes \<Rightarrow> nat \<Rightarrow> bytes" where
  "vui_unescape src cap = take cap (map ((!) src) (filter (\<lambda>i. \<not> vui_skip src i) [0..<length src]))"

text \<open>\<open>None\<close> when the output is full, which the caller sees as length 0.\<close>

fun escape_loop :: "nat \<Rightarrow> nat \<Rightarrow> bytes \<Rightarrow> bytes \<Rightarrow> bytes option" where
  "escape_loop cap zeros out [] = Some out"
| "escape_loop cap zeros out (x # src) =
     (if zeros \<ge> 2 \<and> x \<le> 3 then
        if length out \<ge> cap then None
        else
          let out = out @ [3]
          in if length out \<ge> cap then None
             else escape_loop cap (if x = 0 then 1 else 0) (out @ [x]) src
      else if length out \<ge> cap then None
      else escape_loop cap (if x = 0 then zeros + 1 else 0) (out @ [x]) src)"

definition vui_escape :: "bytes \<Rightarrow> nat \<Rightarrow> bytes" where
  "vui_escape src cap = (case escape_loop cap 0 [] src of None \<Rightarrow> [] | Some out \<Rightarrow> out)"

section \<open>The edit\<close>

text \<open>
  The walk goes on from the flag; the flag itself is read again, then the presence of the colour
  description.
\<close>

definition vui_matrix_bit :: "int \<Rightarrow> int reader" where
  "vui_matrix_bit full_range_bit = do {
     State_Monad.update (\<lambda>b. b\<lparr>vb_bit := nat full_range_bit, vb_overflow := False\<rparr>);
     vb_read 1;
     described \<leftarrow> vb_read 1;
     if described = 0 then is_absent
     else do { vb_read 8; vb_read 8; at_bit }
   }"

definition start_code :: "bytes \<Rightarrow> nat" where
  "start_code nal =
     (if length nal > 4 \<and> nal ! 0 = 0 \<and> nal ! 1 = 0
      then if nal ! 2 = 1 then 3 else if nal ! 2 = 0 \<and> nal ! 3 = 1 then 4 else 0
      else 0)"

definition is_sps :: "bytes \<Rightarrow> bool \<Rightarrow> bool" where
  "is_sps nal is_h265 \<longleftrightarrow>
     (if is_h265 then drop_bit 1 (nal ! 0) AND 0x3F = 33 else nal ! 0 AND 0x1F = 7)"

definition bit_mask :: "nat \<Rightarrow> u8" where
  "bit_mask pos = push_bit (7 - pos mod 8) 1"

definition put_bit :: "nat \<Rightarrow> bool \<Rightarrow> bytes \<Rightarrow> bytes" where
  "put_bit pos v rbsp =
     rbsp[pos div 8 := (if v then rbsp ! (pos div 8) OR bit_mask pos else rbsp ! (pos div 8) AND NOT (bit_mask pos))]"

text \<open>The eight bits of the matrix, the highest first.\<close>

definition put_matrix :: "nat \<Rightarrow> u8 \<Rightarrow> bytes \<Rightarrow> bytes" where
  "put_matrix mbit matrix rbsp = fold (\<lambda>i. put_bit (mbit + i) (bit matrix (7 - i))) [0..<8] rbsp"

text \<open>
  The edit of the unescaped payload: \<open>Inl\<close> the return value of the function when it ends there, \<open>Inr\<close> the
  payload to commit.  A \<open>matrix\<close> of \<open>None\<close> is the negative argument that asks for the range flag.
\<close>

definition reader_of :: "bytes \<Rightarrow> vui_bits_t" where
  "reader_of rbsp = \<lparr>vb_buf = rbsp, vb_size = length rbsp, vb_bit = 0, vb_overflow = False, vb_undef = False\<rparr>"

definition full_range_bit :: "bool \<Rightarrow> int reader" where
  "full_range_bit is_h265 = (if is_h265 then h265_full_range_bit else h264_full_range_bit)"

definition edit_rbsp :: "bytes \<Rightarrow> bool \<Rightarrow> u8 option \<Rightarrow> int + bytes" where
  "edit_rbsp rbsp is_h265 matrix =
     (case run_state (full_range_bit is_h265) (reader_of rbsp) of (fr, b) \<Rightarrow>
        if fr = VUI_ABSENT then Inl 0
        else if fr < 0 \<or> fr \<ge> int (length rbsp * 8) then Inl (-1)
        else (case matrix of
          None \<Rightarrow>
            if rbsp ! (nat fr div 8) AND bit_mask (nat fr) \<noteq> 0 then Inl 0
            else Inr (put_bit (nat fr) True rbsp)
        | Some matrix \<Rightarrow>
            (case run_state (vui_matrix_bit fr) b of (mbit, b) \<Rightarrow>
               if mbit = VUI_ABSENT then Inl 0
               else if mbit < 0 \<or> mbit + 8 > int (length rbsp * 8) then Inl (-1)
               else if fst (run_state (vb_read 8) (b\<lparr>vb_bit := nat mbit, vb_overflow := False\<rparr>)) = ucast matrix then Inl 0
               else Inr (put_matrix (nat mbit) matrix rbsp))))"

definition vui_edit :: "bytes option \<Rightarrow> bool \<Rightarrow> u8 option \<Rightarrow> int \<times> bytes option" where
  "vui_edit nal is_h265 matrix =
     (case nal of None \<Rightarrow> (-1, None)
      | Some nal \<Rightarrow>
        if length nal < 4 then (-1, Some nal)
        else
          let sc = start_code nal;
              body = drop sc nal;
              hdr = (if is_h265 then 2 else 1)
          in if length body \<le> hdr \<or> length body - hdr > VUI_RBSP_MAX then (-1, Some nal)
             else if \<not> is_sps body is_h265 then (-1, Some nal)
             else case edit_rbsp (vui_unescape (drop hdr body) VUI_RBSP_MAX) is_h265 matrix of
               Inl r \<Rightarrow> (r, Some nal)
             | Inr rbsp \<Rightarrow>
                 let esc = vui_escape rbsp (VUI_RBSP_MAX + 64)
                 in if length esc \<noteq> length body - hdr then (-1, Some nal)
                    else (1, Some (put nal (sc + hdr) esc)))"

definition rss_vui_set_full_range :: "bytes option \<Rightarrow> bool \<Rightarrow> int \<times> bytes option" where
  "rss_vui_set_full_range nal is_h265 = vui_edit nal is_h265 None"

definition rss_vui_set_matrix :: "bytes option \<Rightarrow> bool \<Rightarrow> u8 \<Rightarrow> int \<times> bytes option" where
  "rss_vui_set_matrix nal is_h265 matrix = vui_edit nal is_h265 (Some matrix)"

section \<open>Escaping and unescaping\<close>

text \<open>The two loops as recursions on the data, with the two bytes read last.\<close>

fun unesc :: "u8 \<Rightarrow> u8 \<Rightarrow> bytes \<Rightarrow> bytes" where
  "unesc a b [] = []"
| "unesc a b (x # xs) =
     (if a = 0 \<and> b = 0 \<and> x = 3 \<and> xs \<noteq> [] \<and> hd xs \<le> 3 then unesc b x xs else x # unesc b x xs)"

fun esc :: "nat \<Rightarrow> bytes \<Rightarrow> bytes" where
  "esc z [] = []"
| "esc z (x # s) =
     (if 2 \<le> z \<and> x \<le> 3 then 3 # x # esc (if x = 0 then 1 else 0) s
      else x # esc (if x = 0 then Suc z else 0) s)"

lemma unescape_from:
  "i \<le> length src \<Longrightarrow> map ((!) src) (filter (\<lambda>i. \<not> vui_skip src i) [i..<length src])
    = unesc (if 2 \<le> i then src ! (i - 2) else 1) (if 1 \<le> i then src ! (i - 1) else 1) (drop i src)"
proof (induction "length src - i" arbitrary: i)
  case (Suc n)
  then have i: "i < length src" by simp
  have d: "drop i src = src ! i # drop (Suc i) src" by (rule Cons_nth_drop_Suc [OF i, symmetric])
  have h: "drop (Suc i) src \<noteq> [] \<and> hd (drop (Suc i) src) \<le> 3 \<longleftrightarrow> Suc i < length src \<and> src ! Suc i \<le> 3"
    using hd_drop_conv_nth [of "Suc i" src] by auto
  have IH: "map ((!) src) (filter (\<lambda>i. \<not> vui_skip src i) [Suc i..<length src])
      = unesc (if 1 \<le> i then src ! (i - 1) else 1) (src ! i) (drop (Suc i) src)"
    using Suc.hyps(1) [of "Suc i"] Suc.hyps(2) i by (simp split: if_splits)
  have up: "[i..<length src] = i # [Suc i..<length src]" by (rule upt_conv_Cons [OF i])
  have s: "vui_skip src i \<longleftrightarrow> (if 2 \<le> i then src ! (i - 2) else 1) = 0 \<and> (if 1 \<le> i then src ! (i - 1) else 1) = 0
      \<and> src ! i = 3 \<and> drop (Suc i) src \<noteq> [] \<and> hd (drop (Suc i) src) \<le> 3"
    unfolding h vui_skip_def by (auto split: if_splits)
  show ?case
    unfolding d unesc.simps up filter.simps s [symmetric] using IH by simp
qed simp

lemma unescape_unesc: "vui_unescape src cap = take cap (unesc 1 1 src)"
  using unescape_from [of 0 src] by (simp add: vui_unescape_def)

lemma escape_loop_esc:
  "length out \<le> cap \<Longrightarrow> escape_loop cap z out s = (if length out + length (esc z s) \<le> cap then Some (out @ esc z s) else None)"
proof (induction s arbitrary: z out)
  case (Cons x s)
  show ?case
  proof (cases "2 \<le> z \<and> x \<le> 3")
    case True
    then show ?thesis
      using Cons.IH [of "out @ [3, x]" "if x = 0 then 1 else 0"] by (auto simp: Let_def)
  next
    case False
    then show ?thesis
      using Cons.IH [of "out @ [x]" "if x = 0 then Suc z else 0"] by auto
  qed
qed simp

lemma escape_esc: "vui_escape s cap = (if length (esc 0 s) \<le> cap then esc 0 s else [])"
  by (simp add: vui_escape_def escape_loop_esc)

lemma unesc_esc: "(2 \<le> z \<longleftrightarrow> a = 0 \<and> b = 0) \<Longrightarrow> (1 \<le> z \<longleftrightarrow> b = 0) \<Longrightarrow> unesc a b (esc z s) = s"
proof (induction s arbitrary: z a b)
  case (Cons x s)
  show ?case
  proof (cases "2 \<le> z \<and> x \<le> 3")
    case True
    then have "unesc 3 x (esc (if x = 0 then 1 else 0) s) = s"
      by (intro Cons.IH) auto
    then show ?thesis using True Cons.prems by simp
  next
    case False
    then have "unesc b x (esc (if x = 0 then Suc z else 0) s) = s"
      using Cons.prems by (intro Cons.IH) auto
    moreover have "\<not> (a = 0 \<and> b = 0 \<and> x = 3)" using False Cons.prems by auto
    ultimately show ?thesis using False by auto
  qed
qed simp

lemma length_unesc: "length (unesc a b s) \<le> length s"
  by (induction a b s rule: unesc.induct) auto

text \<open>No start code and no other reserved pattern: \<open>00 00\<close> is never followed by a byte up to 2.\<close>

fun start_code_in :: "u8 \<Rightarrow> u8 \<Rightarrow> bytes \<Rightarrow> bool" where
  "start_code_in a b [] \<longleftrightarrow> False"
| "start_code_in a b (x # s) \<longleftrightarrow> a = 0 \<and> b = 0 \<and> x \<le> 2 \<or> start_code_in b x s"

lemma no_start_code_esc:
  "(2 \<le> z \<longleftrightarrow> a = 0 \<and> b = 0) \<Longrightarrow> (1 \<le> z \<longleftrightarrow> b = 0) \<Longrightarrow> \<not> start_code_in a b (esc z s)"
proof (induction s arbitrary: z a b)
  case (Cons x s)
  have x: "x \<le> 2 \<Longrightarrow> x \<le> 3" by (erule order_trans) simp
  show ?case
  proof (cases "2 \<le> z \<and> x \<le> 3")
    case True
    then have "\<not> start_code_in 3 x (esc (if x = 0 then 1 else 0) s)" by (intro Cons.IH) auto
    then show ?thesis using True by simp
  next
    case False
    then have "\<not> start_code_in b x (esc (if x = 0 then Suc z else 0) s)"
      using Cons.prems by (intro Cons.IH) auto
    then show ?thesis using False Cons.prems x by auto
  qed
qed simp

lemma escape_inverse:
  assumes "vui_escape s cap \<noteq> []" and "length (vui_escape s cap) \<le> cap'"
  shows "vui_unescape (vui_escape s cap) cap' = s" and "\<not> start_code_in 1 1 (vui_escape s cap)"
proof -
  have e: "vui_escape s cap = esc 0 s" using assms(1) by (simp add: escape_esc split: if_splits)
  have "unesc 1 1 (esc 0 s) = s" by (rule unesc_esc) auto
  then show "vui_unescape (vui_escape s cap) cap' = s"
    using assms(2) length_unesc [of 1 1 "esc 0 s"] by (simp add: e unescape_unesc)
  show "\<not> start_code_in 1 1 (vui_escape s cap)" unfolding e by (rule no_start_code_esc) auto
qed

section \<open>Readers that depend only on the bits they read\<close>

definition nthbit :: "bytes \<Rightarrow> nat \<Rightarrow> bool" where
  "nthbit buf p = bit (buf ! (p div 8)) (7 - p mod 8)"

definition agree :: "nat \<Rightarrow> bytes \<Rightarrow> bytes \<Rightarrow> bool" where
  "agree n buf buf' \<longleftrightarrow> (\<forall>p < n. nthbit buf p = nthbit buf' p)"

lemma agree_mono: "agree n buf buf' \<Longrightarrow> m \<le> n \<Longrightarrow> agree m buf buf'"
  by (simp add: agree_def)

lemma read_bit: "(ucast (drop_bit k x) AND 1 :: u32) = of_bool (bit (x::u8) k)"
  by (rule bit_word_eqI) (auto simp: bit_and_iff bit_ucast_iff bit_drop_bit_eq bit_1_iff bit_of_bool_iff)

lemma vb_loop_Suc:
  "vb_loop (Suc n) v b =
     (if vb_bit b \<ge> vb_size b * 8 then (0, b\<lparr>vb_overflow := True\<rparr>)
      else vb_loop n (push_bit 1 v OR of_bool (nthbit (vb_buf b) (vb_bit b))) (b\<lparr>vb_bit := vb_bit b + 1\<rparr>))"
  by (simp only: vb_loop.simps read_bit nthbit_def)

declare vb_loop.simps(2) [simp del]

definition steps :: "vui_bits_t \<Rightarrow> vui_bits_t \<Rightarrow> bool" where
  "steps b c \<longleftrightarrow> vb_buf c = vb_buf b \<and> vb_size c = vb_size b \<and> vb_bit b \<le> vb_bit c \<and> (vb_overflow b \<longrightarrow> vb_overflow c)"

definition stable :: "'a reader \<Rightarrow> bool" where
  "stable P \<longleftrightarrow> (\<forall>b v c. run_state P b = (v, c) \<longrightarrow> steps b c
     \<and> (\<forall>buf. \<not> vb_overflow c \<and> agree (vb_bit c) (vb_buf b) buf \<longrightarrow>
          run_state P (b\<lparr>vb_buf := buf\<rparr>) = (v, c\<lparr>vb_buf := buf\<rparr>)))"

named_theorems stable_intros

lemma stableI:
  assumes "\<And>b v c. run_state P b = (v, c) \<Longrightarrow> steps b c"
    and "\<And>b v c buf. run_state P b = (v, c) \<Longrightarrow> \<not> vb_overflow c \<Longrightarrow> agree (vb_bit c) (vb_buf b) buf \<Longrightarrow>
      run_state P (b\<lparr>vb_buf := buf\<rparr>) = (v, c\<lparr>vb_buf := buf\<rparr>)"
  shows "stable P"
  unfolding stable_def using assms by blast

lemma stableD:
  assumes "stable P" and "run_state P b = (v, c)"
  shows "steps b c"
    and "\<not> vb_overflow c \<Longrightarrow> agree (vb_bit c) (vb_buf b) buf \<Longrightarrow> run_state P (b\<lparr>vb_buf := buf\<rparr>) = (v, c\<lparr>vb_buf := buf\<rparr>)"
  using assms unfolding stable_def by blast+

lemma steps_refl [simp]: "steps b b"
  by (simp add: steps_def)

lemma steps_trans: "steps b c \<Longrightarrow> steps c d \<Longrightarrow> steps b d"
  by (auto simp: steps_def)

lemma stable_bind [stable_intros]:
  assumes P: "stable P" and Q: "\<And>v. stable (Q v)"
  shows "stable (State_Monad.bind P Q)"
proof (rule stableI)
  fix b w d assume r: "run_state (State_Monad.bind P Q) b = (w, d)"
  obtain v c where c: "run_state P b = (v, c)" by (cases "run_state P b")
  then have d: "run_state (Q v) c = (w, d)" using r by simp
  show "steps b d" using stableD(1) [OF P c] stableD(1) [OF Q d] by (rule steps_trans)
next
  fix b w d buf assume r: "run_state (State_Monad.bind P Q) b = (w, d)" and o: "\<not> vb_overflow d"
    and a: "agree (vb_bit d) (vb_buf b) buf"
  obtain v c where c: "run_state P b = (v, c)" by (cases "run_state P b")
  then have d: "run_state (Q v) c = (w, d)" using r by simp
  have cd: "steps c d" "steps b c" using stableD(1) [OF Q d] stableD(1) [OF P c] by simp_all
  then have "\<not> vb_overflow c" "vb_bit c \<le> vb_bit d" "vb_buf c = vb_buf b" using o by (auto simp: steps_def)
  then have "run_state P (b\<lparr>vb_buf := buf\<rparr>) = (v, c\<lparr>vb_buf := buf\<rparr>)"
    using stableD(2) [OF P c, of buf] agree_mono [OF a] by blast
  moreover have "run_state (Q v) (c\<lparr>vb_buf := buf\<rparr>) = (w, d\<lparr>vb_buf := buf\<rparr>)"
    using stableD(2) [OF Q d o, of buf] a \<open>vb_buf c = vb_buf b\<close> by simp
  ultimately show "run_state (State_Monad.bind P Q) (b\<lparr>vb_buf := buf\<rparr>) = (w, d\<lparr>vb_buf := buf\<rparr>)" by simp
qed

lemma stable_return [stable_intros]: "stable (State_Monad.return v)"
  by (rule stableI) auto

lemma stable_if [stable_intros]: "stable P \<Longrightarrow> stable Q \<Longrightarrow> stable (if c then P else Q)"
  by simp

lemma stable_undefined_if [stable_intros]: "stable (undefined_if c)"
  by (rule stableI) (auto simp: undefined_if_def State_Monad.update_def steps_def)

lemma stable_at_bit [stable_intros]: "stable at_bit" "stable is_absent"
  by (rule stableI; auto simp: at_bit_def is_absent_def)+

lemma stable_overflow [stable_intros]:
  "stable (do { b \<leftarrow> State_Monad.get; State_Monad.return (if vb_overflow b then x else y) })"
  by (rule stableI) auto

lemma stable_vb_loop: "stable (State (vb_loop n v))"
proof (induction n arbitrary: v)
  case 0
  show ?case by (rule stableI) auto
next
  case (Suc n)
  show ?case
  proof (rule stableI)
    fix b w c assume r: "run_state (State (vb_loop (Suc n) v)) b = (w, c)"
    then show "steps b c"
      using stableD(1) [OF Suc] by (fastforce simp: vb_loop_Suc steps_def split: if_splits)
  next
    fix b w c buf assume r: "run_state (State (vb_loop (Suc n) v)) b = (w, c)" and o: "\<not> vb_overflow c"
      and a: "agree (vb_bit c) (vb_buf b) buf"
    let ?v = "push_bit 1 v OR of_bool (nthbit (vb_buf b) (vb_bit b))" and ?b = "b\<lparr>vb_bit := vb_bit b + 1\<rparr>"
    have l: "\<not> vb_bit b \<ge> vb_size b * 8" and r': "run_state (State (vb_loop n ?v)) ?b = (w, c)"
      using r o by (auto simp: vb_loop_Suc split: if_splits)
    have "vb_bit b < vb_bit c" using stableD(1) [OF Suc r'] by (simp add: steps_def)
    then have "nthbit buf (vb_bit b) = nthbit (vb_buf b) (vb_bit b)" using a by (simp add: agree_def)
    moreover have "run_state (State (vb_loop n ?v)) (?b\<lparr>vb_buf := buf\<rparr>) = (w, c\<lparr>vb_buf := buf\<rparr>)"
      using stableD(2) [OF Suc r' o, of buf] a by simp
    ultimately show "run_state (State (vb_loop (Suc n) v)) (b\<lparr>vb_buf := buf\<rparr>) = (w, c\<lparr>vb_buf := buf\<rparr>)"
    proof -
      assume n: "nthbit buf (vb_bit b) = nthbit (vb_buf b) (vb_bit b)"
        "run_state (State (vb_loop n ?v)) (?b\<lparr>vb_buf := buf\<rparr>) = (w, c\<lparr>vb_buf := buf\<rparr>)"
      have eq: "?b\<lparr>vb_buf := buf\<rparr> = b\<lparr>vb_buf := buf, vb_bit := vb_bit b + 1\<rparr>" by (cases b) simp
      have bits: "vb_bit (b\<lparr>vb_buf := buf\<rparr>) = vb_bit b" "vb_size (b\<lparr>vb_buf := buf\<rparr>) = vb_size b" "vb_buf (b\<lparr>vb_buf := buf\<rparr>) = buf"
        by simp_all
      show ?thesis
        unfolding state.sel vb_loop_Suc bits if_not_P [OF l] n(1) using n(2) unfolding state.sel eq .
    qed
  qed
qed

lemma stable_vb_read [stable_intros]: "stable (vb_read n)"
  unfolding vb_read_def by (rule stable_vb_loop)

lemma ue_zeros_monad:
  "State (ue_zeros z) = do { b \<leftarrow> State_Monad.get;
     if vb_overflow b then State_Monad.return z
     else do { v \<leftarrow> vb_read 1; if v = 0 \<and> z < 32 then State (ue_zeros (Suc z)) else State_Monad.return z } }"
proof (rule state_ext)
  fix s
  show "run_state (State (ue_zeros z)) s = run_state (do { b \<leftarrow> State_Monad.get;
     if vb_overflow b then State_Monad.return z
     else do { v \<leftarrow> vb_read 1; if v = 0 \<and> z < 32 then State (ue_zeros (Suc z)) else State_Monad.return z } }) s"
    by (simp add: ue_zeros.simps [of z s] split: prod.split)
qed

lemma stable_get_overflow:
  assumes "stable P"
  shows "stable (do { b \<leftarrow> State_Monad.get; if vb_overflow b then State_Monad.return z else P })"
proof (rule stableI)
  fix b v c assume "run_state (do { b \<leftarrow> State_Monad.get; if vb_overflow b then State_Monad.return z else P }) b = (v, c)"
  then show "steps b c" using stableD(1) [OF assms] by (auto split: if_splits)
next
  fix b v c buf assume "run_state (do { b \<leftarrow> State_Monad.get; if vb_overflow b then State_Monad.return z else P }) b = (v, c)"
    "\<not> vb_overflow c" "agree (vb_bit c) (vb_buf b) buf"
  then show "run_state (do { b \<leftarrow> State_Monad.get; if vb_overflow b then State_Monad.return z else P }) (b\<lparr>vb_buf := buf\<rparr>)
      = (v, c\<lparr>vb_buf := buf\<rparr>)"
    using stableD(2) [OF assms] by (auto split: if_splits)
qed

lemma stable_ue_zeros [stable_intros]: "stable (State (ue_zeros z))"
proof (induction "32 - z" arbitrary: z rule: less_induct)
  case less
  have "stable (if v = 0 \<and> z < 32 then State (ue_zeros (Suc z)) else State_Monad.return z)" for v :: u32
    using less [of "Suc z"] by (auto intro: stable_return)
  then show ?case
    by (subst ue_zeros_monad) (intro stable_get_overflow stable_bind stable_vb_read)
qed

lemma stable_basic [stable_intros]: "stable vb_ue" "stable vb_se" "stable (skip_bits n)" "stable skip_ue" "stable skip_se"
  unfolding vb_ue_def vb_se_def skip_bits_def skip_ue_def skip_se_def by (intro stable_intros)+

lemma stable_times_do [stable_intros]: "stable p \<Longrightarrow> stable (times_do n p)"
  by (induction n) (auto intro!: stable_intros)

lemma stable_signal_type [stable_intros]: "stable vui_signal_type"
  unfolding vui_signal_type_def by (intro stable_intros)

lemma stable_scaling [stable_intros]: "stable (scaling_entries n l x)"
  by (induction n arbitrary: l x) (auto intro!: stable_intros)

lemma stable_h264_parts [stable_intros]:
  "stable (h264_scaling_lists i n)" "stable h264_high" "stable h264_poc" "stable skip_window"
proof -
  show s: "stable (h264_scaling_lists i n)" for i n
    by (induction n arbitrary: i) (auto simp: h264_scaling_list_def intro!: stable_intros)
  show "stable h264_high" "stable h264_poc" "stable skip_window"
    unfolding h264_high_def h264_poc_def skip_window_def by (intro stable_intros s)+
qed

lemma stable_h264: "stable h264_full_range_bit"
  unfolding h264_full_range_bit_def by (intro stable_intros)

lemma stable_option [stable_intros]: "stable P \<Longrightarrow> (\<And>x. stable (Q x)) \<Longrightarrow> stable (case y of None \<Rightarrow> P | Some x \<Rightarrow> Q x)"
  by (cases y) simp_all

lemma stable_h265_parts [stable_intros]:
  "stable (read_presents n)" "stable (sub_layers ps)" "stable (kept_pocs n)" "stable (scaling_matrix i)"
proof -
  show "stable (read_presents n)" by (induction n) (auto intro!: stable_intros)
  show "stable (sub_layers ps)" by (induction ps) (auto intro!: stable_intros)
  show "stable (kept_pocs n)" by (induction n) (auto intro!: stable_intros)
  show "stable (scaling_matrix i)" unfolding scaling_matrix_def by (intro stable_intros)
qed

lemma stable_h265_sets [stable_intros]:
  "stable (h265_profile_tier_level m)" "stable h265_scaling_list_data" "stable (h265_st_ref_pic_set ns)"
  "stable (h265_long_term w)" "stable h265_coding"
  unfolding h265_profile_tier_level_def h265_scaling_list_data_def h265_st_ref_pic_set_def h265_long_term_def h265_coding_def
  by (intro stable_intros)+

lemma stable_h265_ref_pic_sets [stable_intros]: "stable (h265_ref_pic_sets i ns)"
  by (induction i arbitrary: ns) (auto intro!: stable_intros)

lemma stable_h265: "stable h265_full_range_bit"
  unfolding h265_full_range_bit_def by (intro stable_intros)

section \<open>Where a walk ends\<close>

definition ends :: "int reader \<Rightarrow> bool" where
  "ends P \<longleftrightarrow> (\<forall>b v c. run_state P b = (v, c) \<and> 0 \<le> v \<longrightarrow> \<not> vb_overflow c \<and> v = int (vb_bit c))"

named_theorems ends_intros

lemma ends_bind [ends_intros]: "(\<And>v. ends (Q v)) \<Longrightarrow> ends (State_Monad.bind P Q)"
  by (auto simp: ends_def split: prod.splits)

lemma ends_if [ends_intros]: "ends P \<Longrightarrow> ends Q \<Longrightarrow> ends (if c then P else Q)"
  by simp

lemma ends_leaves [ends_intros]: "ends at_bit" "ends is_absent" "ends (State_Monad.return (-1))"
  by (auto simp: ends_def at_bit_def is_absent_def)

lemma ends_walks: "ends (full_range_bit h)"
  unfolding full_range_bit_def h264_full_range_bit_def h265_full_range_bit_def vui_signal_type_def by (intro ends_intros)

lemma stable_walks: "stable (full_range_bit h)"
  unfolding full_range_bit_def by (intro stable_intros stable_h264 stable_h265)

text \<open>A walk that found its bit finds it again when only later bits have changed.\<close>

lemma walk_again:
  assumes "run_state (full_range_bit h) (reader_of p) = (fr, b)" and "0 \<le> fr" and "agree (nat fr) p p'" and "length p' = length p"
  shows "run_state (full_range_bit h) (reader_of p') = (fr, b\<lparr>vb_buf := p'\<rparr>)" "\<not> vb_overflow b" "vb_bit b = nat fr"
    "vb_buf b = p" "vb_size b = length p"
proof -
  have e: "\<not> vb_overflow b" "fr = int (vb_bit b)" using ends_walks [of h] assms(1,2) by (auto simp: ends_def)
  then show "\<not> vb_overflow b" "vb_bit b = nat fr" by simp_all
  show "vb_buf b = p" "vb_size b = length p"
    using stableD(1) [OF stable_walks assms(1)] by (simp_all add: steps_def reader_of_def)
  have "reader_of p' = (reader_of p)\<lparr>vb_buf := p'\<rparr>" using assms(4) by (simp add: reader_of_def)
  then show "run_state (full_range_bit h) (reader_of p') = (fr, b\<lparr>vb_buf := p'\<rparr>)"
    using stableD(2) [OF stable_walks assms(1) e(1), of p'] assms(3) e(2) by (simp add: reader_of_def)
qed

section \<open>Bits of the payload\<close>

lemma bit_bit_mask: "bit (bit_mask pos) j \<longleftrightarrow> j = 7 - pos mod 8"
proof -
  have m: "bit_mask pos = 2 ^ (7 - pos mod 8)" by (simp add: bit_mask_def push_bit_eq_mult)
  show ?thesis unfolding m by (auto simp: bit_exp_iff)
qed

lemma and_bit_mask: "x AND bit_mask pos \<noteq> 0 \<longleftrightarrow> bit x (7 - pos mod 8)"
proof -
  have "bit_mask pos = 2 ^ (7 - pos mod 8)" by (simp add: bit_mask_def push_bit_eq_mult)
  then show ?thesis by (simp add: and_exp_eq_0_iff_not_bit)
qed

lemma length_put_bit [simp]: "length (put_bit pos v p) = length p"
  by (simp add: put_bit_def)

lemma nthbit_put_bit:
  assumes "pos < 8 * length p" and "q < 8 * length p"
  shows "nthbit (put_bit pos v p) q = (if q = pos then v else nthbit p q)"
proof (cases "q div 8 = pos div 8")
  case True
  have i: "pos div 8 < length p" using assms(1) by (simp add: less_mult_imp_div_less mult.commute)
  have e: "7 - q mod 8 = 7 - pos mod 8 \<longleftrightarrow> q = pos"
  proof
    assume "7 - q mod 8 = 7 - pos mod 8"
    moreover have "q mod 8 < 8" "pos mod 8 < 8" by simp_all
    ultimately have "q mod 8 = pos mod 8" by linarith
    then show "q = pos" using True by (metis div_mult_mod_eq)
  qed simp
  have "7 - q mod 8 < 8" by simp
  then show ?thesis
    using True i e by (auto simp: nthbit_def put_bit_def bit_or_iff bit_and_iff bit_not_iff bit_bit_mask)
next
  case False
  then show ?thesis by (auto simp: nthbit_def put_bit_def)
qed

lemma length_put_bits [simp]: "length (fold (\<lambda>i. put_bit (m + i) (f i)) is p) = length p"
  by (induction "is" arbitrary: p) simp_all

lemma nthbit_put_bits:
  "m + k \<le> 8 * length p \<Longrightarrow> q < 8 * length p \<Longrightarrow>
    nthbit (fold (\<lambda>i. put_bit (m + i) (f i)) [0..<k] p) q = (if m \<le> q \<and> q < m + k then f (q - m) else nthbit p q)"
proof (induction k)
  case (Suc k)
  then show ?case by (auto simp: nthbit_put_bit)
qed auto

lemma length_put_matrix [simp]: "length (put_matrix m x p) = length p"
  by (simp add: put_matrix_def)

lemma nthbit_put_matrix:
  "m + 8 \<le> 8 * length p \<Longrightarrow> q < 8 * length p \<Longrightarrow>
    nthbit (put_matrix m x p) q = (if m \<le> q \<and> q < m + 8 then bit x (7 - (q - m)) else nthbit p q)"
  unfolding put_matrix_def by (rule nthbit_put_bits)

text \<open>What \<open>n\<close> bits read as.\<close>

fun rd_bits :: "nat \<Rightarrow> bytes \<Rightarrow> nat \<Rightarrow> u32" where
  "rd_bits 0 buf p = 0"
| "rd_bits (Suc n) buf p = push_bit n (of_bool (nthbit buf p)) OR rd_bits n buf (Suc p)"

lemma bit_rd_bits: "bit (rd_bits n buf p) j \<longleftrightarrow> j < n \<and> j < 32 \<and> nthbit buf (p + (n - 1 - j))"
proof (induction n arbitrary: p j)
  case (Suc n)
  show ?case
  proof (cases "j = n")
    case True
    then show ?thesis by (auto simp: Suc bit_or_iff bit_push_bit_iff bit_of_bool_iff)
  next
    case False
    then have "Suc p + (n - 1 - j) = p + (Suc n - 1 - j)" if "j < n" using that by simp
    moreover have "j < Suc n \<longleftrightarrow> j < n" using False by auto
    ultimately show ?thesis using False by (auto simp: Suc bit_or_iff bit_push_bit_iff bit_of_bool_iff)
  qed
qed simp

lemma vb_loop_rd:
  "vb_bit b + n \<le> 8 * vb_size b \<Longrightarrow>
    vb_loop n v b = (push_bit n v OR rd_bits n (vb_buf b) (vb_bit b), b\<lparr>vb_bit := vb_bit b + n\<rparr>)"
proof (induction n arbitrary: v b)
  case (Suc n)
  let ?x = "of_bool (nthbit (vb_buf b) (vb_bit b)) :: u32"
  have l: "\<not> vb_bit b \<ge> vb_size b * 8" using Suc.prems by simp
  have "vb_loop (Suc n) v b = (push_bit n (push_bit 1 v OR ?x) OR rd_bits n (vb_buf b) (Suc (vb_bit b)), b\<lparr>vb_bit := vb_bit b + Suc n\<rparr>)"
    using Suc.IH [of "b\<lparr>vb_bit := vb_bit b + 1\<rparr>"] Suc.prems l by (simp add: vb_loop_Suc)
  moreover have "push_bit n (push_bit 1 v OR ?x) = push_bit (Suc n) v OR push_bit n ?x"
    by (rule bit_word_eqI) (auto simp: bit_push_bit_iff bit_or_iff)
  ultimately show ?case by (simp add: or.assoc)
qed simp

lemma run_vb_read:
  "vb_bit b + n \<le> 8 * vb_size b \<Longrightarrow>
    run_state (vb_read (int n)) b = (rd_bits n (vb_buf b) (vb_bit b), b\<lparr>vb_bit := vb_bit b + n\<rparr>)"
  by (simp add: vb_read_def vb_loop_rd)

lemma rd_bits_cong: "(\<And>q. p \<le> q \<Longrightarrow> q < p + n \<Longrightarrow> nthbit buf q = nthbit buf' q) \<Longrightarrow> rd_bits n buf p = rd_bits n buf' p"
  by (induction n arbitrary: p) auto

lemma rd_bits_byte:
  assumes "\<And>j. j < 8 \<Longrightarrow> nthbit p (m + (7 - j)) = bit (x::u8) j"
  shows "rd_bits 8 p m = ucast x"
proof (rule bit_word_eqI)
  fix j :: nat assume j: "j < LENGTH(32)"
  show "bit (rd_bits 8 p m) j = bit (ucast x :: u32) j"
  proof (cases "j < 8")
    case True
    then show ?thesis using j by (simp add: bit_rd_bits bit_ucast_iff) (use assms True in simp)
  next
    case False
    then show ?thesis by (auto simp: bit_rd_bits bit_ucast_iff dest: bit_imp_le_length)
  qed
qed

section \<open>The edit of the payload\<close>

lemma edit_range:
  assumes "edit_rbsp p h None = Inr p'"
  shows "\<exists>pos < 8 * length p. fst (run_state (full_range_bit h) (reader_of p)) = int pos
    \<and> \<not> nthbit p pos \<and> length p' = length p \<and> (\<forall>q < 8 * length p. nthbit p' q = (q = pos \<or> nthbit p q))
    \<and> edit_rbsp p' h None = Inl 0"
proof -
  obtain fr b where w: "run_state (full_range_bit h) (reader_of p) = (fr, b)" by (cases "run_state (full_range_bit h) (reader_of p)")
  then have fr: "0 \<le> fr" "fr < int (length p * 8)" "\<not> nthbit p (nat fr)" and p': "p' = put_bit (nat fr) True p"
    using assms by (auto simp: edit_rbsp_def and_bit_mask nthbit_def split: if_splits)
  have pos: "nat fr < 8 * length p" using fr(1,2) by linarith
  have len: "length p' = length p" by (simp add: p')
  have bits: "\<forall>q < 8 * length p. nthbit p' q = (q = nat fr \<or> nthbit p q)"
    using nthbit_put_bit [OF pos] by (auto simp: p')
  then have "agree (nat fr) p p'" using pos by (auto simp: agree_def)
  from walk_again(1) [OF w fr(1) this len]
  have "edit_rbsp p' h None = Inl 0"
    using fr len bits pos by (auto simp: edit_rbsp_def and_bit_mask nthbit_def)
  then show ?thesis using fr pos len bits w by (intro exI [of _ "nat fr"]) simp
qed

lemma vb_loop_fits: "vb_loop n v b = (w, c) \<Longrightarrow> \<not> vb_overflow c \<Longrightarrow> 0 < n \<Longrightarrow> vb_bit b + n \<le> 8 * vb_size b"
proof (induction n arbitrary: v b)
  case (Suc n)
  let ?b = "b\<lparr>vb_bit := vb_bit b + 1\<rparr>"
  have l: "\<not> vb_bit b \<ge> vb_size b * 8" and r: "vb_loop n (push_bit 1 v OR of_bool (nthbit (vb_buf b) (vb_bit b))) ?b = (w, c)"
    using Suc.prems by (auto simp: vb_loop_Suc split: if_splits)
  show ?case
  proof (cases n)
    case 0
    then show ?thesis using l by simp
  next
    case (Suc k)
    then have "vb_bit ?b + n \<le> 8 * vb_size ?b" using Suc.IH [OF r Suc.prems(2)] by simp
    then show ?thesis by simp
  qed
qed simp

lemma read_fits:
  assumes "run_state (vb_read (int n)) b = (v, c)" and "\<not> vb_overflow c" and "0 < n"
  shows "v = rd_bits n (vb_buf b) (vb_bit b) \<and> c = b\<lparr>vb_bit := vb_bit b + n\<rparr> \<and> vb_bit b + n \<le> 8 * vb_size b"
proof -
  have "vb_bit b + n \<le> 8 * vb_size b" using vb_loop_fits [of n 0 b v c] assms by (simp add: vb_read_def)
  then show ?thesis using run_vb_read [of b n] assms(1) by simp
qed

lemma run_leaves: "run_state at_bit b = (if vb_overflow b then -1 else int (vb_bit b), b)"
  "run_state is_absent b = (if vb_overflow b then -1 else -2, b)"
  by (simp_all add: at_bit_def is_absent_def)

text \<open>The walk from the flag: two flags and two bytes further on lies the matrix.\<close>

lemma matrix_walk:
  assumes "run_state (vui_matrix_bit fr) b = (mb, c)" and "0 \<le> mb"
  shows "mb = int (nat fr + 18) \<and> nat fr + 18 \<le> 8 * vb_size b \<and> nthbit (vb_buf b) (nat fr + 1)
    \<and> c = b\<lparr>vb_bit := nat fr + 18, vb_overflow := False\<rparr>"
proof -
  define b0 where "b0 = b\<lparr>vb_bit := nat fr, vb_overflow := False\<rparr>"
  obtain v1 b1 where r1: "run_state (vb_read (int 1)) b0 = (v1, b1)" by (cases "run_state (vb_read (int 1)) b0")
  obtain v2 b2 where r2: "run_state (vb_read (int 1)) b1 = (v2, b2)" by (cases "run_state (vb_read (int 1)) b1")
  obtain v3 b3 where r3: "run_state (vb_read (int 8)) b2 = (v3, b3)" by (cases "run_state (vb_read (int 8)) b2")
  obtain v4 b4 where r4: "run_state (vb_read (int 8)) b3 = (v4, b4)" by (cases "run_state (vb_read (int 8)) b3")
  note r = r1 r2 r3 r4
  have eq: "(mb, c) = (if v2 = 0 then (if vb_overflow b2 then -1 else -2, b2) else (if vb_overflow b4 then -1 else int (vb_bit b4), b4))"
    using assms(1) r by (auto simp: vui_matrix_bit_def State_Monad.update_def b0_def run_leaves)
  then have v2: "v2 \<noteq> 0" and o4: "\<not> vb_overflow b4"
    using assms(2) by (auto split: if_splits)
  have mb: "mb = int (vb_bit b4)" "c = b4" using eq unfolding if_not_P [OF v2] if_not_P [OF o4] by simp_all
  have o: "\<not> vb_overflow b3" "\<not> vb_overflow b2" "\<not> vb_overflow b1"
    using o4 stableD(1) [OF stable_vb_read r4] stableD(1) [OF stable_vb_read r3] stableD(1) [OF stable_vb_read r2]
    by (auto simp: steps_def)
  have 1: "b1 = b0\<lparr>vb_bit := nat fr + 1\<rparr>" using read_fits [OF r1 o(3)] by (simp add: b0_def)
  have 2: "v2 = rd_bits 1 (vb_buf b) (nat fr + 1)" "b2 = b0\<lparr>vb_bit := nat fr + 2\<rparr>"
    using read_fits [OF r2 o(2)] by (simp_all add: 1 b0_def)
  have 3: "b3 = b0\<lparr>vb_bit := nat fr + 10\<rparr>" using read_fits [OF r3 o(1)] by (simp add: 2(2) b0_def)
  have 4: "b4 = b0\<lparr>vb_bit := nat fr + 18\<rparr>" "nat fr + 18 \<le> 8 * vb_size b"
    using read_fits [OF r4 o4] by (simp_all add: 3 b0_def)
  have "nthbit (vb_buf b) (nat fr + 1)" using v2 2(1) by (auto split: if_splits)
  then show ?thesis using mb 4 by (simp add: b0_def)
qed

lemma matrix_walk_again:
  assumes "run_state (vui_matrix_bit fr) b = (mb, c)" and "0 \<le> mb" and "vb_size b = length (vb_buf b)"
    and "agree (nat fr + 18) (vb_buf b) p'"
  shows "run_state (vui_matrix_bit fr) (b\<lparr>vb_buf := p'\<rparr>) = (mb, c\<lparr>vb_buf := p'\<rparr>)"
proof -
  let ?T = "do { vb_read 1; described \<leftarrow> vb_read 1; if described = 0 then is_absent else do { vb_read 8; vb_read 8; at_bit } }"
  have st: "stable ?T" by (intro stable_intros)
  have run: "run_state (vui_matrix_bit fr) b = run_state ?T (b\<lparr>vb_bit := nat fr, vb_overflow := False\<rparr>)" for b
    by (simp add: vui_matrix_bit_def State_Monad.update_def)
  have c: "\<not> vb_overflow c" "vb_bit c = nat fr + 18" using matrix_walk [OF assms(1,2)] by simp_all
  have "run_state ?T (b\<lparr>vb_bit := nat fr, vb_overflow := False\<rparr>\<lparr>vb_buf := p'\<rparr>) = (mb, c\<lparr>vb_buf := p'\<rparr>)"
    using stableD(2) [OF st _ c(1), of "b\<lparr>vb_bit := nat fr, vb_overflow := False\<rparr>" mb p'] assms(1,4) c(2) unfolding run by simp
  moreover have "b\<lparr>vb_bit := nat fr, vb_overflow := False\<rparr>\<lparr>vb_buf := p'\<rparr> = b\<lparr>vb_buf := p'\<rparr>\<lparr>vb_bit := nat fr, vb_overflow := False\<rparr>"
    by (cases b) simp
  ultimately show ?thesis unfolding run by simp
qed

lemma edit_matrix:
  assumes "edit_rbsp p h (Some x) = Inr p'"
  shows "\<exists>pos. fst (run_state (full_range_bit h) (reader_of p)) = int pos \<and> pos + 26 \<le> 8 * length p
    \<and> nthbit p (pos + 1) \<and> rd_bits 8 p (pos + 18) \<noteq> ucast x \<and> length p' = length p
    \<and> (\<forall>q < 8 * length p. nthbit p' q = (if pos + 18 \<le> q \<and> q < pos + 26 then bit x (7 - (q - (pos + 18))) else nthbit p q))
    \<and> edit_rbsp p' h (Some x) = Inl 0"
proof -
  obtain fr b where w: "run_state (full_range_bit h) (reader_of p) = (fr, b)" by (cases "run_state (full_range_bit h) (reader_of p)")
  obtain mb c where mw: "run_state (vui_matrix_bit fr) b = (mb, c)" by (cases "run_state (vui_matrix_bit fr) b")
  have fr: "0 \<le> fr" "fr < int (length p * 8)" and mb: "0 \<le> mb" "mb + 8 \<le> int (length p * 8)" and p': "p' = put_matrix (nat mb) x p"
    and old: "fst (run_state (vb_read 8) (c\<lparr>vb_bit := nat mb, vb_overflow := False\<rparr>)) \<noteq> ucast x"
    using assms w mw by (auto simp: edit_rbsp_def split: if_splits)
  have self: "agree (nat fr) p p" by (simp add: agree_def)
  have b: "vb_buf b = p" "vb_size b = length p" using walk_again(4,5) [OF w fr(1) self refl] by simp_all
  define m where "m = nat fr + 18"
  have m: "mb = int m" "nthbit p (nat fr + 1)" "c = b\<lparr>vb_bit := m, vb_overflow := False\<rparr>"
    using matrix_walk [OF mw mb(1)] b by (simp_all add: m_def)
  have fit: "m + 8 \<le> 8 * length p" using mb(2) m(1) by simp
  have read: "fst (run_state (vb_read 8) (c\<lparr>vb_bit := m, vb_overflow := False\<rparr>)) = rd_bits 8 p m"
    using run_vb_read [of "c\<lparr>vb_bit := m, vb_overflow := False\<rparr>" 8] fit m(3) b by simp
  have len: "length p' = length p" by (simp add: p')
  have bits: "\<forall>q < 8 * length p. nthbit p' q = (if m \<le> q \<and> q < m + 8 then bit x (7 - (q - m)) else nthbit p q)"
    using nthbit_put_matrix [OF fit, of _ x] by (simp add: p' m(1))
  have agree: "agree m p p'" using bits fit by (auto simp: agree_def)
  have w': "run_state (full_range_bit h) (reader_of p') = (fr, b\<lparr>vb_buf := p'\<rparr>)"
    using walk_again(1) [OF w fr(1) agree_mono [OF agree] len] by (simp add: m_def)
  have mw': "run_state (vui_matrix_bit fr) (b\<lparr>vb_buf := p'\<rparr>) = (mb, c\<lparr>vb_buf := p'\<rparr>)"
    using matrix_walk_again [OF mw mb(1)] b agree by (simp add: m_def)
  have "fst (run_state (vb_read 8) (c\<lparr>vb_buf := p'\<rparr>\<lparr>vb_bit := m, vb_overflow := False\<rparr>)) = rd_bits 8 p' m"
    using run_vb_read [of "c\<lparr>vb_buf := p'\<rparr>\<lparr>vb_bit := m, vb_overflow := False\<rparr>" 8] fit m(3) b by simp
  moreover have "rd_bits 8 p' m = ucast x"
  proof (rule rd_bits_byte)
    fix j :: nat assume "j < 8"
    then have "m + (7 - j) < 8 * length p" "m \<le> m + (7 - j)" "m + (7 - j) < m + 8" "7 - (m + (7 - j) - m) = j"
      using fit by auto
    then show "nthbit p' (m + (7 - j)) = bit x j" using bits by simp
  qed
  ultimately have again: "edit_rbsp p' h (Some x) = Inl 0"
    using w' mw' fr mb len m(1) by (simp add: edit_rbsp_def)
  have "rd_bits 8 p m \<noteq> ucast x" using old read m(1) by simp
  then show ?thesis
    using fr(1) w fit m(2) len bits again by (intro exI [of _ "nat fr"]) (simp add: m_def)
qed

section \<open>The effect of an edit\<close>

definition sps_header :: "bytes \<Rightarrow> bool \<Rightarrow> nat" where
  "sps_header nal is_h265 = start_code nal + (if is_h265 then 2 else 1)"

definition sps_payload :: "bytes \<Rightarrow> bool \<Rightarrow> bytes" where
  "sps_payload nal is_h265 = vui_unescape (drop (sps_header nal is_h265) nal) VUI_RBSP_MAX"

definition payload_bits :: "bytes \<Rightarrow> bool list" where
  "payload_bits p = map (nthbit p) [0..<8 * length p]"

lemma length_payload_bits [simp]: "length (payload_bits p) = 8 * length p"
  by (simp add: payload_bits_def)

lemma start_code_put:
  assumes "is_sps (drop (start_code nal) nal) h" and "start_code nal < length nal"
    and "take (sps_header nal h) nal' = take (sps_header nal h) nal" and "length nal' = length nal"
  shows "start_code nal' = start_code nal"
proof -
  have same: "nal' ! i = nal ! i" if "i \<le> start_code nal" for i
  proof -
    have "i < sps_header nal h" using that by (simp add: sps_header_def split: if_splits)
    then show ?thesis using assms(3) by (metis nth_take)
  qed
  have nz: "nal ! start_code nal \<noteq> 0"
    using assms(1,2) by (auto simp: is_sps_def split: if_splits)
  have "start_code nal = 0 \<or> start_code nal = 3 \<or> start_code nal = 4" by (simp add: start_code_def)
  then consider "start_code nal = 0" | "start_code nal = 3" | "start_code nal = 4" by (elim disjE)
  then show ?thesis
  proof cases
    case 1
    then have "nal' ! 0 \<noteq> 0" using nz same [of 0] by simp
    then show ?thesis using 1 by (simp add: start_code_def)
  next
    case 2
    then show ?thesis using same [of 0] same [of 1] same [of 2] assms(4) by (auto simp: start_code_def split: if_splits)
  next
    case 3
    then show ?thesis using same [of 0] same [of 1] same [of 2] same [of 3] assms(4) by (auto simp: start_code_def split: if_splits)
  qed
qed

lemma vui_edit_effect:
  obtains (same) r where "vui_edit (Some nal) h mx = (r, Some nal)" "r = 0 \<or> r = -1"
  | (edited) nal' where "vui_edit (Some nal) h mx = (1, Some nal')" "length nal' = length nal"
      "take (sps_header nal h) nal' = take (sps_header nal h) nal" "sps_header nal' h = sps_header nal h"
      "\<not> start_code_in 1 1 (drop (sps_header nal h) nal')"
      "edit_rbsp (sps_payload nal h) h mx = Inr (sps_payload nal' h)"
      "edit_rbsp (sps_payload nal' h) h mx = Inl 0 \<Longrightarrow> vui_edit (Some nal') h mx = (0, Some nal')"
proof -
  let ?sc = "start_code nal" and ?hdr = "if h then 2 else 1 :: nat" and ?body = "drop (start_code nal) nal"
  let ?p = "sps_payload nal h"
  have p: "vui_unescape (drop ?hdr ?body) 1024 = ?p" by (simp add: sps_payload_def sps_header_def add.commute)
  have ret: "r = 0 \<or> r = -1" if "edit_rbsp ?p h mx = Inl r" for r
    using that by (auto simp: edit_rbsp_def split: prod.splits if_splits option.splits)
  show thesis
  proof (cases "length nal < 4 \<or> length ?body \<le> ?hdr \<or> length ?body - ?hdr > 1024 \<or> \<not> is_sps ?body h")
    case True
    then have "vui_edit (Some nal) h mx = (-1, Some nal)" unfolding vui_edit_def Let_def by auto
    then show thesis by (rule same) simp
  next
    case ok: False
    have e: "vui_edit (Some nal) h mx = (case edit_rbsp ?p h mx of Inl r \<Rightarrow> (r, Some nal)
        | Inr rbsp \<Rightarrow> let esc = vui_escape rbsp (1024 + 64)
            in if length esc \<noteq> length ?body - ?hdr then (-1, Some nal) else (1, Some (put nal (?sc + ?hdr) esc)))"
      using ok unfolding vui_edit_def option.case Let_def p by auto
    show thesis
    proof (cases "edit_rbsp ?p h mx")
      case (Inl r)
      then show thesis using same [of r] ret [of r] e by simp
    next
      case (Inr q)
      define esc where "esc = vui_escape q (1024 + 64)"
      define nal' where "nal' = put nal (?sc + ?hdr) esc"
      show thesis
      proof (cases "length esc = length ?body - ?hdr")
        case False
        then have "vui_edit (Some nal) h mx = (-1, Some nal)" using e Inr by (simp add: esc_def Let_def)
        then show thesis by (rule same) simp
      next
        case True
        have hd: "sps_header nal h = ?sc + ?hdr" by (simp add: sps_header_def)
        have room: "?sc + ?hdr + length esc = length nal" using ok True by auto
        have len: "length nal' = length nal" unfolding nal'_def using room by (simp add: length_put)
        have tk: "take (sps_header nal h) nal' = take (sps_header nal h) nal"
          unfolding nal'_def hd using room by (simp add: take_put_before)
        have dr: "drop (sps_header nal h) nal' = esc"
          unfolding nal'_def hd using room by (rule drop_put_end)
        have sc': "start_code nal' = ?sc"
          using start_code_put [OF _ _ tk len] ok by auto
        have hd': "sps_header nal' h = sps_header nal h" by (simp add: sps_header_def sc')
        have ne: "esc \<noteq> []" using True ok by auto
        have small: "length esc \<le> 1024" using True ok by auto
        have inv: "vui_unescape esc 1024 = q" "\<not> start_code_in 1 1 esc"
          using escape_inverse [of q "1024 + 64" 1024] ne small unfolding esc_def by blast+
        have p': "sps_payload nal' h = q" by (simp add: sps_payload_def hd' dr inv(1))
        have first: "nal' ! ?sc = nal ! ?sc"
        proof -
          have "?sc < sps_header nal h" by (simp add: hd)
          then have "take (sps_header nal h) nal' ! ?sc = nal' ! ?sc" "take (sps_header nal h) nal ! ?sc = nal ! ?sc" by simp_all
          then show ?thesis using tk by simp
        qed
        have "drop ?sc nal' \<noteq> []" "drop ?sc nal \<noteq> []" using ok len by auto
        then have body: "length (drop ?sc nal') = length ?body" "is_sps (drop ?sc nal') h = is_sps ?body h"
          using len first by (simp_all add: is_sps_def)
        have e': "vui_edit (Some nal') h mx = (case edit_rbsp q h mx of Inl r \<Rightarrow> (r, Some nal')
            | Inr rbsp \<Rightarrow> let esc = vui_escape rbsp (1024 + 64)
                in if length esc \<noteq> length ?body - ?hdr then (-1, Some nal') else (1, Some (put nal' (?sc + ?hdr) esc)))"
        proof -
          have p2: "vui_unescape (drop ?hdr (drop ?sc nal')) 1024 = q"
            using p' hd' hd by (simp add: sps_payload_def add.commute)
          show ?thesis using ok len unfolding vui_edit_def option.case Let_def sc' p2 body by auto
        qed
        have "vui_edit (Some nal) h mx = (1, Some nal')" using e Inr True by (simp add: esc_def nal'_def Let_def)
        then show thesis
          using edited [of nal'] len tk hd' dr inv(2) p' Inr e' by simp
      qed
    qed
  qed
qed

text \<open>C8. Declaring full range changes one bit and nothing else: the call either leaves the unit alone and
  answers 0 or -1, or answers 1 and then length and header are the same, the payload has
  exactly the bit the walk ended at set, which was clear before, no start code has come up in it, and
  a second call answers 0 without a change.\<close>

lemma vui_full_range_effect:
  "case rss_vui_set_full_range (Some nal) h of (r, out) \<Rightarrow>
     (let nal' = the out; pos = nat (fst (run_state (full_range_bit h) (reader_of (sps_payload nal h))))
      in out \<noteq> None \<and> length nal' = length nal \<and>
         (if r = 1 then
            take (sps_header nal h) nal' = take (sps_header nal h) nal
            \<and> pos < 8 * length (sps_payload nal h) \<and> payload_bits (sps_payload nal h) ! pos = False
            \<and> payload_bits (sps_payload nal' h) = (payload_bits (sps_payload nal h))[pos := True]
            \<and> \<not> start_code_in 1 1 (drop (sps_header nal h) nal')
            \<and> rss_vui_set_full_range (Some nal') h = (0, Some nal')
          else nal' = nal \<and> (r = 0 \<or> r = -1)))"
proof (rule vui_edit_effect [of nal h None])
  fix nal'
  assume e: "vui_edit (Some nal) h None = (1, Some nal')" "length nal' = length nal"
    "take (sps_header nal h) nal' = take (sps_header nal h) nal" "\<not> start_code_in 1 1 (drop (sps_header nal h) nal')"
    "edit_rbsp (sps_payload nal h) h None = Inr (sps_payload nal' h)"
    "edit_rbsp (sps_payload nal' h) h None = Inl 0 \<Longrightarrow> vui_edit (Some nal') h None = (0, Some nal')"
  let ?p = "sps_payload nal h" and ?p' = "sps_payload nal' h"
  obtain pos where pos: "pos < 8 * length ?p" "fst (run_state (full_range_bit h) (reader_of ?p)) = int pos" "\<not> nthbit ?p pos"
    "length ?p' = length ?p" "\<forall>q < 8 * length ?p. nthbit ?p' q = (q = pos \<or> nthbit ?p q)" "edit_rbsp ?p' h None = Inl 0"
    using edit_range [OF e(5)] by blast
  have "payload_bits ?p' = (payload_bits ?p)[pos := True]"
    using pos by (intro nth_equalityI) (auto simp: payload_bits_def nth_list_update)
  then show ?thesis
    using e pos by (simp add: rss_vui_set_full_range_def Let_def) (simp add: payload_bits_def)
qed (auto simp: rss_vui_set_full_range_def)

text \<open>Declaring the matrix rewrites one byte of the payload and nothing else: the eight bits eighteen
  bits after the range flag become the given value, which they did not have before; a unit that is not
  changed keeps every byte, and a second call with the same value answers 0.\<close>

lemma vui_matrix_effect:
  "case rss_vui_set_matrix (Some nal) h x of (r, out) \<Rightarrow>
     (let nal' = the out; pos = nat (fst (run_state (full_range_bit h) (reader_of (sps_payload nal h)))) + 18
      in out \<noteq> None \<and> length nal' = length nal \<and>
         (if r = 1 then
            take (sps_header nal h) nal' = take (sps_header nal h) nal
            \<and> pos + 8 \<le> 8 * length (sps_payload nal h)
            \<and> payload_bits (sps_payload nal' h) = put (payload_bits (sps_payload nal h)) pos (map (\<lambda>i. bit x (7 - i)) [0..<8])
            \<and> payload_bits (sps_payload nal' h) \<noteq> payload_bits (sps_payload nal h)
            \<and> \<not> start_code_in 1 1 (drop (sps_header nal h) nal')
            \<and> rss_vui_set_matrix (Some nal') h x = (0, Some nal')
          else nal' = nal \<and> (r = 0 \<or> r = -1)))"
proof (rule vui_edit_effect [of nal h "Some x"])
  fix nal'
  assume e: "vui_edit (Some nal) h (Some x) = (1, Some nal')" "length nal' = length nal"
    "take (sps_header nal h) nal' = take (sps_header nal h) nal" "\<not> start_code_in 1 1 (drop (sps_header nal h) nal')"
    "edit_rbsp (sps_payload nal h) h (Some x) = Inr (sps_payload nal' h)"
    "edit_rbsp (sps_payload nal' h) h (Some x) = Inl 0 \<Longrightarrow> vui_edit (Some nal') h (Some x) = (0, Some nal')"
  let ?p = "sps_payload nal h" and ?p' = "sps_payload nal' h"
  obtain pos where pos: "fst (run_state (full_range_bit h) (reader_of ?p)) = int pos" "pos + 26 \<le> 8 * length ?p"
    "rd_bits 8 ?p (pos + 18) \<noteq> ucast x" "length ?p' = length ?p"
    "\<forall>q < 8 * length ?p. nthbit ?p' q = (if pos + 18 \<le> q \<and> q < pos + 26 then bit x (7 - (q - (pos + 18))) else nthbit ?p q)"
    "edit_rbsp ?p' h (Some x) = Inl 0"
    using edit_matrix [OF e(5)] by blast
  let ?b = "map (\<lambda>i. bit x (7 - i)) [0..<8]"
  have put: "put (payload_bits ?p) (pos + 18) ?b ! q = (if pos + 18 \<le> q \<and> q < pos + 26 then bit x (7 - (q - (pos + 18))) else nthbit ?p q)"
    if "q < 8 * length ?p" for q
    using that pos(2) by (auto simp: put_def nth_append payload_bits_def)
  have "payload_bits ?p' = put (payload_bits ?p) (pos + 18) ?b"
    using pos(2,4,5) put by (intro nth_equalityI) (auto simp: payload_bits_def length_put)
  moreover have "payload_bits ?p' \<noteq> payload_bits ?p"
  proof
    assume eq: "payload_bits ?p' = payload_bits ?p"
    have "nthbit ?p' q = nthbit ?p q" if "q < 8 * length ?p" for q
      using arg_cong [OF eq, of "\<lambda>xs. xs ! q"] that pos(4) by (simp add: payload_bits_def)
    then have "rd_bits 8 ?p' (pos + 18) = rd_bits 8 ?p (pos + 18)" using pos(2) by (intro rd_bits_cong) simp
    moreover have "rd_bits 8 ?p' (pos + 18) = ucast x"
    proof (rule rd_bits_byte)
      fix j :: nat assume "j < 8"
      then have "pos + 18 + (7 - j) < 8 * length ?p" "pos + 18 \<le> pos + 18 + (7 - j)" "pos + 18 + (7 - j) < pos + 26"
        "7 - (pos + 18 + (7 - j) - (pos + 18)) = j" using pos(2) by auto
      then show "nthbit ?p' (pos + 18 + (7 - j)) = bit x j" using pos(5) by simp
    qed
    ultimately show False using pos(3) by simp
  qed
  ultimately show ?thesis
    using e pos(1,2,6) by (simp add: rss_vui_set_matrix_def Let_def)
qed (auto simp: rss_vui_set_matrix_def)

end
