(* ===== verification/Rss_Vui_Syntax.thy ===== *)
theory Rss_Vui_Syntax imports Rss_Vui begin

text \<open>
  The syntax of the sequence parameter sets of H.264 (7.3.2.1.1) and H.265 (7.3.2.2.1) up to the colour
  declarations, as an encoder from records to bits, and the two walks of \<open>src/rss_vui.c\<close> against it: on
  a payload that begins with any encoded set the walk stops at the range flag.  \<open>reads P xs r\<close> says that
  reader \<open>P\<close> takes exactly the bits \<open>xs\<close>, without overflow and without an undefined step; it is closed
  under the combinators of the walk, so each block of the syntax is one lemma.
\<close>

section \<open>The syntax of a sequence parameter set\<close>

text \<open>
  The descriptors of the standard: \<open>u(n)\<close>, \<open>ue(v)\<close> and \<open>se(v)\<close> as bit strings.
\<close>

definition ubits :: "nat \<Rightarrow> nat \<Rightarrow> bool list" where
  "ubits n v = map (\<lambda>i. bit v (n - 1 - i)) [0..<n]"

fun width :: "nat \<Rightarrow> nat" where
  "width n = (if n \<le> 1 then 0 else Suc (width (n div 2)))"

declare width.simps [simp del]

definition ue_bits :: "nat \<Rightarrow> bool list" where
  "ue_bits v = (let k = width (v + 1) in replicate k False @ True # ubits k (v + 1 - 2 ^ k))"

definition se_bits :: "int \<Rightarrow> bool list" where
  "se_bits k = ue_bits (if k > 0 then nat (2 * k - 1) else nat (- 2 * k))"

lemma length_ubits [simp]: "length (ubits n v) = n"
  by (simp add: ubits_def)

lemma width_bounds: "0 < n \<Longrightarrow> 2 ^ width n \<le> n \<and> n < 2 ^ Suc (width n)"
proof (induction n rule: less_induct)
  case (less n)
  show ?case
  proof (cases "n \<le> 1")
    case True
    then show ?thesis using less.prems by (subst (1 2) width.simps) simp
  next
    case False
    then have IH: "2 ^ width (n div 2) \<le> n div 2" "n div 2 < 2 ^ Suc (width (n div 2))"
      using less.IH [of "n div 2"] by auto
    have "width n = Suc (width (n div 2))" using False by (subst width.simps) simp
    then show ?thesis using IH by auto
  qed
qed

section \<open>Reading what was written\<close>

definition holds :: "vui_bits_t \<Rightarrow> bool list \<Rightarrow> bool" where
  "holds b xs \<longleftrightarrow> \<not> vb_overflow b \<and> vb_bit b + length xs \<le> 8 * vb_size b
     \<and> (\<forall>i < length xs. nthbit (vb_buf b) (vb_bit b + i) = xs ! i)"

definition reads :: "'a reader \<Rightarrow> bool list \<Rightarrow> (nat \<Rightarrow> 'a) \<Rightarrow> bool" where
  "reads P xs r \<longleftrightarrow> (\<forall>b. holds b xs \<longrightarrow>
     run_state P b = (r (vb_bit b + length xs), b\<lparr>vb_bit := vb_bit b + length xs\<rparr>))"

named_theorems reads_intros

lemma all_less_add: "(\<forall>i < m + n. P i) \<longleftrightarrow> (\<forall>i < m. P i) \<and> (\<forall>i < n. P (m + i :: nat))"
  by (induction n) (auto simp: less_Suc_eq)

lemma holds_append:
  "holds b (xs @ ys) \<longleftrightarrow> holds b xs \<and> holds (b\<lparr>vb_bit := vb_bit b + length xs\<rparr>) ys"
  by (auto simp: holds_def all_less_add nth_append add.assoc)

lemma reads_bind [reads_intros]:
  assumes "reads P xs (\<lambda>_. v)" and "reads (Q v) ys r"
  shows "reads (State_Monad.bind P Q) (xs @ ys) r"
  unfolding reads_def
proof (intro allI impI)
  fix b assume "holds b (xs @ ys)"
  then have h: "holds b xs" "holds (b\<lparr>vb_bit := vb_bit b + length xs\<rparr>) ys" by (simp_all add: holds_append)
  have "run_state P b = (v, b\<lparr>vb_bit := vb_bit b + length xs\<rparr>)" using assms(1) h(1) by (simp add: reads_def)
  moreover have "run_state (Q v) (b\<lparr>vb_bit := vb_bit b + length xs\<rparr>)
      = (r (vb_bit b + length xs + length ys), b\<lparr>vb_bit := vb_bit b + length xs + length ys\<rparr>)"
    using assms(2) [unfolded reads_def, rule_format, OF h(2)] by simp
  ultimately show "run_state (State_Monad.bind P Q) b = (r (vb_bit b + length (xs @ ys)), b\<lparr>vb_bit := vb_bit b + length (xs @ ys)\<rparr>)"
    by (simp add: add.assoc)
qed

lemma reads_return [reads_intros]: "reads (State_Monad.return v) [] (\<lambda>_. v)"
  by (simp add: reads_def)

lemma reads_at_bit [reads_intros]: "reads at_bit [] int" "reads is_absent [] (\<lambda>_. -2)"
  by (simp_all add: reads_def run_leaves holds_def)

lemma reads_undefined [reads_intros]: "\<not> c \<Longrightarrow> reads (undefined_if c) [] (\<lambda>_. ())"
  by (simp add: reads_def undefined_if_def State_Monad.update_def)

text \<open>A reader whose value is thrown away.\<close>

lemma reads_skip: "reads P xs (\<lambda>_. v) \<Longrightarrow> reads (do { P; State_Monad.return () }) xs (\<lambda>_. ())"
  using reads_bind [of P xs v "\<lambda>_. State_Monad.return ()" "[]" "\<lambda>_. ()"] by (simp add: reads_intros)

lemma rd_bits_value:
  assumes "\<forall>i < n. nthbit buf (p + i) = bit (v::nat) (n - 1 - i)" and "v < 2 ^ n" and "n \<le> 32"
  shows "rd_bits n buf p = of_nat v"
proof (rule bit_word_eqI)
  fix j :: nat assume j: "j < LENGTH(32)"
  have "bit v j \<longleftrightarrow> j < n \<and> bit v j"
  proof -
    have "\<not> bit v j" if "n \<le> j"
    proof -
      have "v < 2 ^ j" using assms(2) that by (meson le_less_trans less_le_trans one_le_numeral power_increasing nat_less_le)
      then show ?thesis by (simp add: bit_iff_odd)
    qed
    then show ?thesis by (meson not_less)
  qed
  moreover have "nthbit buf (p + (n - 1 - j)) = bit v j" if "j < n"
    using assms(1) [rule_format, of "n - 1 - j"] that by simp
  ultimately show "bit (rd_bits n buf p) j = bit (of_nat v :: u32) j"
    using j by (auto simp: bit_rd_bits bit_of_nat_iff)
qed

lemma reads_u [reads_intros]:
  assumes "v < 2 ^ nat n" and "0 \<le> n" and "n \<le> 32"
  shows "reads (vb_read n) (ubits (nat n) v) (\<lambda>_. of_nat v)"
  unfolding reads_def
proof (intro allI impI)
  fix b assume h: "holds b (ubits (nat n) v)"
  have "run_state (vb_read (int (nat n))) b = (rd_bits (nat n) (vb_buf b) (vb_bit b), b\<lparr>vb_bit := vb_bit b + nat n\<rparr>)"
    using h by (intro run_vb_read) (simp add: holds_def)
  moreover have "rd_bits (nat n) (vb_buf b) (vb_bit b) = of_nat v"
    using h assms by (intro rd_bits_value) (auto simp: holds_def ubits_def)
  ultimately show "run_state (vb_read n) b = (of_nat v, b\<lparr>vb_bit := vb_bit b + length (ubits (nat n) v)\<rparr>)"
    using assms(2) by simp
qed

lemma reads_flag [reads_intros]: "reads (vb_read 1) [c] (\<lambda>_. of_bool c)"
proof -
  have "ubits 1 (of_bool c) = [c]" by (cases c) (simp_all add: ubits_def bit_iff_odd)
  then show ?thesis using reads_u [of "of_bool c" 1] by (cases c) simp_all
qed

lemma ue_zeros_run:
  "z + k < 32 \<Longrightarrow> holds b (replicate k False @ [True]) \<Longrightarrow>
    ue_zeros z b = (z + k, b\<lparr>vb_bit := vb_bit b + Suc k\<rparr>)"
proof (induction k arbitrary: z b)
  case 0
  then have "run_state (vb_read 1) b = (1, b\<lparr>vb_bit := vb_bit b + 1\<rparr>)" "\<not> vb_overflow b"
    using reads_flag [of True] by (simp_all add: reads_def holds_def)
  then show ?case by (subst ue_zeros.simps) simp
next
  case (Suc k)
  have h: "holds b ([False] @ (replicate k False @ [True]))" using Suc.prems(2) by simp
  then have h1: "holds b [False]" and h2: "holds (b\<lparr>vb_bit := vb_bit b + 1\<rparr>) (replicate k False @ [True])"
    using holds_append [of b "[False]" "replicate k False @ [True]"] by simp_all
  have "run_state (vb_read 1) b = (0, b\<lparr>vb_bit := vb_bit b + 1\<rparr>)" "\<not> vb_overflow b"
    using h1 reads_flag [of False] by (simp_all add: reads_def holds_def)
  moreover have "ue_zeros (Suc z) (b\<lparr>vb_bit := vb_bit b + 1\<rparr>) = (Suc z + k, b\<lparr>vb_bit := vb_bit b + 1\<rparr>\<lparr>vb_bit := vb_bit (b\<lparr>vb_bit := vb_bit b + 1\<rparr>) + Suc k\<rparr>)"
    using Suc.prems(1) h2 by (intro Suc.IH) simp_all
  ultimately show ?case using Suc.prems(1) by (subst ue_zeros.simps) simp
qed

lemma reads_ue [reads_intros]:
  assumes "v + 1 < 2 ^ 32"
  shows "reads vb_ue (ue_bits v) (\<lambda>_. of_nat v)"
proof -
  define k where "k = width (v + 1)"
  have w: "2 ^ k \<le> v + 1" "v + 1 < 2 ^ Suc k" using width_bounds [of "v + 1"] by (simp_all add: k_def)
  have k: "k < 32"
  proof (rule ccontr)
    assume "\<not> k < 32"
    then have "(2::nat) ^ 32 \<le> 2 ^ k" by (intro power_increasing) simp_all
    then show False using w(1) assms by simp
  qed
  have zeros: "reads (State (ue_zeros 0)) (replicate k False @ [True]) (\<lambda>_. k)"
    unfolding reads_def using ue_zeros_run [of 0 k] k by simp
  have rest: "reads (vb_read (int k)) (ubits k (v + 1 - 2 ^ k)) (\<lambda>_. of_nat (v + 1 - 2 ^ k))"
    using reads_u [of "v + 1 - 2 ^ k" "int k"] w k by simp
  have val: "push_bit k 1 - 1 + of_nat (v + 1 - 2 ^ k) = (of_nat v :: u32)"
  proof -
    have "of_nat (v + 1) = (of_nat (2 ^ k) + of_nat (v + 1 - 2 ^ k) :: u32)"
      using w(1) by (metis le_add_diff_inverse of_nat_add)
    then have "2 ^ k + of_nat (v + 1 - 2 ^ k) = (of_nat v + 1 :: u32)" by (simp add: add.commute)
    then have "2 ^ k + of_nat (v + 1 - 2 ^ k) - 1 = (of_nat v :: u32)" by (simp only: add_diff_cancel_right')
    then show ?thesis by (simp add: push_bit_eq_mult algebra_simps)
  qed
  have "reads vb_ue ((replicate k False @ [True]) @ [] @ ubits k (v + 1 - 2 ^ k) @ []) (\<lambda>_. push_bit k 1 - 1 + of_nat (v + 1 - 2 ^ k))"
    unfolding vb_ue_def using k by (intro reads_bind [OF zeros] reads_bind [OF reads_undefined] reads_bind [OF rest] reads_return) simp
  then show ?thesis unfolding ue_bits_def Let_def k_def [symmetric] val by simp
qed

lemma half_of_nat: "n < 2 ^ 32 \<Longrightarrow> uint ((of_nat n :: u32) div 2) = int (n div 2)"
  by (simp add: uint_div_distrib unsigned_of_nat take_bit_eq_mod zdiv_int)

lemma odd_of_nat_u32: "(of_nat n :: u32) AND 1 \<noteq> 0 \<longleftrightarrow> odd n"
proof -
  have "bit (of_nat n :: u32) 0 \<longleftrightarrow> odd n" by (simp only: bit_of_nat_iff bit_0) simp
  moreover have "(of_nat n :: u32) AND 1 \<noteq> 0 \<longleftrightarrow> bit (of_nat n :: u32) 0"
    using and_exp_eq_0_iff_not_bit [of "of_nat n :: u32" 0] by simp
  ultimately show ?thesis by simp
qed

lemma reads_se [reads_intros]:
  assumes "- (2 ^ 31) < k" and "k < 2 ^ 31"
  shows "reads vb_se (se_bits k) (\<lambda>_. k)"
proof -
  let ?v = "if k > 0 then nat (2 * k - 1) else nat (- 2 * k)"
  have v: "?v + 1 < 2 ^ 32" using assms by auto
  have "(if (of_nat ?v :: u32) AND 1 \<noteq> 0 then uint ((of_nat ?v + 1 :: u32) div 2) else - uint ((of_nat ?v :: u32) div 2)) = k"
  proof (cases "k > 0")
    case True
    then have "odd (nat (2 * k - 1))" "nat (2 * k - 1) + 1 = nat (2 * k)" by (auto simp: even_nat_iff)
    moreover have "uint ((of_nat (nat (2 * k - 1) + 1) :: u32) div 2) = k"
      using True v calculation(2) by (subst half_of_nat) auto
    ultimately show ?thesis using True unfolding odd_of_nat_u32 of_nat_add of_nat_1 by (simp only: if_True not_False_eq_True)
  next
    case False
    then have "even (nat (- 2 * k))" by (auto simp: even_nat_iff)
    moreover have "uint ((of_nat (nat (- 2 * k)) :: u32) div 2) = - k"
      using False v by (subst half_of_nat) auto
    ultimately show ?thesis using False by (simp only: if_False odd_of_nat_u32 not_True_eq_False minus_minus)
  qed
  then have "reads vb_se (ue_bits ?v @ []) (\<lambda>_. k)"
    unfolding vb_se_def by (intro reads_bind [OF reads_ue [OF v]]) (simp only: reads_return)
  then show ?thesis by (simp add: se_bits_def)
qed

section \<open>Readers of the pieces\<close>

abbreviation (input) ue_ok :: "nat \<Rightarrow> bool" where "ue_ok v \<equiv> v + 1 < 2 ^ 32"
abbreviation (input) se_ok :: "int \<Rightarrow> bool" where "se_ok k \<equiv> - (2 ^ 31) < k \<and> k < 2 ^ 31"

lemma reads_skip_bits [reads_intros]:
  "v < 2 ^ nat n \<Longrightarrow> 0 \<le> n \<Longrightarrow> n \<le> 32 \<Longrightarrow> reads (skip_bits n) (ubits (nat n) v) (\<lambda>_. ())"
  unfolding skip_bits_def by (intro reads_skip [OF reads_u])

lemma reads_skip_flag [reads_intros]: "reads (skip_bits 1) [c] (\<lambda>_. ())"
  unfolding skip_bits_def by (intro reads_skip [OF reads_flag])

lemma reads_skip_ue [reads_intros]: "ue_ok v \<Longrightarrow> reads skip_ue (ue_bits v) (\<lambda>_. ())"
  unfolding skip_ue_def by (intro reads_skip [OF reads_ue])

lemma reads_skip_se [reads_intros]: "se_ok k \<Longrightarrow> reads skip_se (se_bits k) (\<lambda>_. ())"
  unfolding skip_se_def by (intro reads_skip [OF reads_se]) simp_all

lemma reads_bind_nil: "reads P [] (\<lambda>_. v) \<Longrightarrow> reads (Q v) ys r \<Longrightarrow> reads (State_Monad.bind P Q) ys r"
  using reads_bind [of P "[]" v Q ys r] by simp

text \<open>The last statement of a block, and a block with nothing after it.\<close>

lemma reads_bind_last: "reads P xs (\<lambda>_. v) \<Longrightarrow> reads (Q v) [] r \<Longrightarrow> reads (State_Monad.bind P Q) xs r"
  using reads_bind [of P xs v Q "[]" r] by simp

lemma reads_if [reads_intros]:
  "(c \<Longrightarrow> reads P xs r) \<Longrightarrow> (\<not> c \<Longrightarrow> reads Q ys r) \<Longrightarrow> reads (if c then P else Q) (if c then xs else ys) r"
  by simp

lemma reads_times:
  "list_all (\<lambda>xs. reads P xs (\<lambda>_. ())) xss \<Longrightarrow> length xss = n \<Longrightarrow> reads (times_do n P) (concat xss) (\<lambda>_. ())"
proof (induction xss arbitrary: n)
  case (Cons xs xss)
  then obtain m where n: "n = Suc m" "length xss = m" by (cases n) auto
  then show ?case using Cons unfolding n(1) times_do.simps concat.simps by (intro reads_bind [of P xs "()"]) simp_all
qed (simp add: reads_intros)

lemma u32_of_nat_eq: "n < 2 ^ 32 \<Longrightarrow> m < 2 ^ 32 \<Longrightarrow> (of_nat n :: u32) = of_nat m \<longleftrightarrow> n = m"
  by (simp add: of_nat_inverse word_of_nat_eq_iff take_bit_nat_eq_self)

lemma u32_eq_numeral: "n < 2 ^ 32 \<Longrightarrow> numeral k < (2 :: nat) ^ 32 \<Longrightarrow> (of_nat n :: u32) = numeral k \<longleftrightarrow> n = numeral k"
  using u32_of_nat_eq [of n "numeral k"] by simp

lemma u32_of_nat_le: "n < 2 ^ 32 \<Longrightarrow> m < 2 ^ 32 \<Longrightarrow> (of_nat n :: u32) > of_nat m \<longleftrightarrow> n > m"
  by (simp add: word_less_nat_alt unat_of_nat)

section \<open>The colour declarations of a VUI\<close>

text \<open>
  \<open>E.1.1\<close> as far as \<open>video_full_range_flag\<close>: the aspect ratio (with its two sizes when it is the
  extended one), the overscan flag, and the video format of the signal type block.
\<close>

datatype vui = No_Vui | Vui "(nat \<times> nat \<times> nat) option" "bool option" "nat option"

fun aspect_bits :: "(nat \<times> nat \<times> nat) option \<Rightarrow> bool list" where
  "aspect_bits None = [False]"
| "aspect_bits (Some (idc, w, h)) = [True] @ ubits 8 idc @ (if idc = 255 then ubits 16 w @ ubits 16 h else [])"

fun option_flag :: "bool option \<Rightarrow> bool list" where
  "option_flag None = [False]"
| "option_flag (Some c) = [True] @ [c]"

fun vui_bits :: "vui \<Rightarrow> bool list" where
  "vui_bits No_Vui = [False]"
| "vui_bits (Vui a ov s) = [True] @ aspect_bits a @ option_flag ov @ (case s of None \<Rightarrow> [False] | Some f \<Rightarrow> [True] @ ubits 3 f)"

fun vui_ok :: "vui \<Rightarrow> bool" where
  "vui_ok No_Vui = True"
| "vui_ok (Vui a ov s) \<longleftrightarrow>
     (case a of None \<Rightarrow> True | Some (idc, w, h) \<Rightarrow> idc < 256 \<and> w < 65536 \<and> h < 65536)
     \<and> (case s of None \<Rightarrow> True | Some f \<Rightarrow> f < 8)"

fun has_signal :: "vui \<Rightarrow> bool" where
  "has_signal (Vui a ov (Some f)) \<longleftrightarrow> True"
| "has_signal _ \<longleftrightarrow> False"

text \<open>What a walk that ends in \<open>vui\<close> returns at the bit where the prefix ends.\<close>

definition walk_value :: "vui \<Rightarrow> nat \<Rightarrow> int" where
  "walk_value v n = (if has_signal v then int n else -2)"

lemma walk_value_fun: "walk_value v = (if has_signal v then int else (\<lambda>_. -2))"
  by (auto simp: walk_value_def)

text \<open>The statements of a walk, one rule each: the bits it takes, and the rest of the walk.\<close>

lemma reads_u_n: "v < 2 ^ nat n \<Longrightarrow> 0 \<le> n \<Longrightarrow> n \<le> 32 \<Longrightarrow> nat n = m \<Longrightarrow> reads (vb_read n) (ubits m v) (\<lambda>_. of_nat v)"
  using reads_u [of v n] by simp

lemma reads_skip_n: "v < 2 ^ nat n \<Longrightarrow> 0 \<le> n \<Longrightarrow> n \<le> 32 \<Longrightarrow> nat n = m \<Longrightarrow> reads (skip_bits n) (ubits m v) (\<lambda>_. ())"
  using reads_skip_bits [of v n] by simp

lemma reads_branch:
  "(C \<longleftrightarrow> c) \<Longrightarrow> (c \<Longrightarrow> reads P xs r) \<Longrightarrow> (\<not> c \<Longrightarrow> reads Q ys r) \<Longrightarrow> reads (if C then P else Q) (if c then xs else ys) r"
  by simp

lemmas reads_steps =
  reads_bind [OF reads_flag] reads_bind [OF reads_ue] reads_bind [OF reads_se] reads_bind [OF reads_u_n]
  reads_bind [OF reads_skip_flag] reads_bind [OF reads_skip_ue]
  reads_bind [where v = "()", OF reads_branch]

lemma reads_flag_cons: "reads (Q (of_bool c)) ys r \<Longrightarrow> reads (State_Monad.bind (vb_read 1) Q) (c # ys) r"
  using reads_bind [OF reads_flag, of Q c ys r] by simp

lemmas reads_ends = reads_return reads_at_bit reads_branch reads_skip_flag reads_skip_ue reads_skip_n

lemma reads_aspect:
  assumes "case a of None \<Rightarrow> True | Some (idc, w, h) \<Rightarrow> idc < 256 \<and> w < 65536 \<and> h < 65536"
  shows "reads (do { p \<leftarrow> vb_read 1;
       if p \<noteq> 0
       then do { idc \<leftarrow> vb_read 8; if idc = 255 then do { vb_read 16; skip_bits 16 } else State_Monad.return () }
       else State_Monad.return () }) (aspect_bits a) (\<lambda>_. ())"
proof (cases a)
  case None
  then show ?thesis by (auto intro!: reads_bind_last [OF reads_flag] reads_return)
next
  case (Some t)
  obtain idc w h where t: "t = (idc, w, h)" by (cases t)
  have "reads (do { idc \<leftarrow> vb_read 8; if idc = 255 then do { vb_read 16; skip_bits 16 } else State_Monad.return () })
      (ubits 8 idc @ (if idc = 255 then ubits 16 w @ ubits 16 h else [])) (\<lambda>_. ())"
    using assms u32_of_nat_eq [of idc 255] by (intro reads_steps reads_ends) (simp_all add: Some t)
  then show ?thesis unfolding Some t aspect_bits.simps by (intro reads_bind [OF reads_flag]) simp
qed

lemma reads_option_flag:
  "reads (do { ov \<leftarrow> vb_read 1; if ov \<noteq> 0 then skip_bits 1 else State_Monad.return () }) (option_flag ov) (\<lambda>_. ())"
proof (cases ov)
  case None
  then show ?thesis by (auto intro!: reads_bind_last [OF reads_flag] reads_return)
next
  case (Some c)
  then show ?thesis unfolding Some option_flag.simps by (intro reads_bind [OF reads_flag]) (simp add: reads_skip_flag)
qed

lemma reads_vui:
  assumes "vui_ok v"
  shows "reads vui_signal_type (vui_bits v) (walk_value v)"
proof (cases v)
  case No_Vui
  then show ?thesis unfolding No_Vui vui_signal_type_def vui_bits.simps
    by (intro reads_bind_last [OF reads_flag]) (simp add: reads_at_bit walk_value_fun)
next
  case (Vui a ov s)
  have s: "reads (do { p \<leftarrow> vb_read 1; if p = 0 then is_absent else do { vb_read 3; at_bit } })
      (case s of None \<Rightarrow> [False] | Some f \<Rightarrow> [True] @ ubits 3 f) (walk_value v)"
  proof (cases s)
    case None
    then show ?thesis unfolding None option.case
      by (intro reads_bind_last [OF reads_flag]) (simp add: reads_at_bit walk_value_fun Vui None)
  next
    case (Some f)
    have "reads (do { vb_read 3; at_bit }) (ubits 3 f) int"
      using assms by (intro reads_bind_last [OF reads_u_n] reads_at_bit) (simp_all add: Vui Some)
    then show ?thesis unfolding Some option.case
      by (intro reads_bind [OF reads_flag]) (simp add: walk_value_fun Vui Some)
  qed
  have a: "reads (do { p \<leftarrow> vb_read 1;
       if p \<noteq> 0
       then do { idc \<leftarrow> vb_read 8; if idc = 255 then do { vb_read 16; skip_bits 16 } else State_Monad.return () }
       else State_Monad.return () }) (aspect_bits a) (\<lambda>_. ())"
    using assms by (intro reads_aspect) (simp add: Vui)
  have all: "reads (State_Monad.bind (do { p \<leftarrow> vb_read 1;
       if p \<noteq> 0
       then do { idc \<leftarrow> vb_read 8; if idc = 255 then do { vb_read 16; skip_bits 16 } else State_Monad.return () }
       else State_Monad.return () })
     (\<lambda>_. State_Monad.bind (do { ov \<leftarrow> vb_read 1; if ov \<noteq> 0 then skip_bits 1 else State_Monad.return () })
     (\<lambda>_. do { p \<leftarrow> vb_read 1; if p = 0 then is_absent else do { vb_read 3; at_bit } })))
     (aspect_bits a @ option_flag ov @ (case s of None \<Rightarrow> [False] | Some f \<Rightarrow> [True] @ ubits 3 f)) (walk_value v)"
    by (rule reads_bind, rule a, rule reads_bind, rule reads_option_flag, rule s)
  show ?thesis unfolding Vui vui_signal_type_def vui_bits.simps
    by (intro reads_bind [OF reads_flag]) (use all [unfolded Vui] in simp)
qed

section \<open>The H.264 sequence parameter set\<close>

text \<open>
  \<open>7.3.2.1.1\<close> up to the VUI.  A scaling list is its coded deltas; \<open>scaling_ok\<close> runs the decoding of
  \<open>7.3.2.1.1.1\<close> on them and accepts exactly the lists that code all \<open>n\<close> entries.
\<close>

fun scaling_ok :: "nat \<Rightarrow> int \<Rightarrow> int \<Rightarrow> int list \<Rightarrow> bool" where
  "scaling_ok 0 lst nxt ds \<longleftrightarrow> ds = []"
| "scaling_ok (Suc n) lst nxt ds \<longleftrightarrow>
     (if nxt = 0 then scaling_ok n lst nxt ds
      else case ds of [] \<Rightarrow> False
      | d # ds \<Rightarrow> -128 \<le> d \<and> d \<le> 127 \<and>
          (let nxt = (lst + d + 256) mod 256 in scaling_ok n (if nxt = 0 then lst else nxt) nxt ds))"

definition se_list :: "int list \<Rightarrow> bool list" where
  "se_list ds = concat (map se_bits ds)"

record high_part =
  chroma_format_idc :: nat
  separate_colour :: bool
  depth_luma :: nat
  depth_chroma :: nat
  bypass :: bool
  scaling_lists :: "int list option list option"

datatype poc = Poc0 nat | Poc1 bool int int "int list" | PocN nat

record h264_sps =
  profile_idc :: nat
  constraint_flags :: nat
  level_idc :: nat
  sps_id :: nat
  high :: high_part
  log2_frame_num :: nat
  poc :: poc
  ref_frames :: nat
  gaps :: bool
  mb_width :: nat
  mb_height :: nat
  frame_mbs_only :: bool
  mb_adaptive :: bool
  direct_8x8 :: bool
  window :: "(nat \<times> nat \<times> nat \<times> nat) option"
  sps_vui :: vui

definition high_profiles :: "nat set" where
  "high_profiles = {100, 110, 122, 244, 44, 83, 86, 118, 128, 138, 139, 134, 135}"

definition scaling_list_bits :: "int list option \<Rightarrow> bool list" where
  "scaling_list_bits l = (case l of None \<Rightarrow> [False] | Some ds \<Rightarrow> [True] @ se_list ds)"

definition high_bits :: "high_part \<Rightarrow> bool list" where
  "high_bits p =
     ue_bits (chroma_format_idc p) @ (if chroma_format_idc p = 3 then [separate_colour p] else [])
     @ ue_bits (depth_luma p) @ ue_bits (depth_chroma p) @ [bypass p]
     @ (case scaling_lists p of None \<Rightarrow> [False] | Some ls \<Rightarrow> [True] @ concat (map scaling_list_bits ls))"

fun poc_bits :: "poc \<Rightarrow> bool list" where
  "poc_bits (Poc0 l) = ue_bits 0 @ ue_bits l"
| "poc_bits (Poc1 z o1 o2 os) = ue_bits 1 @ [z] @ se_bits o1 @ se_bits o2 @ ue_bits (length os) @ se_list os"
| "poc_bits (PocN t) = ue_bits t"

fun window_bits :: "(nat \<times> nat \<times> nat \<times> nat) option \<Rightarrow> bool list" where
  "window_bits None = [False]"
| "window_bits (Some (l, r, t, b)) = [True] @ ue_bits l @ ue_bits r @ ue_bits t @ ue_bits b"

definition h264_prefix :: "h264_sps \<Rightarrow> bool list" where
  "h264_prefix s =
     ubits 8 (profile_idc s) @ ubits 8 (constraint_flags s) @ ubits 8 (level_idc s) @ ue_bits (sps_id s)
     @ (if profile_idc s \<in> high_profiles then high_bits (high s) else [])
     @ ue_bits (log2_frame_num s) @ poc_bits (poc s)
     @ ue_bits (ref_frames s) @ [gaps s] @ ue_bits (mb_width s) @ ue_bits (mb_height s)
     @ [frame_mbs_only s] @ (if frame_mbs_only s then [] else [mb_adaptive s]) @ [direct_8x8 s]
     @ window_bits (window s) @ vui_bits (sps_vui s)"

fun lists_ok :: "nat \<Rightarrow> int list option list \<Rightarrow> bool" where
  "lists_ok i [] \<longleftrightarrow> True"
| "lists_ok i (None # ls) \<longleftrightarrow> lists_ok (Suc i) ls"
| "lists_ok i (Some ds # ls) \<longleftrightarrow> scaling_ok (if i < 6 then 16 else 64) 8 8 ds \<and> lists_ok (Suc i) ls"

definition high_ok :: "high_part \<Rightarrow> bool" where
  "high_ok p \<longleftrightarrow> ue_ok (chroma_format_idc p) \<and> ue_ok (depth_luma p) \<and> ue_ok (depth_chroma p)
     \<and> (case scaling_lists p of None \<Rightarrow> True
        | Some ls \<Rightarrow> length ls = (if chroma_format_idc p = 3 then 12 else 8) \<and> lists_ok 0 ls)"

fun poc_ok :: "poc \<Rightarrow> bool" where
  "poc_ok (Poc0 l) \<longleftrightarrow> ue_ok l"
| "poc_ok (Poc1 z o1 o2 os) \<longleftrightarrow> se_ok o1 \<and> se_ok o2 \<and> length os \<le> 255 \<and> list_all se_ok os"
| "poc_ok (PocN t) \<longleftrightarrow> 2 \<le> t \<and> ue_ok t"

fun window_ok :: "(nat \<times> nat \<times> nat \<times> nat) option \<Rightarrow> bool" where
  "window_ok None \<longleftrightarrow> True"
| "window_ok (Some (l, r, t, b)) \<longleftrightarrow> ue_ok l \<and> ue_ok r \<and> ue_ok t \<and> ue_ok b"

definition h264_ok :: "h264_sps \<Rightarrow> bool" where
  "h264_ok s \<longleftrightarrow> profile_idc s < 256 \<and> constraint_flags s < 256 \<and> level_idc s < 256 \<and> ue_ok (sps_id s)
     \<and> (profile_idc s \<in> high_profiles \<longrightarrow> high_ok (high s)) \<and> ue_ok (log2_frame_num s) \<and> poc_ok (poc s)
     \<and> ue_ok (ref_frames s) \<and> ue_ok (mb_width s) \<and> ue_ok (mb_height s) \<and> window_ok (window s) \<and> vui_ok (sps_vui s)"

section \<open>The walk reads it\<close>

lemma reads_se_list: "list_all se_ok ds \<Longrightarrow> n = length ds \<Longrightarrow> reads (times_do n skip_se) (se_list ds) (\<lambda>_. ())"
  unfolding se_list_def by (rule reads_times) (simp_all add: list_all_length reads_skip_se)

lemma reads_scaling_entries:
  "scaling_ok n lst nxt ds \<Longrightarrow> 0 \<le> lst \<Longrightarrow> lst < 256 \<Longrightarrow> reads (scaling_entries n lst nxt) (se_list ds) (\<lambda>_. ())"
proof (induction n arbitrary: lst nxt ds)
  case 0
  then show ?case by (simp add: se_list_def reads_return)
next
  case (Suc n)
  show ?case
  proof (cases "nxt = 0")
    case True
    then have "reads (scaling_entries n lst 0) (se_list ds) (\<lambda>_. ())" using Suc by (intro Suc.IH) simp_all
    then show ?thesis using True by (simp add: reads_bind_nil [OF reads_return])
  next
    case False
    then obtain d es where ds: "ds = d # es" and d: "-128 \<le> d" "d \<le> 127"
      and k: "scaling_ok n (if (lst + d + 256) mod 256 = 0 then lst else (lst + d + 256) mod 256) ((lst + d + 256) mod 256) es"
      using Suc.prems(1) unfolding scaling_ok.simps Let_def by (cases ds) simp_all
    have m: "(lst + d + 256) smod 256 = (lst + d + 256) mod 256"
      using Suc.prems d by (simp add: signed_modulo_int_def)
    have u: "\<not> (lst + d < - (2 ^ 31) \<or> lst + d + 256 > 2 ^ 31 - 1)" using Suc.prems d by simp
    let ?n = "(lst + d + 256) mod 256"
    have rest: "reads (scaling_entries n (if ?n = 0 then lst else ?n) ?n) (se_list es) (\<lambda>_. ())"
      using k Suc.prems by (intro Suc.IH) simp_all
    have "reads (do { e \<leftarrow> vb_se; undefined_if (lst + e < - (2 ^ 31) \<or> lst + e + 256 > 2 ^ 31 - 1);
        State_Monad.return ((lst + e + 256) smod 256) }) (se_bits d) (\<lambda>_. ?n)"
      using d by (intro reads_bind_last [OF reads_se] reads_bind_nil [OF reads_undefined [OF u]]) (simp_all add: m reads_return)
    then have "reads (if nxt \<noteq> 0 then do { e \<leftarrow> vb_se; undefined_if (lst + e < - (2 ^ 31) \<or> lst + e + 256 > 2 ^ 31 - 1);
        State_Monad.return ((lst + e + 256) smod 256) } else State_Monad.return nxt) (se_bits d) (\<lambda>_. ?n)"
      using False by simp
    from reads_bind [OF this, of "\<lambda>nxt. scaling_entries n (if nxt = 0 then lst else nxt) nxt", OF rest]
    show ?thesis by (simp add: ds se_list_def)
  qed
qed

lemma reads_scaling_lists:
  "lists_ok i ls \<Longrightarrow> length ls = n \<Longrightarrow> reads (h264_scaling_lists i n) (concat (map scaling_list_bits ls)) (\<lambda>_. ())"
proof (induction ls arbitrary: i n)
  case (Cons l ls)
  then obtain m where n: "n = Suc m" "length ls = m" by (cases n) auto
  have ok: "case l of None \<Rightarrow> True | Some ds \<Rightarrow> scaling_ok (if i < 6 then 16 else 64) 8 8 ds" and tl: "lists_ok (Suc i) ls"
    using Cons.prems(1) by (cases l; simp)+
  have rest: "reads (h264_scaling_lists (Suc i) m) (concat (map scaling_list_bits ls)) (\<lambda>_. ())"
    using tl n(2) by (rule Cons.IH)
  have "reads (do { present \<leftarrow> vb_read 1;
      if present \<noteq> 0 then h264_scaling_list (if i < 6 then 16 else 64) else State_Monad.return () }) (scaling_list_bits l) (\<lambda>_. ())"
  proof (cases l)
    case None
    then show ?thesis unfolding None scaling_list_bits_def option.case
      by (intro reads_bind_last [OF reads_flag]) (simp add: reads_return)
  next
    case (Some ds)
    have "reads (h264_scaling_list (if i < 6 then 16 else 64)) (se_list ds) (\<lambda>_. ())"
      using ok unfolding h264_scaling_list_def by (intro reads_scaling_entries) (simp_all add: Some)
    then show ?thesis unfolding Some scaling_list_bits_def option.case
      by (intro reads_bind [OF reads_flag]) simp
  qed
  from reads_bind [OF this rest] show ?case by (simp add: n(1))
qed (simp add: reads_return)

lemma reads_high:
  assumes "high_ok p"
  shows "reads h264_high (high_bits p) (\<lambda>_. ())"
proof -
  let ?c = "chroma_format_idc p"
  have c: "(of_nat ?c :: u32) = 3 \<longleftrightarrow> ?c = 3"
    using assms u32_of_nat_eq [of ?c 3] by (simp add: high_ok_def)
  have "reads (do { matrix \<leftarrow> vb_read 1;
      if matrix \<noteq> 0 then h264_scaling_lists 0 (if (of_nat ?c :: u32) = 3 then 12 else 8) else State_Monad.return () })
    (case scaling_lists p of None \<Rightarrow> [False] | Some ls \<Rightarrow> [True] @ concat (map scaling_list_bits ls)) (\<lambda>_. ())"
  proof (cases "scaling_lists p")
    case None
    then show ?thesis unfolding None option.case by (intro reads_bind_last [OF reads_flag]) (simp add: reads_return)
  next
    case (Some ls)
    have "reads (h264_scaling_lists 0 (if (of_nat ?c :: u32) = 3 then 12 else 8)) (concat (map scaling_list_bits ls)) (\<lambda>_. ())"
      using assms unfolding c by (intro reads_scaling_lists) (auto simp: high_ok_def Some)
    then show ?thesis unfolding Some option.case by (intro reads_bind [OF reads_flag]) simp
  qed
  then show ?thesis using assms unfolding h264_high_def high_bits_def
    by (intro reads_steps reads_ends) (simp_all add: c high_ok_def)
qed

lemma reads_poc:
  assumes "poc_ok p"
  shows "reads h264_poc (poc_bits p) (\<lambda>_. True)"
proof (cases p)
  case (Poc0 l)
  then show ?thesis using assms unfolding Poc0 h264_poc_def poc_bits.simps
    by (intro reads_bind [OF reads_ue]) (simp_all add: reads_bind_last [OF reads_ue] reads_return)
next
  case (Poc1 z o1 o2 os)
  have n: "\<not> (of_nat (length os) :: u32) > 255" "unat (of_nat (length os) :: u32) = length os"
    using assms by (simp_all add: Poc1 word_less_nat_alt unat_of_nat)
  have "reads (times_do (unat (of_nat (length os) :: u32)) skip_se) (se_list os) (\<lambda>_. ())"
    using assms by (intro reads_se_list) (simp_all add: Poc1 n)
  then have "reads (do { k \<leftarrow> vb_ue; if k > 255 then State_Monad.return False
      else do { times_do (unat k) skip_se; State_Monad.return True } }) (ue_bits (length os) @ se_list os) (\<lambda>_. True)"
    using assms n by (intro reads_bind [OF reads_ue]) (simp_all add: Poc1 reads_bind_last [where Q = "\<lambda>_. State_Monad.return _"] reads_return)
  then show ?thesis using assms unfolding Poc1 h264_poc_def poc_bits.simps
    by (intro reads_bind [OF reads_ue]) (simp_all add: reads_flag_cons reads_bind [OF reads_se])
next
  case (PocN t)
  have "(of_nat t :: u32) \<noteq> 0" "(of_nat t :: u32) \<noteq> 1"
    using assms u32_of_nat_eq [of t 0] u32_of_nat_eq [of t 1] by (auto simp: PocN)
  then show ?thesis using assms unfolding PocN h264_poc_def poc_bits.simps
    by (intro reads_bind_last [OF reads_ue]) (simp_all add: PocN reads_return)
qed

lemma reads_window:
  assumes "window_ok w"
  shows "reads skip_window (window_bits w) (\<lambda>_. ())"
proof (cases w)
  case None
  then show ?thesis unfolding None skip_window_def window_bits.simps
    by (intro reads_bind_last [OF reads_flag]) (simp add: reads_return)
next
  case (Some q)
  obtain l r t b where q: "q = (l, r, t, b)" by (cases q)
  show ?thesis using assms unfolding Some q skip_window_def window_bits.simps
    by (intro reads_bind [OF reads_flag]) (simp add: reads_bind [OF reads_ue] reads_skip_ue)
qed

lemma reads_h264:
  assumes "h264_ok s"
  shows "reads h264_full_range_bit (h264_prefix s) (walk_value (sps_vui s))"
proof -
  let ?p = "of_nat (profile_idc s) :: u32"
  have p: "?p \<in> {100, 110, 122, 244, 44, 83, 86, 118, 128, 138, 139, 134, 135} \<longleftrightarrow> profile_idc s \<in> high_profiles"
    using assms by (simp add: h264_ok_def high_profiles_def u32_eq_numeral)
  note ok = assms [unfolded h264_ok_def]
  note v = reads_vui [of "sps_vui s"]
  have h: "reads h264_high (high_bits (high s)) (\<lambda>_. ())" if "profile_idc s \<in> high_profiles"
    using ok that by (intro reads_high) simp
  have end': "reads (do { (if (of_bool (frame_mbs_only s) :: u32) = 0 then skip_bits 1 else State_Monad.return ());
       vb_read 1; skip_window; vui_signal_type })
     ((if frame_mbs_only s then [] else [mb_adaptive s]) @ [direct_8x8 s] @ window_bits (window s) @ vui_bits (sps_vui s))
     (walk_value (sps_vui s))"
    using ok by (intro reads_bind [where v = "()"] reads_bind [OF reads_flag] reads_bind [OF reads_window] v)
      (simp_all add: reads_return reads_skip_flag)
  have "reads (do { vb_ue; vb_read 1; vb_ue; vb_ue; frame_mbs_only \<leftarrow> vb_read 1;
        (if frame_mbs_only = 0 then skip_bits 1 else State_Monad.return ()); vb_read 1; skip_window; vui_signal_type })
     (ue_bits (ref_frames s) @ [gaps s] @ ue_bits (mb_width s) @ ue_bits (mb_height s)
     @ [frame_mbs_only s] @ (if frame_mbs_only s then [] else [mb_adaptive s]) @ [direct_8x8 s]
     @ window_bits (window s) @ vui_bits (sps_vui s)) (walk_value (sps_vui s))"
    using ok by (intro reads_bind [OF reads_ue] reads_bind [OF reads_flag] end') simp_all
  then have poc: "reads (do { ok \<leftarrow> h264_poc; if \<not> ok then State_Monad.return VUI_BAD
      else do { vb_ue; vb_read 1; vb_ue; vb_ue; frame_mbs_only \<leftarrow> vb_read 1;
        (if frame_mbs_only = 0 then skip_bits 1 else State_Monad.return ()); vb_read 1; skip_window; vui_signal_type } })
     (poc_bits (poc s) @ ue_bits (ref_frames s) @ [gaps s] @ ue_bits (mb_width s) @ ue_bits (mb_height s)
     @ [frame_mbs_only s] @ (if frame_mbs_only s then [] else [mb_adaptive s]) @ [direct_8x8 s]
     @ window_bits (window s) @ vui_bits (sps_vui s)) (walk_value (sps_vui s))"
    using ok by (intro reads_bind [OF reads_poc]) (simp_all only: not_True_eq_False if_False)
  show ?thesis unfolding h264_full_range_bit_def h264_prefix_def
    using ok by (intro reads_steps poc reads_return h) (simp_all add: p [simplified] h reads_return)
qed

section \<open>The H.265 sequence parameter set\<close>

text \<open>\<open>7.3.2.2.1\<close> up to the VUI, with \<open>profile_tier_level\<close>, \<open>scaling_list_data\<close> and \<open>st_ref_pic_set\<close>.\<close>

type_synonym profile = "nat \<times> nat \<times> nat \<times> nat"

datatype matrix = Pred nat | Coded int "int list"

text \<open>A short-term reference picture set: predicted (sign, distance, the used and use-delta flags), or
  explicit (the negative and the positive pictures).\<close>

datatype rps = Inter bool nat "(bool \<times> bool) list" | Explicit "(nat \<times> bool) list" "(nat \<times> bool) list"

record h265_sps =
  vps_id :: nat
  nesting :: bool
  general_profile :: profile
  general_level :: nat
  layers :: "(profile option \<times> nat option) list"
  seq_id :: nat
  chroma_idc :: nat
  colour_plane :: bool
  luma_width :: nat
  luma_height :: nat
  conformance :: "(nat \<times> nat \<times> nat \<times> nat) option"
  bit_depths :: "nat \<times> nat"
  log2_poc_lsb :: nat
  per_layer :: bool
  ordering :: "(nat \<times> nat \<times> nat) list"
  blocks :: "nat \<times> nat \<times> nat \<times> nat \<times> nat \<times> nat"
  scaling :: "matrix list list option option"
  amp_sao :: "bool \<times> bool"
  pcm :: "(nat \<times> nat \<times> nat \<times> nat \<times> bool) option"
  ref_sets :: "rps list"
  long_term :: "(nat \<times> bool) list option"
  mvp_smoothing :: "bool \<times> bool"
  h265_vui :: vui

fun profile_bits :: "profile \<Rightarrow> bool list" where
  "profile_bits (a, b, c, d) = ubits 8 a @ ubits 32 b @ ubits 32 c @ ubits 16 d"

definition layer_bits :: "profile option \<times> nat option \<Rightarrow> bool list" where
  "layer_bits l = (case fst l of None \<Rightarrow> [] | Some p \<Rightarrow> profile_bits p) @ (case snd l of None \<Rightarrow> [] | Some v \<Rightarrow> ubits 8 v)"

definition ptl_bits :: "profile \<Rightarrow> nat \<Rightarrow> (profile option \<times> nat option) list \<Rightarrow> bool list" where
  "ptl_bits p level ls = profile_bits p @ ubits 8 level
     @ concat (map (\<lambda>l. [fst l \<noteq> None] @ [snd l \<noteq> None]) ls)
     @ (if ls = [] then [] else concat (replicate (8 - length ls) (ubits 2 0)))
     @ concat (map layer_bits ls)"

fun matrix_bits :: "nat \<Rightarrow> matrix \<Rightarrow> bool list" where
  "matrix_bits size_id (Pred d) = [False] @ ue_bits d"
| "matrix_bits size_id (Coded dc cs) = [True] @ (if size_id > 1 then se_bits dc else []) @ se_list cs"

definition scaling_data_bits :: "matrix list list \<Rightarrow> bool list" where
  "scaling_data_bits mss = concat (map (\<lambda>(i, ms). concat (map (matrix_bits i) ms)) (zip [0..<4] mss))"

definition entry_bits :: "nat \<times> bool \<Rightarrow> bool list" where
  "entry_bits e = ue_bits (fst e) @ [snd e]"

definition used_bits :: "bool \<times> bool \<Rightarrow> bool list" where
  "used_bits u = [fst u] @ (if fst u then [] else [snd u])"

fun rps_bits :: "bool \<Rightarrow> rps \<Rightarrow> bool list" where
  "rps_bits first (Inter sign dist us) = [True] @ [sign] @ ue_bits dist @ concat (map used_bits us)"
| "rps_bits first (Explicit neg pos) = (if first then [] else [False])
     @ ue_bits (length neg) @ ue_bits (length pos) @ concat (map entry_bits neg) @ concat (map entry_bits pos)"

text \<open>
  The number of entries a predicted set has for the sets behind it: the flagged ones, as the walk counts.  The standard
  works the distances out and drops a flagged entry of distance 0, which an encoder has no use for: it would be the
  picture itself.  Streams with such an entry are outside this specification.
\<close>

fun rps_size :: "rps \<Rightarrow> nat" where
  "rps_size (Inter sign dist us) = length (filter (\<lambda>u. fst u \<or> snd u) us)"
| "rps_size (Explicit neg pos) = length neg + length pos"

fun ref_sets_bits :: "bool \<Rightarrow> rps list \<Rightarrow> bool list" where
  "ref_sets_bits first [] = []"
| "ref_sets_bits first (r # rs) = rps_bits first r @ ref_sets_bits False rs"

fun blocks_bits :: "nat \<times> nat \<times> nat \<times> nat \<times> nat \<times> nat \<Rightarrow> bool list" where
  "blocks_bits (a, b, c, d, e, f) = ue_bits a @ ue_bits b @ ue_bits c @ ue_bits d @ ue_bits e @ ue_bits f"

fun scaling_bits :: "matrix list list option option \<Rightarrow> bool list" where
  "scaling_bits None = [False]"
| "scaling_bits (Some None) = [True] @ [False]"
| "scaling_bits (Some (Some mss)) = [True] @ [True] @ scaling_data_bits mss"

fun pcm_bits :: "(nat \<times> nat \<times> nat \<times> nat \<times> bool) option \<Rightarrow> bool list" where
  "pcm_bits None = [False]"
| "pcm_bits (Some (a, b, c, d, e)) = [True] @ ubits 4 a @ ubits 4 b @ ue_bits c @ ue_bits d @ [e]"

definition ordering_bits :: "(nat \<times> nat \<times> nat) list \<Rightarrow> bool list" where
  "ordering_bits os = concat (map (\<lambda>(a, b, c). ue_bits a @ ue_bits b @ ue_bits c) os)"

definition long_term_bits :: "nat \<Rightarrow> (nat \<times> bool) list option \<Rightarrow> bool list" where
  "long_term_bits w l = (case l of None \<Rightarrow> [False]
     | Some es \<Rightarrow> [True] @ ue_bits (length es) @ concat (map (\<lambda>e. ubits w (fst e) @ [snd e]) es))"

definition h265_prefix :: "h265_sps \<Rightarrow> bool list" where
  "h265_prefix s =
     ubits 4 (vps_id s) @ ubits 3 (length (layers s)) @ [nesting s]
     @ ptl_bits (general_profile s) (general_level s) (layers s)
     @ ue_bits (seq_id s) @ ue_bits (chroma_idc s) @ (if chroma_idc s = 3 then [colour_plane s] else [])
     @ ue_bits (luma_width s) @ ue_bits (luma_height s) @ window_bits (conformance s)
     @ ue_bits (fst (bit_depths s)) @ ue_bits (snd (bit_depths s)) @ ue_bits (log2_poc_lsb s)
     @ [per_layer s] @ ordering_bits (ordering s)
     @ blocks_bits (blocks s) @ scaling_bits (scaling s) @ [fst (amp_sao s)] @ [snd (amp_sao s)] @ pcm_bits (pcm s)
     @ ue_bits (length (ref_sets s)) @ ref_sets_bits True (ref_sets s)
     @ long_term_bits (log2_poc_lsb s + 4) (long_term s)
     @ [fst (mvp_smoothing s)] @ [snd (mvp_smoothing s)] @ vui_bits (h265_vui s)"

fun profile_ok :: "profile \<Rightarrow> bool" where
  "profile_ok (a, b, c, d) \<longleftrightarrow> a < 256 \<and> b < 2 ^ 32 \<and> c < 2 ^ 32 \<and> d < 65536"

definition layer_ok :: "profile option \<times> nat option \<Rightarrow> bool" where
  "layer_ok l \<longleftrightarrow> (case fst l of None \<Rightarrow> True | Some p \<Rightarrow> profile_ok p) \<and> (case snd l of None \<Rightarrow> True | Some v \<Rightarrow> v < 256)"

fun matrix_ok :: "nat \<Rightarrow> matrix \<Rightarrow> bool" where
  "matrix_ok size_id (Pred d) \<longleftrightarrow> ue_ok d"
| "matrix_ok size_id (Coded dc cs) \<longleftrightarrow> se_ok dc \<and> length cs = min 64 (2 ^ (4 + 2 * size_id)) \<and> list_all se_ok cs"

definition scaling_data_ok :: "matrix list list \<Rightarrow> bool" where
  "scaling_data_ok mss \<longleftrightarrow> map length mss = [6, 6, 6, 2] \<and> list_all (\<lambda>(i, ms). list_all (matrix_ok i) ms) (zip [0..<4] mss)"

definition entries_ok :: "(nat \<times> bool) list \<Rightarrow> bool" where
  "entries_ok es \<longleftrightarrow> length es \<le> 64 \<and> list_all (\<lambda>e. ue_ok (fst e)) es"

fun rps_ok :: "nat list \<Rightarrow> rps \<Rightarrow> bool" where
  "rps_ok ns (Inter sign dist us) \<longleftrightarrow> ns \<noteq> [] \<and> ue_ok dist \<and> length us = Suc (last ns)"
| "rps_ok ns (Explicit neg pos) \<longleftrightarrow> entries_ok neg \<and> entries_ok pos"

fun ref_sets_ok :: "nat list \<Rightarrow> rps list \<Rightarrow> bool" where
  "ref_sets_ok ns [] \<longleftrightarrow> True"
| "ref_sets_ok ns (r # rs) \<longleftrightarrow> rps_ok ns r \<and> ref_sets_ok (ns @ [rps_size r]) rs"

fun blocks_ok :: "nat \<times> nat \<times> nat \<times> nat \<times> nat \<times> nat \<Rightarrow> bool" where
  "blocks_ok (a, b, c, d, e, f) \<longleftrightarrow> ue_ok a \<and> ue_ok b \<and> ue_ok c \<and> ue_ok d \<and> ue_ok e \<and> ue_ok f"

fun scaling_fits :: "matrix list list option option \<Rightarrow> bool" where
  "scaling_fits (Some (Some mss)) \<longleftrightarrow> scaling_data_ok mss"
| "scaling_fits _ \<longleftrightarrow> True"

fun pcm_ok :: "(nat \<times> nat \<times> nat \<times> nat \<times> bool) option \<Rightarrow> bool" where
  "pcm_ok None \<longleftrightarrow> True"
| "pcm_ok (Some (a, b, c, d, e)) \<longleftrightarrow> a < 16 \<and> b < 16 \<and> ue_ok c \<and> ue_ok d"

definition long_term_ok :: "nat \<Rightarrow> (nat \<times> bool) list option \<Rightarrow> bool" where
  "long_term_ok w l \<longleftrightarrow> (case l of None \<Rightarrow> True | Some es \<Rightarrow> length es \<le> 32 \<and> list_all (\<lambda>e. fst e < 2 ^ w) es)"

definition h265_ok :: "h265_sps \<Rightarrow> bool" where
  "h265_ok s \<longleftrightarrow> vps_id s < 16 \<and> length (layers s) < 8 \<and> profile_ok (general_profile s) \<and> general_level s < 256
     \<and> list_all layer_ok (layers s) \<and> ue_ok (seq_id s) \<and> ue_ok (chroma_idc s)
     \<and> ue_ok (luma_width s) \<and> ue_ok (luma_height s) \<and> window_ok (conformance s)
     \<and> ue_ok (fst (bit_depths s)) \<and> ue_ok (snd (bit_depths s)) \<and> log2_poc_lsb s \<le> 12
     \<and> length (ordering s) = (if per_layer s then Suc (length (layers s)) else 1)
     \<and> list_all (\<lambda>(a, b, c). ue_ok a \<and> ue_ok b \<and> ue_ok c) (ordering s)
     \<and> blocks_ok (blocks s) \<and> scaling_fits (scaling s) \<and> pcm_ok (pcm s)
     \<and> length (ref_sets s) \<le> 64 \<and> ref_sets_ok [] (ref_sets s)
     \<and> long_term_ok (log2_poc_lsb s + 4) (long_term s) \<and> vui_ok (h265_vui s)"

section \<open>The walk reads it\<close>

lemma reads_concat:
  "list_all (\<lambda>x. reads P (f x) (\<lambda>_. ())) xs \<Longrightarrow> length xs = n \<Longrightarrow> reads (times_do n P) (concat (map f xs)) (\<lambda>_. ())"
  by (rule reads_times) (simp_all add: list_all_length)

lemma reads_entries:
  assumes "entries_ok es" and "n = length es"
  shows "reads (times_do n (do { vb_ue; skip_bits 1 })) (concat (map entry_bits es)) (\<lambda>_. ())"
proof (rule reads_concat)
  show "list_all (\<lambda>e. reads (do { vb_ue; skip_bits 1 }) (entry_bits e) (\<lambda>_. ())) es"
    unfolding list_all_length
  proof (intro allI impI)
    fix i assume "i < length es"
    then have "ue_ok (fst (es ! i))" using assms(1) by (simp add: entries_ok_def list_all_length)
    then show "reads (do { vb_ue; skip_bits 1 }) (entry_bits (es ! i)) (\<lambda>_. ())"
      unfolding entry_bits_def by (intro reads_bind [OF reads_ue] reads_skip_flag)
  qed
qed (simp add: assms)

lemma reads_kept:
  "n = length us \<Longrightarrow> reads (kept_pocs n) (concat (map used_bits us)) (\<lambda>_. length (filter (\<lambda>u. fst u \<or> snd u) us))"
proof (induction us arbitrary: n)
  case (Cons u us)
  have k: "reads (do { k \<leftarrow> kept_pocs (length us); State_Monad.return ((if c then 1 else 0) + k) })
      (concat (map used_bits us)) (\<lambda>_. (if c then 1 else 0) + length (filter (\<lambda>u. fst u \<or> snd u) us))" for c
    by (intro reads_bind_last [OF Cons.IH] reads_return) simp
  have u: "reads (if (of_bool (fst u) :: u32) = 0 then vb_read 1 else State_Monad.return 1)
      (if fst u then [] else [snd u]) (\<lambda>_. if fst u then 1 else of_bool (snd u))"
    by (simp add: reads_return reads_flag)
  have tail: "reads (State_Monad.bind (if (of_bool (fst u) :: u32) = 0 then vb_read 1 else State_Monad.return 1)
      (\<lambda>use_delta. do { k \<leftarrow> kept_pocs (length us);
         State_Monad.return ((if (of_bool (fst u) :: u32) \<noteq> 0 \<or> use_delta \<noteq> 0 then 1 else 0) + k) }))
      ((if fst u then [] else [snd u]) @ concat (map used_bits us))
      (\<lambda>_. (if fst u \<or> snd u then 1 else 0) + length (filter (\<lambda>u. fst u \<or> snd u) us))"
    using k [of "fst u \<or> snd u"] by (intro reads_bind [OF u]) (cases "fst u"; simp)
  have e: "length (filter (\<lambda>u. fst u \<or> snd u) (u # us))
      = (if fst u \<or> snd u then 1 else 0) + length (filter (\<lambda>u. fst u \<or> snd u) us)"
    "used_bits u = [fst u] @ (if fst u then [] else [snd u])" by (simp_all add: used_bits_def)
  show ?case unfolding Cons.prems length_Cons kept_pocs.simps e list.map concat.simps append_assoc
    by (intro reads_bind [OF reads_flag] tail)
qed (simp add: reads_return)

lemma reads_checked:
  "reads (do { b \<leftarrow> State_Monad.get; State_Monad.return (if vb_overflow b then None else n) }) [] (\<lambda>_. n)"
  by (simp add: reads_def run_leaves holds_def)

lemma reads_checked_last:
  "reads P xs (\<lambda>_. v) \<Longrightarrow> reads (do { n \<leftarrow> P; b \<leftarrow> State_Monad.get; State_Monad.return (if vb_overflow b then None else n) }) xs (\<lambda>_. v)"
  by (rule reads_bind_last) (assumption, rule reads_checked)

lemma reads_rps:
  assumes "rps_ok ns r"
  shows "reads (h265_st_ref_pic_set ns) (rps_bits (ns = []) r) (\<lambda>_. Some (rps_size r))"
proof (cases r)
  case (Inter sign dist us)
  have k: "reads (do { k \<leftarrow> kept_pocs (Suc (last ns)); State_Monad.return (Some k) }) (concat (map used_bits us))
     (\<lambda>_. Some (rps_size r))"
    using assms by (intro reads_bind_last [OF reads_kept]) (simp_all add: Inter reads_return)
  have "reads (do { vb_read 1; vb_ue; k \<leftarrow> kept_pocs (Suc (last ns)); State_Monad.return (Some k) })
     ([sign] @ ue_bits dist @ concat (map used_bits us)) (\<lambda>_. Some (rps_size r))"
    using assms by (intro reads_bind [OF reads_flag] reads_bind [OF reads_ue] k) (simp add: Inter)
  moreover have "reads (if ns \<noteq> [] then vb_read 1 else State_Monad.return 0) [True] (\<lambda>_. 1)"
    using assms reads_flag [of True] by (simp add: Inter)
  ultimately show ?thesis unfolding h265_st_ref_pic_set_def Inter rps_bits.simps
    by (intro reads_bind [where v = "1 :: u32"] reads_checked_last) simp_all
next
  case (Explicit neg pos)
  have le: "\<not> (of_nat (length neg) :: u32) > 64" "\<not> (of_nat (length pos) :: u32) > 64"
    "unat (of_nat (length neg) :: u32) = length neg" "unat (of_nat (length pos) :: u32) = length pos"
    using assms by (simp_all add: Explicit entries_ok_def word_less_nat_alt unat_of_nat)
  have "reads (do { times_do (unat (of_nat (length neg) :: u32)) (do { vb_ue; skip_bits 1 });
      times_do (unat (of_nat (length pos) :: u32)) (do { vb_ue; skip_bits 1 });
      State_Monad.return (Some (unat (of_nat (length neg) :: u32) + unat (of_nat (length pos) :: u32))) })
     (concat (map entry_bits neg) @ concat (map entry_bits pos)) (\<lambda>_. Some (rps_size r))"
    using assms by (intro reads_bind [OF reads_entries] reads_bind_last [OF reads_entries]) (simp_all add: Explicit le reads_return)
  then have "reads (do { neg \<leftarrow> vb_ue; pos \<leftarrow> vb_ue;
         if neg > 64 \<or> pos > 64 then State_Monad.return None
         else do {
           times_do (unat neg) (do { vb_ue; skip_bits 1 });
           times_do (unat pos) (do { vb_ue; skip_bits 1 });
           State_Monad.return (Some (unat neg + unat pos)) } })
     (ue_bits (length neg) @ ue_bits (length pos) @ concat (map entry_bits neg) @ concat (map entry_bits pos))
     (\<lambda>_. Some (rps_size r))"
    using assms le(1,2) by (intro reads_bind [OF reads_ue]) (simp_all add: Explicit entries_ok_def)
  moreover have "reads (if ns \<noteq> [] then vb_read 1 else State_Monad.return 0) (if ns = [] then [] else [False]) (\<lambda>_. 0)"
    using reads_flag [of False] by (simp add: reads_return)
  ultimately show ?thesis unfolding h265_st_ref_pic_set_def Explicit rps_bits.simps
    by (intro reads_bind [where v = "0 :: u32"] reads_checked_last) simp_all
qed

lemma reads_ref_sets:
  "ref_sets_ok ns rs \<Longrightarrow> n = length rs \<Longrightarrow> reads (h265_ref_pic_sets n ns) (ref_sets_bits (ns = []) rs) (\<lambda>_. True)"
proof (induction rs arbitrary: n ns)
  case (Cons r rs)
  have "reads (h265_ref_pic_sets (length rs) (ns @ [rps_size r])) (ref_sets_bits False rs) (\<lambda>_. True)"
    using Cons.IH [of "ns @ [rps_size r]" "length rs"] Cons.prems by simp
  then show ?case using Cons.prems by (simp add: reads_bind [OF reads_rps])
qed (simp add: reads_return)

lemma reads_profile:
  "profile_ok p \<Longrightarrow> reads (Q ()) ys r \<Longrightarrow>
    reads (do { vb_read 8; vb_read 32; vb_read 32; x \<leftarrow> skip_bits 16; Q x }) (profile_bits p @ ys) r"
  by (cases p) (simp add: reads_bind [OF reads_u_n] reads_bind [OF reads_skip_n])

lemma reads_sub_layers:
  "list_all layer_ok ls \<Longrightarrow>
    reads (sub_layers (map (\<lambda>l. (of_bool (fst l \<noteq> None), of_bool (snd l \<noteq> None))) ls)) (concat (map layer_bits ls)) (\<lambda>_. ())"
proof (induction ls)
  case (Cons l ls)
  have ok: "case fst l of None \<Rightarrow> True | Some p \<Rightarrow> profile_ok p" "case snd l of None \<Rightarrow> True | Some v \<Rightarrow> v < 256"
    using Cons.prems by (simp_all add: layer_ok_def)
  have p: "reads (if (of_bool (fst l \<noteq> None) :: u32) \<noteq> 0
      then do { vb_read 8; vb_read 32; vb_read 32; skip_bits 16 } else State_Monad.return ())
     (case fst l of None \<Rightarrow> [] | Some p \<Rightarrow> profile_bits p) (\<lambda>_. ())"
    using ok(1) reads_profile [where Q = State_Monad.return and ys = "[]"]
    by (cases "fst l") (simp_all add: reads_return)
  have v: "reads (if (of_bool (snd l \<noteq> None) :: u32) \<noteq> 0 then skip_bits 8 else State_Monad.return ())
     (case snd l of None \<Rightarrow> [] | Some v \<Rightarrow> ubits 8 v) (\<lambda>_. ())"
    using ok(2) by (cases "snd l") (simp_all add: reads_return reads_skip_n)
  have tl: "reads (sub_layers (map (\<lambda>l. (of_bool (fst l \<noteq> None), of_bool (snd l \<noteq> None))) ls)) (concat (map layer_bits ls)) (\<lambda>_. ())"
    using Cons by simp
  show ?case unfolding list.map concat.simps layer_bits_def [of l] sub_layers.simps fst_conv snd_conv append_assoc
    by (intro reads_bind [OF p] reads_bind [OF v] tl)
qed (simp add: reads_return)

lemma reads_presents:
  "reads (read_presents (length ls)) (concat (map (\<lambda>l. [fst l \<noteq> None] @ [snd l \<noteq> None]) ls))
     (\<lambda>_. map (\<lambda>l. (of_bool (fst l \<noteq> None), of_bool (snd l \<noteq> None))) ls)"
proof (induction ls)
  case (Cons l ls)
  show ?case unfolding list.map concat.simps length_Cons read_presents.simps append_assoc
    by (intro reads_bind [OF reads_flag] reads_bind_last [OF Cons.IH] reads_return)
qed (simp add: reads_return)

lemma reads_ptl:
  assumes "profile_ok p" and "level < 256" and "length ls < 8" and "list_all layer_ok ls"
  shows "reads (h265_profile_tier_level (length ls)) (ptl_bits p level ls) (\<lambda>_. ())"
proof -
  have m: "min (length ls) 8 = length ls" using assms(3) by simp
  have res: "reads (times_do (8 - length ls) (skip_bits 2)) (concat (replicate (8 - length ls) (ubits 2 0))) (\<lambda>_. ())"
    by (rule reads_times) (simp_all add: list_all_length reads_skip_n)
  have g: "reads (if length ls > 0 then times_do (8 - length ls) (skip_bits 2) else State_Monad.return ())
      (if ls = [] then [] else concat (replicate (8 - length ls) (ubits 2 0))) (\<lambda>_. ())"
    using res by (simp add: reads_return)
  show ?thesis unfolding h265_profile_tier_level_def ptl_bits_def m
    by (cases p) (simp only: profile_bits.simps append_assoc,
      intro reads_bind [OF reads_u_n] reads_bind [OF reads_presents] reads_bind [OF g] reads_sub_layers assms(4);
      use assms in simp)
qed

lemma reads_matrix:
  assumes "matrix_ok i mx"
  shows "reads (scaling_matrix i) (matrix_bits i mx) (\<lambda>_. ())"
proof (cases mx)
  case (Pred d)
  then show ?thesis using assms unfolding Pred scaling_matrix_def matrix_bits.simps
    by (intro reads_bind [OF reads_flag]) (simp add: reads_skip_ue)
next
  case (Coded dc cs)
  have dc: "reads (if i > 1 then skip_se else State_Monad.return ()) (if i > 1 then se_bits dc else []) (\<lambda>_. ())"
    using assms by (simp add: Coded reads_skip_se reads_return)
  have cs: "reads (times_do (min 64 (2 ^ (4 + 2 * i))) skip_se) (se_list cs) (\<lambda>_. ())"
    using assms by (intro reads_se_list) (simp_all add: Coded)
  have "reads (do { (if i > 1 then skip_se else State_Monad.return ()); times_do (min 64 (2 ^ (4 + 2 * i))) skip_se })
     ((if i > 1 then se_bits dc else []) @ se_list cs) (\<lambda>_. ())" by (intro reads_bind [OF dc] cs)
  then show ?thesis unfolding Coded scaling_matrix_def matrix_bits.simps
    by (intro reads_bind [OF reads_flag]) simp
qed

lemma reads_matrices:
  "list_all (matrix_ok i) ms \<Longrightarrow> length ms = n \<Longrightarrow> reads (times_do n (scaling_matrix i)) (concat (map (matrix_bits i) ms)) (\<lambda>_. ())"
  by (rule reads_concat) (simp_all add: list_all_length reads_matrix)

lemma reads_scaling_data:
  assumes "scaling_data_ok mss"
  shows "reads h265_scaling_list_data (scaling_data_bits mss) (\<lambda>_. ())"
proof -
  obtain m0 m1 m2 m3 where m: "mss = [m0, m1, m2, m3]"
    using assms by (auto simp: scaling_data_ok_def map_eq_Cons_conv)
  have r: "[0..<4] = [0, 1, 2, 3 :: nat]" by code_simp
  have ok: "list_all (matrix_ok 0) m0" "list_all (matrix_ok 1) m1" "list_all (matrix_ok 2) m2" "list_all (matrix_ok 3) m3"
    "length m0 = 6" "length m1 = 6" "length m2 = 6" "length m3 = 2"
    using assms by (simp_all add: scaling_data_ok_def m r)
  have b: "scaling_data_bits mss = concat (map (matrix_bits 0) m0) @ concat (map (matrix_bits 1) m1)
      @ concat (map (matrix_bits 2) m2) @ concat (map (matrix_bits 3) m3)"
    unfolding scaling_data_bits_def m r by simp
  show ?thesis unfolding h265_scaling_list_data_def b
    by (intro reads_bind [OF reads_matrices] reads_matrices ok)
qed

lemma reads_pcm:
  assumes "pcm_ok p"
  shows "reads (do { pcm \<leftarrow> vb_read 1;
     if pcm \<noteq> 0 then do { vb_read 4; vb_read 4; vb_ue; vb_ue; skip_bits 1 } else State_Monad.return () }) (pcm_bits p) (\<lambda>_. ())"
proof (cases p)
  case None
  then show ?thesis unfolding None pcm_bits.simps by (intro reads_bind_last [OF reads_flag]) (simp add: reads_return)
next
  case (Some t)
  obtain a b c d e where t: "t = (a, b, c, d, e)" by (cases t)
  have "reads (do { vb_read 4; vb_read 4; vb_ue; vb_ue; skip_bits 1 }) (ubits 4 a @ ubits 4 b @ ue_bits c @ ue_bits d @ [e]) (\<lambda>_. ())"
    using assms by (intro reads_bind [OF reads_u_n] reads_bind [OF reads_ue] reads_skip_flag) (simp_all add: Some t)
  then show ?thesis unfolding Some t pcm_bits.simps by (intro reads_bind [OF reads_flag]) simp
qed

lemma reads_scaling:
  assumes "scaling_fits s"
  shows "reads (do { en \<leftarrow> vb_read 1; if en \<noteq> 0
      then do { data \<leftarrow> vb_read 1; if data \<noteq> 0 then h265_scaling_list_data else State_Monad.return () }
      else State_Monad.return () }) (scaling_bits s) (\<lambda>_. ())"
  using assms
proof (cases s rule: scaling_fits.cases)
  case (1 mss)
  then have "reads h265_scaling_list_data (scaling_data_bits mss) (\<lambda>_. ())" using assms by (intro reads_scaling_data) simp
  then show ?thesis unfolding 1 by (simp add: reads_flag_cons)
qed (simp_all add: reads_flag_cons reads_return)

lemma reads_coding:
  assumes "blocks_ok k" and "scaling_fits s" and "pcm_ok p"
  shows "reads h265_coding (blocks_bits k @ scaling_bits s @ [a] @ [o'] @ pcm_bits p) (\<lambda>_. ())"
proof -
  obtain b1 b2 b3 b4 b5 b6 where k: "k = (b1, b2, b3, b4, b5, b6)" by (cases k)
  have rest: "reads (State_Monad.bind (do { en \<leftarrow> vb_read 1; if en \<noteq> 0
      then do { data \<leftarrow> vb_read 1; if data \<noteq> 0 then h265_scaling_list_data else State_Monad.return () }
      else State_Monad.return () }) (\<lambda>_. do { vb_read 1; vb_read 1; pcm \<leftarrow> vb_read 1;
     if pcm \<noteq> 0 then do { vb_read 4; vb_read 4; vb_ue; vb_ue; skip_bits 1 } else State_Monad.return () }))
     (scaling_bits s @ [a] @ [o'] @ pcm_bits p) (\<lambda>_. ())"
    by (rule reads_bind, rule reads_scaling [OF assms(2)],
      intro reads_bind [OF reads_flag] reads_pcm [OF assms(3)])
  show ?thesis using assms(1) unfolding h265_coding_def k blocks_bits.simps append_assoc
    by (intro reads_bind [OF reads_ue] rest [unfolded bind_assoc]) simp_all
qed

lemma reads_long_term:
  assumes "long_term_ok (v + 4) l" and "v \<le> 12"
  shows "reads (h265_long_term (of_nat v)) (long_term_bits (v + 4) l) (\<lambda>_. True)"
proof (cases l)
  case None
  then show ?thesis unfolding None long_term_bits_def h265_long_term_def option.case
    by (intro reads_bind_last [OF reads_flag]) (simp add: reads_return)
next
  case (Some es)
  have w: "sint (of_nat v + 4 :: u32) = int (v + 4)"
  proof -
    have "(of_nat v + 4 :: u32) = of_nat (v + 4)" by simp
    then show ?thesis using assms(2) by (simp only: signed_of_nat) (simp add: signed_take_bit_int_eq_self)
  qed
  have nw: "nat (int v + 4) = v + 4" by arith
  have n: "\<not> (of_nat (length es) :: u32) > 32" "unat (of_nat (length es) :: u32) = length es"
    using assms by (simp_all add: Some long_term_ok_def word_less_nat_alt unat_of_nat)
  have "reads (times_do (unat (of_nat (length es) :: u32)) (do { vb_read (sint (of_nat v + 4 :: u32)); skip_bits 1 }))
      (concat (map (\<lambda>e. ubits (v + 4) (fst e) @ [snd e]) es)) (\<lambda>_. ())"
  proof (rule reads_concat)
    show "list_all (\<lambda>e. reads (do { vb_read (sint (of_nat v + 4 :: u32)); skip_bits 1 }) (ubits (v + 4) (fst e) @ [snd e]) (\<lambda>_. ())) es"
      unfolding list_all_length w
    proof (intro allI impI)
      fix i assume "i < length es"
      then have "fst (es ! i) < 2 ^ (v + 4)" using assms(1) by (simp add: Some long_term_ok_def list_all_length)
      then show "reads (do { vb_read (int (v + 4)); skip_bits 1 }) (ubits (v + 4) (fst (es ! i)) @ [snd (es ! i)]) (\<lambda>_. ())"
        using assms(2) nw by (intro reads_bind [OF reads_u_n] reads_skip_flag) simp_all
    qed
  qed (simp add: n)
  from reads_bind_last [where Q = "\<lambda>_. State_Monad.return True", OF this reads_return]
  have "reads (do { n \<leftarrow> vb_ue; if n > 32 then State_Monad.return False
       else do { times_do (unat n) (do { vb_read (sint (of_nat v + 4 :: u32)); skip_bits 1 }); State_Monad.return True } })
     (ue_bits (length es) @ concat (map (\<lambda>e. ubits (v + 4) (fst e) @ [snd e]) es)) (\<lambda>_. True)"
    using assms n(1) by (intro reads_bind [OF reads_ue]) (simp_all add: Some long_term_ok_def)
  then show ?thesis unfolding Some long_term_bits_def h265_long_term_def option.case
    by (intro reads_bind [OF reads_flag]) simp
qed

lemma reads_ordering:
  assumes "list_all (\<lambda>(a, b, c). ue_ok a \<and> ue_ok b \<and> ue_ok c) os" and "n = length os"
  shows "reads (times_do n (do { vb_ue; vb_ue; skip_ue })) (ordering_bits os) (\<lambda>_. ())"
  unfolding ordering_bits_def
proof (rule reads_concat)
  show "list_all (\<lambda>x. reads (do { vb_ue; vb_ue; skip_ue }) (case x of (a, b, c) \<Rightarrow> ue_bits a @ ue_bits b @ ue_bits c) (\<lambda>_. ())) os"
    using assms(1) by (auto simp: list_all_iff intro!: reads_bind [OF reads_ue] reads_skip_ue)
qed (simp add: assms(2))

lemma reads_h265:
  assumes "h265_ok s"
  shows "reads h265_full_range_bit (h265_prefix s) (walk_value (h265_vui s))"
proof -
  note ok = assms [unfolded h265_ok_def]
  let ?n = "length (layers s)"
  have n: "unat (of_nat ?n :: u32) = ?n" using ok by (simp add: unat_of_nat)
  have c: "(of_nat (chroma_idc s) :: u32) = 3 \<longleftrightarrow> chroma_idc s = 3" using ok by (simp add: u32_eq_numeral)
  have sets: "\<not> (of_nat (length (ref_sets s)) :: u32) > 64" "unat (of_nat (length (ref_sets s)) :: u32) = length (ref_sets s)"
    using ok by (simp_all add: word_less_nat_alt unat_of_nat)
  have lt: "reads (do { ok \<leftarrow> h265_long_term (of_nat (log2_poc_lsb s)); if \<not> ok then State_Monad.return VUI_BAD
      else do { vb_read 1; vb_read 1; vui_signal_type } })
     (long_term_bits (log2_poc_lsb s + 4) (long_term s) @ [fst (mvp_smoothing s)] @ [snd (mvp_smoothing s)] @ vui_bits (h265_vui s))
     (walk_value (h265_vui s))"
    by (rule reads_bind, rule reads_long_term)
      (use ok in \<open>simp_all add: reads_flag_cons reads_vui\<close>)
  have rs: "reads (do { num_sets \<leftarrow> vb_ue; if num_sets > 64 then State_Monad.return VUI_BAD
     else do { ok \<leftarrow> h265_ref_pic_sets (unat num_sets) []; if \<not> ok then State_Monad.return VUI_BAD
       else do { ok \<leftarrow> h265_long_term (of_nat (log2_poc_lsb s)); if \<not> ok then State_Monad.return VUI_BAD
         else do { vb_read 1; vb_read 1; vui_signal_type } } } })
     (ue_bits (length (ref_sets s)) @ ref_sets_bits True (ref_sets s)
      @ long_term_bits (log2_poc_lsb s + 4) (long_term s) @ [fst (mvp_smoothing s)] @ [snd (mvp_smoothing s)] @ vui_bits (h265_vui s))
     (walk_value (h265_vui s))"
  proof (rule reads_bind, rule reads_ue)
    have r: "reads (h265_ref_pic_sets (unat (of_nat (length (ref_sets s)) :: u32)) []) (ref_sets_bits True (ref_sets s)) (\<lambda>_. True)"
      using reads_ref_sets [of "[]" "ref_sets s"] ok by (simp add: sets)
    show "reads (if (of_nat (length (ref_sets s)) :: u32) > 64 then State_Monad.return VUI_BAD
     else do { ok \<leftarrow> h265_ref_pic_sets (unat (of_nat (length (ref_sets s)) :: u32)) []; if \<not> ok then State_Monad.return VUI_BAD
       else do { ok \<leftarrow> h265_long_term (of_nat (log2_poc_lsb s)); if \<not> ok then State_Monad.return VUI_BAD
         else do { vb_read 1; vb_read 1; vui_signal_type } } })
      (ref_sets_bits True (ref_sets s)
      @ long_term_bits (log2_poc_lsb s + 4) (long_term s) @ [fst (mvp_smoothing s)] @ [snd (mvp_smoothing s)] @ vui_bits (h265_vui s))
     (walk_value (h265_vui s))"
      unfolding if_not_P [OF sets(1)]
      by (rule reads_bind, rule r) (simp only: not_True_eq_False if_False lt)
  qed (use ok in simp)
  have ord: "reads (times_do (if (of_bool (per_layer s) :: u32) \<noteq> 0 then Suc (unat (of_nat ?n :: u32)) else 1)
      (do { vb_ue; vb_ue; skip_ue })) (ordering_bits (ordering s)) (\<lambda>_. ())"
    using ok by (intro reads_ordering) (simp_all add: n)
  have cod: "reads (State_Monad.bind h265_coding (\<lambda>_. do { num_sets \<leftarrow> vb_ue; if num_sets > 64 then State_Monad.return VUI_BAD
     else do { ok \<leftarrow> h265_ref_pic_sets (unat num_sets) []; if \<not> ok then State_Monad.return VUI_BAD
       else do { ok \<leftarrow> h265_long_term (of_nat (log2_poc_lsb s)); if \<not> ok then State_Monad.return VUI_BAD
         else do { vb_read 1; vb_read 1; vui_signal_type } } } }))
     (blocks_bits (blocks s) @ scaling_bits (scaling s) @ [fst (amp_sao s)] @ [snd (amp_sao s)] @ pcm_bits (pcm s)
      @ ue_bits (length (ref_sets s)) @ ref_sets_bits True (ref_sets s)
      @ long_term_bits (log2_poc_lsb s + 4) (long_term s) @ [fst (mvp_smoothing s)] @ [snd (mvp_smoothing s)] @ vui_bits (h265_vui s))
     (walk_value (h265_vui s))"
    using reads_bind [OF reads_coding rs, of "blocks s" "scaling s" "pcm s" "fst (amp_sao s)" "snd (amp_sao s)"] ok by simp
  have plane: "reads (if (of_nat (chroma_idc s) :: u32) = 3 then skip_bits 1 else State_Monad.return ())
     (if chroma_idc s = 3 then [colour_plane s] else []) (\<lambda>_. ())"
    by (simp add: c reads_skip_flag reads_return)
  have ptl: "reads (h265_profile_tier_level (unat (of_nat ?n :: u32))) (ptl_bits (general_profile s) (general_level s) (layers s)) (\<lambda>_. ())"
    unfolding n using ok by (intro reads_ptl) simp_all
  have win: "reads skip_window (window_bits (conformance s)) (\<lambda>_. ())" using ok by (intro reads_window) simp
  show ?thesis unfolding h265_full_range_bit_def h265_prefix_def
    by (intro reads_bind [OF reads_u_n] reads_bind [OF reads_flag] reads_bind [OF ptl] reads_bind [OF reads_ue]
        reads_bind [OF plane] reads_bind [OF win] reads_bind [OF ord] cod) (use ok in simp_all)
qed

section \<open>The properties\<close>

lemma payload_bits_holds:
  assumes "take (length xs) (payload_bits p) = xs"
  shows "holds (reader_of p) xs"
proof -
  have le: "length xs \<le> 8 * length p" using arg_cong [OF assms, of length] by simp
  have "xs ! i = nthbit p i" if "i < length xs" for i
  proof -
    have "xs ! i = take (length xs) (payload_bits p) ! i" by (simp only: assms)
    then show ?thesis using that le by (simp add: payload_bits_def)
  qed
  then show ?thesis using le by (simp add: holds_def reader_of_def)
qed

text \<open>C15. The H.264 walk follows the syntax of the standard: on a payload that begins with the coded form
  of any sequence parameter set, whatever optional parts it has, it stops exactly at the range flag (or
  answers that there is no signal type block), has read within the payload and has made no undefined step.\<close>

lemma vui_h264_walk:
  assumes "h264_ok s" and "take (length (h264_prefix s)) (payload_bits p) = h264_prefix s"
  shows "run_state (full_range_bit False) (reader_of p)
    = (if has_signal (sps_vui s) then int (length (h264_prefix s)) else -2,
       (reader_of p)\<lparr>vb_bit := length (h264_prefix s)\<rparr>)"
  using reads_h264 [OF assms(1)] payload_bits_holds [OF assms(2)]
  by (simp add: reads_def full_range_bit_def walk_value_def reader_of_def)

text \<open>C16. The H.265 walk follows the syntax of the standard in the same sense: profile and level of every
  sub-layer, scaling lists, reference picture sets predicted from each other and long-term pictures
  included.\<close>

lemma vui_h265_walk:
  assumes "h265_ok s" and "take (length (h265_prefix s)) (payload_bits p) = h265_prefix s"
  shows "run_state (full_range_bit True) (reader_of p)
    = (if has_signal (h265_vui s) then int (length (h265_prefix s)) else -2,
       (reader_of p)\<lparr>vb_bit := length (h265_prefix s)\<rparr>)"
  using reads_h265 [OF assms(1)] payload_bits_holds [OF assms(2)]
  by (simp add: reads_def full_range_bit_def walk_value_def reader_of_def)

text \<open>Bits packed into bytes, the highest bit first, with zeros at the end.\<close>

definition pack :: "bool list \<Rightarrow> bytes" where
  "pack xs = map (\<lambda>i. horner_sum of_bool 2 (map (\<lambda>j. 8 * i + (7 - j) < length xs \<and> xs ! (8 * i + (7 - j))) [0..<8]))
     [0..<(length xs + 7) div 8]"

lemma payload_bits_pack: "take (length xs) (payload_bits (pack xs)) = xs"
proof (rule nth_equalityI)
  have l: "length xs \<le> 8 * length (pack xs)" by (simp add: pack_def)
  then show "length (take (length xs) (payload_bits (pack xs))) = length xs" by simp
  fix i assume "i < length (take (length xs) (payload_bits (pack xs)))"
  then have i: "i < length xs" by simp
  have "8 * (i div 8) + (7 - (7 - i mod 8)) = i" by simp
  moreover have "i div 8 < (length xs + 7) div 8" "7 - i mod 8 < 8" using i by simp_all
  ultimately have "nthbit (pack xs) i = xs ! i"
    using i by (simp add: nthbit_def pack_def bit_horner_sum_bit_word_iff)
  then show "take (length xs) (payload_bits (pack xs)) ! i = xs ! i" using i l by (simp add: payload_bits_def)
qed

definition sample_h264 :: h264_sps where
  "sample_h264 = \<lparr>profile_idc = 100, constraint_flags = 0, level_idc = 40, sps_id = 0,
     high = \<lparr>chroma_format_idc = 1, separate_colour = False, depth_luma = 0, depth_chroma = 0, bypass = False,
       scaling_lists = Some [Some [-8], None, None, None, None, None, None, Some [1, -9]]\<rparr>,
     log2_frame_num = 0, poc = Poc1 True 3 (-2) [5, -1], ref_frames = 2, gaps = False, mb_width = 119, mb_height = 67,
     frame_mbs_only = True, mb_adaptive = False, direct_8x8 = True, window = Some (0, 0, 0, 4),
     sps_vui = Vui (Some (255, 4, 3)) None (Some 5)\<rparr>"

definition sample_h265 :: h265_sps where
  "sample_h265 = \<lparr>vps_id = 0, nesting = True, general_profile = (1, 0x60000000, 0x90000000, 0), general_level = 120,
     layers = [(Some (1, 5, 7, 9), Some 90), (None, None)], seq_id = 0, chroma_idc = 1, colour_plane = False,
     luma_width = 1920, luma_height = 1088, conformance = Some (0, 0, 0, 4), bit_depths = (0, 0), log2_poc_lsb = 4,
     per_layer = True, ordering = [(4, 2, 0), (4, 2, 1), (3, 1, 0)], blocks = (0, 3, 0, 3, 2, 2), scaling = Some None,
     amp_sao = (True, True), pcm = Some (7, 7, 0, 2, False),
     ref_sets = [Explicit [(0, True), (1, True)] [(2, False)], Inter True 0 [(True, False), (False, True), (False, False), (True, True)]],
     long_term = Some [(200, True)], mvp_smoothing = (True, False), h265_vui = Vui None (Some True) (Some 5)\<rparr>"

lemma vui_h264_walk_witness:
  "fst (run_state (full_range_bit False) (reader_of (pack (h264_prefix sample_h264)))) = int (length (h264_prefix sample_h264))"
proof -
  have "lists_ok 0 [Some [-8], None, None, None, None, None, None, Some [1, -9]]" by code_simp
  then have "h264_ok sample_h264" by (simp add: h264_ok_def sample_h264_def high_ok_def del: lists_ok.simps)
  moreover have "has_signal (sps_vui sample_h264)" by (simp add: sample_h264_def)
  ultimately show ?thesis using vui_h264_walk [OF _ payload_bits_pack, of sample_h264] by simp
qed

lemma vui_h265_walk_witness:
  "fst (run_state (full_range_bit True) (reader_of (pack (h265_prefix sample_h265)))) = int (length (h265_prefix sample_h265))"
proof -
  have "h265_ok sample_h265"
    by (simp add: h265_ok_def sample_h265_def layer_ok_def entries_ok_def long_term_ok_def)
  moreover have "has_signal (h265_vui sample_h265)" by (simp add: sample_h265_def)
  ultimately show ?thesis using vui_h265_walk [OF _ payload_bits_pack, of sample_h265] by simp
qed

end
