(* ===== verification/Rss_Aac.thy ===== *)
theory Rss_Aac imports Rss_Vui_Syntax begin

text \<open>
  The AudioSpecificConfig builder of \<open>src/rss_aac.c\<close>.  The specification is the bit syntax of
  ISO 14496-3: \<open>asc_lc\<close> is \<open>AudioSpecificConfig\<close> of an LC stream with an all-zero
  \<open>GASpecificConfig\<close>, \<open>asc_sbr\<close> the same followed by the backward-compatible sync extension.
\<close>

definition sr_table :: "int list" where
  "sr_table = [96000, 88200, 64000, 48000, 44100, 32000, 24000, 22050, 16000, 12000, 11025, 8000, 7350]"

fun rate_from :: "int \<Rightarrow> int list \<Rightarrow> int \<Rightarrow> int" where
  "rate_from i [] sample_rate = -1"
| "rate_from i (r # rs) sample_rate = (if r = sample_rate then i else rate_from (i + 1) rs sample_rate)"

definition rss_aac_rate_index :: "int \<Rightarrow> int" where
  "rss_aac_rate_index sample_rate = rate_from 0 sr_table sample_rate"

abbreviation (input) RSS_AAC_AOT_LC :: int where "RSS_AAC_AOT_LC \<equiv> 2"
abbreviation (input) RSS_AAC_AOT_SBR :: int where "RSS_AAC_AOT_SBR \<equiv> 5"

definition asc_word_lc :: "int \<Rightarrow> int \<Rightarrow> u16" where
  "asc_word_lc idx channels = word_of_int ((push_bit 11 2 OR push_bit 7 idx) OR push_bit 3 channels)"

definition asc_word_sbr :: "int \<Rightarrow> int \<Rightarrow> int \<Rightarrow> u64" where
  "asc_word_sbr core_idx ext_idx channels =
     0 OR push_bit 35 2 OR push_bit 31 (word_of_int core_idx) OR push_bit 27 (word_of_int channels)
     OR push_bit 13 0x2b7 OR push_bit 8 5 OR push_bit 7 1 OR push_bit 3 (word_of_int ext_idx)"

definition rss_aac_asc :: "int \<Rightarrow> int \<Rightarrow> int \<Rightarrow> bytes option \<Rightarrow> int \<times> bytes option" where
  "rss_aac_asc aot sample_rate channels buf =
     (case buf of None \<Rightarrow> (-1, None)
      | Some b \<Rightarrow>
        if channels < 1 \<or> channels > 7 then (-1, Some b)
        else if aot = RSS_AAC_AOT_LC then
          let idx = rss_aac_rate_index sample_rate
          in if idx < 0 then (-1, Some b)
             else let v = asc_word_lc idx channels in (2, Some (b[0 := byte_of 8 v, 1 := byte_of 0 v]))
        else if aot = RSS_AAC_AOT_SBR then
          let core_idx = rss_aac_rate_index (sample_rate sdiv 2); ext_idx = rss_aac_rate_index sample_rate
          in if core_idx < 0 \<or> ext_idx < 0 then (-1, Some b)
             else let v = asc_word_sbr core_idx ext_idx channels
                  in (5, Some (b[0 := byte_of 32 v, 1 := byte_of 24 v, 2 := byte_of 16 v, 3 := byte_of 8 v, 4 := byte_of 0 v]))
        else (-1, Some b))"

section \<open>The rate table\<close>

lemma rate_from_cases:
  obtains (absent) "rate_from k rs r = -1" "r \<notin> set rs"
  | (found) i where "rate_from k rs r = k + int i" "i < length rs" "rs ! i = r"
proof (induction rs arbitrary: k thesis)
  case (Cons x rs)
  show ?case
  proof (cases "x = r")
    case True
    then show thesis using Cons.prems(2) [of 0] by simp
  next
    case False
    show thesis
    proof (rule Cons.IH [of "k + 1"])
      fix i assume "rate_from (k + 1) rs r = k + 1 + int i" "i < length rs" "rs ! i = r"
      then show thesis using Cons.prems(2) [of "Suc i"] False by simp
    qed (use Cons.prems(1) False in auto)
  qed
qed simp

lemma rate_index_cases:
  obtains (absent) "rss_aac_rate_index r = -1" "r \<notin> set sr_table"
  | (found) i where "rss_aac_rate_index r = int i" "i < 13" "sr_table ! i = r" "r \<in> set sr_table"
proof (rule rate_from_cases [of 0 sr_table r])
  fix i assume "rate_from 0 sr_table r = 0 + int i" "i < length sr_table" "sr_table ! i = r"
  then show thesis using found [of i] nth_mem [of i sr_table] by (simp add: rss_aac_rate_index_def sr_table_def)
qed (auto simp: rss_aac_rate_index_def intro: absent)

section \<open>The configuration as a decoder reads it\<close>

text \<open>
  The decoder of 1.6.2.1: object type, frequency index, channel configuration, the general audio
  configuration; then, where 16 bits or more are left, the sync extension of 1.6.6.
\<close>

definition asc_core :: "(u32 \<times> u32 \<times> u32) reader" where
  "asc_core = do {
     aot \<leftarrow> vb_read 5; freq \<leftarrow> vb_read 4; chans \<leftarrow> vb_read 4; vb_read 3;
     State_Monad.return (aot, freq, chans)
   }"

definition asc_extension :: "u32 option reader" where
  "asc_extension = do {
     sync \<leftarrow> vb_read 11;
     if sync \<noteq> 0x2b7 then State_Monad.return None
     else do {
       aot \<leftarrow> vb_read 5;
       if aot \<noteq> 5 then State_Monad.return None
       else do {
         sbr \<leftarrow> vb_read 1;
         if sbr = 0 then State_Monad.return None
         else do { freq \<leftarrow> vb_read 4; State_Monad.return (Some freq) }
       }
     }
   }"

definition asc_decode :: "bytes \<Rightarrow> (int \<times> int \<times> int option) option" where
  "asc_decode asc =
     (case run_state asc_core (reader_of asc) of ((aot, freq, chans), b) \<Rightarrow>
        if vb_overflow b \<or> aot \<noteq> 2 then None
        else
          let ext = (if vb_bit b + 16 \<le> 8 * length asc then fst (run_state asc_extension b) else None)
          in Some (sr_table ! unat freq, uint chans, map_option (\<lambda>f. sr_table ! unat f) ext))"

definition lc_bits :: "nat \<Rightarrow> nat \<Rightarrow> bool list" where
  "lc_bits idx chans = ubits 5 2 @ ubits 4 idx @ ubits 4 chans @ ubits 3 0"

definition sbr_bits :: "nat \<Rightarrow> bool list" where
  "sbr_bits ext = ubits 11 0x2b7 @ ubits 5 5 @ ubits 1 1 @ ubits 4 ext"

lemma reads_core: "idx < 16 \<Longrightarrow> chans < 16 \<Longrightarrow> reads asc_core (lc_bits idx chans) (\<lambda>_. (2, of_nat idx, of_nat chans))"
  unfolding asc_core_def lc_bits_def
  by (intro reads_bind [OF reads_u_n] reads_bind_last [OF reads_u_n]) (simp_all add: reads_return)

lemma reads_extension: "ext < 16 \<Longrightarrow> reads asc_extension (sbr_bits ext) (\<lambda>_. Some (of_nat ext))"
proof -
  assume e: "ext < 16"
  have "reads (do { freq \<leftarrow> vb_read 4; State_Monad.return (Some freq) }) (ubits 4 ext) (\<lambda>_. Some (of_nat ext))"
    using e by (intro reads_bind_last [OF reads_u_n] reads_return) simp_all
  then show ?thesis unfolding asc_extension_def sbr_bits_def
    by (intro reads_bind [OF reads_u_n]) (simp_all add: reads_bind [OF reads_u_n])
qed

lemma bit_small: "n < 2 ^ k \<Longrightarrow> k \<le> j \<Longrightarrow> \<not> bit (n :: nat) j"
  by (metis bit_take_bit_iff leD take_bit_nat_eq_self)

lemma bit_Suc0: "bit (Suc 0) 0 = True"
  by (simp add: bit_0)

lemmas asc_bits = payload_bits_def lc_bits_def sbr_bits_def ubits_def upt_rec nthbit_def bit_byte_of asc_word_lc_def
  asc_word_sbr_def bit_word_of_int_iff bit_or_iff bit_push_bit_iff bit_of_nat_iff bit_1_iff bit_Suc0

lemma lc_payload:
  assumes "idx < 16" and "chans < 16"
  shows "payload_bits [byte_of 8 (asc_word_lc (int idx) (int chans)), byte_of 0 (asc_word_lc (int idx) (int chans))] = lc_bits idx chans"
  using bit_small [of idx 4] bit_small [of chans 4] assms by (simp add: asc_bits)

lemma sbr_payload:
  assumes "core < 16" and "ext < 16" and "chans < 16"
  defines "v \<equiv> asc_word_sbr (int core) (int ext) (int chans)"
  shows "payload_bits [byte_of 32 v, byte_of 24 v, byte_of 16 v, byte_of 8 v, byte_of 0 v]
    = lc_bits core chans @ sbr_bits ext @ [False, False, False]"
  using bit_small [of core 4] bit_small [of ext 4] bit_small [of chans 4] assms(1-3) by (simp add: asc_bits v_def)

lemma uint_of_chans: "n < 16 \<Longrightarrow> uint (of_nat n :: u32) = int n"
  by (simp add: unsigned_of_nat take_bit_nat_eq_self)

lemma decode_lc:
  assumes "idx < 13" and "chans < 16"
  shows "asc_decode [byte_of 8 (asc_word_lc (int idx) (int chans)), byte_of 0 (asc_word_lc (int idx) (int chans))]
    = Some (sr_table ! idx, int chans, None)"
proof -
  let ?b = "[byte_of 8 (asc_word_lc (int idx) (int chans)), byte_of 0 (asc_word_lc (int idx) (int chans))]"
  have l: "length (lc_bits idx chans) = 16" by (simp add: lc_bits_def)
  have "holds (reader_of ?b) (lc_bits idx chans)"
    using lc_payload [of idx chans] assms by (intro payload_bits_holds) (simp add: lc_bits_def)
  then have "run_state asc_core (reader_of ?b) = ((2, of_nat idx, of_nat chans), (reader_of ?b)\<lparr>vb_bit := 16\<rparr>)"
    using reads_core [of idx chans] assms by (simp add: reads_def l reader_of_def)
  then show ?thesis using assms by (simp add: asc_decode_def reader_of_def unat_of_nat uint_of_chans)
qed

lemma decode_sbr:
  assumes "core < 13" and "ext < 13" and "chans < 16"
  defines "v \<equiv> asc_word_sbr (int core) (int ext) (int chans)"
  shows "asc_decode [byte_of 32 v, byte_of 24 v, byte_of 16 v, byte_of 8 v, byte_of 0 v]
    = Some (sr_table ! core, int chans, Some (sr_table ! ext))"
proof -
  let ?b = "[byte_of 32 v, byte_of 24 v, byte_of 16 v, byte_of 8 v, byte_of 0 v]"
  have l: "length (lc_bits core chans) = 16" "length (sbr_bits ext) = 21" by (simp_all add: lc_bits_def sbr_bits_def)
  have "holds (reader_of ?b) (lc_bits core chans @ sbr_bits ext)"
    using sbr_payload [of core ext chans] assms by (intro payload_bits_holds) (simp add: v_def l)
  then have h: "holds (reader_of ?b) (lc_bits core chans)" "holds ((reader_of ?b)\<lparr>vb_bit := 16\<rparr>) (sbr_bits ext)"
    by (simp_all add: holds_append l reader_of_def)
  have "run_state asc_core (reader_of ?b) = ((2, of_nat core, of_nat chans), (reader_of ?b)\<lparr>vb_bit := 16\<rparr>)"
    using reads_core [of core chans] h(1) assms by (simp add: reads_def l reader_of_def)
  moreover have "fst (run_state asc_extension ((reader_of ?b)\<lparr>vb_bit := 16\<rparr>)) = Some (of_nat ext)"
    using reads_extension [of ext] h(2) assms by (simp add: reads_def)
  ultimately show ?thesis using assms by (simp add: asc_decode_def reader_of_def unat_of_nat uint_of_chans)
qed

text \<open>C26. Decoding the configuration gives the stream back: a call with a buffer, one to seven channels, a rate of
  the table and the LC type, or the SBR type where half the rate is in the table too, writes 2 or 5 bytes, and a
  decoder of the standard reads in them the LC object with the core rate and the channel count and, for SBR, the
  extension rate; every other call is refused and leaves the buffer alone.\<close>

lemma aac_asc_roundtrip:
  assumes room: "case buf of None \<Rightarrow> True | Some b \<Rightarrow> 5 \<le> length b"
  shows "case rss_aac_asc aot rate chans buf of (n, out) \<Rightarrow>
    (if buf \<noteq> None \<and> 1 \<le> chans \<and> chans \<le> 7 \<and> rate \<in> set sr_table \<and> (aot = 2 \<or> aot = 5 \<and> rate sdiv 2 \<in> set sr_table)
     then n = (if aot = 2 then 2 else 5) \<and> out \<noteq> None
       \<and> length (the out) = length (the buf) \<and> drop (nat n) (the out) = drop (nat n) (the buf)
       \<and> asc_decode (take (nat n) (the out))
         = Some (if aot = 2 then (rate, chans, None) else (rate sdiv 2, chans, Some rate))
     else n = -1 \<and> out = buf)"
proof (cases buf)
  case None
  then show ?thesis by (simp add: rss_aac_asc_def)
next
  case buf: (Some b)
  obtain b0 b1 b2 b3 b4 bs where b: "b = b0 # b1 # b2 # b3 # b4 # bs"
    using room by (auto simp: buf numeral_eq_Suc Suc_le_length_iff)
  consider (refused) "chans < 1 \<or> chans > 7 \<or> (aot \<noteq> 2 \<and> aot \<noteq> 5)" | (lc) "1 \<le> chans" "chans \<le> 7" "aot = 2"
    | (sbr) "1 \<le> chans" "chans \<le> 7" "aot = 5" by linarith
  then show ?thesis
  proof cases
    case refused
    then show ?thesis by (auto simp: rss_aac_asc_def buf)
  next
    case lc
    obtain c where c: "chans = int c" "c < 16" using lc by (intro that [of "nat chans"]) auto
    show ?thesis
    proof (cases rule: rate_index_cases [of rate])
      case (found i)
      then show ?thesis using lc c decode_lc [of i c] by (simp add: rss_aac_asc_def buf b Let_def)
    qed (use lc in \<open>simp add: rss_aac_asc_def buf\<close>)
  next
    case sbr
    obtain c where c: "chans = int c" "c < 16" using sbr by (intro that [of "nat chans"]) auto
    show ?thesis
    proof (cases rule: rate_index_cases [of rate])
      case e: (found i)
      show ?thesis
      proof (cases rule: rate_index_cases [of "rate sdiv 2"])
        case (found k)
        then show ?thesis using sbr c e decode_sbr [of k i c] by (simp add: rss_aac_asc_def buf b Let_def)
      qed (use sbr in \<open>simp add: rss_aac_asc_def buf\<close>)
    qed (use sbr in \<open>simp add: rss_aac_asc_def buf\<close>)
  qed
qed

lemma aac_asc_roundtrip_witness:
  "(case rss_aac_asc 5 44100 2 (Some [0, 0, 0, 0, 0, 0]) of (n, out) \<Rightarrow>
     n = 5 \<and> asc_decode (take 5 (the out)) = Some (22050, 2, Some 44100))
   \<and> rss_aac_asc 2 44100 0 (Some [0, 0, 0, 0, 0, 0]) = (-1, Some [0, 0, 0, 0, 0, 0])"
proof -
  let ?buf = "Some [0, 0, 0, 0, 0, 0] :: bytes option"
  have "(44100 :: int) sdiv 2 = 22050" by code_simp
  moreover have "44100 \<in> set sr_table" "22050 \<in> set sr_table" by (simp_all add: sr_table_def)
  ultimately show ?thesis
    using aac_asc_roundtrip [where buf = ?buf and aot = 5 and rate = 44100 and chans = 2]
      aac_asc_roundtrip [where buf = ?buf and aot = 2 and rate = 44100 and chans = 0] by (simp split: prod.splits)
qed

end
