(* ===== verification/Rss_Shadow.thy ===== *)
theory Rss_Shadow imports Rss_Util begin

text \<open>
  The password field of an account, \<open>src/rss_shadow.c\<close>.  A file is its characters, \<open>None\<close> one that
  cannot be opened; the lines are the chunks \<open>fgets\<close> reads into the 512 characters the callers give.
\<close>

datatype rss_shadow_state_t = RSS_SHADOW_SET | RSS_SHADOW_UNSET | RSS_SHADOW_LOCKED | RSS_SHADOW_MISSING

fun rss_shadow_state_name :: "rss_shadow_state_t \<Rightarrow> string" where
  "rss_shadow_state_name RSS_SHADOW_SET = ''set''"
| "rss_shadow_state_name RSS_SHADOW_UNSET = ''unset''"
| "rss_shadow_state_name RSS_SHADOW_LOCKED = ''locked''"
| "rss_shadow_state_name RSS_SHADOW_MISSING = ''missing''"

definition count_dollar :: "string \<Rightarrow> nat \<times> nat \<Rightarrow> nat \<Rightarrow> nat \<times> nat" where
  "count_dollar f dl i = (if f ! i = CHR ''$'' then (fst dl + 1, i) else dl)"

definition usable_hash :: "string \<Rightarrow> bool" where
  "usable_hash f =
     (if f = [] \<or> hd f \<noteq> CHR ''$'' then False
      else let (dollars, last) = foldl (count_dollar f) (0, 0) [0..<length f]
           in dollars \<ge> 3 \<and> last + 1 < length f)"

text \<open>The field of the line read: from behind the colon to the next one, or to the end of the line.\<close>

definition line_field :: "string \<Rightarrow> nat \<Rightarrow> string" where
  "line_field line ulen =
     (let p = c_str (drop (ulen + 1) line);
          p = takeWhile (\<lambda>c. c \<noteq> CHR '':'') p
      in takeWhile (\<lambda>c. c \<noteq> CR \<and> c \<noteq> LF) p)"

definition names_user :: "string \<Rightarrow> string \<Rightarrow> bool" where
  "names_user line user \<longleftrightarrow>
     \<not> (strncmp line user (length user) \<noteq> 0 \<or> (line @ [NUL]) ! length user \<noteq> CHR '':'')"

lemma fgets_shorter: "fgets n f = Some (l, f') \<Longrightarrow> length f' < length f"
proof -
  assume "fgets n f = Some (l, f')"
  then have "f = l @ f'" "l \<noteq> []" using fgets_Some by blast+
  then show ?thesis by simp
qed

function scan_lines :: "nat \<Rightarrow> string \<Rightarrow> string \<Rightarrow> string option" where
  "scan_lines linesz user f =
     (case fgets linesz f of None \<Rightarrow> None
      | Some (line, f) \<Rightarrow>
        if \<not> names_user line user then scan_lines linesz user f
        else Some (line_field line (length user)))"
  by pat_completeness auto
termination by (relation "measure (\<lambda>(n, u, f). length f)") (auto dest: fgets_shorter)

declare scan_lines.simps [simp del]

definition passwd_field :: "string option \<Rightarrow> string option \<Rightarrow> nat \<Rightarrow> string option" where
  "passwd_field path user linesz =
     (case user of None \<Rightarrow> None
      | Some user \<Rightarrow>
        if user = [] \<or> strchr user CHR '':'' \<noteq> None then None
        else case path of None \<Rightarrow> None | Some f \<Rightarrow> scan_lines linesz user f)"

definition rss_shadow_state :: "string option \<Rightarrow> string option \<Rightarrow> rss_shadow_state_t" where
  "rss_shadow_state path user =
     (case passwd_field path user 512 of None \<Rightarrow> RSS_SHADOW_MISSING
      | Some f \<Rightarrow>
        if f = [] then RSS_SHADOW_UNSET
        else if usable_hash f then RSS_SHADOW_SET
        else RSS_SHADOW_LOCKED)"

definition rss_shadow_hash :: "string option \<Rightarrow> string option \<Rightarrow> string \<Rightarrow> nat \<Rightarrow> bool \<times> string" where
  "rss_shadow_hash path user out outsz =
     (case passwd_field path user 512 of None \<Rightarrow> (False, out)
      | Some f \<Rightarrow>
        if \<not> usable_hash f \<or> length f \<ge> outsz then (False, out)
        else (True, the (snd (rss_strlcpy (Some out) (Some f) outsz))))"

section \<open>What a usable hash is\<close>

lemma count_dollars:
  "k \<le> length f \<Longrightarrow> foldl (count_dollar f) (0, 0) [0..<k]
    = (length (filter ((=) CHR ''$'') (take k f)),
       if CHR ''$'' \<in> set (take k f) then k - 1 - length (takeWhile ((\<noteq>) CHR ''$'') (rev (take k f))) else 0)"
proof (induction k)
  case (Suc k)
  then have t: "take (Suc k) f = take k f @ [f ! k]" by (simp add: take_Suc_conv_app_nth)
  show ?case using Suc by (auto simp: t count_dollar_def)
qed simp

text \<open>
  The shape of the comment: three dollars at least, the first in front, the last not at the end.
\<close>

lemma usable_hash_iff:
  "usable_hash f \<longleftrightarrow> f \<noteq> [] \<and> hd f = CHR ''$'' \<and> 3 \<le> length (filter ((=) CHR ''$'') f) \<and> last f \<noteq> CHR ''$''"
proof (cases "f \<noteq> [] \<and> hd f = CHR ''$''")
  case True
  then have "CHR ''$'' \<in> set f" by (cases f) auto
  moreover obtain g c where "f = g @ [c]" using True by (cases f rule: rev_cases) auto
  ultimately show ?thesis using True count_dollars [of "length f" f]
    by (auto simp: usable_hash_def dest: length_pos_if_in_set)
qed (auto simp: usable_hash_def)

section \<open>The file as lines\<close>

text \<open>The reference, on the lines of the file: the first line that starts with the name and a colon, and its second field.\<close>

definition entry_field :: "string \<Rightarrow> string \<Rightarrow> string option" where
  "entry_field user l =
     (if prefix (user @ '':'') l
      then Some (takeWhile (\<lambda>c. c \<noteq> CHR '':'' \<and> c \<noteq> CR) (drop (length user + 1) l)) else None)"

fun shadow_entry :: "string \<Rightarrow> string list \<Rightarrow> string option" where
  "shadow_entry user [] = None"
| "shadow_entry user (l # ls) = (case entry_field user l of None \<Rightarrow> shadow_entry user ls | Some p \<Rightarrow> Some p)"

lemma names_user_iff:
  assumes "cstr user" and "cstr l" and "t = [] \<or> t = [LF]" and "CHR '':'' \<notin> set user"
  shows "names_user (l @ t) user \<longleftrightarrow> prefix (user @ '':'') l"
proof -
  have "strncmp (l @ t) user (length user) = 0 \<longleftrightarrow> prefix user (l @ t)"
    using assms by (intro strncmp_prefix) auto
  moreover have "prefix user (l @ t) \<and> ((l @ t) @ [NUL]) ! length user = CHR '':'' \<longleftrightarrow> prefix (user @ '':'') l" (is "?L \<longleftrightarrow> ?R")
  proof
    assume a: ?L
    then obtain z where z: "l @ t = user @ z" by (auto simp: prefix_def)
    have "(z @ [NUL]) ! 0 = CHR '':''" using a unfolding z by (simp add: nth_append)
    then obtain w where w: "z = CHR '':'' # w" by (cases z) auto
    then have "l @ t = (user @ '':'') @ w" using z by simp
    then show ?R using assms(3) by (cases w rule: rev_cases) (auto simp: append_eq_append_conv2 Cons_eq_append_conv)
  qed (auto simp: prefix_def)
  ultimately show ?thesis by (auto simp: names_user_def)
qed

lemma line_field_line:
  assumes "cstr l" and "LF \<notin> set l" and "t = [] \<or> t = [LF]" and "n \<le> length l"
  shows "line_field (l @ t) n = takeWhile (\<lambda>c. c \<noteq> CHR '':'' \<and> c \<noteq> CR) (drop (n + 1) l)"
proof -
  have two: "takeWhile Q (takeWhile P xs) = takeWhile (\<lambda>c. P c \<and> Q c) xs" for P Q and xs :: string
    by (induction xs) auto
  have d: "drop (n + 1) (l @ t) = drop (n + 1) l @ drop (n + 1 - length l) t" by simp
  have c: "cstr (drop (n + 1) (l @ t))" using assms by (auto intro: cstr_drop)
  have key: "takeWhile (\<lambda>c. c \<noteq> CHR '':'' \<and> c \<noteq> CR \<and> c \<noteq> LF) (xs @ u) = takeWhile (\<lambda>c. c \<noteq> CHR '':'' \<and> c \<noteq> CR) xs"
    if "LF \<notin> set xs" "u = [] \<or> u = [LF]" for xs u :: string
    using that by (induction xs) auto
  have tl: "drop (n + 1 - length l) t = [] \<or> drop (n + 1 - length l) t = [LF]"
    using assms(3) by (cases "n + 1 - length l") auto
  have nl: "LF \<notin> set (drop (n + 1) l)" using assms(2) by (auto dest: in_set_dropD)
  show ?thesis unfolding line_field_def Let_def c_str_cstr [OF c] two unfolding d by (rule key [OF nl tl])
qed

definition short_lines :: "nat \<Rightarrow> string \<Rightarrow> bool" where
  "short_lines n f \<longleftrightarrow> list_all (\<lambda>l. length l \<le> n \<and> cstr l) (split_lines f)"

lemma short_lines_line: "LF \<notin> set l \<Longrightarrow> short_lines n (l @ LF # f) \<longleftrightarrow> length l \<le> n \<and> cstr l \<and> short_lines n f"
  by (simp add: short_lines_def split_lines_line)

lemma scan_lines_entry:
  "short_lines 510 f \<Longrightarrow> cstr user \<Longrightarrow> CHR '':'' \<notin> set user \<Longrightarrow> scan_lines 512 user f = shadow_entry user (split_lines f)"
proof (induction "length f" arbitrary: f rule: less_induct)
  case less
  note us = less.prems(2,3)
  show ?case
  proof (cases "f = []")
    case True
    then show ?thesis using fgets_None [of 512 "[]"] by (subst scan_lines.simps) simp
  next
    case ne: False
    then obtain c g where cg: "fgets 512 f = Some (c, g)" using fgets_None [of 512 f] by (cases "fgets 512 f") auto
    obtain l t where lt: "c = l @ t" "t = [] \<or> t = [LF]" "LF \<notin> set l" "length l \<le> 510" "cstr l"
      "split_lines f = l # split_lines g" "short_lines 510 g" "length g < length f"
    proof (cases "LF \<in> set f")
      case True
      then obtain l h where f: "f = l @ LF # h" "LF \<notin> set l" by (blast dest: split_list_first)
      have "c = l @ [LF] \<and> g = h"
        using fgets512.next_full_line [OF cg f(1) f(2)] less.prems(1) f by (simp add: short_lines_line)
      then show thesis using that [of l "[LF]"] f less.prems(1) by (simp add: short_lines_line split_lines_line)
    next
      case False
      then have "c = f \<and> g = []"
        using fgets512.next_last_line [OF cg] less.prems(1) ne by (simp add: short_lines_def split_lines_last)
      then show thesis using that [of f "[]"] False ne less.prems(1) by (simp add: short_lines_def split_lines_last)
    qed
    have nm: "names_user c user \<longleftrightarrow> prefix (user @ '':'') l" using names_user_iff [OF us(1) lt(5,2) us(2)] lt(1) by simp
    show ?thesis
    proof (cases "prefix (user @ '':'') l")
      case True
      then have "length user \<le> length l" by (auto simp: prefix_def)
      then have "line_field c (length user) = takeWhile (\<lambda>c. c \<noteq> CHR '':'' \<and> c \<noteq> CR) (drop (length user + 1) l)"
        using line_field_line [OF lt(5,3,2)] lt(1) by simp
      then show ?thesis using True nm cg lt(6) by (subst scan_lines.simps) (simp add: entry_field_def)
    next
      case False
      then show ?thesis using nm cg lt(6) less.hyps [OF lt(8,7) us]
        by (subst scan_lines.simps) (simp add: entry_field_def)
    qed
  qed
qed

lemma shadow_entry_cstr: "short_lines n f \<Longrightarrow> shadow_entry user (split_lines f) = Some p \<Longrightarrow> cstr p"
proof -
  have "list_all cstr ls \<Longrightarrow> shadow_entry user ls = Some p \<Longrightarrow> cstr p" for ls
  proof (induction ls)
    case (Cons l ls)
    show ?case
    proof (cases "entry_field user l")
      case None
      then show ?thesis using Cons by simp
    next
      case (Some q)
      then have "q = p" using Cons.prems(2) by simp
      then have "set p \<subseteq> set l"
        using Some by (auto simp: entry_field_def split: if_splits dest: set_takeWhileD in_set_dropD)
      then show ?thesis using Cons.prems(1) by (intro cstr_sub [of l p]) simp_all
    qed
  qed simp
  moreover assume "short_lines n f"
  then have "list_all cstr (split_lines f)" by (simp add: short_lines_def list_all_iff)
  moreover assume "shadow_entry user (split_lines f) = Some p"
  ultimately show ?thesis by blast
qed

text \<open>C27. The answer about an account is the answer of the first line that names it: on a file whose lines
  fit the buffer, the state is \<open>missing\<close> without such a line, \<open>unset\<close> when its second field is empty,
  \<open>set\<close> when that field is a \<open>$id$salt$digest\<close> and \<open>locked\<close> otherwise; and the hash is handed out exactly
  in the state \<open>set\<close>, whole and terminated, or not at all.\<close>

lemma shadow_first_entry:
  assumes "short_lines 510 f" and "cstr user" and "user \<noteq> []" and "CHR '':'' \<notin> set user" and "outsz = length out"
  shows "case shadow_entry user (split_lines f) of
      None \<Rightarrow> rss_shadow_state (Some f) (Some user) = RSS_SHADOW_MISSING \<and> rss_shadow_hash (Some f) (Some user) out outsz = (False, out)
    | Some p \<Rightarrow>
      let usable = (prefix ''$'' p \<and> 3 \<le> length (filter ((=) CHR ''$'') p) \<and> last p \<noteq> CHR ''$'')
      in rss_shadow_state (Some f) (Some user)
           = (if p = [] then RSS_SHADOW_UNSET else if usable then RSS_SHADOW_SET else RSS_SHADOW_LOCKED)
         \<and> (case rss_shadow_hash (Some f) (Some user) out outsz of (ok, out') \<Rightarrow>
              length out' = length out \<and> (if usable \<and> length p < outsz then ok \<and> c_str out' = p else \<not> ok \<and> out' = out))"
proof -
  have "passwd_field (Some f) (Some user) 512 = shadow_entry user (split_lines f)"
    using assms scan_lines_entry [OF assms(1,2,4)] by (simp add: passwd_field_def strchr_None)
  note f = this
  show ?thesis
  proof (cases "shadow_entry user (split_lines f)")
    case None
    then show ?thesis using f by (simp add: rss_shadow_state_def rss_shadow_hash_def)
  next
    case (Some p)
    have us: "usable_hash p \<longleftrightarrow> prefix ''$'' p \<and> 3 \<le> length (filter ((=) CHR ''$'') p) \<and> last p \<noteq> CHR ''$''"
      unfolding usable_hash_iff by (cases p) auto
    have p: "cstr p" using shadow_entry_cstr [OF assms(1) Some] .
    obtain n out' where cpy: "rss_strlcpy (Some out) (Some p) outsz = (n, Some out')"
      by (cases "rss_strlcpy (Some out) (Some p) outsz") (auto simp: rss_strlcpy_def Let_def split: if_splits)
    have "length out' = length out \<and> c_str out' = p" if "length p < outsz"
      using strlcpy_reads [OF p _ _ cpy] that assms(5) by auto
    then show ?thesis using f Some us [symmetric] cpy
      by (simp add: rss_shadow_state_def rss_shadow_hash_def Let_def)
  qed
qed

lemma shadow_first_entry_witness:
  "let f = ''daemon:*:1'' @ [LF] @ ''root:$1$ab$cd:1'' @ [LF] @ ''root::'' @ [LF] in
   rss_shadow_state (Some f) (Some ''root'') = RSS_SHADOW_SET \<and> fst (rss_shadow_hash (Some f) (Some ''root'') (replicate 20 NUL) 20)"
proof -
  let ?f = "''daemon:*:1'' @ [LF] @ ''root:$1$ab$cd:1'' @ [LF] @ ''root::'' @ [LF]"
  have sl: "split_lines ?f = [''daemon:*:1'', ''root:$1$ab$cd:1'', ''root::'']" by code_simp
  have s: "short_lines 510 ?f" unfolding short_lines_def sl by simp
  have e: "shadow_entry ''root'' (split_lines ?f) = Some ''$1$ab$cd''" unfolding sl by (simp add: entry_field_def)
  have "CHR '':'' \<notin> set ''root''" "cstr ''root''" by simp_all
  then show ?thesis
    using shadow_first_entry [OF s, of "''root''" 20 "replicate 20 NUL"] unfolding e by (simp add: Let_def split: prod.splits)
qed

text \<open>
  The condition on the lines is needed: the rest of a line longer than the buffer is read as a line of its own.
\<close>

lemma shadow_long_line:
  "let f = ''#'' @ replicate 510 CHR ''x'' @ ''root::'' @ [LF] @ ''root:$1$ab$cd:1'' @ [LF] in
   rss_shadow_state (Some f) (Some ''root'') = RSS_SHADOW_UNSET \<and> shadow_entry ''root'' (split_lines f) = Some ''$1$ab$cd''"
  by code_simp

end
