(* ===== verification/Rss_File.thy ===== *)
theory Rss_File imports Rss_Cstr begin

text \<open>
  The file utilities of \<open>src/rss_util.c\<close>.  Each function is written over the answers of the operating
  system: a script with one entry per call that may be interrupted, fall short or fail.  A call
  sequence that outlives its script has not returned (\<open>Stuck\<close>).
\<close>

section \<open>Reading a file\<close>

text \<open>
  \<open>Gives n\<close> is a \<open>read\<close> that delivers at most \<open>n\<close> bytes; a regular file ends with an empty one.
  C leaves the overflow of the capacity undefined.
\<close>

datatype read_answer = Read_Intr | Read_Fail | Gives nat

datatype read_result = Null | Contents bytes | Stuck | Undefined

abbreviation (input) INT_MAX :: int where "INT_MAX \<equiv> 2147483647"

record read_world =
  can_open :: bool
  stat_size :: "int option"
  alloc_ok :: "nat \<Rightarrow> bool"

definition grown :: "nat \<Rightarrow> bytes \<Rightarrow> nat" where
  "grown capacity buf = (if length buf \<ge> capacity - 1 then capacity * 2 else capacity)"

definition too_big :: "nat \<Rightarrow> bool" where
  "too_big capacity \<longleftrightarrow> int capacity > INT_MAX"

fun read_loop :: "(nat \<Rightarrow> bool) \<Rightarrow> nat \<Rightarrow> bytes \<Rightarrow> bytes \<Rightarrow> read_answer list \<Rightarrow> read_result" where
  "read_loop alloc capacity buf cont [] = Stuck"
| "read_loop alloc capacity buf cont (a # as) =
     (let cap = grown capacity buf
      in if too_big cap then Undefined
         else if cap \<noteq> capacity \<and> \<not> alloc cap then Null
         else case a of
           Read_Intr \<Rightarrow> read_loop alloc cap buf cont as
         | Read_Fail \<Rightarrow> Null
         | Gives k \<Rightarrow>
             let n = min k (min (cap - 1 - length buf) (length cont))
             in if n = 0 then Contents buf
                else read_loop alloc cap (buf @ take n cont) (drop n cont) as)"

definition rss_read_file :: "read_world \<Rightarrow> bytes \<Rightarrow> read_answer list \<Rightarrow> read_result" where
  "rss_read_file w cont answers =
     (if \<not> can_open w then Null
      else case stat_size w of None \<Rightarrow> Null
      | Some st_size \<Rightarrow>
          if st_size > 0 \<and> st_size \<ge> INT_MAX then Undefined
          else let capacity = (if st_size > 0 then nat st_size + 1 else 4096)
               in if \<not> alloc_ok w capacity then Null
                  else read_loop (alloc_ok w) capacity [] cont answers)"

text \<open>The answers of a healthy file: nothing fails, and a read that is not interrupted delivers something.\<close>

definition healthy :: "read_answer list \<Rightarrow> bool" where
  "healthy as \<longleftrightarrow> list_all (\<lambda>a. case a of Read_Intr \<Rightarrow> True | Read_Fail \<Rightarrow> False | Gives k \<Rightarrow> 0 < k) as"

definition reads_left :: "read_answer list \<Rightarrow> nat" where
  "reads_left as = length (filter (\<lambda>a. a \<noteq> Read_Intr) as)"

lemma read_loop_all:
  assumes "healthy as" and "length cont < reads_left as" and "\<forall>n. alloc n"
    and "2 \<le> capacity" and "length buf < capacity" and "capacity \<le> 2 ^ 30"
    and "length buf + length cont < 2 ^ 29"
  shows "read_loop alloc capacity buf cont as = Contents (buf @ cont)"
  using assms
proof (induction as arbitrary: capacity buf cont)
  case Nil
  then show ?case by (simp add: reads_left_def)
next
  case (Cons a as)
  define cap where "cap = grown capacity buf"
  have "length buf + 1 < cap" "2 \<le> cap" "cap \<le> 2 ^ 30"
    using Cons.prems(4-7) unfolding cap_def grown_def by (simp_all split: if_split) linarith+
  then have cap: "length buf + 1 < cap" "2 \<le> cap" "\<not> too_big cap" "cap \<le> 2 ^ 30" by (simp_all add: too_big_def)
  have step: "read_loop alloc capacity buf cont (a # as) = (case a of
      Read_Intr \<Rightarrow> read_loop alloc cap buf cont as
    | Read_Fail \<Rightarrow> Null
    | Gives k \<Rightarrow> let n = min k (min (cap - 1 - length buf) (length cont))
        in if n = 0 then Contents buf else read_loop alloc cap (buf @ take n cont) (drop n cont) as)"
    unfolding read_loop.simps Let_def cap_def [symmetric] using cap(3) Cons.prems(3) by simp
  show ?case
  proof (cases a)
    case Read_Intr
    have "read_loop alloc cap buf cont as = Contents (buf @ cont)"
      using Cons.prems cap by (intro Cons.IH) (simp_all add: Read_Intr healthy_def reads_left_def)
    then show ?thesis unfolding step by (simp add: Read_Intr)
  next
    case (Gives k)
    define n where "n = min k (min (cap - 1 - length buf) (length cont))"
    have k: "0 < k" using Cons.prems(1) by (simp add: Gives healthy_def)
    show ?thesis
    proof (cases "cont = []")
      case True
      then show ?thesis unfolding step by (simp add: Gives)
    next
      case False
      then have n: "0 < n" "n \<le> length cont" "length buf + n < cap" using cap(1) k by (auto simp: n_def)
      have "read_loop alloc cap (buf @ take n cont) (drop n cont) as = Contents ((buf @ take n cont) @ drop n cont)"
        using Cons.prems cap n by (intro Cons.IH) (simp_all add: Gives healthy_def reads_left_def)
      then show ?thesis unfolding step unfolding Gives read_answer.case Let_def n_def [symmetric] using n(1) by simp
    qed
  qed (use Cons.prems(1) in \<open>simp add: healthy_def\<close>)
qed

text \<open>C28. Reading returns, and returns the whole file: whatever size \<open>fstat\<close> reports (a file of
  \<open>/proc\<close> reports none), however short the reads fall and however often they are interrupted, a file
  below 512 MB comes back byte for byte after at most one read more than it has bytes.\<close>

lemma read_file_whole:
  assumes "can_open w" and "stat_size w = Some n" and "n < 2 ^ 30" and "\<forall>n. alloc_ok w n"
    and "length cont < 2 ^ 29" and "healthy answers" and "length cont < reads_left answers"
  shows "rss_read_file w cont answers = Contents cont"
proof -
  let ?c = "if n > 0 then nat n + 1 else 4096"
  have "read_loop (alloc_ok w) ?c [] cont answers = Contents ([] @ cont)"
    using assms by (intro read_loop_all) (auto simp: nat_le_iff)
  then show ?thesis using assms by (simp add: rss_read_file_def Let_def)
qed

lemma read_file_whole_witness:
  "rss_read_file \<lparr>can_open = True, stat_size = Some 2, alloc_ok = \<lambda>_. True\<rparr> [1, 2, 3, 4, 5]
     [Gives 1, Read_Intr, Gives 9, Gives 2, Gives 2, Read_Intr, Gives 5, Gives 1] = Contents [1, 2, 3, 4, 5]"
  using read_file_whole [of "\<lparr>can_open = True, stat_size = Some 2, alloc_ok = \<lambda>_. True\<rparr>" 2 "[1, 2, 3, 4, 5]"
      "[Gives 1, Read_Intr, Gives 9, Gives 2, Gives 2, Read_Intr, Gives 5, Gives 1]"]
  by (simp add: healthy_def reads_left_def)

section \<open>Replacing a file\<close>

text \<open>
  The file system as the call sees it: a file is its bytes, its mode and whether the bytes are on the
  medium; a path is bound to a file or to none.  \<open>fs_op\<close> are the calls that change it.
\<close>

type_synonym mode = u32

record fs_file =
  fs_data :: bytes
  fs_mode :: mode
  fs_synced :: bool

type_synonym fs = "string \<Rightarrow> fs_file option"

datatype fs_op = Create string mode | Append string bytes | Sync string | Rename string string | Unlink string | Sync_Dir string

fun fs_step :: "mode \<Rightarrow> fs_op \<Rightarrow> fs \<Rightarrow> fs" where
  "fs_step umask (Create p m) fs =
     (case fs p of None \<Rightarrow> fs(p \<mapsto> \<lparr>fs_data = [], fs_mode = m AND NOT umask, fs_synced = False\<rparr>)
      | Some f \<Rightarrow> fs(p \<mapsto> f\<lparr>fs_data := [], fs_synced := False\<rparr>))"
| "fs_step umask (Append p d) fs =
     (case fs p of None \<Rightarrow> fs | Some f \<Rightarrow> fs(p \<mapsto> f\<lparr>fs_data := fs_data f @ d, fs_synced := False\<rparr>))"
| "fs_step umask (Sync p) fs = (case fs p of None \<Rightarrow> fs | Some f \<Rightarrow> fs(p \<mapsto> f\<lparr>fs_synced := True\<rparr>))"
| "fs_step umask (Rename p q) fs = (case fs p of None \<Rightarrow> fs | Some f \<Rightarrow> (fs(p := None))(q \<mapsto> f))"
| "fs_step umask (Unlink p) fs = fs(p := None)"
| "fs_step umask (Sync_Dir p) fs = fs"

fun fs_run :: "mode \<Rightarrow> fs_op list \<Rightarrow> fs \<Rightarrow> fs" where
  "fs_run umask [] fs = fs"
| "fs_run umask (op # ops) fs = fs_run umask ops (fs_step umask op fs)"

lemma fs_run_append: "fs_run umask (xs @ ys) fs = fs_run umask ys (fs_run umask xs fs)"
  by (induction xs arbitrary: fs) simp_all

text \<open>The answers: which calls succeed, and how much each \<open>write\<close> takes.\<close>

datatype write_answer = Write_Intr | Write_Fail | Takes nat

record write_world =
  tmp_alloc :: bool
  open_tmp :: bool
  writes :: "write_answer list"
  sync_ok :: bool
  rename_ok :: bool
  dir_opens :: bool

text \<open>What the call did and what it returned; \<open>None\<close> is a call that has not returned.\<close>

type_synonym call = "fs_op list \<times> int option"

fun write_loop :: "string \<Rightarrow> bytes \<Rightarrow> write_answer list \<Rightarrow> fs_op list \<times> bool option" where
  "write_loop tmp rest as =
     (if rest = [] then ([], Some True)
      else case as of [] \<Rightarrow> ([], None)
      | Write_Intr # as \<Rightarrow> write_loop tmp rest as
      | Write_Fail # as \<Rightarrow> ([], Some False)
      | Takes k # as \<Rightarrow>
          (case write_loop tmp (drop k rest) as of (ops, r) \<Rightarrow> (Append tmp (take k rest) # ops, r)))"

declare write_loop.simps [simp del]

lemma write_loop_steps [simp]:
  "write_loop tmp [] as = ([], Some True)"
  "rest \<noteq> [] \<Longrightarrow> write_loop tmp rest [] = ([], None)"
  "rest \<noteq> [] \<Longrightarrow> write_loop tmp rest (Write_Intr # as) = write_loop tmp rest as"
  "rest \<noteq> [] \<Longrightarrow> write_loop tmp rest (Write_Fail # as) = ([], Some False)"
  "rest \<noteq> [] \<Longrightarrow> write_loop tmp rest (Takes k # as) =
     (case write_loop tmp (drop k rest) as of (ops, r) \<Rightarrow> (Append tmp (take k rest) # ops, r))"
  by (subst write_loop.simps, simp)+

definition tmp_path :: "string \<Rightarrow> string" where
  "tmp_path path = path @ ''.tmp''"

definition keep_mode :: "fs_file option \<Rightarrow> mode" where
  "keep_mode f = (case f of None \<Rightarrow> 420 | Some f \<Rightarrow> fs_mode f AND 4095)"

text \<open>The directory of the path, when it names one; a failed copy or \<open>open\<close> skips the call.\<close>

definition dir_sync :: "write_world \<Rightarrow> string \<Rightarrow> fs_op list" where
  "dir_sync w path =
     (if CHR ''/'' \<in> set path \<and> dir_opens w
      then [Sync_Dir (rev (tl (dropWhile (\<lambda>c. c \<noteq> CHR ''/'') (rev path))))] else [])"

definition rss_write_file_atomic :: "write_world \<Rightarrow> fs \<Rightarrow> string \<Rightarrow> bytes \<Rightarrow> call" where
  "rss_write_file_atomic w fs path data =
     (let tmp = tmp_path path in
      if \<not> tmp_alloc w then ([], Some (-1))
      else
        let mode = keep_mode (fs path)
        in if \<not> open_tmp w then ([], Some (-1))
           else case write_loop tmp data (writes w) of
             (ops, None) \<Rightarrow> (Create tmp mode # ops, None)
           | (ops, Some False) \<Rightarrow> (Create tmp mode # ops @ [Unlink tmp], Some (-1))
           | (ops, Some True) \<Rightarrow>
               if \<not> sync_ok w then (Create tmp mode # ops @ [Unlink tmp], Some (-1))
               else if \<not> rename_ok w then (Create tmp mode # ops @ [Sync tmp, Unlink tmp], Some (-1))
               else (Create tmp mode # ops @ [Sync tmp, Rename tmp path] @ dir_sync w path, Some 0))"

section \<open>A crash at any point\<close>

fun only_on :: "string \<Rightarrow> fs_op \<Rightarrow> bool" where
  "only_on p (Create q m) \<longleftrightarrow> q = p"
| "only_on p (Append q d) \<longleftrightarrow> q = p"
| "only_on p (Sync q) \<longleftrightarrow> q = p"
| "only_on p (Unlink q) \<longleftrightarrow> q = p"
| "only_on p (Rename q r) \<longleftrightarrow> False"
| "only_on p (Sync_Dir q) \<longleftrightarrow> True"

lemma only_on_step: "only_on p op \<Longrightarrow> q \<noteq> p \<Longrightarrow> fs_step umask op fs q = fs q"
  by (cases op) (auto split: option.splits)

lemma only_on_run: "list_all (only_on p) ops \<Longrightarrow> q \<noteq> p \<Longrightarrow> fs_run umask ops fs q = fs q"
proof (induction ops arbitrary: fs)
  case (Cons op ops)
  then show ?case using only_on_step [of p op q umask fs] by simp
qed simp

lemma write_loop_run:
  "write_loop tmp rest as = (ops, r) \<Longrightarrow> list_all (only_on tmp) ops
    \<and> (\<forall>fs f. r = Some True \<longrightarrow> fs tmp = Some f \<longrightarrow> \<not> fs_synced f \<longrightarrow>
        fs_run umask ops fs tmp = Some (f\<lparr>fs_data := fs_data f @ rest\<rparr>))"
proof (induction tmp rest as arbitrary: ops r rule: write_loop.induct)
  case (1 tmp rest as)
  show ?case
  proof (cases "rest = []")
    case True
    then show ?thesis using 1(3) by auto
  next
    case ne: False
    show ?thesis
    proof (cases as)
      case Nil
      then show ?thesis using 1(3) ne by auto
    next
      case (Cons a bs)
      show ?thesis
      proof (cases a)
        case Write_Intr
        then show ?thesis using 1(1) [of a bs ops r] 1(3) ne Cons by simp
      next
        case Write_Fail
        then show ?thesis using 1(3) ne Cons by auto
      next
        case (Takes k)
        obtain ops' where w: "write_loop tmp (drop k rest) bs = (ops', r)" "ops = Append tmp (take k rest) # ops'"
          using 1(3) ne Cons Takes by (auto split: prod.splits)
        note IH = 1(2) [OF ne Cons Takes w(1)]
        show ?thesis
        proof (intro conjI allI impI)
          show "list_all (only_on tmp) ops" using IH w(2) by simp
          fix fs :: fs and f assume r: "r = Some True" and f: "fs tmp = Some f" "\<not> fs_synced f"
          let ?f = "f\<lparr>fs_data := fs_data f @ take k rest, fs_synced := False\<rparr>"
          have "fs_run umask ops' (fs(tmp \<mapsto> ?f)) tmp = Some (?f\<lparr>fs_data := fs_data ?f @ drop k rest\<rparr>)"
            using IH r by simp
          moreover have "?f\<lparr>fs_data := fs_data ?f @ drop k rest\<rparr> = f\<lparr>fs_data := fs_data f @ rest\<rparr>"
            using f(2) by (cases f) simp
          ultimately show "fs_run umask ops fs tmp = Some (f\<lparr>fs_data := fs_data f @ rest\<rparr>)"
            using f(1) by (simp add: w(2))
        qed
      qed
    qed
  qed
qed

text \<open>What the medium may hold under the path: the old file, or the new one complete.\<close>

definition whole :: "fs_file option \<Rightarrow> bytes \<Rightarrow> fs_file option \<Rightarrow> bool" where
  "whole old data f \<longleftrightarrow> f = old \<or> map_option (\<lambda>g. (fs_data g, fs_synced g)) f = Some (data, True)"

lemma whole_prefixes:
  assumes "list_all (only_on tmp) ops" and "path \<noteq> tmp"
  shows "list_all (\<lambda>k. fs_run umask (take k ops) fs path = fs path) [0..<Suc (length ops)]"
proof -
  have "fs_run umask (take k ops) fs path = fs path" for k
    using assms by (intro only_on_run [of tmp]) (auto simp: list_all_iff dest: in_set_takeD)
  then show ?thesis by (simp add: list_all_iff)
qed

lemma upt_all: "list_all P [0..<n] \<longleftrightarrow> (\<forall>k < n. P k)"
  by (auto simp: list_all_iff)

lemma dir_sync_run: "fs_run umask (dir_sync w path) g = g" "fs_run umask (take k (dir_sync w path)) g = g"
  by (auto simp: dir_sync_def take_Cons split: nat.split)

lemma file_synced:
  assumes "write_loop tmp data ws = (ops, Some True)"
  shows "fs_run umask (Create tmp mode # ops @ [Sync tmp]) fs tmp
    = Some \<lparr>fs_data = data, fs_mode = (case fs tmp of None \<Rightarrow> mode AND NOT umask | Some f \<Rightarrow> fs_mode f), fs_synced = True\<rparr>"
proof -
  define m where "m = (case fs tmp of None \<Rightarrow> mode AND NOT umask | Some f \<Rightarrow> fs_mode f)"
  define fs1 where "fs1 = fs_step umask (Create tmp mode) fs"
  have "fs1 tmp = Some \<lparr>fs_data = [], fs_mode = m, fs_synced = False\<rparr>"
    by (cases "fs tmp") (simp_all add: fs1_def m_def fs_file.defs)
  then have "fs_run umask ops fs1 tmp = Some \<lparr>fs_data = data, fs_mode = m, fs_synced = False\<rparr>"
    using write_loop_run [OF assms, of umask] by simp
  then show ?thesis
    unfolding fs_run_append append_Cons fs_run.simps fs1_def [symmetric] m_def [symmetric] by simp
qed

text \<open>Calls that stay on the temporary file, a rename, and calls that change nothing: a crash anywhere leaves the old file or the new one.\<close>

lemma whole_around_rename:
  assumes "list_all (only_on tmp) xs" and "path \<noteq> tmp" and "fs_run umask xs fs tmp = Some (fs_file.make data m True)"
    and "\<And>k g. fs_run umask (take k ys) g = g"
  shows "whole (fs path) data (fs_run umask (take k (xs @ Rename tmp path # ys)) fs path)"
proof (cases "k \<le> length xs")
  case True
  then have "take k (xs @ Rename tmp path # ys) = take k xs" by simp
  moreover have "list_all (only_on tmp) (take k xs)" using assms(1) unfolding list_all_iff by (meson in_set_takeD)
  ultimately show ?thesis using only_on_run [of tmp "take k xs" path umask fs] assms(2) by (simp add: whole_def)
next
  case False
  then obtain j where k: "k = Suc (length xs + j)" by (metis add_Suc_right less_imp_Suc_add not_le)
  show ?thesis using assms(3,4) by (simp add: k fs_run_append whole_def fs_file.defs)
qed

text \<open>C2. Replacing a file is atomic: if the machine stops after any of the calls the function makes, the
  path holds the old file untouched, or the new bytes complete and on the medium; a call that returns 0
  has put the new file there and left no temporary one, with the mode of the old file less the mask, and
  a call that returns -1 has left the path as it was.\<close>

lemma write_file_atomic:
  "case rss_write_file_atomic w fs path data of (ops, r) \<Rightarrow>
     list_all (\<lambda>k. whole (fs path) data (fs_run umask (take k ops) fs path)) [0..<Suc (length ops)]
     \<and> (let fs' = fs_run umask ops fs in
        case r of None \<Rightarrow> fs' path = fs path
        | Some n \<Rightarrow>
            if n = 0 then fs' (tmp_path path) = None
              \<and> fs' path = Some \<lparr>fs_data = data,
                  fs_mode = (case fs (tmp_path path) of None \<Rightarrow> keep_mode (fs path) AND NOT umask | Some f \<Rightarrow> fs_mode f),
                  fs_synced = True\<rparr>
            else n = -1 \<and> fs' path = fs path)"
proof -
  let ?tmp = "tmp_path path"
  have ne: "path \<noteq> ?tmp" by (simp add: tmp_path_def)
  have quiet: ?thesis if "rss_write_file_atomic w fs path data = (ops, r)" "list_all (only_on ?tmp) ops" "r = None \<or> r = Some (-1)" for ops r
    using that only_on_run [OF that(2) ne, of umask fs] whole_prefixes [OF that(2) ne, of umask fs]
    by (auto simp: whole_def list_all_iff Let_def)
  obtain ops ok where wl: "write_loop ?tmp data (writes w) = (ops, ok)" by fastforce
  note run = write_loop_run [OF wl, of umask]
  let ?start = "Create ?tmp (keep_mode (fs path)) # ops"
  have on: "list_all (only_on ?tmp) ?start" using run by simp
  show ?thesis
  proof (cases "tmp_alloc w \<and> open_tmp w \<and> ok = Some True \<and> sync_ok w \<and> rename_ok w")
    case False
    then show ?thesis
      using quiet on wl unfolding rss_write_file_atomic_def Let_def
      by (cases ok) (auto split: bool.splits if_splits)
  next
    case True
    let ?xs = "Create ?tmp (keep_mode (fs path)) # ops @ [Sync ?tmp]"
    have e: "rss_write_file_atomic w fs path data = (?xs @ Rename ?tmp path # dir_sync w path, Some 0)"
      using True wl by (simp add: rss_write_file_atomic_def Let_def)
    have wl': "write_loop ?tmp data (writes w) = (ops, Some True)" using wl True by simp
    note synced = file_synced [OF wl', of umask "keep_mode (fs path)" fs]
    have "list_all (only_on ?tmp) ?xs" using on by simp
    note crash = whole_around_rename [OF this ne synced [folded fs_file.defs] dir_sync_run(2) [of umask _ w path]]
    show ?thesis unfolding e prod.case upt_all Let_def option.case
      using crash synced ne by (simp add: fs_run_append dir_sync_run(1))
  qed
qed

section \<open>Making a directory path\<close>

text \<open>
  \<open>mk\<close> answers each \<open>mkdir\<close> by its path.  The loop cuts the path at every slash behind its first
  character; \<open>Inl\<close> the paths tried when the call gives up, \<open>Inr\<close> when it goes on.
\<close>

datatype mkdir_answer = Made | Exists | Mk_Fail

fun mkdir_loop :: "(string \<Rightarrow> mkdir_answer) \<Rightarrow> string \<Rightarrow> nat \<Rightarrow> nat \<Rightarrow> string list \<Rightarrow> string list + string list" where
  "mkdir_loop mk tmp p 0 tried = Inr tried"
| "mkdir_loop mk tmp p (Suc n) tried =
     (if tmp ! p = CHR ''/'' then
        if mk (take p tmp) = Mk_Fail then Inl (tried @ [take p tmp])
        else mkdir_loop mk tmp (Suc p) n (tried @ [take p tmp])
      else mkdir_loop mk tmp (Suc p) n tried)"

definition rss_mkdir_p :: "bool \<Rightarrow> (string \<Rightarrow> mkdir_answer) \<Rightarrow> string option \<Rightarrow> string list \<times> int" where
  "rss_mkdir_p alloc mk path =
     (case path of None \<Rightarrow> ([], -1)
      | Some path \<Rightarrow>
        if path = [] \<or> \<not> alloc then ([], -1)
        else case mkdir_loop mk path 1 (length path - 1) [] of
          Inl tried \<Rightarrow> (tried, -1)
        | Inr tried \<Rightarrow> (tried @ [path], if mk path = Mk_Fail then -1 else 0))"

text \<open>The directories on the way to a path, the path itself last.\<close>

definition ancestors :: "string \<Rightarrow> string list" where
  "ancestors path = map (\<lambda>i. take i path) (filter (\<lambda>i. path ! i = CHR ''/'') [1..<length path]) @ [path]"

text \<open>A prefix of calls up to the first that fails, that one included.\<close>

fun until_fail :: "('a \<Rightarrow> bool) \<Rightarrow> 'a list \<Rightarrow> 'a list" where
  "until_fail P [] = []"
| "until_fail P (x # xs) = (if P x then [x] else x # until_fail P xs)"

lemma until_fail_append: "until_fail P (xs @ ys) = (if list_ex P xs then until_fail P xs else xs @ until_fail P ys)"
  by (induction xs) auto

lemma mkdir_loop_tried:
  "mkdir_loop mk tmp p n tried =
     (let ps = map (\<lambda>i. take i tmp) (filter (\<lambda>i. tmp ! i = CHR ''/'') [p..<p + n]); bad = (\<lambda>q. mk q = Mk_Fail)
      in if list_ex bad ps then Inl (tried @ until_fail bad ps) else Inr (tried @ ps))"
proof (induction n arbitrary: p tried)
  case (Suc n)
  have "[p..<p + Suc n] = p # [Suc p..<Suc p + n]" by (simp add: upt_conv_Cons)
  then show ?case by (simp add: Suc.IH Let_def)
qed simp

text \<open>A directory path is made from the top down: the directories tried are the ancestors of the path in
  order, the path last, up to the first that can neither be made nor is there already, and the call
  succeeds exactly when there is none such.\<close>

lemma mkdir_ancestors:
  "case rss_mkdir_p True mk (Some (c # cs)) of (tried, r) \<Rightarrow>
     tried = until_fail (\<lambda>p. mk p = Mk_Fail) (ancestors (c # cs))
     \<and> r = (if list_ex (\<lambda>p. mk p = Mk_Fail) (ancestors (c # cs)) then -1 else 0)"
  by (auto simp: rss_mkdir_p_def mkdir_loop_tried ancestors_def until_fail_append Let_def)

end
