(* ===== verification/Rss_Calendar.thy ===== *)
theory Rss_Calendar imports Rss_Num begin

text \<open>
  The calendar functions of \<open>time.h\<close> that \<open>src/rss_jpeg.c\<close> calls, as POSIX defines them in UTC: \<open>gmtime\<close> by
  counting years and months from 1970, \<open>timegm\<close> by the closed form, and that the one inverts the other.
\<close>

section \<open>The calendar\<close>

record tm =
  tm_year :: int
  tm_mon :: int
  tm_mday :: int
  tm_hour :: int
  tm_min :: int
  tm_sec :: int

definition leap :: "int \<Rightarrow> bool" where
  "leap y \<longleftrightarrow> y mod 4 = 0 \<and> y mod 100 \<noteq> 0 \<or> y mod 400 = 0"

definition year_len :: "int \<Rightarrow> int" where
  "year_len y = (if leap y then 366 else 365)"

definition month_lens :: "int \<Rightarrow> int list" where
  "month_lens y = [31, if leap y then 29 else 28, 31, 30, 31, 30, 31, 31, 30, 31, 30, 31]"

text \<open>The year and the day of the year, counted from 1970; then the month and the day of the month.\<close>

function split_year :: "int \<Rightarrow> int \<Rightarrow> int \<times> int" where
  "split_year y d = (if d < year_len y \<or> d < 0 then (y, d) else split_year (y + 1) (d - year_len y))"
  by pat_completeness auto
termination by (relation "measure (\<lambda>(y, d). nat d)") (auto simp: year_len_def split: if_splits)

declare split_year.simps [simp del]

fun split_month :: "int list \<Rightarrow> int \<Rightarrow> int \<Rightarrow> int \<times> int" where
  "split_month [] m d = (m, d)"
| "split_month (l # ls) m d = (if d < l then (m, d) else split_month ls (m + 1) (d - l))"

definition gmtime :: "int \<Rightarrow> tm" where
  "gmtime sec =
     (case split_year 1970 (sec div 86400) of (y, d) \<Rightarrow>
        case split_month (month_lens y) 0 d of (m, d) \<Rightarrow>
          \<lparr>tm_year = y - 1900, tm_mon = m, tm_mday = d + 1,
           tm_hour = sec mod 86400 div 3600, tm_min = sec mod 3600 div 60, tm_sec = sec mod 60\<rparr>)"

text \<open>Days from 1970 to the first of a year; \<open>timegm\<close> accepts fields out of range and carries them.\<close>

definition days_to_year :: "int \<Rightarrow> int" where
  "days_to_year y = 365 * (y - 1970) + ((y - 1) div 4 - (y - 1) div 100 + (y - 1) div 400) - 477"

definition timegm :: "tm \<Rightarrow> int" where
  "timegm t =
     (let y = tm_year t + 1900 + tm_mon t div 12; m = tm_mon t mod 12;
          days = days_to_year y + sum_list (take (nat m) (month_lens y)) + tm_mday t - 1
      in ((days * 24 + tm_hour t) * 60 + tm_min t) * 60 + tm_sec t)"

lemma year_sum:
  fixes p :: int
  shows "D = 365 * (y + 1 - 1970) + (p - q + r) - 477 \<Longrightarrow> p = p' + a \<Longrightarrow> q = q' + b \<Longrightarrow> r = r' + c \<Longrightarrow>
    L = 365 + a - b + c \<Longrightarrow> D = 365 * (y - 1970) + (p' - q' + r') - 477 + L"
  by simp

lemma day_time:
  fixes s :: int
  shows "86400 * d + r = s \<Longrightarrow> 3600 * h + u = r \<Longrightarrow> 60 * m + x = u \<Longrightarrow> ((d * 24 + h) * 60 + m) * 60 + x = s"
  by simp

lemma leap_days:
  "(b \<Longrightarrow> a) \<Longrightarrow> (c \<Longrightarrow> b) \<Longrightarrow>
    (if a \<and> \<not> b \<or> c then 366 else 365 :: int) = 365 + (if a then 1 else 0) - (if b then 1 else 0) + (if c then 1 else 0)"
  by auto

lemma days_to_year_step: "days_to_year (y + 1) = days_to_year y + year_len y"
proof -
  have d: "y div k = (y - 1) div k + (if y mod k = 0 then 1 else 0)" if "0 < k" for k :: int
  proof (cases "y mod k = 0")
    case True
    then obtain q where q: "y = k * q" by auto
    have "(k * q - 1) div k = q - 1"
      using that by (intro int_div_pos_eq [of _ _ _ "k - 1"]) (auto simp: algebra_simps)
    then show ?thesis using that q by simp
  next
    case False
    then have "1 \<le> y mod k" using that pos_mod_sign [of k y] by linarith
    then have "(y - 1) div k = y div k"
      using that pos_mod_bound [of k y] mult_div_mod_eq [of k y]
      by (intro int_div_pos_eq [of _ _ _ "y mod k - 1"]) linarith+
    then show ?thesis using False by simp
  qed
  have m: "y mod 100 = 0 \<Longrightarrow> y mod 4 = 0" "y mod 400 = 0 \<Longrightarrow> y mod 100 = 0" by presburger+
  define a where "a k = (if y mod k = 0 then 1 else 0 :: int)" for k
  have "days_to_year (y + 1) = 365 * (y + 1 - 1970) + (y div 4 - y div 100 + y div 400) - 477"
    by (simp add: days_to_year_def)
  moreover have "y div 4 = (y - 1) div 4 + a 4" "y div 100 = (y - 1) div 100 + a 100" "y div 400 = (y - 1) div 400 + a 400"
    unfolding a_def by (rule d, simp)+
  moreover have "year_len y = 365 + a 4 - a 100 + a 400"
    unfolding year_len_def leap_def a_def by (rule leap_days [OF m])
  ultimately show ?thesis unfolding days_to_year_def [of y] by (rule year_sum)
qed

lemma split_year:
  "0 \<le> d \<Longrightarrow> split_year y d = (y', d') \<Longrightarrow> 0 \<le> d' \<and> d' < year_len y' \<and> y \<le> y' \<and> days_to_year y' + d' = days_to_year y + d"
proof (induction y d rule: split_year.induct)
  case (1 y d)
  show ?case
  proof (cases "d < year_len y")
    case True
    then show ?thesis using 1(2,3) by (simp add: split_year.simps [of y])
  next
    case False
    then have "split_year (y + 1) (d - year_len y) = (y', d')" using 1(2,3) by (simp add: split_year.simps [of y d])
    then show ?thesis using 1(1) 1(2) False days_to_year_step [of y] by simp
  qed
qed

lemma split_month:
  "0 \<le> d \<Longrightarrow> d < sum_list ls \<Longrightarrow> split_month ls m d = (m', d') \<Longrightarrow>
    0 \<le> d' \<and> m \<le> m' \<and> m' < m + int (length ls) \<and> d' < ls ! nat (m' - m) \<and> sum_list (take (nat (m' - m)) ls) + d' = d"
proof (induction ls arbitrary: m d)
  case (Cons l ls)
  show ?case
  proof (cases "d < l")
    case False
    then have "0 \<le> d' \<and> m + 1 \<le> m' \<and> m' < m + 1 + int (length ls) \<and> d' < ls ! nat (m' - (m + 1))
        \<and> sum_list (take (nat (m' - (m + 1))) ls) + d' = d - l"
      using Cons.prems by (intro Cons.IH) simp_all
    moreover have "nat (m' - m) = Suc (nat (m' - (m + 1)))" if "m + 1 \<le> m'" using that by linarith
    ultimately show ?thesis by simp
  qed (use Cons.prems in auto)
qed simp

lemma sum_month_lens: "sum_list (month_lens y) = year_len y"
  by (simp add: month_lens_def year_len_def)

lemma month_len_le: "0 \<le> m \<Longrightarrow> m < 12 \<Longrightarrow> month_lens y ! nat m \<le> 31"
proof -
  assume "0 \<le> m" "m < 12"
  then have "m = 0 \<or> m = 1 \<or> m = 2 \<or> m = 3 \<or> m = 4 \<or> m = 5 \<or> m = 6 \<or> m = 7 \<or> m = 8 \<or> m = 9 \<or> m = 10 \<or> m = 11" by presburger
  then show ?thesis by (elim disjE) (simp_all add: month_lens_def)
qed

lemma gmtime_cases:
  assumes "0 \<le> sec"
  obtains "timegm (gmtime sec) = sec" "0 \<le> tm_mon (gmtime sec)" "tm_mon (gmtime sec) < 12"
    "1 \<le> tm_mday (gmtime sec)" "tm_mday (gmtime sec) \<le> 31" "0 \<le> tm_hour (gmtime sec)" "tm_hour (gmtime sec) < 24"
    "0 \<le> tm_min (gmtime sec)" "tm_min (gmtime sec) < 60" "0 \<le> tm_sec (gmtime sec)" "tm_sec (gmtime sec) < 60"
    "70 \<le> tm_year (gmtime sec)"
    "days_to_year (tm_year (gmtime sec) + 1900) \<le> sec div 86400"
proof -
  obtain y d where y: "split_year 1970 (sec div 86400) = (y, d)" by fastforce
  obtain m e where m: "split_month (month_lens y) 0 d = (m, e)" by fastforce
  have yd: "0 \<le> d" "d < year_len y" "1970 \<le> y" "days_to_year y + d = sec div 86400"
    using split_year [OF _ y] assms by (auto simp: days_to_year_def)
  have me: "0 \<le> e" "0 \<le> m" "m < 12" "e < month_lens y ! nat m" "sum_list (take (nat m) (month_lens y)) + e = d"
  proof -
    have "d < sum_list (month_lens y)" using yd(2) by (simp add: sum_month_lens)
    note sm = split_month [OF yd(1) this m]
    have "length (month_lens y) = 12" by (simp add: month_lens_def)
    then show "0 \<le> e" "0 \<le> m" "m < 12" "e < month_lens y ! nat m" "sum_list (take (nat m) (month_lens y)) + e = d"
      using sm by simp_all
  qed
  have g: "gmtime sec = \<lparr>tm_year = y - 1900, tm_mon = m, tm_mday = e + 1,
      tm_hour = sec mod 86400 div 3600, tm_min = sec mod 3600 div 60, tm_sec = sec mod 60\<rparr>"
    by (simp add: gmtime_def y m)
  have t: "(((sec div 86400) * 24 + sec mod 86400 div 3600) * 60 + sec mod 3600 div 60) * 60 + sec mod 60 = sec"
  proof -
    have "sec mod 86400 mod 3600 = sec mod 3600" "sec mod 3600 mod 60 = sec mod 60" by (simp_all add: mod_mod_cancel)
    then show ?thesis
      using day_time [OF mult_div_mod_eq [of 86400 sec], of "sec mod 86400 div 3600" "sec mod 3600" "sec mod 3600 div 60" "sec mod 60"]
        mult_div_mod_eq [of 3600 "sec mod 86400"] mult_div_mod_eq [of 60 "sec mod 3600"] by metis
  qed
  have days: "days_to_year y + sum_list (take (nat m) (month_lens y)) + e = sec div 86400"
    using me(5) yd(4) by simp
  have "timegm (gmtime sec) = (((days_to_year y + sum_list (take (nat m) (month_lens y)) + e) * 24
      + sec mod 86400 div 3600) * 60 + sec mod 3600 div 60) * 60 + sec mod 60"
    using me(2,3) by (simp add: g timegm_def Let_def)
  then have tg: "timegm (gmtime sec) = sec" unfolding days t .
  have e0: "1 \<le> e + 1" using me(1) by simp
  have yd70: "70 \<le> y - 1900" using yd(3) by simp
  have e1: "e + 1 \<le> 31" using month_len_le [OF me(2,3), of y] me(4) by linarith
  have dy: "days_to_year (y - 1900 + 1900) \<le> sec div 86400" using yd(1,4) by (simp only: diff_add_cancel)
  have hms: "0 \<le> sec mod 86400 div 3600" "sec mod 86400 div 3600 < 24" "0 \<le> sec mod 3600 div 60" "sec mod 3600 div 60 < 60"
    "0 \<le> sec mod 60" "sec mod 60 < 60"
    by (simp_all add: pos_imp_zdiv_nonneg_iff div_less_iff_less_mult)
  show thesis
  proof (rule that)
    show "timegm (gmtime sec) = sec" by (rule tg)
  qed (simp_all only: g tm.simps hms dy me(2,3) e0 e1 yd70)
qed

lemma days_to_year_mono: "a \<le> b \<Longrightarrow> days_to_year a \<le> days_to_year b"
proof (induction b rule: int_ge_induct)
  case (step b)
  then show ?case using days_to_year_step [of b] by (simp add: year_len_def split: if_splits)
qed simp

text \<open>Up to the end of the year 9999.\<close>

lemma gmtime_year_lt:
  assumes "0 \<le> sec" and "sec < 253402300800"
  shows "tm_year (gmtime sec) < 8100"
proof (rule ccontr)
  assume "\<not> tm_year (gmtime sec) < 8100"
  then have "days_to_year 10000 \<le> days_to_year (tm_year (gmtime sec) + 1900)" by (intro days_to_year_mono) simp
  moreover have "days_to_year 10000 = 2932897" by (simp add: days_to_year_def)
  moreover have "sec div 86400 < 2932897"
    using assms(2) by (simp add: div_less_iff_less_mult)
  ultimately show False using gmtime_cases [OF assms(1)] by (metis linorder_not_less order_trans)
qed

lemma gmtime_fields:
  assumes "0 \<le> sec"
  shows "70 \<le> tm_year (gmtime sec)" "0 \<le> tm_mon (gmtime sec)" "tm_mon (gmtime sec) < 12" "1 \<le> tm_mday (gmtime sec)"
    "tm_mday (gmtime sec) \<le> 31" "0 \<le> tm_hour (gmtime sec)" "tm_hour (gmtime sec) < 24" "0 \<le> tm_min (gmtime sec)"
    "tm_min (gmtime sec) < 60" "0 \<le> tm_sec (gmtime sec)" "tm_sec (gmtime sec) < 60" "timegm (gmtime sec) = sec"
  by ((rule gmtime_cases [OF assms], assumption)+)

end
