(* ===== verification/Rss_Sign.thy ===== *)
theory Rss_Sign imports Rss_Util begin

text \<open>
  The device signing key of \<open>src/rss_sign.c\<close>: a 32-byte seed read from the key file, or made once and
  stored with an exclusive create.  Each round of the loop is written over the answers of the operating
  system to the calls it makes; the calls that change the file system are recorded.  Ed25519 and SHA-512 are
  parameters.
\<close>

record rss_sign_key_t =
  secret :: bytes
  public :: bytes
  fingerprint :: bytes

text \<open>\<open>read_urandom\<close>: each read delivers the bytes of one entry; none, or an error, ends the loop.\<close>

fun urandom_loop :: "bytes \<Rightarrow> nat \<Rightarrow> bytes list \<Rightarrow> bytes option" where
  "urandom_loop buf len chunks =
     (if length buf \<ge> len then Some (take len buf)
      else case chunks of [] \<Rightarrow> None
      | c # cs \<Rightarrow> if c = [] then None else urandom_loop (buf @ c) len cs)"

declare urandom_loop.simps [simp del]

definition read_urandom :: "bytes list option \<Rightarrow> nat \<Rightarrow> bytes option" where
  "read_urandom dev len = (case dev of None \<Rightarrow> None | Some chunks \<Rightarrow> urandom_loop [] len chunks)"

datatype create_answer = Created | Already_There | Refused

record key_round =
  key_open :: "bytes option"
  urandom :: "bytes list option"
  key_create :: create_answer
  key_wrote :: nat
  key_fsync :: bool

datatype key_call = Sleep | Mkdir string | Excl_Create string | Write_Seed string bytes | Sync_Key string | Unlink_Key string
  | Export string bytes

text \<open>The directory made for the key: the path up to its last slash, unless that is its first character.\<close>

definition mkdir_parent :: "string \<Rightarrow> key_call list" where
  "mkdir_parent path =
     (let dir = take 255 path; back = dropWhile (\<lambda>c. c \<noteq> CHR ''/'') (rev dir)
      in if back \<noteq> [] \<and> length back \<noteq> 1 then [Mkdir (rev (tl back))] else [])"

text \<open>
  The loop over the attempts: the calls, and the seed, or \<open>None\<close> when the function gives up; the whole is
  \<open>None\<close> when the rounds run out before the function returns.
\<close>

fun key_loop :: "string \<Rightarrow> nat \<Rightarrow> key_round list \<Rightarrow> (key_call list \<times> bytes option) option" where
  "key_loop path attempt [] = None"
| "key_loop path attempt (w # ws) =
     (case key_open w of
        Some got \<Rightarrow>
          if length got = 32 then Some ([], Some got)
          else if attempt < 3 then map_option (apfst ((#) Sleep)) (key_loop path (attempt + 1) ws)
          else Some ([], None)
      | None \<Rightarrow>
          (case read_urandom (urandom w) 32 of None \<Rightarrow> Some ([], None)
           | Some seed \<Rightarrow>
               (case key_create w of
                  Already_There \<Rightarrow>
                    if attempt < 3 then map_option (apfst ((@) (mkdir_parent path))) (key_loop path (attempt + 1) ws)
                    else Some (mkdir_parent path, None)
                | Refused \<Rightarrow> Some (mkdir_parent path, None)
                | Created \<Rightarrow>
                    let made = mkdir_parent path @ [Excl_Create path, Write_Seed path (take (key_wrote w) seed)]
                    in if key_wrote w = 32 \<and> key_fsync w then Some (made @ [Sync_Key path], Some seed)
                       else Some (made @ [Unlink_Key path], None))))"

definition hex_digit :: "u8 \<Rightarrow> char" where
  "hex_digit d = (if d < 10 then char_of (48 + unat d) else char_of (87 + unat d))"

definition hex_of :: "bytes \<Rightarrow> string" where
  "hex_of bs = concat (map (\<lambda>b. [hex_digit (drop_bit 4 b), hex_digit (b AND 0x0f)]) bs)"

definition rss_sign_key_load ::
  "(bytes \<Rightarrow> bytes \<times> bytes) \<Rightarrow> (bytes \<Rightarrow> bytes) \<Rightarrow> string \<Rightarrow> key_round list \<Rightarrow> (key_call list \<times> rss_sign_key_t option) option" where
  "rss_sign_key_load key_pair sha512 key_path ws =
     (case key_loop key_path 0 ws of None \<Rightarrow> None
      | Some (calls, None) \<Rightarrow> Some (calls, None)
      | Some (calls, Some seed) \<Rightarrow>
          let kp = key_pair seed;
              key = \<lparr>secret = fst kp, public = snd kp, fingerprint = take 8 (sha512 (snd kp))\<rparr>;
              pub_path = take 255 (key_path @ ''.pub'')
          in Some (calls @ [Export pub_path (map uchar (hex_of (take 32 (snd kp))))], Some key))"

section \<open>A key only from a whole seed\<close>

text \<open>The seed of a successful load, by where it came from.\<close>

fun seed_of :: "string \<Rightarrow> key_round \<Rightarrow> key_call list \<Rightarrow> bytes \<Rightarrow> bool" where
  "seed_of path w calls seed \<longleftrightarrow>
     length seed = 32
     \<and> (if key_open w = Some seed then Excl_Create path \<notin> set calls
        else key_create w = Created \<and> suffix [Excl_Create path, Write_Seed path seed, Sync_Key path] calls)"

lemma length_urandom: "urandom_loop buf len cs = Some r \<Longrightarrow> length r = len"
proof (induction buf len cs rule: urandom_loop.induct)
  case (1 buf len cs)
  show ?case
  proof (cases "length buf \<ge> len")
    case True
    then show ?thesis using 1(2) by (auto simp: urandom_loop.simps [of buf])
  next
    case False
    then obtain c ds where "cs = c # ds" "c \<noteq> []" "urandom_loop (buf @ c) len ds = Some r"
      using 1(2) by (auto simp: urandom_loop.simps [of buf len cs] split: list.splits if_splits)
    then show ?thesis using 1(1) False by blast
  qed
qed

lemma mkdir_parent_calls: "x \<in> set (mkdir_parent path) \<Longrightarrow> \<exists>d. x = Mkdir d"
  by (auto simp: mkdir_parent_def Let_def split: if_splits)

text \<open>A failed load leaves no key file of its own making behind.\<close>

definition nothing_left :: "string \<Rightarrow> key_call list \<Rightarrow> bool" where
  "nothing_left path calls \<longleftrightarrow> Excl_Create path \<notin> set calls \<or> last calls = Unlink_Key path"

lemma not_created [simp]: "Excl_Create path \<notin> set (mkdir_parent q)"
  using mkdir_parent_calls by fastforce

lemma key_loop_result:
  "key_loop path a ws = Some (calls, r) \<Longrightarrow>
    (case r of None \<Rightarrow> nothing_left path calls | Some seed \<Rightarrow> list_ex (\<lambda>w. seed_of path w calls seed) ws)"
proof (induction path a ws arbitrary: calls r rule: key_loop.induct)
  case (2 path a w ws)
  show ?case
  proof (cases "key_open w")
    case (Some got)
    show ?thesis
    proof (cases "length got = 32 \<or> \<not> a < 3")
      case True
      then have "calls = [] \<and> r = (if length got = 32 then Some got else None)" using 2(3) Some by auto
      then show ?thesis using Some by (simp add: nothing_left_def)
    next
      case False
      then obtain cs where c: "calls = Sleep # cs" "key_loop path (a + 1) ws = Some (cs, r)"
        using 2(3) Some by (auto simp: apfst_def map_prod_def)
      have "case r of None \<Rightarrow> nothing_left path cs | Some seed \<Rightarrow> list_ex (\<lambda>w. seed_of path w cs seed) ws"
        using False c(2) by (intro 2(2) [OF Some]) auto
      then show ?thesis unfolding c(1)
        by (auto simp: nothing_left_def list_ex_iff suffix_Cons split: option.splits if_splits)
    qed
  next
    case None
    show ?thesis
    proof (cases "read_urandom (urandom w) 32")
      case u: None
      then show ?thesis using 2(3) None by (auto simp: nothing_left_def)
    next
      case (Some seed)
      have len: "length seed = 32" using Some by (auto simp: read_urandom_def dest: length_urandom split: option.splits)
      show ?thesis
      proof (cases "key_create w")
        case Created
        let ?made = "mkdir_parent path @ [Excl_Create path, Write_Seed path (take (key_wrote w) seed)]"
        show ?thesis
        proof (cases "key_wrote w = 32 \<and> key_fsync w")
          case True
          then have "calls = ?made @ [Sync_Key path] \<and> r = Some seed" using 2(3) None Some Created by simp
          then show ?thesis using True None Created len by (auto simp: suffix_def)
        next
          case False
          then have "calls = ?made @ [Unlink_Key path] \<and> r = None" using 2(3) None Some Created by (auto simp: Let_def)
          then show ?thesis by (simp add: nothing_left_def)
        qed
      next
        case Already_There
        show ?thesis
        proof (cases "a < 3")
          case True
          then obtain cs where c: "calls = mkdir_parent path @ cs" "key_loop path (a + 1) ws = Some (cs, r)"
            using 2(3) None Some Already_There by (auto simp: apfst_def map_prod_def)
          have "case r of None \<Rightarrow> nothing_left path cs | Some seed \<Rightarrow> list_ex (\<lambda>w. seed_of path w cs seed) ws"
            using True c(2) by (intro 2(1) [OF None Some Already_There]) auto
          then show ?thesis unfolding c(1)
            by (auto simp: nothing_left_def list_ex_iff suffix_append last_append split: option.splits if_splits)
        qed (use 2(3) None Some Already_There in \<open>auto simp: nothing_left_def\<close>)
      next
        case Refused
        then show ?thesis using 2(3) None Some by (auto simp: nothing_left_def)
      qed
    qed
  qed
qed simp

lemma key_loop_returns: "a < 4 \<Longrightarrow> 4 \<le> a + length ws \<Longrightarrow> key_loop path a ws \<noteq> None"
proof (induction path a ws rule: key_loop.induct)
  case (2 path a w ws)
  then show ?case by (auto simp: Let_def split: option.splits create_answer.splits)
qed simp

text \<open>C29. Loading the key comes to an end: whatever the operating system answers, the fourth round at the
  latest returns.\<close>

lemma sign_key_load_returns:
  assumes "4 \<le> length ws"
  shows "rss_sign_key_load key_pair sha512 key_path ws \<noteq> None"
  using key_loop_returns [of 0 ws key_path] assms
  by (auto simp: rss_sign_key_load_def Let_def split: option.splits)

lemma sign_key_load_returns_witness:
  "rss_sign_key_load (\<lambda>s. (s @ s, s)) id ''/etc/key'' (replicate 4 \<lparr>key_open = Some [], urandom = None, key_create = Refused, key_wrote = 0, key_fsync = False\<rparr>) \<noteq> None"
  by (rule sign_key_load_returns) simp

text \<open>C13. There is no key without a whole seed: a load that succeeds has derived the key from 32 bytes
  read from the key file in one piece or from 32 bytes it has itself created the file for exclusively,
  written whole and synced; a load that fails has removed the file if it had created it.\<close>

lemma sign_key_whole_seed:
  "case rss_sign_key_load key_pair sha512 key_path ws of None \<Rightarrow> True
   | Some (calls, None) \<Rightarrow> nothing_left key_path calls
   | Some (calls, Some key) \<Rightarrow>
       (\<exists>seed. list_ex (\<lambda>w. seed_of key_path w (butlast calls) seed) ws
          \<and> key = \<lparr>secret = fst (key_pair seed), public = snd (key_pair seed), fingerprint = take 8 (sha512 (snd (key_pair seed)))\<rparr>)"
proof (cases "key_loop key_path 0 ws")
  case (Some cr)
  obtain calls r where cr: "cr = (calls, r)" by (cases cr)
  show ?thesis
  proof (cases r)
    case None
    then show ?thesis using key_loop_result [OF Some [unfolded cr]] Some cr by (simp add: rss_sign_key_load_def)
  next
    case (Some seed)
    then have "list_ex (\<lambda>w. seed_of key_path w calls seed) ws"
      using key_loop_result [OF \<open>key_loop key_path 0 ws = Some cr\<close> [unfolded cr]] by simp
    then show ?thesis using Some \<open>key_loop key_path 0 ws = Some cr\<close> cr
      by (auto simp: rss_sign_key_load_def Let_def simp del: seed_of.simps intro!: exI [of _ seed])
  qed
qed (simp add: rss_sign_key_load_def)

end
