(* ===== verification/Rss_Jpeg.thy ===== *)
theory Rss_Jpeg imports Rss_Calendar Rss_Sign begin

text \<open>
  JPEG capture time and snapshot signature, \<open>src/rss_jpeg.c\<close>: the EXIF segment written behind the start
  marker and the walk that finds it again; the signature segment before the end marker and its
  verification.  The conversions of \<open>strftime\<close>, \<open>snprintf\<close> and \<open>sscanf\<close> the code uses are modelled as
  the C standard describes them.
\<close>

section \<open>Formatted text\<close>

text \<open>A decimal with leading zeros, \<open>%02d\<close> and \<open>%06u\<close>, of a number that is not negative.\<close>

definition pad :: "nat \<Rightarrow> nat \<Rightarrow> string" where
  "pad w n = replicate (w - length (dec n)) CHR ''0'' @ dec n"

text \<open>\<open>strftime\<close> with the format of EXIF, into 21 characters; \<open>None\<close> when they do not hold the text.\<close>

definition exif_text :: "tm \<Rightarrow> string" where
  "exif_text t = show_int (tm_year t + 1900) @ '':'' @ pad 2 (nat (tm_mon t + 1)) @ '':'' @ pad 2 (nat (tm_mday t)) @ '' ''
     @ pad 2 (nat (tm_hour t)) @ '':'' @ pad 2 (nat (tm_min t)) @ '':'' @ pad 2 (nat (tm_sec t))"

definition strftime_exif :: "tm \<Rightarrow> string option" where
  "strftime_exif t = (if length (exif_text t) + 1 \<le> 21 then Some (exif_text t) else None)"

text \<open>\<open>sscanf\<close> with conversions of a given width, literal characters and blanks.\<close>

datatype scan_item = Int_Width nat | Lit char | Blank

fun scanf :: "scan_item list \<Rightarrow> string \<Rightarrow> int list" where
  "scanf [] s = []"
| "scanf (Int_Width w # f) s = (case scan_int w s of None \<Rightarrow> [] | Some (v, r) \<Rightarrow> v # scanf f r)"
| "scanf (Lit c # f) s = (case s of [] \<Rightarrow> [] | x # r \<Rightarrow> if x = c then scanf f r else [])"
| "scanf (Blank # f) s = scanf f (dropWhile isspace s)"

definition exif_format :: "scan_item list" where
  "exif_format = [Int_Width 4, Lit CHR '':'', Int_Width 2, Lit CHR '':'', Int_Width 2, Blank,
     Int_Width 2, Lit CHR '':'', Int_Width 2, Lit CHR '':'', Int_Width 2]"

section \<open>The EXIF segment\<close>

abbreviation (input) EXIF_PAYLOAD :: nat where "EXIF_PAYLOAD \<equiv> 108"
abbreviation (input) EXIF_SEGMENT :: nat where "EXIF_SEGMENT \<equiv> 112"

definition put16le :: "u16 \<Rightarrow> bytes" where
  "put16le v = [ucast (v AND 0xff), ucast (drop_bit 8 v)]"

definition put32le :: "u32 \<Rightarrow> bytes" where
  "put32le v = [ucast (v AND 0xff), ucast (drop_bit 8 v AND 0xff), ucast (drop_bit 16 v AND 0xff), ucast (drop_bit 24 v AND 0xff)]"

definition tiff_entry :: "u16 \<Rightarrow> u16 \<Rightarrow> u32 \<Rightarrow> u32 \<Rightarrow> bytes" where
  "tiff_entry tag typ count value = put16le tag @ put16le typ @ put32le count @ put32le value"

abbreviation (input) chars :: "string \<Rightarrow> bytes" where "chars s \<equiv> map uchar s"

text \<open>The 102 bytes of the TIFF block: header, the one entry of IFD0, the three of the Exif IFD, the values.\<close>

definition exif_tiff :: "bytes \<Rightarrow> bytes \<Rightarrow> bytes" where
  "exif_tiff dt sub =
     (let val = 26 + 2 + 3 * 12 + 4 in
      chars ''II'' @ put16le 0x002a @ put32le 8
      @ put16le 1 @ tiff_entry 0x8769 4 1 (8 + 2 + 12 + 4) @ put32le 0
      @ put16le 3 @ tiff_entry 0x9003 2 20 val @ tiff_entry 0x9011 2 7 (val + 20) @ tiff_entry 0x9291 2 7 (val + 27) @ put32le 0
      @ take 20 dt @ chars ''+00:00'' @ [0] @ take 7 sub)"

definition exif_app1 :: "bytes \<Rightarrow> bytes \<Rightarrow> bytes" where
  "exif_app1 dt sub =
     [0xff, 0xe1, of_nat ((EXIF_PAYLOAD + 2) div 256), of_nat ((EXIF_PAYLOAD + 2) mod 256)]
     @ chars ''Exif'' @ [0, 0] @ exif_tiff dt sub"

text \<open>
  \<open>junk\<close> is what the uninitialised array \<open>dt\<close> holds: \<open>strftime\<close> leaves it unspecified when the text
  does not fit.  The seconds go through a \<open>time_t\<close> of 64 bits, which holds every value of the quotient.
\<close>

definition exif_dt :: "bytes \<Rightarrow> tm \<Rightarrow> bytes" where
  "exif_dt junk t = (case strftime_exif t of None \<Rightarrow> junk | Some s \<Rightarrow> put junk 0 (chars s @ [0]))"

definition rss_jpeg_insert_exif :: "bytes \<Rightarrow> bytes option \<Rightarrow> nat \<Rightarrow> nat \<Rightarrow> u64 \<Rightarrow> errno + (nat \<times> bytes)" where
  "rss_jpeg_insert_exif junk buf cap len utc_us =
     (case buf of None \<Rightarrow> Inl EINVAL
      | Some b \<Rightarrow>
        if len < 4 \<or> b ! 0 \<noteq> 0xff \<or> b ! 1 \<noteq> 0xd8 then Inl EINVAL
        else if cap < len + EXIF_SEGMENT then Inl ENOSPC
        else
          let b = put b (2 + EXIF_SEGMENT) (take (len - 2) (drop 2 b));
              dt = exif_dt junk (gmtime (uint (utc_us div 1000000)));
              sub = chars (pad 6 (unat (utc_us mod 1000000))) @ [0]
          in Inr (len + EXIF_SEGMENT, put b 2 (exif_app1 dt sub)))"

section \<open>Finding the time again\<close>

definition to_chars :: "bytes \<Rightarrow> string" where
  "to_chars bs = map (\<lambda>b. char_of (unat b)) bs"

definition exif_time :: "bytes \<Rightarrow> errno + u64" where
  "exif_time tiff =
     (let dt = c_str (to_chars (take 20 (drop 68 tiff)));
          sub = c_str (to_chars (take 7 (drop 95 tiff)))
      in case scanf exif_format dt of
           [y, mo, d, h, mi, s] \<Rightarrow>
             let sec = timegm \<lparr>tm_year = y - 1900, tm_mon = mo - 1, tm_mday = d, tm_hour = h, tm_min = mi, tm_sec = s\<rparr>
             in if sec = -1 then Inl ENOENT
                else let frac = (case scan_int 6 sub of None \<Rightarrow> 0 | Some (v, r) \<Rightarrow> (word_of_int v :: u32))
                     in Inr (word_of_int sec * 1000000 + ucast frac)
         | _ \<Rightarrow> Inl ENOENT)"

function exif_walk :: "bytes \<Rightarrow> nat \<Rightarrow> nat \<Rightarrow> errno + u64" where
  "exif_walk buf len pos =
     (if pos + 4 \<le> len then
        if buf ! pos \<noteq> 0xff then Inl ENOENT
        else
          let marker = buf ! (pos + 1) in
          if marker = 0xda \<or> marker = 0xd9 then Inl ENOENT
          else
            let seglen = unat (buf ! (pos + 2)) * 256 + unat (buf ! (pos + 3)) in
            if seglen < 2 \<or> pos + 2 + seglen > len then Inl ENOENT
            else if marker = 0xe1 \<and> seglen \<ge> 2 + EXIF_PAYLOAD \<and> take 6 (drop (pos + 4) buf) = chars ''Exif'' @ [0, 0]
            then exif_time (drop (pos + 10) buf)
            else exif_walk buf len (pos + 2 + seglen)
      else Inl ENOENT)"
  by pat_completeness auto
termination by (relation "measure (\<lambda>(buf, len, pos). len - pos)") auto

declare exif_walk.simps [simp del]

definition rss_jpeg_get_exif_time :: "bytes option \<Rightarrow> nat \<Rightarrow> bool \<Rightarrow> errno + u64" where
  "rss_jpeg_get_exif_time buf len has_out =
     (case buf of None \<Rightarrow> Inl EINVAL
      | Some b \<Rightarrow>
        if \<not> has_out \<or> len < 4 \<or> b ! 0 \<noteq> 0xff \<or> b ! 1 \<noteq> 0xd8 then Inl EINVAL
        else exif_walk b len 2)"

section \<open>What is written is read back\<close>

lemma length_pad: "n < 10 ^ w \<Longrightarrow> 0 < w \<Longrightarrow> length (pad w n) = w"
  using length_dec [of n w] by (simp add: pad_def)

lemma pad_digits: "c \<in> set (pad w n) \<Longrightarrow> \<exists>d < 10. c = digit d"
proof -
  have "CHR ''0'' = digit 0" by code_simp
  moreover assume "c \<in> set (pad w n)"
  ultimately have "c = digit 0 \<or> c \<in> set (dec n)" by (auto simp: pad_def)
  then show ?thesis
  proof
    assume "c = digit 0"
    then show ?thesis by (intro exI [of _ 0]) simp
  qed (rule dec_digits)
qed

lemma digits_val_zeros: "digits_val 10 (replicate k CHR ''0'' @ ds) = digits_val 10 ds"
  by (induction k) (simp_all add: digits_val_def digit_val_def ccode_def)

lemma digits_val_pad: "digits_val 10 (pad w n) = n"
  by (simp add: pad_def digits_val_zeros digits_val_dec)

lemma scan_pad:
  assumes "n < 10 ^ w" and "0 < w"
  shows "scan_int w (pad w n @ r) = Some (int n, r)"
proof -
  let ?p = "pad w n"
  have len: "length ?p = w" using assms by (rule length_pad)
  then obtain c cs where p: "?p = c # cs" using assms(2) by (cases ?p) auto
  then obtain d where "d < 10" "c = digit d" using pad_digits [of c w n] by auto
  then have c: "\<not> isspace c" "c \<noteq> CHR ''-''" "c \<noteq> CHR ''+''" using digit_no_space [of d] by auto
  have "\<forall>x \<in> set ?p. isdigit x" using pad_digits isdigit_digit by blast
  then have "takeWhile isdigit (take w (?p @ r)) = ?p" using len by (simp add: takeWhile_eq_all_conv)
  moreover have "dropWhile isspace (?p @ r) = ?p @ r" "?p @ r \<noteq> []" "hd (?p @ r) = c" "drop (length ?p) (?p @ r) = r" "?p \<noteq> []"
    using c p by simp_all
  ultimately show ?thesis using c unfolding scan_int_def Let_def by (simp add: digits_val_pad)
qed

lemma length_dec_ge: "10 ^ w \<le> n \<Longrightarrow> w < length (dec n)"
proof (induction w arbitrary: n)
  case (Suc w)
  then have "10 ^ w \<le> n div 10" "\<not> n < 10" by (auto simp: less_eq_div_iff_mult_less_eq mult.commute)
      (metis le_trans mult_le_mono2 one_le_numeral one_le_power mult.right_neutral not_le)
  then show ?case using Suc.IH [of "n div 10"] by (simp add: dec.simps [of n])
qed simp

lemma show_int_pad: "1000 \<le> y \<Longrightarrow> y < 10000 \<Longrightarrow> show_int y = pad 4 (nat y)"
proof -
  assume y: "1000 \<le> y" "y < 10000"
  then have "length (dec (nat y)) \<le> 4" "3 < length (dec (nat y))"
    by (intro length_dec length_dec_ge; simp)+
  then show ?thesis using y by (simp add: show_int_def pad_def)
qed

lemma scanf_pad: "n < 10 ^ w \<Longrightarrow> 0 < w \<Longrightarrow> scanf (Int_Width w # f) (pad w n @ r) = int n # scanf f r"
  by (simp add: scan_pad)

lemma scanf_blank: "\<not> isspace c \<Longrightarrow> scanf (Blank # f) (CHR '' '' # c # r) = scanf f (c # r)"
proof -
  have "isspace CHR '' ''" by (simp add: isspace_def)
  moreover assume "\<not> isspace c"
  ultimately show ?thesis by simp
qed

lemma scan_exif_text:
  assumes "-900 \<le> tm_year t" "tm_year t < 8100" "0 \<le> tm_mon t" "tm_mon t < 12" "1 \<le> tm_mday t" "tm_mday t \<le> 31"
    "0 \<le> tm_hour t" "tm_hour t < 24" "0 \<le> tm_min t" "tm_min t < 60" "0 \<le> tm_sec t" "tm_sec t < 60"
  shows "scanf exif_format (exif_text t) = [tm_year t + 1900, tm_mon t + 1, tm_mday t, tm_hour t, tm_min t, tm_sec t]"
proof -
  have n: "nat (tm_year t + 1900) < 10 ^ 4" "nat (tm_mon t + 1) < 10 ^ 2" "nat (tm_mday t) < 10 ^ 2" "nat (tm_hour t) < 10 ^ 2"
    "nat (tm_min t) < 10 ^ 2" "nat (tm_sec t) < 10 ^ 2" using assms by (simp_all add: nat_less_iff)
  have y: "show_int (tm_year t + 1900) = pad 4 (nat (tm_year t + 1900))" using assms by (intro show_int_pad) simp_all
  have blank: "scanf (Blank # f) (CHR '' '' # pad 2 k @ r) = scanf f (pad 2 k @ r)" if k: "k < 10 ^ 2" for f k r
  proof -
    obtain c cs where p: "pad 2 k = c # cs" using length_pad [of k 2] k by (cases "pad 2 k") auto
    then obtain d where "d < 10" "c = digit d" using pad_digits [of c 2 k] by auto
    then have "\<not> isspace c" "c \<noteq> CHR '' ''" using digit_no_space [of d] by (auto simp: isspace_def)
    then show ?thesis unfolding p append_Cons by (intro scanf_blank)
  qed
  have end': "scanf [Int_Width 2] (pad 2 k) = [int k]" if "k < 10 ^ 2" for k
    using scanf_pad [OF that, of "[]" "[]"] by simp
  show ?thesis unfolding exif_text_def exif_format_def y append_assoc append_Cons append_Nil
    using n(2-6) assms by (subst scanf_pad [OF n(1)]) (simp_all add: scanf_pad blank end' del: scanf.simps(2,4))
qed

lemma c_str_to_chars: "cstr s \<Longrightarrow> c_str (to_chars (chars s @ 0 # r)) = s"
proof -
  have inv: "to_chars (chars s) = s"
    using ccode_lt by (induction s) (simp_all add: to_chars_def uchar_def ccode_def unat_of_nat)
  have "char_of (0 :: nat) = NUL" by code_simp
  then have "to_chars (chars s @ 0 # r) = to_chars (chars s) @ NUL # to_chars r" by (simp add: to_chars_def)
  moreover assume "cstr s"
  ultimately show ?thesis unfolding inv by simp
qed

lemma cstr_pad [simp]: "cstr (pad w n)"
  by (simp add: pad_def cstr_def) (use cstr_dec [of n] in \<open>auto simp: cstr_def\<close>)

lemma cstr_exif_text: "cstr (exif_text t)"
  by (simp add: exif_text_def)

lemma length_exif_text:
  assumes "-900 \<le> tm_year t" "tm_year t < 8100" "0 \<le> tm_mon t" "tm_mon t < 12" "1 \<le> tm_mday t" "tm_mday t \<le> 31"
    "0 \<le> tm_hour t" "tm_hour t < 24" "0 \<le> tm_min t" "tm_min t < 60" "0 \<le> tm_sec t" "tm_sec t < 60"
  shows "length (exif_text t) = 19"
proof -
  have "show_int (tm_year t + 1900) = pad 4 (nat (tm_year t + 1900))" using assms by (intro show_int_pad) simp_all
  then show ?thesis using assms by (simp add: exif_text_def length_pad nat_less_iff)
qed

lemma length_exif_tiff: "length dt \<ge> 20 \<Longrightarrow> length sub \<ge> 7 \<Longrightarrow> length (exif_tiff dt sub) = 102"
  by (simp add: exif_tiff_def put16le_def put32le_def tiff_entry_def Let_def)

lemma exif_tiff_values:
  "take 20 (drop 68 (exif_tiff dt sub @ r)) = take 20 (take 20 dt @ chars ''+00:00'' @ [0] @ take 7 sub @ r)"
  "length dt \<ge> 20 \<Longrightarrow> take 7 (drop 95 (exif_tiff dt sub @ r)) = take 7 (take 7 sub @ r)"
  by (simp_all add: exif_tiff_def put16le_def put32le_def tiff_entry_def Let_def)

lemma exif_time_written:
  assumes "20 \<le> length junk" and "utc < 253402300800000000" and "length sub = 7"
    and "sub = chars (pad 6 (unat (utc mod 1000000))) @ [0]"
  shows "exif_time (exif_tiff (exif_dt junk (gmtime (uint (utc div 1000000)))) sub @ r) = Inr utc"
proof -
  let ?sec = "uint (utc div 1000000)"
  let ?t = "gmtime ?sec"
  let ?dt = "exif_dt junk ?t"
  have sec: "0 \<le> ?sec" "?sec < 253402300800"
    using assms(2) by (simp_all add: uint_div_distrib word_less_def div_less_iff_less_mult pos_imp_zdiv_nonneg_iff)
  note g = gmtime_fields [OF sec(1)]
  have year: "tm_year ?t < 8100" using sec by (rule gmtime_year_lt)
  have rng: "-900 \<le> tm_year ?t" "0 \<le> tm_mon ?t" "tm_mon ?t < 12" "1 \<le> tm_mday ?t" "tm_mday ?t \<le> 31"
    "0 \<le> tm_hour ?t" "tm_hour ?t < 24" "0 \<le> tm_min ?t" "tm_min ?t < 60" "0 \<le> tm_sec ?t" "tm_sec ?t < 60"
    and tg: "timegm ?t = ?sec" using g(1) by (rule order_trans [rotated], simp) (rule g)+
  have len: "length (exif_text ?t) = 19" using length_exif_text rng year by blast
  have dt: "take 20 ?dt = chars (exif_text ?t) @ [0]" "20 \<le> length ?dt"
    using len assms(1) by (simp_all add: exif_dt_def strftime_exif_def put_def)
  have v1: "c_str (to_chars (take 20 (drop 68 (exif_tiff ?dt sub @ r)))) = exif_text ?t"
    using c_str_to_chars [OF cstr_exif_text, of ?t "[]"] len unfolding exif_tiff_values(1) dt(1) by simp
  have v2: "c_str (to_chars (take 7 (drop 95 (exif_tiff ?dt sub @ r)))) = pad 6 (unat (utc mod 1000000))"
    using c_str_to_chars [OF cstr_pad, of 6 "unat (utc mod 1000000)" "[]"] assms(3,4) unfolding exif_tiff_values(2) [OF dt(2)] by simp
  have frac: "unat (utc mod 1000000) < 10 ^ 6"
    by (simp add: unat_mod_distrib)
  have scan: "scan_int 6 (pad 6 (unat (utc mod 1000000))) = Some (int (unat (utc mod 1000000)), [])"
    using scan_pad [OF frac, of "[]"] by simp
  have u: "ucast (word_of_int (int (unat (utc mod 1000000))) :: u32) = utc mod 1000000"
  proof (rule word_unat_eq_iff [THEN iffD2])
    show "unat (ucast (word_of_int (int (unat (utc mod 1000000))) :: u32) :: u64) = unat (utc mod 1000000)"
      using frac by (simp add: unat_of_nat unsigned_ucast_eq unsigned_take_bit_eq take_bit_nat_eq_self)
  qed
  have again: "\<lparr>tm_year = tm_year ?t + 1900 - 1900, tm_mon = tm_mon ?t + 1 - 1, tm_mday = tm_mday ?t, tm_hour = tm_hour ?t,
      tm_min = tm_min ?t, tm_sec = tm_sec ?t\<rparr> = ?t" by simp
  have ne: "?sec \<noteq> -1" using sec(1) by linarith
  have "word_of_int ?sec * 1000000 + (utc mod 1000000) = utc"
    by (simp add: word_mod_div_equality)
  then show ?thesis
    unfolding exif_time_def Let_def v1 v2 scan_exif_text [OF rng(1) year rng(2-11)] list.case again tg scan option.case prod.case u
    using ne by simp
qed

text \<open>C14. The capture time written is the time read: an insertion keeps the image (its start marker, then
  the rest behind the segment) and the bytes behind it, and up to the year 9999 the time found in the result
  is the time given, to the microsecond; an insertion that is refused says whether the image or the room was
  at fault.\<close>

lemma jpeg_exif_roundtrip:
  assumes "20 \<le> length junk"
  shows "case rss_jpeg_insert_exif junk (Some buf) (length buf) len utc of
      Inl e \<Rightarrow> e = (if len < 4 \<or> buf ! 0 \<noteq> 0xff \<or> buf ! 1 \<noteq> 0xd8 then EINVAL else ENOSPC)
    | Inr (n, out) \<Rightarrow> n = len + 112 \<and> n \<le> length buf \<and> length out = length buf
        \<and> take 2 out @ drop 114 (take n out) = take len buf \<and> drop n out = drop n buf
        \<and> (if utc < 253402300800000000 then rss_jpeg_get_exif_time (Some out) n True = Inr utc else True)"
proof (cases "len < 4 \<or> buf ! 0 \<noteq> 0xff \<or> buf ! 1 \<noteq> 0xd8 \<or> length buf < len + 112")
  case True
  then show ?thesis by (auto simp: rss_jpeg_insert_exif_def)
next
  case False
  let ?dt = "exif_dt junk (gmtime (uint (utc div 1000000)))" and ?sub = "chars (pad 6 (unat (utc mod 1000000))) @ [0]"
  let ?moved = "take (len - 2) (drop 2 buf)"
  have sub: "length ?sub = 7"
    using length_pad [of "unat (utc mod 1000000)" 6] by (simp add: unat_mod_distrib)
  have dt: "20 \<le> length ?dt" using assms by (simp add: exif_dt_def strftime_exif_def put_def split: option.splits) linarith
  define app where "app = exif_app1 ?dt ?sub"
  have app: "length app = 112" using dt sub by (simp add: app_def exif_app1_def length_exif_tiff)
  have moved: "length ?moved = len - 2" using False by (auto simp: min_def)
  define out where "out = put (put buf 114 ?moved) 2 app"
  have e: "rss_jpeg_insert_exif junk (Some buf) (length buf) len utc = Inr (len + 112, out)"
    using False by (simp add: rss_jpeg_insert_exif_def Let_def out_def app_def)
  have out: "out = take 2 buf @ app @ ?moved @ drop (len + 112) buf"
    using False app moved by (simp add: out_def put_def add.commute)
  have buf: "take 2 buf = [0xff, 0xd8]"
  proof -
    obtain a b bs where "buf = a # b # bs" using False by (cases buf; cases "tl buf") auto
    then show ?thesis using False by simp
  qed
  have again: "rss_jpeg_get_exif_time (Some out) (len + 112) True = exif_time (exif_tiff ?dt ?sub @ ?moved @ drop (len + 112) buf)"
  proof -
    have o: "out = [0xff, 0xd8, 0xff, 0xe1, 0, 110] @ (chars ''Exif'' @ [0, 0]) @ exif_tiff ?dt ?sub @ ?moved @ drop (len + 112) buf"
      unfolding out buf app_def exif_app1_def by simp
    have "exif_walk out (len + 112) 2 = exif_time (drop 12 out)"
      unfolding o using False by (subst exif_walk.simps) (simp add: Let_def)
    moreover have "drop 12 out = exif_tiff ?dt ?sub @ ?moved @ drop (len + 112) buf" unfolding o by simp
    ultimately show ?thesis using False unfolding o by (simp add: rss_jpeg_get_exif_time_def)
  qed
  have "Suc (Suc (len - 2)) = len" using False by auto
  then have "take 2 buf @ ?moved = take len buf"
    by (simp add: take_add [symmetric])
  moreover have "take 2 out @ drop 114 (take (len + 112) out) = take 2 buf @ ?moved" "drop (len + 112) out = drop (len + 112) buf"
    "length out = length buf"
    using False app moved unfolding out by (simp_all, arith)
  moreover have "rss_jpeg_get_exif_time (Some out) (len + 112) True = Inr utc" if "utc < 253402300800000000"
    unfolding again by (rule exif_time_written [OF assms that sub refl])
  ultimately show ?thesis unfolding e using False by simp
qed

lemma jpeg_exif_roundtrip_witness:
  "case rss_jpeg_insert_exif (replicate 21 7) (Some ([0xff, 0xd8, 0xff, 0xd9] @ replicate 120 0)) 124 4 1709251199123456 of
      Inl e \<Rightarrow> False | Inr (n, out) \<Rightarrow> n = 116 \<and> rss_jpeg_get_exif_time (Some out) n True = Inr 1709251199123456"
proof -
  let ?b = "[0xff, 0xd8, 0xff, 0xd9] @ replicate 120 0 :: bytes"
  have "\<exists>out. rss_jpeg_insert_exif (replicate 21 7) (Some ?b) 124 4 1709251199123456 = Inr (116, out)"
    by (simp add: rss_jpeg_insert_exif_def)
  then show ?thesis
    using jpeg_exif_roundtrip [where junk = "replicate 21 7" and buf = ?b and len = 4 and utc = 1709251199123456] by (auto split: sum.splits)
qed

section \<open>The snapshot signature\<close>

text \<open>
  The snapshot signature.  Ed25519 is not part of the sources: \<open>crypto_ed25519_sign\<close> and
  \<open>crypto_ed25519_check\<close> are parameters; that a check accepts what the key signed is a hypothesis.
\<close>

definition sign_uuid :: bytes where
  "sign_uuid = [0xb0, 0x50, 0xbf, 0x07, 0x88, 0x56, 0x45, 0x98, 0x86, 0x9e, 0x44, 0xc4, 0xdc, 0x20, 0x8f, 0x26]"

abbreviation (input) SIG_SEGMENT :: nat where "SIG_SEGMENT \<equiv> 93"

definition signature_segment :: "rss_sign_key_t \<Rightarrow> bytes \<Rightarrow> bytes" where
  "signature_segment key sig =
     (let seglen = of_nat (SIG_SEGMENT - 2) :: u16
      in [0xff, 0xef, byte_of 8 seglen, byte_of 0 seglen] @ sign_uuid @ [1] @ take 8 (fingerprint key) @ take 64 sig)"

definition rss_jpeg_sign ::
  "(bytes \<Rightarrow> bytes \<Rightarrow> bytes) \<Rightarrow> bytes option \<Rightarrow> nat \<Rightarrow> nat \<Rightarrow> rss_sign_key_t option \<Rightarrow> errno + (nat \<times> bytes)" where
  "rss_jpeg_sign ed_sign buf cap len key =
     (case (buf, key) of
        (Some b, Some key) \<Rightarrow>
          if len < 4 \<or> b ! 0 \<noteq> 0xff \<or> b ! 1 \<noteq> 0xd8 then Inl EINVAL
          else if b ! (len - 2) \<noteq> 0xff \<or> b ! (len - 1) \<noteq> 0xd9 then Inl EINVAL
          else if cap < len + SIG_SEGMENT then Inl ENOSPC
          else
            let pos = len - 2;
                sig = ed_sign (secret key) (take pos b);
                b = put b (pos + SIG_SEGMENT) [0xff, 0xd9];
                b = put b pos (signature_segment key sig)
            in Inr (len + SIG_SEGMENT, b)
      | _ \<Rightarrow> Inl EINVAL)"

definition rss_jpeg_verify ::
  "(bytes \<Rightarrow> bytes \<Rightarrow> bytes \<Rightarrow> bool) \<Rightarrow> bytes option \<Rightarrow> nat \<Rightarrow> bytes option \<Rightarrow> (errno + nat) \<times> bytes option" where
  "rss_jpeg_verify ed_check buf len pub =
     (case buf of None \<Rightarrow> (Inl EINVAL, None)
      | Some b \<Rightarrow>
        if len < 4 then (Inl EINVAL, None)
        else if b ! 0 \<noteq> 0xff \<or> b ! 1 \<noteq> 0xd8 \<or> b ! (len - 2) \<noteq> 0xff \<or> b ! (len - 1) \<noteq> 0xd9 then (Inl EINVAL, None)
        else if len < SIG_SEGMENT + 4 then (Inl ENOENT, None)
        else
          let at = len - 2 - SIG_SEGMENT; seg = drop at b in
          if seg ! 0 \<noteq> 0xff \<or> seg ! 1 \<noteq> 0xef \<or> take 16 (drop 4 seg) \<noteq> sign_uuid then (Inl ENOENT, None)
          else if seg ! 20 \<noteq> 1 then (Inl EBADMSG, None)
          else
            let fp = take 8 (drop 21 seg)
            in case pub of None \<Rightarrow> (Inr 1, Some fp)
               | Some pub \<Rightarrow>
                   if \<not> ed_check (take 64 (drop 29 seg)) pub (take at b) then (Inl EBADMSG, Some fp)
                   else (Inr 0, Some fp))"

lemma length_sign_uuid [simp]: "length sign_uuid = 16"
  by (simp add: sign_uuid_def)

lemma jpeg_sign_out:
  assumes "rss_jpeg_sign ed_sign (Some buf) (length buf) len (Some key) = Inr (n, out)"
    and "length (fingerprint key) = 8" and "\<forall>sk m. length (ed_sign sk m) = 64"
  shows "n = len + 93" "length out = length buf" "4 \<le> len" "buf ! 0 = 0xff" "buf ! 1 = 0xd8"
    "out = take (len - 2) buf @ signature_segment key (ed_sign (secret key) (take (len - 2) buf)) @ [0xff, 0xd9] @ drop (len + 93) buf"
    "length buf \<ge> len + 93"
proof -
  have ok: "4 \<le> len" "buf ! 0 = 0xff" "buf ! 1 = 0xd8" "len + 93 \<le> length buf" and n: "n = len + 93"
    and o: "out = put (put buf (len - 2 + 93) [0xff, 0xd9]) (len - 2) (signature_segment key (ed_sign (secret key) (take (len - 2) buf)))"
    using assms(1) by (auto simp: rss_jpeg_sign_def Let_def split: if_splits)
  let ?s = "signature_segment key (ed_sign (secret key) (take (len - 2) buf))"
  have s: "length ?s = 93" using assms(2,3) by (simp add: signature_segment_def Let_def)
  have l: "len - 2 + 93 + 2 = len + 93" using ok by simp
  show "n = len + 93" "4 \<le> len" "buf ! 0 = 0xff" "buf ! 1 = 0xd8" "length buf \<ge> len + 93" using ok n by simp_all
  have "drop (len - 2 + 93) (put buf (len - 2 + 93) [0xff, 0xd9]) = [0xff, 0xd9] @ drop (len + 93) buf"
    using ok l by (subst drop_put_same) (simp_all only: list.size, simp_all add: add.commute)
  moreover have "take (len - 2) (put buf (len - 2 + 93) [0xff, 0xd9]) = take (len - 2) buf"
    using ok by (intro take_put_before) simp_all
  ultimately show "out = take (len - 2) buf @ ?s @ [0xff, 0xd9] @ drop (len + 93) buf"
    unfolding o put_def [of "put buf (len - 2 + 93) [0xff, 0xd9]"] s by simp
  then show "length out = length buf" using ok s by simp
qed

text \<open>Verifying an image that ends, up to the length given, with a signature segment and the end marker.\<close>

lemma jpeg_verify_signed:
  assumes "length (fingerprint key) = 8" and "length sig = 64" and "2 \<le> length msg" and "msg ! 0 = 0xff" and "msg ! 1 = 0xd8"
  shows "rss_jpeg_verify ed_check (Some (msg @ signature_segment key sig @ [0xff, 0xd9] @ rest)) (length msg + 95) pub =
     (case pub of None \<Rightarrow> (Inr 1, Some (fingerprint key))
      | Some pk \<Rightarrow> if ed_check sig pk msg then (Inr 0, Some (fingerprint key)) else (Inl EBADMSG, Some (fingerprint key)))"
proof -
  let ?out = "msg @ signature_segment key sig @ [0xff, 0xd9] @ rest" and ?n = "length msg + 95"
  have seg: "length (signature_segment key sig) = 93" using assms(1,2) by (simp add: signature_segment_def Let_def)
  have "0 < length msg" "1 < length msg" using assms(3) by linarith+
  then have head: "?out ! 0 = 0xff" "?out ! 1 = 0xd8" using assms(4,5) by (simp_all add: nth_append)
  have tail: "?out ! (?n - 2) = 0xff" "?out ! (?n - 1) = 0xd9"
  proof -
    have "?n - 2 = length (msg @ signature_segment key sig)" "?n - 1 = Suc (length (msg @ signature_segment key sig))"
      using seg by simp_all
    then show "?out ! (?n - 2) = 0xff" "?out ! (?n - 1) = 0xd9"
      by (simp_all only: append_assoc [symmetric] nth_append_length_plus nth_append) (simp_all add: nth_append)
  qed
  have at: "?n - 2 - 93 = length msg" by simp
  have sg: "drop (length msg) ?out = signature_segment key sig @ [0xff, 0xd9] @ rest" by simp
  have parts: "(signature_segment key sig @ r) ! 0 = 0xff" "(signature_segment key sig @ r) ! 1 = 0xef"
    "take 16 (drop 4 (signature_segment key sig @ r)) = sign_uuid" "(signature_segment key sig @ r) ! 20 = 1"
    "take 8 (drop 21 (signature_segment key sig @ r)) = fingerprint key" "take 64 (drop 29 (signature_segment key sig @ r)) = sig" for r
    using assms(1,2) by (simp_all add: signature_segment_def Let_def nth_append)
  have "\<not> ?n < 4" "\<not> ?n < 93 + 4" using assms(3) by simp_all
  moreover have "take (length msg) ?out = msg" by simp
  ultimately show ?thesis
    unfolding rss_jpeg_verify_def option.case Let_def at sg parts using head tail by (simp split: option.split)
qed

text \<open>What is signed verifies: signing keeps every byte of the image before its end marker and the room
  behind it, moves the end marker behind the signature segment, and verification of the result finds the
  segment, hands out the fingerprint of the key and accepts; with no key to check against it answers 1,
  and without the public key's consent it answers a bad message.\<close>

lemma jpeg_sign_verify:
  assumes "length (fingerprint key) = 8" and "\<forall>sk m. length (ed_sign sk m) = 64"
    and "\<forall>m. ed_check (ed_sign (secret key) m) (public key) m"
  shows "case rss_jpeg_sign ed_sign (Some buf) (length buf) len (Some key) of
      Inl e \<Rightarrow> e = EINVAL \<or> e = ENOSPC
    | Inr (n, out) \<Rightarrow>
        n = len + 93 \<and> length out = length buf \<and> take (len - 2) out = take (len - 2) buf \<and> drop n out = drop n buf
        \<and> drop (n - 2) (take n out) = [0xff, 0xd9]
        \<and> rss_jpeg_verify ed_check (Some out) n (Some (public key)) = (Inr 0, Some (fingerprint key))
        \<and> rss_jpeg_verify ed_check (Some out) n None = (Inr 1, Some (fingerprint key))
        \<and> rss_jpeg_verify ed_check (Some out) n (Some pk)
          = (if ed_check (ed_sign (secret key) (take (len - 2) buf)) pk (take (len - 2) buf) then Inr 0 else Inl EBADMSG,
             Some (fingerprint key))"
proof (cases "rss_jpeg_sign ed_sign (Some buf) (length buf) len (Some key)")
  case (Inl e)
  then show ?thesis by (auto simp: rss_jpeg_sign_def Let_def split: if_splits)
next
  case (Inr r)
  obtain n out where r: "r = (n, out)" by (cases r)
  note o = jpeg_sign_out [OF Inr [unfolded r] assms(1,2)]
  define msg where "msg = take (len - 2) buf"
  define sig where "sig = ed_sign (secret key) msg"
  have msg: "length msg = len - 2" using o(3,7) by (auto simp: msg_def min_def)
  have sig: "length sig = 64" using assms(2) by (simp add: sig_def)
  have seg: "length (signature_segment key sig) = 93" using assms(1) sig by (simp add: signature_segment_def Let_def)
  have out: "out = msg @ signature_segment key sig @ [0xff, 0xd9] @ drop n buf"
    using o(6) by (simp add: msg_def sig_def o(1))
  have n: "n = length msg + 95" "2 \<le> length msg" using o(1,3) msg by simp_all
  have "msg ! 0 = 0xff" "msg ! 1 = 0xd8" using o(3-5) unfolding msg_def by simp_all
  note v = jpeg_verify_signed [OF assms(1) sig n(2) this, of ed_check "drop n buf", folded out n(1)]
  have "drop (n - 2) (take n out) = [0xff, 0xd9]" "drop n out = drop n buf" "take (len - 2) out = take (len - 2) buf"
  proof -
    have n: "n = length msg + 95" using o(1,3) msg by simp
    show "drop (n - 2) (take n out) = [0xff, 0xd9]" "drop n out = drop n buf"
      unfolding out using seg by (simp_all add: n)
    show "take (len - 2) out = take (len - 2) buf" unfolding out using msg by (simp flip: msg_def)
  qed
  then show ?thesis unfolding Inr r using v assms(3) o(1,2) by (simp add: sig_def msg_def)
qed

lemma jpeg_sign_verify_witness:
  "let key = \<lparr>secret = [1], public = [1], fingerprint = [1, 2, 3, 4, 5, 6, 7, 8]\<rparr>;
       ed_sign = (\<lambda>sk m. replicate 64 (of_nat (length m))); ed_check = (\<lambda>s pk m. s = replicate 64 (of_nat (length m)))
   in case rss_jpeg_sign ed_sign (Some ([0xff, 0xd8, 0xff, 0xd9] @ replicate 93 0)) 97 4 (Some key) of
        Inl e \<Rightarrow> False | Inr (n, out) \<Rightarrow> rss_jpeg_verify ed_check (Some out) n (Some [1]) = (Inr 0, Some [1, 2, 3, 4, 5, 6, 7, 8])"
proof -
  let ?key = "\<lparr>secret = [1], public = [1], fingerprint = [1, 2, 3, 4, 5, 6, 7, 8]\<rparr>"
  let ?sign = "\<lambda>(sk :: bytes) (m :: bytes). replicate 64 (of_nat (length m)) :: bytes"
  let ?check = "\<lambda>s (pk :: bytes) (m :: bytes). s = (replicate 64 (of_nat (length m)) :: bytes)"
  let ?b = "[0xff, 0xd8, 0xff, 0xd9] @ replicate 93 0 :: bytes"
  have "\<exists>out. rss_jpeg_sign ?sign (Some ?b) 97 4 (Some ?key) = Inr (97, out)"
    by (simp add: rss_jpeg_sign_def Let_def)
  then show ?thesis
    using jpeg_sign_verify [where key = ?key and ed_sign = ?sign and ed_check = ?check and buf = ?b and len = 4 and pk = "[1]"]
    by (auto simp: Let_def split: sum.splits)
qed

end
