(* ===== verification/Rss_Double.thy ===== *)
theory Rss_Double imports Complex_Main Rss_Num begin

text \<open>
  The \<open>double\<close> of C and its text conversions, as \<open>src/cJSON.c\<close> uses them: IEEE 754 binary64 with rounding to
  nearest, ties to even.  A finite value is the rational it stands for, so the two zeros are one value: no
  function of the library tells them apart.
\<close>

datatype double = Fin rat | Inf bool  \<comment> \<open>\<open>Inf True\<close> is minus infinity\<close> | NaN

section \<open>Powers, logarithms and rounding\<close>

definition bpow :: "nat \<Rightarrow> int \<Rightarrow> rat" where
  "bpow b e = (if e \<ge> 0 then of_nat b ^ nat e else 1 / of_nat b ^ nat (- e))"

fun nlog :: "nat \<Rightarrow> nat \<Rightarrow> nat" where
  "nlog b n = (if b < 2 \<or> n < b then 0 else Suc (nlog b (n div b)))"

declare nlog.simps [simp del]

text \<open>The greatest exponent whose power is at most \<open>q\<close>, for positive \<open>q\<close>.\<close>

definition ilog :: "nat \<Rightarrow> rat \<Rightarrow> int" where
  "ilog b q = (if q \<ge> 1 then int (nlog b (nat \<lfloor>q\<rfloor>)) else - int (Suc (nlog b (nat (\<lceil>1 / q\<rceil> - 1)))))"

definition round_even :: "rat \<Rightarrow> int" where
  "round_even q =
     (let f = \<lfloor>q\<rfloor>; r = q - of_int f
      in if r < 1 / 2 then f else if r > 1 / 2 then f + 1 else if even f then f else f + 1)"

definition to_double :: "rat \<Rightarrow> double" where
  "to_double q =
     (if q = 0 then Fin 0
      else let e = max (ilog 2 \<bar>q\<bar> - 52) (- 1074);
               v = of_int (round_even (\<bar>q\<bar> * bpow 2 (- e))) * bpow 2 e
           in if v \<ge> bpow 2 1024 then Inf (q < 0) else Fin (if q < 0 then - v else v))"

definition DBL_EPSILON :: rat where
  "DBL_EPSILON = bpow 2 (- 52)"

section \<open>Reading\<close>

text \<open>
  \<open>strtod\<close> on a decimal text: the value, and the rest of the text, which is the whole text if nothing was
  converted.  The exponent counts only if it has digits.
\<close>

definition exponent_part :: "string \<Rightarrow> int \<times> string" where
  "exponent_part s =
     (case s of [] \<Rightarrow> (0, s)
      | c # t \<Rightarrow>
          if c = CHR ''e'' \<or> c = CHR ''E'' then
            let signed = (t \<noteq> [] \<and> (hd t = CHR ''-'' \<or> hd t = CHR ''+''));
                u = (if signed then tl t else t);
                ds = takeWhile isdigit u;
                v = int (digits_val 10 ds)
            in if ds = [] then (0, s) else (if signed \<and> hd t = CHR ''-'' then - v else v, drop (length ds) u)
          else (0, s))"

definition strtod :: "string \<Rightarrow> double \<times> string" where
  "strtod s =
     (let signed = (s \<noteq> [] \<and> (hd s = CHR ''-'' \<or> hd s = CHR ''+''));
          neg = (signed \<and> hd s = CHR ''-'');
          t = (if signed then tl s else s);
          ip = takeWhile isdigit t;
          t = drop (length ip) t;
          dot = (t \<noteq> [] \<and> hd t = CHR ''.'');
          fp = (if dot then takeWhile isdigit (tl t) else []);
          t = (if dot \<and> (ip \<noteq> [] \<or> fp \<noteq> []) then drop (length fp) (tl t) else t)
      in if ip = [] \<and> fp = [] then (Fin 0, s)
         else case exponent_part t of (x, r) \<Rightarrow>
           let q = of_nat (digits_val 10 (ip @ fp)) * bpow 10 (x - int (length fp))
           in (to_double (if neg then - q else q), r))"

section \<open>Printing\<close>

text \<open>\<open>%1.<p>g\<close> of a finite value that is not zero: the digits and the decimal exponent, then the style they select.\<close>

definition g_digits :: "nat \<Rightarrow> rat \<Rightarrow> string \<times> int" where
  "g_digits p q =
     (let x = ilog 10 q; m = nat (round_even (q * bpow 10 (int p - 1 - x)))
      in if m \<ge> 10 ^ p then (dec (m div 10), x + 1) else (dec m, x))"

definition strip_zeros :: "string \<Rightarrow> string" where
  "strip_zeros s = rev (dropWhile (\<lambda>c. c = CHR ''0'') (rev s))"

definition point :: "string \<Rightarrow> string \<Rightarrow> string" where
  "point ip fp = (let fp = strip_zeros fp in if fp = [] then ip else ip @ CHR ''.'' # fp)"

definition fmt_g :: "nat \<Rightarrow> rat \<Rightarrow> string" where
  "fmt_g p q =
     (case g_digits p \<bar>q\<bar> of (ds, x) \<Rightarrow>
        (if q < 0 then ''-'' else []) @
        (if - 4 \<le> x \<and> x < int p then
           if x \<ge> 0 then point (take (nat x + 1) ds) (drop (nat x + 1) ds)
           else point ''0'' (replicate (nat (- x) - 1) CHR ''0'' @ ds)
         else point (take 1 ds) (drop 1 ds) @ ''e'' @ (if x < 0 then ''-'' else ''+'')
           @ (let e = dec (nat \<bar>x\<bar>) in if length e < 2 then CHR ''0'' # e else e)))"

section \<open>Integers are exact\<close>

lemma nlog_bounds:
  assumes "2 \<le> b" and "0 < n"
  shows "b ^ nlog b n \<le> n \<and> n < b ^ Suc (nlog b n)"
  using assms
proof (induction b n rule: nlog.induct)
  case (1 b n)
  show ?case
  proof (cases "n < b")
    case True
    then show ?thesis using 1 by (subst (1 2) nlog.simps) simp
  next
    case False
    have "b ^ nlog b (n div b) \<le> n div b \<and> n div b < b ^ Suc (nlog b (n div b))"
      using 1 False by (simp add: div_greater_zero_iff)
    then have "b * b ^ nlog b (n div b) \<le> b * (n div b)" "n < b ^ Suc (nlog b (n div b)) * b"
      using 1(2) by (auto simp only: div_less_iff_less_mult mult_le_mono2)
    moreover have "b * (n div b) \<le> n" by simp
    ultimately have "b * b ^ nlog b (n div b) \<le> n" "n < b ^ Suc (nlog b (n div b)) * b" by linarith+
    then show ?thesis using 1(2) False by (subst (1 2) nlog.simps) (simp add: mult.commute)
  qed
qed

lemma round_even_int: "round_even (of_int i) = i"
  by (simp add: round_even_def)

lemma to_double_nat:
  assumes "0 < n" and "n < 2 ^ 53"
  shows "max (ilog 2 (of_nat n) - 52) (- 1074) = - int (52 - nlog 2 n)" and "nlog 2 n \<le> 52"
proof -
  have "2 ^ nlog 2 n < (2::nat) ^ 53" using nlog_bounds [of 2 n] assms by linarith
  then show k: "nlog 2 n \<le> 52" using power_less_imp_less_exp [of "2::nat" "nlog 2 n" 53] by simp
  have "1 \<le> (of_nat n :: rat)" using assms(1) by simp
  then have "ilog 2 (of_nat n) = int (nlog 2 n)" by (simp add: ilog_def)
  then show "max (ilog 2 (of_nat n) - 52) (- 1074) = - int (52 - nlog 2 n)" using k by simp
qed

lemma to_double_int:
  assumes "\<bar>i\<bar> < 2 ^ 53"
  shows "to_double (of_int i) = Fin (of_int i)"
proof (cases "i = 0")
  case True
  then show ?thesis by (simp add: to_double_def)
next
  case False
  define n where "n = nat \<bar>i\<bar>"
  have n: "0 < n" "n < 2 ^ 53" "\<bar>of_int i\<bar> = (of_nat n :: rat)" using False assms by (simp_all add: n_def)
  define k where "k = 52 - nlog 2 n"
  have e: "max (ilog 2 \<bar>of_int i\<bar> - 52) (- 1074) = - int k" using to_double_nat(1) [OF n(1,2)] by (simp only: n(3) k_def)
  have up: "bpow 2 (int k) = 2 ^ k" by (simp add: bpow_def)
  have down: "bpow 2 (- int k) = 1 / 2 ^ k" by (cases "k = 0") (simp_all add: bpow_def)
  have "(of_nat n :: rat) * 2 ^ k = of_int (int n * 2 ^ k)" by simp
  then have "round_even (of_nat n * 2 ^ k) = int n * 2 ^ k" using round_even_int by metis
  then have v: "of_int (round_even (\<bar>of_int i\<bar> * bpow 2 (- (- int k)))) * bpow 2 (- int k) = (of_nat n :: rat)"
    by (simp add: n(3) up down)
  have "(2::rat) ^ 53 \<le> 2 ^ 1024" by (intro power_increasing) simp_all
  moreover have "(of_nat n :: rat) < 2 ^ 53" using n(2) by (metis of_nat_less_iff of_nat_numeral of_nat_power)
  ultimately have "\<not> bpow 2 1024 \<le> (of_nat n :: rat)" by (simp add: bpow_def)
  then show ?thesis
    using False n(3) unfolding to_double_def Let_def e v by (auto simp: abs_if split: if_splits)
qed

lemma takeWhile_dec: "takeWhile isdigit (dec n) = dec n"
  by (rule takeWhile_eq_all_conv [THEN iffD2]) (blast intro: dec_isdigit)

lemma strtod_show_int:
  assumes "\<bar>i\<bar> < 2 ^ 53"
  shows "strtod (show_int i) = (Fin (of_int i), [])"
proof -
  have q: "of_nat (digits_val 10 (dec n)) * bpow 10 (0 - int (length ([]::string))) = (of_nat n :: rat)" for n
    by (simp add: digits_val_dec bpow_def)
  show ?thesis
  proof (cases "i < 0")
    case True
    have "- of_nat (nat (- i)) = (of_int i :: rat)" using True by simp
    then show ?thesis using True to_double_int [OF assms] q [of "nat (- i)"]
      by (simp add: strtod_def show_int_def exponent_part_def takeWhile_dec Let_def)
  next
    case False
    obtain c ds where d: "dec (nat i) = digit c # ds" "c < 10"
      using dec_digits [of "hd (dec (nat i))" "nat i"] by (metis dec_ne list.collapse list.set_sel(1))
    have "\<not> (hd (dec (nat i)) = CHR ''-'' \<or> hd (dec (nat i)) = CHR ''+'')" using digit_no_space [OF d(2)] d(1) by simp
    then show ?thesis using False to_double_int [OF assms] q [of "nat i"]
      by (simp add: strtod_def show_int_def exponent_part_def takeWhile_dec Let_def)
  qed
qed

lemma exponent_suffix: "exponent_part s = (x, r) \<Longrightarrow> suffix r s"
proof (cases s)
  case (Cons c t)
  have "suffix (drop n t) (c # t)" "suffix (drop n (tl t)) (c # t)" for n
    by (metis suffix_ConsI suffix_drop, metis suffix_ConsI suffix_drop suffix_tl suffix_order.trans)
  then show "exponent_part s = (x, r) \<Longrightarrow> ?thesis"
    unfolding exponent_part_def Cons by (auto simp: Let_def split: if_splits)
qed (simp add: exponent_part_def)

lemma strtod_suffix:
  assumes "strtod s = (d, r)"
  shows "suffix r s"
proof -
  let ?t = "if s \<noteq> [] \<and> (hd s = CHR ''-'' \<or> hd s = CHR ''+'') then tl s else s"
  have t: "suffix ?t s" by (simp add: suffix_tl)
  let ?u = "drop (length (takeWhile isdigit ?t)) ?t"
  have u: "suffix ?u s" using suffix_order.trans [OF suffix_drop t] .
  have v: "suffix (drop n (tl ?u)) s" for n using suffix_order.trans [OF suffix_order.trans [OF suffix_drop suffix_tl] u] .
  show ?thesis
    using assms suffix_order.trans [OF exponent_suffix] u v
    unfolding strtod_def Let_def by (auto split: if_splits prod.splits)
qed

end
