(* ===== verification/Rss_Json.thy ===== *)
theory Rss_Json imports Rss_Double begin

text \<open>
  JSON values and their printing, from \<open>src/cJSON.c\<close>.  An item is its type with its value; the items of an array
  or an object are a list, in their order, an object's with their names; the pointers that chain them, the copies
  and the references are not modelled.  Allocation is taken to succeed.
\<close>

section \<open>Items\<close>

datatype cJSON =
    cJSON_Invalid
  | cJSON_False
  | cJSON_True
  | cJSON_NULL
  | cJSON_Number (valuedouble: double)
  | cJSON_String (valuestring: string)
  | cJSON_Array "cJSON list"
  | cJSON_Object "(string \<times> cJSON) list"
  | cJSON_Raw string

abbreviation (input) CJSON_NESTING_LIMIT :: nat where "CJSON_NESTING_LIMIT \<equiv> 1000"

abbreviation (input) INT32_MAX :: nat where "INT32_MAX \<equiv> 2147483647"

text \<open>
  The integer of a number: truncated, saturated on overflow.  C leaves the conversion of a NaN undefined; neither
  the parser nor the library makes one.
\<close>

definition saturate :: "int \<Rightarrow> int" where
  "saturate i = max (- (2 ^ 31)) (min (2 ^ 31 - 1) i)"

definition to_integer :: "rat \<Rightarrow> int" where
  "to_integer q = (if q < 0 then - \<lfloor>- q\<rfloor> else \<lfloor>q\<rfloor>)"

fun valueint :: "double \<Rightarrow> int" where
  "valueint (Fin q) = saturate (to_integer q)"
| "valueint (Inf neg) = (if neg then - (2 ^ 31) else 2 ^ 31 - 1)"
| "valueint NaN = 0"

definition double_of_int :: "int \<Rightarrow> double" where
  "double_of_int i = Fin (of_int i)"

section \<open>The output buffer\<close>

text \<open>
  \<open>pb_out\<close> is the text before the offset, \<open>pb_tail\<close> what has been written behind it, up to its terminator; a tail without
  a terminator is overwritten before it is read.
\<close>

record printbuffer =
  pb_length :: nat
  pb_out :: string
  pb_tail :: string
  pb_depth :: nat
  noalloc :: bool
  pb_format :: bool
  pb_high :: nat   \<comment> \<open>no field of the code: the end of the furthest byte stored so far\<close>

definition ensure :: "printbuffer \<Rightarrow> nat \<Rightarrow> printbuffer option" where
  "ensure p needed =
     (if pb_length p > 0 \<and> length (pb_out p) \<ge> pb_length p then None
      else if needed > INT32_MAX then None
      else
        let needed = needed + length (pb_out p) + 1 in
        if needed \<le> pb_length p then Some p
        else if noalloc p then None
        else if needed > INT32_MAX div 2 then
          (if needed \<le> INT32_MAX then Some (p\<lparr>pb_length := INT32_MAX\<rparr>) else None)
        else Some (p\<lparr>pb_length := needed * 2\<rparr>))"

definition update_offset :: "printbuffer \<Rightarrow> printbuffer" where
  "update_offset p = p\<lparr>pb_out := pb_out p @ pb_tail p, pb_tail := []\<rparr>"

text \<open>
  Text written at the offset, with the offset left in front of it or moved behind it.  A print that fails stops where
  it is, with what it has stored: the left side is the buffer of a failed print, the right side of a successful one.
  \<open>z\<close> is 1 where a terminator is stored behind the offset, and else 0.
\<close>

type_synonym printed = "printbuffer + printbuffer"

definition stored :: "nat \<Rightarrow> printbuffer \<Rightarrow> printbuffer" where
  "stored e p = p\<lparr>pb_high := max (pb_high p) e\<rparr>"

definition put_tail :: "nat \<Rightarrow> string \<Rightarrow> printbuffer \<Rightarrow> printed" where
  "put_tail needed s p =
     (case ensure p needed of None \<Rightarrow> Inl p
      | Some p \<Rightarrow> Inr ((stored (length (pb_out p) + length s + 1) p)\<lparr>pb_tail := s\<rparr>))"

definition put_out :: "nat \<Rightarrow> string \<Rightarrow> nat \<Rightarrow> printbuffer \<Rightarrow> printed" where
  "put_out needed s z p =
     (case ensure p needed of None \<Rightarrow> Inl p
      | Some p \<Rightarrow> Inr ((stored (length (pb_out p) + length s + z) p)\<lparr>pb_out := pb_out p @ s, pb_tail := []\<rparr>))"

section \<open>Numbers and strings\<close>

fun double_le :: "double \<Rightarrow> double \<Rightarrow> bool" where
  "double_le (Fin x) (Fin y) \<longleftrightarrow> x \<le> y"
| "double_le (Fin x) (Inf neg) \<longleftrightarrow> \<not> neg"
| "double_le (Inf neg) (Fin y) \<longleftrightarrow> neg"
| "double_le (Inf m) (Inf n) \<longleftrightarrow> m \<or> \<not> n"
| "double_le _ _ \<longleftrightarrow> False"

text \<open>An infinite difference is at most an infinite bound; the difference of equal infinities is no number.\<close>

fun compare_double :: "double \<Rightarrow> double \<Rightarrow> bool" where
  "compare_double (Fin x) (Fin y) = double_le (to_double \<bar>x - y\<bar>) (to_double (max \<bar>x\<bar> \<bar>y\<bar> * DBL_EPSILON))"
| "compare_double (Inf m) (Inf n) = (m \<noteq> n)"
| "compare_double (Inf m) (Fin y) = True"
| "compare_double (Fin x) (Inf n) = True"
| "compare_double _ _ = False"

fun number_text :: "double \<Rightarrow> string" where
  "number_text (Fin q) =
     (if q = of_int (valueint (Fin q)) then show_int (valueint (Fin q))
      else let s = fmt_g 15 q in if compare_double (fst (strtod s)) (Fin q) then s else fmt_g 17 q)"
| "number_text _ = ''null''"

definition print_number :: "double \<Rightarrow> printbuffer \<Rightarrow> printed" where
  "print_number d p =
     (let s = number_text d in if length s > 25 then Inl p else put_out (length s + 1) s 1 p)"

fun escape_extra :: "char \<Rightarrow> nat" where
  "escape_extra c =
     (if c = CHR 0x22 \<or> c = CHR 0x5C \<or> c = CHR 0x08 \<or> c = CHR 0x0C \<or> c = LF \<or> c = CR \<or> c = CHR 0x09 then 1
      else if ccode c < 32 then 5 else 0)"

definition hex_digit :: "nat \<Rightarrow> char" where
  "hex_digit n = (if n < 10 then char_of (48 + n) else char_of (87 + n))"

fun escape_char :: "char \<Rightarrow> string" where
  "escape_char c =
     (if ccode c > 31 \<and> c \<noteq> CHR 0x22 \<and> c \<noteq> CHR 0x5C then [c]
      else CHR 0x5C #
        (if c = CHR 0x5C then [CHR 0x5C] else if c = CHR 0x22 then [CHR 0x22]
         else if c = CHR 0x08 then ''b'' else if c = CHR 0x0C then ''f'' else if c = LF then ''n''
         else if c = CR then ''r'' else if c = CHR 0x09 then ''t''
         else ''u00'' @ [hex_digit (ccode c div 16), hex_digit (ccode c mod 16)]))"

declare escape_extra.simps [simp del] escape_char.simps [simp del]

definition print_string_ptr :: "string \<Rightarrow> printbuffer \<Rightarrow> printed" where
  "print_string_ptr s p =
     (let s = c_str s;
          escape_characters = sum_list (map escape_extra s);
          output_length = length s + escape_characters
      in put_tail (output_length + 3)
           (CHR 0x22 # (if escape_characters = 0 then s else concat (map escape_char s)) @ [CHR 0x22]) p)"

section \<open>Values\<close>

text \<open>The start of a member: indentation, name, colon.\<close>

definition print_key :: "string \<Rightarrow> printbuffer \<Rightarrow> printed" where
  "print_key k p =
     (case (if pb_format p then put_out (pb_depth p) (replicate (pb_depth p) (CHR 0x09)) 0 p else Inr p) of Inl p \<Rightarrow> Inl p
      | Inr p \<Rightarrow>
     (case print_string_ptr k p of Inl p \<Rightarrow> Inl p
      | Inr p \<Rightarrow>
          put_out (if pb_format p then 2 else 1) (CHR '':'' # (if pb_format p then [CHR 0x09] else [])) 0 (update_offset p)))"

fun print_value :: "cJSON \<Rightarrow> printbuffer \<Rightarrow> printed"
  and print_elements :: "cJSON list \<Rightarrow> printbuffer \<Rightarrow> printed"
  and print_members :: "(string \<times> cJSON) list \<Rightarrow> printbuffer \<Rightarrow> printed" where
  "print_value cJSON_NULL p = put_tail 5 ''null'' p"
| "print_value cJSON_False p = put_tail 6 ''false'' p"
| "print_value cJSON_True p = put_tail 5 ''true'' p"
| "print_value (cJSON_Number d) p = print_number d p"
| "print_value (cJSON_Raw s) p = put_tail (length (c_str s) + 1) (c_str s) p"
| "print_value (cJSON_String s) p = print_string_ptr s p"
| "print_value (cJSON_Array es) p =
     (if pb_depth p \<ge> CJSON_NESTING_LIMIT then Inl p
      else case put_out 1 ''['' 0 p of Inl p \<Rightarrow> Inl p
      | Inr p \<Rightarrow>
          (case print_elements es (p\<lparr>pb_depth := pb_depth p + 1\<rparr>) of Inl p \<Rightarrow> Inl p
           | Inr p \<Rightarrow>
               (case put_tail 2 '']'' p of Inl p \<Rightarrow> Inl p | Inr p \<Rightarrow> Inr (p\<lparr>pb_depth := pb_depth p - 1\<rparr>))))"
| "print_value (cJSON_Object ms) p =
     (if pb_depth p \<ge> CJSON_NESTING_LIMIT then Inl p
      else case put_out ((if pb_format p then 2 else 1) + 1) (CHR ''{'' # (if pb_format p then [LF] else [])) 0 p of Inl p \<Rightarrow> Inl p
      | Inr p \<Rightarrow>
          (case print_members ms (p\<lparr>pb_depth := pb_depth p + 1\<rparr>) of Inl p \<Rightarrow> Inl p
           | Inr p \<Rightarrow>
               (case put_tail (if pb_format p then pb_depth p + 1 else 2)
                  ((if pb_format p then replicate (pb_depth p - 1) (CHR 0x09) else []) @ ''}'') p of Inl p \<Rightarrow> Inl p
                | Inr p \<Rightarrow> Inr (p\<lparr>pb_depth := pb_depth p - 1\<rparr>))))"
| "print_value cJSON_Invalid p = Inl p"
| "print_elements [] p = Inr p"
| "print_elements (e # es) p =
     (case print_value e p of Inl p \<Rightarrow> Inl p
      | Inr p \<Rightarrow>
          let p = update_offset p in
          if es = [] then Inr p
          else (case put_out ((if pb_format p then 2 else 1) + 1) (CHR '','' # (if pb_format p then '' '' else [])) 1 p of Inl p \<Rightarrow> Inl p
                | Inr p \<Rightarrow> print_elements es p))"
| "print_members [] p = Inr p"
| "print_members ((k, v) # ms) p =
     (case print_key k p of Inl p \<Rightarrow> Inl p
      | Inr p \<Rightarrow>
     (case print_value v p of Inl p \<Rightarrow> Inl p
      | Inr p \<Rightarrow>
     (case put_out ((if pb_format p then 1 else 0) + (if ms \<noteq> [] then 1 else 0) + 1)
             ((if ms \<noteq> [] then '','' else []) @ (if pb_format p then [LF] else [])) 1 (update_offset p) of Inl p \<Rightarrow> Inl p
      | Inr p \<Rightarrow> print_members ms p)))"

text \<open>The text of a buffer, and what a print returns: the buffer it leaves behind, and its text if it succeeded.\<close>

definition buffer_text :: "printbuffer \<Rightarrow> string" where
  "buffer_text p = pb_out p @ pb_tail p"

definition buffer_of :: "printed \<Rightarrow> printbuffer" where
  "buffer_of r = (case r of Inl p \<Rightarrow> p | Inr p \<Rightarrow> p)"

definition text_of :: "printed \<Rightarrow> string option" where
  "text_of r = (case r of Inl p \<Rightarrow> None | Inr p \<Rightarrow> Some (buffer_text p))"

text \<open>A buffer before a print, of the caller or of memory that may grow.\<close>

definition new_buffer :: "nat \<Rightarrow> bool \<Rightarrow> bool \<Rightarrow> printbuffer" where
  "new_buffer n fixed fmt =
     \<lparr>pb_length = n, pb_out = [], pb_tail = [], pb_depth = 0, noalloc = fixed, pb_format = fmt, pb_high = 0\<rparr>"

definition cJSON_PrintPreallocated :: "cJSON \<Rightarrow> int \<Rightarrow> bool \<Rightarrow> string option" where
  "cJSON_PrintPreallocated item len format =
     (if len < 0 then None else text_of (print_value item (new_buffer (nat len) True format)))"

text \<open>Printing into memory that grows.\<close>

definition print :: "cJSON \<Rightarrow> bool \<Rightarrow> string option" where
  "print item format =
     (case print_value item (new_buffer 256 False format) of Inl p \<Rightarrow> None | Inr p \<Rightarrow> Some (pb_out (update_offset p)))"

definition cJSON_Print :: "cJSON \<Rightarrow> string option" where
  "cJSON_Print item = print item True"

definition cJSON_PrintUnformatted :: "cJSON \<Rightarrow> string option" where
  "cJSON_PrintUnformatted item = print item False"

definition cJSON_PrintBuffered :: "cJSON \<Rightarrow> int \<Rightarrow> bool \<Rightarrow> string option" where
  "cJSON_PrintBuffered item prebuffer fmt =
     (if prebuffer < 0 then None else text_of (print_value item (new_buffer (nat prebuffer) False fmt)))"

end
