(* ===== verification/Rss_Json_Text.thy ===== *)
theory Rss_Json_Text imports Rss_Json begin

text \<open>
  What the printer of \<open>src/cJSON.c\<close> writes: the text of a value as a function of the value (\<open>render\<close>), that every
  successful print is this text inside its buffer, and how much room a buffer must have.
\<close>

section \<open>The text of a value\<close>

definition quoted :: "string \<Rightarrow> string" where
  "quoted s = CHR 0x22 # concat (map escape_char (c_str s)) @ [CHR 0x22]"

definition tabs :: "bool \<Rightarrow> nat \<Rightarrow> string" where
  "tabs fmt d = (if fmt then replicate d (CHR 0x09) else [])"

definition opt_text :: "bool \<Rightarrow> string \<Rightarrow> string" where
  "opt_text b s = (if b then s else [])"

fun render :: "bool \<Rightarrow> nat \<Rightarrow> cJSON \<Rightarrow> string"
  and render_elements :: "bool \<Rightarrow> nat \<Rightarrow> cJSON list \<Rightarrow> string"
  and render_members :: "bool \<Rightarrow> nat \<Rightarrow> (string \<times> cJSON) list \<Rightarrow> string" where
  "render fmt d cJSON_NULL = ''null''"
| "render fmt d cJSON_False = ''false''"
| "render fmt d cJSON_True = ''true''"
| "render fmt d (cJSON_Number n) = number_text n"
| "render fmt d (cJSON_Raw s) = c_str s"
| "render fmt d (cJSON_String s) = quoted s"
| "render fmt d (cJSON_Array es) = ''['' @ render_elements fmt (d + 1) es @ '']''"
| "render fmt d (cJSON_Object ms) = CHR ''{'' # opt_text fmt [LF] @ render_members fmt (d + 1) ms @ tabs fmt d @ ''}''"
| "render fmt d cJSON_Invalid = []"
| "render_elements fmt d [] = []"
| "render_elements fmt d (e # es) =
     render fmt d e @ (if es = [] then [] else CHR '','' # opt_text fmt '' '' @ render_elements fmt d es)"
| "render_members fmt d [] = []"
| "render_members fmt d ((k, v) # ms) =
     tabs fmt d @ quoted k @ CHR '':'' # opt_text fmt [CHR 0x09] @ render fmt d v
     @ opt_text (ms \<noteq> []) '','' @ opt_text fmt [LF] @ render_members fmt d ms"

text \<open>The effect of writing a text: it stands behind the offset, with its terminator inside the buffer.\<close>

definition appends :: "printbuffer \<Rightarrow> string \<Rightarrow> printbuffer \<Rightarrow> bool" where
  "appends p s p' \<longleftrightarrow> buffer_text p' = pb_out p @ s \<and> length (pb_out p) + length s < pb_length p'
     \<and> pb_depth p' = pb_depth p \<and> pb_format p' = pb_format p \<and> noalloc p' = noalloc p
     \<and> (noalloc p \<longrightarrow> pb_length p' = pb_length p)"

lemma ensure_SomeD:
  "ensure p n = Some p' \<Longrightarrow> \<exists>l. p' = p\<lparr>pb_length := l\<rparr> \<and> n + length (pb_out p) < l \<and> (noalloc p \<longrightarrow> l = pb_length p)"
  by (auto simp: ensure_def Let_def split: if_splits intro: exI [of _ "pb_length p"])

lemma put_tail_appends: "put_tail n s p = Inr p' \<Longrightarrow> length s \<le> n \<Longrightarrow> appends p s p'"
  using ensure_SomeD [of p n] by (fastforce simp: put_tail_def stored_def appends_def buffer_text_def split: option.splits)

lemma put_out_appends: "put_out n s z p = Inr p' \<Longrightarrow> length s \<le> n \<Longrightarrow> appends p s p' \<and> pb_tail p' = []"
  using ensure_SomeD [of p n] by (fastforce simp: put_out_def stored_def appends_def buffer_text_def split: option.splits)

lemma update_offset_appends: "appends p s p' \<Longrightarrow> appends p s (update_offset p') \<and> pb_tail (update_offset p') = []"
  by (simp add: appends_def buffer_text_def update_offset_def)

lemma appends_trans: "appends p s p' \<Longrightarrow> pb_tail p' = [] \<Longrightarrow> appends p' t p'' \<Longrightarrow> appends p (s @ t) p''"
  unfolding appends_def buffer_text_def by (auto simp: add.assoc)

lemma appends_refl: "pb_tail p = [] \<Longrightarrow> length (pb_out p) < pb_length p \<Longrightarrow> appends p [] p"
  by (simp add: appends_def buffer_text_def)

lemma appends_room: "appends p s p' \<Longrightarrow> pb_tail p' = [] \<Longrightarrow> length (pb_out p') < pb_length p'"
  unfolding appends_def buffer_text_def by auto

lemma appends_fields: "appends p s p' \<Longrightarrow> pb_depth p' = pb_depth p \<and> pb_format p' = pb_format p"
  by (simp add: appends_def)

lemma length_escape_char: "length (escape_char c) = 1 + escape_extra c"
proof -
  have "ccode CHR 0x08 = 8" "ccode CHR 0x0C = 12" "ccode LF = 10" "ccode CR = 13" "ccode CHR 0x09 = 9" by code_simp+
  then show ?thesis by (auto simp: escape_char.simps escape_extra.simps)
qed

lemma length_quoted: "length (concat (map escape_char s)) = length s + sum_list (map escape_extra s)"
  by (induction s) (simp_all add: length_escape_char)

lemma escape_none: "sum_list (map escape_extra s) = 0 \<Longrightarrow> concat (map escape_char s) = s"
proof (induction s)
  case (Cons c s)
  have "escape_extra c = 0 \<Longrightarrow> escape_char c = [c]" by (auto simp: escape_char.simps escape_extra.simps split: if_splits)
  then show ?case using Cons by simp
qed simp

lemma print_string_tail: "print_string_ptr s p = put_tail (length (quoted s) + 1) (quoted s) p"
  using escape_none [of "c_str s"]
  by (simp add: print_string_ptr_def Let_def quoted_def length_quoted eval_nat_numeral del: sum_list_eq_0_iff)

lemma print_key_appends:
  assumes "print_key k p = Inr p'" and "pb_tail p = []" and "length (pb_out p) < pb_length p"
  shows "appends p (tabs (pb_format p) (pb_depth p) @ quoted k @ CHR '':'' # opt_text (pb_format p) [CHR 0x09]) p' \<and> pb_tail p' = []"
proof -
  let ?f = "pb_format p" and ?d = "pb_depth p"
  obtain p0 p1 where p0: "(if ?f then put_out ?d (replicate ?d (CHR 0x09)) 0 p else Inr p) = Inr p0"
    and p1: "print_string_ptr k p0 = Inr p1"
    and p2: "put_out (if pb_format p1 then 2 else 1) (CHR '':'' # (if pb_format p1 then [CHR 0x09] else [])) 0 (update_offset p1) = Inr p'"
    using assms(1) by (auto simp: print_key_def split: sum.splits)
  have a0: "appends p (tabs ?f ?d) p0 \<and> pb_tail p0 = []"
    using p0 put_out_appends [of ?d "replicate ?d (CHR 0x09)" 0 p p0] appends_refl [OF assms(2,3)] assms(2)
    by (auto simp: tabs_def split: if_splits)
  have s: "appends p0 (quoted k) p1" using p1 put_tail_appends [of "length (quoted k) + 1"] by (simp add: print_string_tail)
  have f: "pb_format p1 = ?f" using a0 s by (simp add: appends_def)
  have "appends (update_offset p1) (CHR '':'' # opt_text ?f [CHR 0x09]) p' \<and> pb_tail p' = []"
    using put_out_appends [OF p2] by (simp add: opt_text_def f)
  then show ?thesis
    using appends_trans [OF _ _ appends_trans] a0 update_offset_appends [OF s] by blast
qed

lemma print_appends:
  "print_value v p = Inr p' \<Longrightarrow> pb_tail p = [] \<Longrightarrow> appends p (render (pb_format p) (pb_depth p) v) p'"
  "print_elements es p = Inr p' \<Longrightarrow> pb_tail p = [] \<Longrightarrow> length (pb_out p) < pb_length p \<Longrightarrow>
     appends p (render_elements (pb_format p) (pb_depth p) es) p' \<and> pb_tail p' = []"
  "print_members ms p = Inr p' \<Longrightarrow> pb_tail p = [] \<Longrightarrow> length (pb_out p) < pb_length p \<Longrightarrow>
     appends p (render_members (pb_format p) (pb_depth p) ms) p' \<and> pb_tail p' = []"
proof (induction v p and es p and ms p arbitrary: p' and p' and p' rule: print_value_print_elements_print_members.induct)
  case (4 d p)
  then show ?case using put_out_appends by (auto simp: print_number_def Let_def split: if_splits)
next
  case (7 es p)
  obtain p1 p2 p3 where d: "pb_depth p < 1000" and p1: "put_out 1 ''['' 0 p = Inr p1"
      and p2: "print_elements es (p1\<lparr>pb_depth := pb_depth p1 + 1\<rparr>) = Inr p2"
      and p3: "put_tail 2 '']'' p2 = Inr p3" and p': "p' = p3\<lparr>pb_depth := pb_depth p3 - 1\<rparr>"
    using "7.prems"(1) by (auto split: if_splits sum.splits)
  have a1: "appends p ''['' p1 \<and> pb_tail p1 = []" using put_out_appends [OF p1] by simp
  have r1: "length (pb_out p1) < pb_length p1" using a1 appends_room by blast
  have a2: "appends (p1\<lparr>pb_depth := pb_depth p1 + 1\<rparr>) (render_elements (pb_format p1) (pb_depth p1 + 1) es) p2 \<and> pb_tail p2 = []"
    using "7.IH" [OF _ p1 p2] d a1 r1 by simp
  have a3: "appends p2 '']'' p3" using put_tail_appends [OF p3] by simp
  show ?case using a1 a2 a3 unfolding p' appends_def buffer_text_def by auto
next
  case (8 ms p)
  let ?f = "pb_format p"
  obtain p1 p2 p3 where d: "pb_depth p < 1000"
      and p1: "put_out ((if ?f then 2 else 1) + 1) (CHR ''{'' # (if ?f then [LF] else [])) 0 p = Inr p1"
      and p2: "print_members ms (p1\<lparr>pb_depth := pb_depth p1 + 1\<rparr>) = Inr p2"
      and p3: "put_tail (if pb_format p2 then pb_depth p2 + 1 else 2)
         ((if pb_format p2 then replicate (pb_depth p2 - 1) (CHR 0x09) else []) @ ''}'') p2 = Inr p3"
      and p': "p' = p3\<lparr>pb_depth := pb_depth p3 - 1\<rparr>"
    using "8.prems"(1) by (auto split: sum.splits if_split_asm)
  have a1: "appends p (CHR ''{'' # opt_text ?f [LF]) p1 \<and> pb_tail p1 = []"
    using put_out_appends [OF p1] by (simp add: opt_text_def)
  have r1: "length (pb_out p1) < pb_length p1" using a1 appends_room by blast
  have a2: "appends (p1\<lparr>pb_depth := pb_depth p1 + 1\<rparr>) (render_members (pb_format p1) (pb_depth p1 + 1) ms) p2 \<and> pb_tail p2 = []"
    using "8.IH" [OF _ p1 p2] d a1 r1 by simp
  have f: "pb_format p1 = ?f" "pb_depth p1 = pb_depth p" "pb_format p2 = ?f" "pb_depth p2 = pb_depth p + 1"
    using a1 a2 by (simp_all add: appends_def)
  have a3: "appends p2 (tabs ?f (pb_depth p) @ ''}'') p3"
    using put_tail_appends [OF p3] f by (cases ?f) (simp_all add: tabs_def)
  show ?case using a1 a2 a3 f unfolding p' appends_def buffer_text_def by auto
next
  case (11 e es p)
  obtain p1 where p1: "print_value e p = Inr p1" using "11.prems"(1) by (auto split: sum.splits)
  have a1: "appends p (render (pb_format p) (pb_depth p) e) (update_offset p1) \<and> pb_tail (update_offset p1) = []"
    using update_offset_appends "11.IH"(1) [OF p1] "11.prems"(2) by blast
  show ?case
  proof (cases "es = []")
    case True
    then show ?thesis using "11.prems"(1) p1 a1 by simp
  next
    case False
    let ?f = "pb_format p"
    have f: "pb_format (update_offset p1) = ?f" "pb_depth (update_offset p1) = pb_depth p" using a1 by (simp_all add: appends_def)
    obtain p2 where p2: "put_out ((if ?f then 2 else 1) + 1) (CHR '','' # (if ?f then '' '' else [])) 1 (update_offset p1) = Inr p2"
      and p3: "print_elements es p2 = Inr p'"
      using "11.prems"(1) p1 False f by (auto simp: Let_def split: sum.splits)
    have a2: "appends (update_offset p1) (CHR '','' # opt_text ?f '' '') p2 \<and> pb_tail p2 = []"
      using put_out_appends [OF p2] by (simp add: opt_text_def)
    have r2: "length (pb_out p2) < pb_length p2" using a2 appends_room by blast
    have g: "pb_format p2 = ?f" "pb_depth p2 = pb_depth p" using a2 f by (simp_all add: appends_def)
    have a3: "appends p2 (render_elements ?f (pb_depth p) es) p' \<and> pb_tail p' = []"
      using "11.IH"(2) [OF p1 refl False _ p3] p2 f g a2 r2 by simp
    show ?thesis using False appends_trans [OF appends_trans] a1 a2 a3 by fastforce
  qed
next
  case (13 k v ms p)
  let ?f = "pb_format p" and ?d = "pb_depth p"
  let ?sep = "(if ms \<noteq> [] then '','' else []) @ (if ?f then [LF] else [])"
  obtain p1 p2 where p1: "print_key k p = Inr p1" and p2: "print_value v p1 = Inr p2"
    using "13.prems"(1) by (auto split: sum.splits)
  have a1: "appends p (tabs ?f ?d @ quoted k @ CHR '':'' # opt_text ?f [CHR 0x09]) p1" and t1: "pb_tail p1 = []"
    using print_key_appends [OF p1 "13.prems"(2,3)] by simp_all
  have f1: "pb_format p1 = ?f" "pb_depth p1 = ?d" using a1 by (simp_all add: appends_def)
  have a2: "appends p1 (render ?f ?d v) (update_offset p2)" and t2: "pb_tail (update_offset p2) = []"
    using update_offset_appends [OF "13.IH"(1) [OF p1 p2 t1]] f1 by simp_all
  have f2: "pb_format p2 = ?f" "pb_format (update_offset p2) = ?f" "pb_depth (update_offset p2) = ?d"
    using a2 f1 by (simp_all add: appends_def update_offset_def)
  obtain p3 where p3: "put_out ((if ?f then 1 else 0) + (if ms \<noteq> [] then 1 else 0) + 1) ?sep 1 (update_offset p2) = Inr p3"
    and p4: "print_members ms p3 = Inr p'"
    using "13.prems"(1) p1 p2 f2(1) by (auto split: sum.splits)
  have a3: "appends (update_offset p2) (opt_text (ms \<noteq> []) '','' @ opt_text ?f [LF]) p3" and t3: "pb_tail p3 = []"
    using put_out_appends [OF p3] by (simp_all add: opt_text_def)
  have f3: "pb_format p3 = ?f" "pb_depth p3 = ?d" using a3 f2 by (simp_all add: appends_def)
  have a4: "appends p3 (render_members ?f ?d ms) p' \<and> pb_tail p' = []"
    using "13.IH"(2) [OF p1 p2 _ p4 t3] p3 f2 f3 appends_room [OF a3 t3] by simp
  show ?case using appends_trans [OF a1 t1 appends_trans [OF a2 t2 appends_trans [OF a3 t3]]] a4 by simp
qed (auto simp: print_string_tail intro: put_tail_appends appends_refl)

section \<open>The room a text needs\<close>

text \<open>What can be printed: no invalid item, numbers within the number buffer, nesting within the limit.\<close>

fun printable :: "nat \<Rightarrow> cJSON \<Rightarrow> bool"
  and printables :: "nat \<Rightarrow> cJSON list \<Rightarrow> bool"
  and printable_members :: "nat \<Rightarrow> (string \<times> cJSON) list \<Rightarrow> bool" where
  "printable d cJSON_Invalid \<longleftrightarrow> False"
| "printable d (cJSON_Number n) \<longleftrightarrow> length (number_text n) \<le> 25"
| "printable d (cJSON_Array es) \<longleftrightarrow> d < CJSON_NESTING_LIMIT \<and> printables (d + 1) es"
| "printable d (cJSON_Object ms) \<longleftrightarrow> d < CJSON_NESTING_LIMIT \<and> printable_members (d + 1) ms"
| "printable d _ \<longleftrightarrow> True"
| "printables d [] \<longleftrightarrow> True"
| "printables d (e # es) \<longleftrightarrow> printable d e \<and> printables d es"
| "printable_members d [] \<longleftrightarrow> True"
| "printable_members d ((k, v) # ms) \<longleftrightarrow> printable d v \<and> printable_members d ms"

definition fixed_room :: "printbuffer \<Rightarrow> bool" where
  "fixed_room p \<longleftrightarrow> noalloc p \<and> pb_length p \<le> INT32_MAX \<and> pb_tail p = []"

definition fits :: "printbuffer \<Rightarrow> string \<Rightarrow> bool" where
  "fits p s \<longleftrightarrow> length (pb_out p) + length s + 2 \<le> pb_length p"

lemma ensure_fixed: "fixed_room p \<Longrightarrow> ensure p n = (if n + length (pb_out p) + 1 \<le> pb_length p then Some p else None)"
  by (auto simp: ensure_def fixed_room_def Let_def)

definition moved :: "string \<Rightarrow> nat \<Rightarrow> printbuffer \<Rightarrow> printbuffer" where
  "moved s z p = (stored (length (pb_out p) + length s + z) p)\<lparr>pb_out := pb_out p @ s, pb_tail := []\<rparr>"

definition tailed :: "string \<Rightarrow> printbuffer \<Rightarrow> printbuffer" where
  "tailed s p = (stored (length (pb_out p) + length s + 1) p)\<lparr>pb_tail := s\<rparr>"

lemma moved_fields [simp]:
  "pb_out (moved s z p) = pb_out p @ s" "pb_tail (moved s z p) = []" "pb_length (moved s z p) = pb_length p"
  "pb_depth (moved s z p) = pb_depth p" "pb_format (moved s z p) = pb_format p" "noalloc (moved s z p) = noalloc p"
  by (simp_all add: moved_def stored_def)

lemma fixed_moved [simp]:
  "fixed_room p \<Longrightarrow> fixed_room (moved s z p)" "fixed_room p \<Longrightarrow> fixed_room (p\<lparr>pb_depth := d\<rparr>)"
  "fixed_room p \<Longrightarrow> fixed_room (update_offset (tailed s p))"
  by (simp_all add: fixed_room_def update_offset_def tailed_def stored_def)

lemma put_fixed:
  assumes "fixed_room p"
  shows "put_tail n s p = (if n + length (pb_out p) + 1 \<le> pb_length p then Inr (tailed s p) else Inl p)"
    and "put_out n s z p = (if n + length (pb_out p) + 1 \<le> pb_length p then Inr (moved s z p) else Inl p)"
  using ensure_fixed [OF assms, of n] by (simp_all add: put_tail_def put_out_def tailed_def moved_def)

text \<open>A buffer behind a text that has been written whole.\<close>

lemma fixed_after:
  assumes "fixed_room p" and "appends p s p'" and "pb_tail p' = []"
  shows "fixed_room p'" and "pb_length p' = pb_length p" and "pb_out p' = pb_out p @ s"
    and "pb_format p' = pb_format p" and "pb_depth p' = pb_depth p"
  using assms by (simp_all add: fixed_room_def appends_def buffer_text_def)

lemma print_key_ok:
  assumes "fixed_room p" and "fits p (tabs (pb_format p) (pb_depth p) @ quoted k @ CHR '':'' # opt_text (pb_format p) [CHR 0x09])"
  shows "\<exists>p'. print_key k p = Inr p'"
proof -
  let ?f = "pb_format p" and ?d = "pb_depth p"
  let ?p0 = "if ?f then moved (tabs ?f ?d) 0 p else p" and ?q = "update_offset (tailed (quoted k) (if ?f then moved (tabs ?f ?d) 0 p else p))"
  have r: "fixed_room ?p0" "fixed_room ?q" using assms(1) by simp_all
  have o: "pb_out ?p0 = pb_out p @ tabs ?f ?d" "pb_length ?p0 = pb_length p" by (simp_all add: tabs_def)
  have q: "pb_out ?q = pb_out p @ tabs ?f ?d @ quoted k" "pb_length ?q = pb_length p" "pb_format ?q = ?f"
    using o by (simp_all add: update_offset_def tailed_def stored_def)
  have p0: "(if ?f then put_out ?d (replicate ?d (CHR 0x09)) 0 p else Inr p) = Inr ?p0"
    using put_fixed(2) [OF assms(1)] assms by (cases ?f) (simp_all add: tabs_def fits_def)
  have p1: "print_string_ptr k ?p0 = Inr (tailed (quoted k) ?p0)"
    using put_fixed(1) [OF r(1)] assms(2) o by (simp add: print_string_tail fits_def)
  have "\<exists>p'. put_out (if ?f then 2 else 1) (CHR '':'' # (if ?f then [CHR 0x09] else [])) 0 ?q = Inr p'"
    using put_fixed(2) [OF r(2)] assms(2) q by (cases ?f) (simp_all add: fits_def opt_text_def)
  then show ?thesis using p1 q(3) by (simp add: print_key_def p0 update_offset_def)
qed

lemma value_needs_room:
  assumes "print_value v p = Inr p'" and "fixed_room p"
  shows "fits p (render (pb_format p) (pb_depth p) v)"
proof (cases v)
  case (cJSON_Array es)
  obtain p1 p2 p3 where p1: "put_out 1 ''['' 0 p = Inr p1" and p2: "print_elements es (p1\<lparr>pb_depth := pb_depth p1 + 1\<rparr>) = Inr p2"
      and p3: "put_tail 2 '']'' p2 = Inr p3"
    using assms(1) by (auto simp: cJSON_Array split: if_splits sum.splits)
  have a1: "appends p ''['' p1" "pb_tail p1 = []" using put_out_appends [OF p1] by simp_all
  note f1 = fixed_after [OF assms(2) a1]
  have d1: "fixed_room (p1\<lparr>pb_depth := pb_depth p1 + 1\<rparr>)" using f1(1) by (simp add: fixed_room_def)
  have a2: "appends (p1\<lparr>pb_depth := pb_depth p1 + 1\<rparr>) (render_elements (pb_format p) (pb_depth p + 1) es) p2 \<and> pb_tail p2 = []"
    using print_appends(2) [OF p2] a1 appends_room [OF a1] f1 by simp
  note f2 = fixed_after [OF d1 conjunct1 [OF a2] conjunct2 [OF a2]]
  show ?thesis
    using p3 put_fixed(1) [OF f2(1), of 2 "'']''"] f1 f2 by (auto simp: cJSON_Array fits_def split: if_splits)
next
  case (cJSON_Object ms)
  let ?f = "pb_format p"
  obtain p1 p2 p3 where p1: "put_out ((if ?f then 2 else 1) + 1) (CHR ''{'' # (if ?f then [LF] else [])) 0 p = Inr p1"
      and p2: "print_members ms (p1\<lparr>pb_depth := pb_depth p1 + 1\<rparr>) = Inr p2"
      and p3: "put_tail (if pb_format p2 then pb_depth p2 + 1 else 2)
         ((if pb_format p2 then replicate (pb_depth p2 - 1) (CHR 0x09) else []) @ ''}'') p2 = Inr p3"
    using assms(1) by (auto simp: cJSON_Object split: sum.splits if_split_asm)
  have a1: "appends p (CHR ''{'' # opt_text ?f [LF]) p1" "pb_tail p1 = []"
    using put_out_appends [OF p1] by (simp_all add: opt_text_def)
  note f1 = fixed_after [OF assms(2) a1]
  have d1: "fixed_room (p1\<lparr>pb_depth := pb_depth p1 + 1\<rparr>)" using f1(1) by (simp add: fixed_room_def)
  have a2: "appends (p1\<lparr>pb_depth := pb_depth p1 + 1\<rparr>) (render_members ?f (pb_depth p + 1) ms) p2 \<and> pb_tail p2 = []"
    using print_appends(3) [OF p2] a1 appends_room [OF a1] f1 by simp
  note f2 = fixed_after [OF d1 conjunct1 [OF a2] conjunct2 [OF a2]]
  show ?thesis
    using p3 put_fixed(1) [OF f2(1)] f1 f2 by (auto simp: cJSON_Object fits_def tabs_def split: if_splits)
qed (use assms put_fixed [OF assms(2)] in \<open>auto simp: fits_def print_string_tail print_number_def Let_def split: if_splits\<close>)

lemma print_ok:
  "printable (pb_depth p) v \<Longrightarrow> fixed_room p \<Longrightarrow> fits p (render (pb_format p) (pb_depth p) v) \<Longrightarrow> \<exists>p'. print_value v p = Inr p'"
  "printables (pb_depth p) es \<Longrightarrow> fixed_room p \<Longrightarrow> es = [] \<or> fits p (render_elements (pb_format p) (pb_depth p) es) \<Longrightarrow>
     \<exists>p'. print_elements es p = Inr p'"
  "printable_members (pb_depth p) ms \<Longrightarrow> fixed_room p \<Longrightarrow> ms = [] \<or> fits p (render_members (pb_format p) (pb_depth p) ms) \<Longrightarrow>
     \<exists>p'. print_members ms p = Inr p'"
proof (induction v p and es p and ms p rule: print_value_print_elements_print_members.induct)
  case (7 es p)
  let ?p1 = "(moved ''['' 0 p)\<lparr>pb_depth := pb_depth p + 1\<rparr>"
  have p1: "put_out 1 ''['' 0 p = Inr (moved ''['' 0 p)"
    using put_fixed(2) [OF "7.prems"(2)] "7.prems"(3) by (simp add: fits_def)
  have r1: "fixed_room ?p1" using "7.prems"(2) by simp
  obtain p2 where p2: "print_elements es ?p1 = Inr p2"
    using "7.IH" [OF _ p1] "7.prems" r1 by (auto simp: fits_def)
  have a2: "appends ?p1 (render_elements (pb_format p) (pb_depth p + 1) es) p2 \<and> pb_tail p2 = []"
    using print_appends(2) [OF p2] "7.prems"(3) by (simp add: fits_def)
  note f2 = fixed_after [OF r1 conjunct1 [OF a2] conjunct2 [OF a2]]
  show ?case using "7.prems"(1,3) p1 p2 put_fixed(1) [OF f2(1)] f2 by (simp add: fits_def)
next
  case (8 ms p)
  let ?f = "pb_format p"
  let ?p1 = "(moved (CHR ''{'' # (if ?f then [LF] else [])) 0 p)\<lparr>pb_depth := pb_depth p + 1\<rparr>"
  have p1: "put_out ((if ?f then 2 else 1) + 1) (CHR ''{'' # (if ?f then [LF] else [])) 0 p
      = Inr (moved (CHR ''{'' # (if ?f then [LF] else [])) 0 p)"
    using put_fixed(2) [OF "8.prems"(2)] "8.prems"(3) by (simp add: fits_def opt_text_def)
  have r1: "fixed_room ?p1" using "8.prems"(2) by simp
  obtain p2 where p2: "print_members ms ?p1 = Inr p2"
    using "8.IH" [OF _ p1] "8.prems" r1 by (auto simp: fits_def opt_text_def)
  have a2: "appends ?p1 (render_members ?f (pb_depth p + 1) ms) p2 \<and> pb_tail p2 = []"
    using print_appends(3) [OF p2] "8.prems"(3) by (simp add: fits_def opt_text_def)
  note f2 = fixed_after [OF r1 conjunct1 [OF a2] conjunct2 [OF a2]]
  show ?case using "8.prems"(1,3) p1 p2 put_fixed(1) [OF f2(1)] f2 by (cases ?f) (simp_all add: fits_def opt_text_def tabs_def)
next
  case (11 e es p)
  let ?f = "pb_format p" and ?d = "pb_depth p"
  obtain p1 where p1: "print_value e p = Inr p1" using "11.IH"(1) "11.prems" by (auto simp: fits_def)
  have a1: "appends p (render ?f ?d e) (update_offset p1)" "pb_tail (update_offset p1) = []"
    using update_offset_appends [OF print_appends(1) [OF p1]] "11.prems"(2) by (auto simp: fixed_room_def)
  note f1 = fixed_after [OF "11.prems"(2) a1]
  show ?case
  proof (cases "es = []")
    case True
    then show ?thesis using p1 by simp
  next
    case False
    let ?p2 = "moved (CHR '','' # (if ?f then '' '' else [])) 1 (update_offset p1)"
    have fit: "fits p (render ?f ?d e @ CHR '','' # opt_text ?f '' '' @ render_elements ?f ?d es)"
      using "11.prems"(3) False by simp
    have p2: "put_out ((if ?f then 2 else 1) + 1) (CHR '','' # (if ?f then '' '' else [])) 1 (update_offset p1) = Inr ?p2"
      using put_fixed(2) [OF f1(1)] f1 fit False by (cases ?f) (simp_all add: fits_def opt_text_def)
    have "fixed_room ?p2" using f1(1) by simp
    then show ?thesis
      using "11.IH"(2) [OF p1 refl False, of ?p2] p1 p2 f1 fit False "11.prems"(1) by (simp add: Let_def fits_def opt_text_def)
  qed
next
  case (13 k v ms p)
  let ?f = "pb_format p" and ?d = "pb_depth p"
  let ?key = "tabs ?f ?d @ quoted k @ CHR '':'' # opt_text ?f [CHR 0x09]"
  let ?sep = "(if ms \<noteq> [] then '','' else []) @ (if ?f then [LF] else [])"
  have fit: "fits p (?key @ render ?f ?d v @ ?sep @ render_members ?f ?d ms)"
    using "13.prems"(3) by (simp add: opt_text_def)
  have "fits p ?key" using fit by (simp add: fits_def)
  from print_key_ok [OF "13.prems"(2) this] obtain p1 where p1: "print_key k p = Inr p1" by blast
  have a1: "appends p ?key p1" "pb_tail p1 = []"
    using print_key_appends [OF p1] "13.prems"(2) fit by (auto simp: fixed_room_def fits_def)
  note f1 = fixed_after [OF "13.prems"(2) a1]
  obtain p2 where p2: "print_value v p1 = Inr p2"
    using "13.IH"(1) [OF p1 _ f1(1)] "13.prems"(1) fit f1 by (auto simp: fits_def)
  have a2: "appends p1 (render ?f ?d v) (update_offset p2)" "pb_tail (update_offset p2) = []"
    using update_offset_appends [OF print_appends(1) [OF p2]] a1 f1 by auto
  note f2 = fixed_after [OF f1(1) a2]
  let ?p3 = "moved ?sep 1 (update_offset p2)"
  have f: "pb_format p2 = ?f" using f1 f2 by (simp add: update_offset_def)
  have need: "fits p1 (render ?f ?d v)" using value_needs_room [OF p2 f1(1)] f1 by simp
  have p3: "put_out ((if ?f then 1 else 0) + (if ms \<noteq> [] then 1 else 0) + 1) ?sep 1 (update_offset p2) = Inr ?p3"
    using put_fixed(2) [OF f2(1)] f1 f2 fit need by (simp add: fits_def split: if_splits)
  have r3: "fixed_room ?p3" using f2(1) by simp
  show ?case
    using "13.IH"(2) [OF p1 p2 _ _ r3] p1 p2 p3 f f1 f2 fit "13.prems"(1) by (simp add: fits_def)
qed (use put_fixed in \<open>auto simp: fits_def print_string_tail print_number_def Let_def\<close>)

text \<open>Every print writes the text of the value.\<close>

lemma json_preallocated_text: "cJSON_PrintPreallocated v n fmt = Some s \<Longrightarrow> s = render fmt 0 v"
  using print_appends(1) by (fastforce simp: cJSON_PrintPreallocated_def text_of_def new_buffer_def appends_def split: if_splits sum.splits)

lemma json_preallocated_room:
  assumes "cJSON_PrintPreallocated v n fmt = Some s" and "n < 2 ^ 31"
  shows "int (length s) + 2 \<le> n"
proof -
  let ?p = "new_buffer (nat n) True fmt"
  obtain p' where p: "print_value v ?p = Inr p'" "0 \<le> n" using assms(1) by (auto simp: cJSON_PrintPreallocated_def text_of_def split: if_splits sum.splits)
  have "fits ?p (render fmt 0 v)" using value_needs_room [OF p(1)] assms(2) by (simp add: fixed_room_def new_buffer_def)
  then show ?thesis using json_preallocated_text [OF assms(1)] p(2) by (simp add: fits_def new_buffer_def)
qed

lemma json_preallocated_ok:
  assumes "printable 0 v" and "length (render fmt 0 v) + 2 \<le> n" and "n \<le> INT32_MAX"
  shows "cJSON_PrintPreallocated v (int n) fmt = Some (render fmt 0 v)"
proof -
  let ?p = "new_buffer n True fmt"
  obtain p' where "print_value v ?p = Inr p'" using print_ok(1) [of ?p v] assms by (auto simp: fixed_room_def fits_def new_buffer_def)
  then show ?thesis using json_preallocated_text [of v "int n" fmt] by (auto simp: cJSON_PrintPreallocated_def text_of_def)
qed

lemma json_print_text: "print v fmt = Some s \<Longrightarrow> s = render fmt 0 v"
  using print_appends(1) by (fastforce simp: print_def new_buffer_def update_offset_def appends_def buffer_text_def split: sum.splits)

text \<open>Conversely, only what is printable is printed.\<close>

lemma print_printable:
  "print_value v p = Inr p' \<Longrightarrow> pb_tail p = [] \<Longrightarrow> printable (pb_depth p) v"
  "print_elements es p = Inr p' \<Longrightarrow> pb_tail p = [] \<Longrightarrow> printables (pb_depth p) es"
  "print_members ms p = Inr p' \<Longrightarrow> pb_tail p = [] \<Longrightarrow> length (pb_out p) < pb_length p \<Longrightarrow> printable_members (pb_depth p) ms"
proof (induction v p and es p and ms p arbitrary: p' and p' and p' rule: print_value_print_elements_print_members.induct)
  case (4 d p)
  then show ?case by (simp add: print_number_def Let_def split: if_splits)
next
  case (7 es p)
  obtain p1 p2 where d: "pb_depth p < 1000" and p1: "put_out 1 ''['' 0 p = Inr p1"
      and p2: "print_elements es (p1\<lparr>pb_depth := pb_depth p1 + 1\<rparr>) = Inr p2"
    using "7.prems"(1) by (auto split: if_splits sum.splits)
  have a1: "appends p ''['' p1 \<and> pb_tail p1 = []" using put_out_appends [OF p1] by simp
  then show ?case using "7.IH" [OF _ p1 p2] d appends_fields [of p "''[''" p1] by simp
next
  case (8 ms p)
  let ?f = "pb_format p"
  obtain p1 p2 where d: "pb_depth p < 1000"
      and p1: "put_out ((if ?f then 2 else 1) + 1) (CHR ''{'' # (if ?f then [LF] else [])) 0 p = Inr p1"
      and p2: "print_members ms (p1\<lparr>pb_depth := pb_depth p1 + 1\<rparr>) = Inr p2"
    using "8.prems"(1) by (auto split: sum.splits if_split_asm)
  have a1: "appends p (CHR ''{'' # opt_text ?f [LF]) p1" "pb_tail p1 = []"
    using put_out_appends [OF p1] by (simp_all add: opt_text_def)
  then show ?case using "8.IH" [OF _ p1 p2] d appends_fields [OF a1(1)] appends_room [OF a1] by simp
next
  case (11 e es p)
  obtain p1 where p1: "print_value e p = Inr p1" using "11.prems"(1) by (auto split: sum.splits)
  have a1: "appends p (render (pb_format p) (pb_depth p) e) (update_offset p1)"
    using update_offset_appends [OF print_appends(1) [OF p1]] "11.prems"(2) by blast
  show ?case
  proof (cases "es = []")
    case True
    then show ?thesis using "11.IH"(1) [OF p1] "11.prems"(2) by simp
  next
    case False
    let ?f = "pb_format (update_offset p1)"
    obtain p2 where p2: "put_out ((if ?f then 2 else 1) + 1) (CHR '','' # (if ?f then '' '' else [])) 1 (update_offset p1) = Inr p2"
      and p3: "print_elements es p2 = Inr p'"
      using "11.prems"(1) p1 False by (auto simp: Let_def split: sum.splits)
    have a2: "appends (update_offset p1) (CHR '','' # opt_text ?f '' '') p2 \<and> pb_tail p2 = []"
      using put_out_appends [OF p2] by (simp add: opt_text_def)
    have "printables (pb_depth p2) es" using "11.IH"(2) [OF p1 refl False p2 p3] a2 by simp
    then show ?thesis
      using "11.IH"(1) [OF p1 "11.prems"(2)] appends_fields [OF a1] appends_fields [OF conjunct1 [OF a2]] by simp
  qed
next
  case (13 k v ms p)
  obtain p1 p2 p3 where p1: "print_key k p = Inr p1" and p2: "print_value v p1 = Inr p2"
    and p3: "put_out ((if pb_format p2 then 1 else 0) + (if ms \<noteq> [] then 1 else 0) + 1)
      ((if ms \<noteq> [] then '','' else []) @ (if pb_format p2 then [LF] else [])) 1 (update_offset p2) = Inr p3"
    and p4: "print_members ms p3 = Inr p'"
    using "13.prems"(1) by (auto split: sum.splits)
  note a1 = print_key_appends [OF p1 "13.prems"(2,3)]
  have a2: "appends p1 (render (pb_format p1) (pb_depth p1) v) (update_offset p2)"
    using update_offset_appends [OF print_appends(1) [OF p2]] a1 by blast
  have a3: "appends (update_offset p2) (opt_text (ms \<noteq> []) '','' @ opt_text (pb_format p2) [LF]) p3" "pb_tail p3 = []"
    using put_out_appends [OF p3] by (simp_all add: opt_text_def)
  have "pb_depth p1 = pb_depth p" "pb_depth p3 = pb_depth p"
    using appends_fields [OF conjunct1 [OF a1]] appends_fields [OF a2] appends_fields [OF a3(1)] by simp_all
  then show ?case
    using "13.IH"(1) [OF p1 p2] a1 "13.IH"(2) [OF p1 p2 p3 p4 a3(2)] appends_room [OF a3] by simp
qed simp_all

section \<open>Where a print writes\<close>

text \<open>
  What a print leaves behind, whether it succeeds or stops: nothing was stored behind the end of the buffer, and a
  buffer of the caller has kept its size.
\<close>

definition inside :: "printbuffer \<Rightarrow> bool" where
  "inside p \<longleftrightarrow> pb_high p \<le> pb_length p"

definition stays :: "printbuffer \<Rightarrow> printed \<Rightarrow> bool" where
  "stays p r \<longleftrightarrow> inside (buffer_of r) \<and> (noalloc p \<longrightarrow> noalloc (buffer_of r) \<and> pb_length (buffer_of r) = pb_length p)"

lemma stays_stop [intro]: "inside p \<Longrightarrow> stays p (Inl p)"
  and stays_go [intro]: "inside p \<Longrightarrow> stays p (Inr p)" "inside p \<Longrightarrow> stays p (Inr (update_offset p))"
    "inside p \<Longrightarrow> stays p (Inr (p\<lparr>pb_depth := d\<rparr>))"
  by (simp_all add: stays_def buffer_of_def inside_def update_offset_def)

lemma inside_update [simp]:
  "inside (update_offset p) = inside p" "inside (p\<lparr>pb_depth := d\<rparr>) = inside p"
  "stays (update_offset p) = stays p" "stays (p\<lparr>pb_depth := d\<rparr>) = stays p"
  by (simp_all add: inside_def stays_def update_offset_def fun_eq_iff)

lemma stays_inside: "stays p (Inr q) \<Longrightarrow> inside q"
  by (simp add: stays_def buffer_of_def)

lemma stays_trans: "stays p (Inr q) \<Longrightarrow> stays q r \<Longrightarrow> stays p r"
  by (simp add: stays_def buffer_of_def)

lemma stays_bind:
  assumes "stays p r" and "\<And>q. r = Inr q \<Longrightarrow> inside q \<Longrightarrow> stays q (f q)"
  shows "stays p (case r of Inl q \<Rightarrow> Inl q | Inr q \<Rightarrow> f q)"
proof (cases r)
  case (Inl q)
  then show ?thesis using assms(1) by simp
next
  case (Inr q)
  then show ?thesis using assms stays_inside stays_trans by force
qed

lemma stays_put_tail: "inside p \<Longrightarrow> length s \<le> n \<Longrightarrow> stays p (put_tail n s p)"
  using ensure_SomeD [of p n]
  by (cases "ensure p n")
    (fastforce simp: put_tail_def stays_def buffer_of_def inside_def stored_def ensure_def Let_def split: if_splits)+

lemma stays_put_out: "inside p \<Longrightarrow> length s + z \<le> n + 1 \<Longrightarrow> stays p (put_out n s z p)"
  using ensure_SomeD [of p n]
  by (cases "ensure p n")
    (fastforce simp: put_out_def stays_def buffer_of_def inside_def stored_def ensure_def Let_def split: if_splits)+

lemma stays_put_next: "inside p \<Longrightarrow> length s + z \<le> n + 1 \<Longrightarrow> stays p (put_out n s z (update_offset p))"
  using stays_put_out [of "update_offset p"] by simp

lemma stays_string: "inside p \<Longrightarrow> stays p (print_string_ptr s p)"
  by (simp add: print_string_tail stays_put_tail)

lemma stays_key: "inside p \<Longrightarrow> stays p (print_key k p)"
  unfolding print_key_def
  by (intro stays_bind stays_string) (auto intro!: stays_put_next stays_put_out)

lemma print_stays:
  "inside p \<Longrightarrow> stays p (print_value v p)"
  "inside p \<Longrightarrow> stays p (print_elements es p)"
  "inside p \<Longrightarrow> stays p (print_members ms p)"
proof (induction v p and es p and ms p rule: print_value_print_elements_print_members.induct)
  case (7 es p)
  then show ?case by (auto intro!: stays_bind stays_put_out stays_put_tail)
next
  case (8 ms p)
  then show ?case by (auto intro!: stays_bind stays_put_out stays_put_tail)
next
  case (11 e es p)
  then show ?case by (auto intro!: stays_bind stays_put_next simp: Let_def)
next
  case (13 k v ms p)
  then show ?case by (auto intro!: stays_bind stays_key stays_put_next)
qed (auto intro: stays_put_tail stays_put_out stays_string simp: print_number_def Let_def)

text \<open>
  C31. Printing into a buffer of the caller succeeds exactly if the value is one that can be printed and its text and
  two bytes fit, and then the buffer holds the text of the value; and no print, whether it succeeds or stops on the
  way, stores a byte behind the end of the buffer.
\<close>

lemma json_print_exact:
  assumes "0 \<le> n" and "n < 2 ^ 31"
  shows "cJSON_PrintPreallocated v n fmt
      = (if printable 0 v \<and> int (length (render fmt 0 v)) + 2 \<le> n then Some (render fmt 0 v) else None)
    \<and> int (pb_high (buffer_of (print_value v (new_buffer (nat n) True fmt)))) \<le> n"
proof
  let ?p = "new_buffer (nat n) True fmt"
  show "cJSON_PrintPreallocated v n fmt
      = (if printable 0 v \<and> int (length (render fmt 0 v)) + 2 \<le> n then Some (render fmt 0 v) else None)"
  proof (cases "printable 0 v \<and> int (length (render fmt 0 v)) + 2 \<le> n")
    case True
    then have "length (render fmt 0 v) + 2 \<le> nat n" "nat n \<le> INT32_MAX" using True assms(2) by (linarith, simp)
    then show ?thesis using True json_preallocated_ok [of v fmt "nat n"] assms(1) by simp
  next
    case False
    have "\<not> printable 0 v \<Longrightarrow> cJSON_PrintPreallocated v n fmt = None"
      using print_printable(1) [of v ?p] by (auto simp: cJSON_PrintPreallocated_def text_of_def new_buffer_def split: sum.splits)
    then show ?thesis
      using False json_preallocated_room [of v n fmt] json_preallocated_text [of v n fmt] assms(2)
      by (cases "cJSON_PrintPreallocated v n fmt") auto
  qed
  have "stays ?p (print_value v ?p)" by (rule print_stays) (simp add: inside_def new_buffer_def)
  then show "int (pb_high (buffer_of (print_value v ?p))) \<le> n"
    using assms(1) by (auto simp: stays_def inside_def new_buffer_def)
qed

lemma json_print_exact_witness:
  "cJSON_PrintPreallocated (cJSON_Object [(''status'', cJSON_String ''ok'')]) 16 False = None
   \<and> cJSON_PrintPreallocated (cJSON_Object [(''status'', cJSON_String ''ok'')]) 17 False \<noteq> None
   \<and> pb_high (buffer_of (print_value (cJSON_Object [(''status'', cJSON_String ''ok'')]) (new_buffer 16 True False))) \<le> 16"
proof -
  let ?v = "cJSON_Object [(''status'', cJSON_String ''ok'')]"
  have "printable 0 ?v" by simp
  moreover have "length (render False 0 ?v) = 15" by code_simp
  ultimately show ?thesis using json_print_exact [of 16 ?v False] json_print_exact [of 17 ?v False] by simp
qed

end
