(* ===== verification/Rss_Json_Parse.thy ===== *)
theory Rss_Json_Parse imports Rss_Json_Text begin

text \<open>
  The JSON parser of \<open>src/cJSON.c\<close>.  The parse buffer is the text that is left from its offset; a function that
  fails yields \<open>None\<close>, and the places an error is reported at are not modelled.  Allocation is taken to succeed.
\<close>

section \<open>White space\<close>

text \<open>A skip that runs to the end of the buffer steps back onto the last character.\<close>

definition buffer_skip_whitespace :: "string \<Rightarrow> string" where
  "buffer_skip_whitespace s =
     (if s = [] then s
      else let r = dropWhile (\<lambda>c. ccode c \<le> 32) s in if r = [] then [last s] else r)"

definition skip_utf8_bom :: "string \<Rightarrow> string" where
  "skip_utf8_bom s = (if 4 < length s \<and> take 3 s = [CHR 0xEF, CHR 0xBB, CHR 0xBF] then drop 3 s else s)"

section \<open>Numbers\<close>

definition number_char :: "char \<Rightarrow> bool" where
  "number_char c \<longleftrightarrow> isdigit c \<or> c \<in> {CHR ''+'', CHR ''-'', CHR ''e'', CHR ''E'', CHR ''.''}"

definition parse_number :: "string \<Rightarrow> (cJSON \<times> string) option" where
  "parse_number s =
     (let t = takeWhile number_char s
      in case strtod t of (d, r) \<Rightarrow> if r = t then None else Some (cJSON_Number d, drop (length t - length r) s))"

section \<open>Strings\<close>

definition hex_val :: "char \<Rightarrow> nat option" where
  "hex_val c =
     (let n = ccode c
      in if 48 \<le> n \<and> n \<le> 57 then Some (n - 48)
         else if 65 \<le> n \<and> n \<le> 70 then Some (n - 55)
         else if 97 \<le> n \<and> n \<le> 102 then Some (n - 87) else None)"

text \<open>A character that is no hexadecimal digit makes the whole number 0.\<close>

definition parse_hex4 :: "string \<Rightarrow> nat" where
  "parse_hex4 s =
     (case those (map hex_val (take 4 s)) of None \<Rightarrow> 0 | Some ds \<Rightarrow> foldl (\<lambda>h d. h * 16 + d) 0 ds)"

definition utf8_bytes :: "nat \<Rightarrow> string option" where
  "utf8_bytes codepoint =
     (let cont = (\<lambda>c. char_of ((c OR 0x80) AND 0xBF :: nat) :: char);
          fst_byte = (\<lambda>c mark. char_of ((c OR mark) AND 0xFF :: nat) :: char)
      in if codepoint < 0x80 then Some [char_of (codepoint AND 0x7F)]
         else if codepoint < 0x800 then
           Some [fst_byte (drop_bit 6 codepoint) 0xC0, cont codepoint]
         else if codepoint < 0x10000 then
           Some [fst_byte (drop_bit 12 codepoint) 0xE0, cont (drop_bit 6 codepoint), cont codepoint]
         else if codepoint \<le> 0x10FFFF then
           Some [fst_byte (drop_bit 18 codepoint) 0xF0, cont (drop_bit 12 codepoint), cont (drop_bit 6 codepoint), cont codepoint]
         else None)"

text \<open>
  \<open>n\<close> is the distance from the text \<open>s\<close> to the end of the input.  The result is the bytes and the length of the
  sequence; \<open>None\<close> is the answer 0.
\<close>

definition utf16_literal_to_utf8 :: "string \<Rightarrow> nat \<Rightarrow> (string \<times> nat) option" where
  "utf16_literal_to_utf8 s n =
     (if n < 6 then None
      else
        let first_code = parse_hex4 (drop 2 s) in
        if 0xDC00 \<le> first_code \<and> first_code \<le> 0xDFFF then None
        else if 0xD800 \<le> first_code \<and> first_code \<le> 0xDBFF then
          if n < 12 then None
          else if s ! 6 \<noteq> CHR 0x5C \<or> s ! 7 \<noteq> CHR ''u'' then None
          else
            let second_code = parse_hex4 (drop 8 s) in
            if second_code < 0xDC00 \<or> second_code > 0xDFFF then None
            else map_option (\<lambda>b. (b, 12))
              (utf8_bytes (0x10000 + (push_bit 10 (first_code AND 0x3FF) OR (second_code AND 0x3FF))))
        else map_option (\<lambda>b. (b, 6)) (utf8_bytes first_code))"

text \<open>The first pass: the distance to the closing quote and the number of escape sequences on the way.\<close>

fun string_end :: "string \<Rightarrow> (nat \<times> nat) option" where
  "string_end [] = None"
| "string_end (c # s) =
     (if c = CHR 0x22 then Some (0, 0)
      else if c = CHR 0x5C then
        (case s of [] \<Rightarrow> None | _ # t \<Rightarrow> map_option (\<lambda>(n, k). (n + 2, k + 1)) (string_end t))
      else map_option (\<lambda>(n, k). (n + 1, k)) (string_end s))"

lemma utf16_length: "utf16_literal_to_utf8 s n = Some (b, l) \<Longrightarrow> (l = 6 \<or> l = 12) \<and> l \<le> n"
  by (auto simp: utf16_literal_to_utf8_def Let_def not_less split: if_splits)

definition simple_escape :: "char \<Rightarrow> char option" where
  "simple_escape e =
     (if e = CHR ''b'' then Some (CHR 0x08) else if e = CHR ''f'' then Some (CHR 0x0C)
      else if e = CHR ''n'' then Some LF else if e = CHR ''r'' then Some CR else if e = CHR ''t'' then Some (CHR 0x09)
      else if e = CHR 0x22 \<or> e = CHR 0x5C \<or> e = CHR ''/'' then Some e else None)"

text \<open>The second pass, over the \<open>n\<close> characters before the end; it may look at the characters behind them.\<close>

function unescape :: "nat \<Rightarrow> string \<Rightarrow> string option" where
  "unescape n s =
     (if n = 0 then Some []
      else if s = [] then None
      else if hd s \<noteq> CHR 0x5C then map_option ((#) (hd s)) (unescape (n - 1) (tl s))
      else if tl s = [] then None
      else if hd (tl s) = CHR ''u'' then
        (case utf16_literal_to_utf8 s n of None \<Rightarrow> None
         | Some (b, l) \<Rightarrow> map_option ((@) b) (unescape (n - l) (drop l s)))
      else (case simple_escape (hd (tl s)) of None \<Rightarrow> None
            | Some e \<Rightarrow> map_option ((#) e) (unescape (n - 2) (tl (tl s)))))"
  by pat_completeness auto
termination
  by (relation "measure fst") (auto dest!: utf16_length)

declare unescape.simps [simp del]

definition parse_string :: "string \<Rightarrow> (string \<times> string) option" where
  "parse_string s =
     (case s of [] \<Rightarrow> None
      | c # t \<Rightarrow>
          if c \<noteq> CHR 0x22 then None
          else case string_end t of None \<Rightarrow> None
          | Some (n, k) \<Rightarrow> map_option (\<lambda>v. (v, drop (n + 1) t)) (unescape n t))"

section \<open>Values\<close>

lemma skip_shorter: "length (buffer_skip_whitespace s) \<le> length s"
  using length_dropWhile_le [of "\<lambda>c. ccode c \<le> 32" s] by (auto simp: buffer_skip_whitespace_def Let_def Suc_le_eq)

lemma skip_ConsD: "buffer_skip_whitespace s = c # r \<Longrightarrow> length r < length s"
  using skip_shorter [of s] by simp

lemma skip_trans: "length s \<le> n \<Longrightarrow> length (buffer_skip_whitespace s) \<le> n"
  using skip_shorter [of s] by simp

text \<open>
  The loops over elements and members take up behind the bracket or the comma.  The comparison of lengths in them is
  what their termination rests on; it always holds (\<open>parse_elements_loop\<close>, \<open>parse_members_loop\<close>).
\<close>

function parse_value :: "nat \<Rightarrow> string \<Rightarrow> (cJSON \<times> string) option"
  and parse_elements :: "nat \<Rightarrow> string \<Rightarrow> (cJSON list \<times> string) option"
  and parse_members :: "nat \<Rightarrow> string \<Rightarrow> ((string \<times> cJSON) list \<times> string) option" where
  "parse_value d s =
     (if take 4 s = ''null'' then Some (cJSON_NULL, drop 4 s)
      else if take 5 s = ''false'' then Some (cJSON_False, drop 5 s)
      else if take 4 s = ''true'' then Some (cJSON_True, drop 4 s)
      else if s = [] then None
      else if hd s = CHR 0x22 then map_option (\<lambda>(v, r). (cJSON_String v, r)) (parse_string s)
      else if hd s = CHR ''-'' \<or> isdigit (hd s) then parse_number s
      else if hd s = CHR ''['' then
        (if d \<ge> CJSON_NESTING_LIMIT then None
         else
           let r = buffer_skip_whitespace (tl s) in
           if r = [] then None
           else if hd r = CHR '']'' then Some (cJSON_Array [], tl r)
           else map_option (\<lambda>(es, r). (cJSON_Array es, r)) (parse_elements (d + 1) r))
      else if hd s = CHR ''{'' then
        (if d \<ge> CJSON_NESTING_LIMIT then None
         else
           let r = buffer_skip_whitespace (tl s) in
           if r = [] then None
           else if hd r = CHR ''}'' then Some (cJSON_Object [], tl r)
           else map_option (\<lambda>(ms, r). (cJSON_Object ms, r)) (parse_members (d + 1) r))
      else None)"
| "parse_elements d s =
     (case parse_value d (buffer_skip_whitespace s) of None \<Rightarrow> None
      | Some (v, r) \<Rightarrow>
          let r = buffer_skip_whitespace r in
          if r = [] then None
          else if hd r = CHR '','' then
            (if length (tl r) < length s then map_option (\<lambda>(vs, r). (v # vs, r)) (parse_elements d (tl r)) else None)
          else if hd r = CHR '']'' then Some ([v], tl r)
          else None)"
| "parse_members d s =
     (if s = [] then None
      else case parse_string (buffer_skip_whitespace s) of None \<Rightarrow> None
      | Some (k, r) \<Rightarrow>
          let r = buffer_skip_whitespace r in
          if r = [] \<or> hd r \<noteq> CHR '':'' then None
          else if length (tl r) < length s then
            (case parse_value d (buffer_skip_whitespace (tl r)) of None \<Rightarrow> None
             | Some (v, r) \<Rightarrow>
                 let r = buffer_skip_whitespace r in
                 if r = [] then None
                 else if hd r = CHR '','' then
                   (if length (tl r) < length s then map_option (\<lambda>(ms, r). ((k, v) # ms, r)) (parse_members d (tl r)) else None)
                 else if hd r = CHR ''}'' then Some ([(k, v)], tl r)
                 else None)
          else None)"
  by pat_completeness auto
termination
proof (relation "measure (\<lambda>x. case x of Inl (d, s) \<Rightarrow> 2 * length s
    | Inr (Inl (d, s)) \<Rightarrow> 2 * length s + 1 | Inr (Inr (d, s)) \<Rightarrow> 2 * length s + 1)", goal_cases)
qed (auto simp: neq_Nil_conv Let_def less_Suc_eq_le le_SucI skip_trans dest!: skip_ConsD)

declare parse_value.simps [simp del] parse_elements.simps [simp del] parse_members.simps [simp del]

section \<open>A whole text\<close>

text \<open>
  The value and the text behind it.  A text that must be terminated is followed by nothing but white space up to a
  NUL; the text of a C string includes its terminator.
\<close>

definition cJSON_ParseWithLengthOpts :: "string \<Rightarrow> bool \<Rightarrow> (cJSON \<times> string) option" where
  "cJSON_ParseWithLengthOpts s require_null_terminated =
     (if s = [] then None
      else case parse_value 0 (buffer_skip_whitespace (skip_utf8_bom s)) of None \<Rightarrow> None
      | Some (v, r) \<Rightarrow>
          if require_null_terminated then
            let r = buffer_skip_whitespace r in if r = [] \<or> hd r \<noteq> NUL then None else Some (v, r)
          else Some (v, r))"

definition cJSON_ParseWithOpts :: "string option \<Rightarrow> bool \<Rightarrow> (cJSON \<times> string) option" where
  "cJSON_ParseWithOpts s require_null_terminated =
     (case s of None \<Rightarrow> None | Some s \<Rightarrow> cJSON_ParseWithLengthOpts (c_str s @ [NUL]) require_null_terminated)"

definition cJSON_Parse :: "string option \<Rightarrow> cJSON option" where
  "cJSON_Parse s = map_option fst (cJSON_ParseWithOpts s False)"

definition cJSON_ParseWithLength :: "string \<Rightarrow> cJSON option" where
  "cJSON_ParseWithLength s = map_option fst (cJSON_ParseWithLengthOpts s False)"

section \<open>Progress\<close>

lemma parse_number_shorter: "parse_number s = Some (v, r) \<Longrightarrow> length r < length s"
proof -
  let ?t = "takeWhile number_char s"
  obtain d q where st: "strtod ?t = (d, q)" by fastforce
  have "length q \<le> length ?t" using suffix_length_le [OF strtod_suffix [OF st]] .
  moreover have "q \<noteq> ?t \<Longrightarrow> length q \<noteq> length ?t" using strtod_suffix [OF st] by (auto simp: suffix_def)
  moreover have "length ?t \<le> length s" by (rule length_takeWhile_le)
  ultimately show "parse_number s = Some (v, r) \<Longrightarrow> ?thesis"
    using st by (auto simp: parse_number_def Let_def split: if_splits)
qed

lemma parse_string_shorter: "parse_string s = Some (v, r) \<Longrightarrow> length r < length s"
  by (cases s) (auto simp: parse_string_def split: if_splits option.splits)

lemma skip_tl_shorter: "buffer_skip_whitespace s \<noteq> [] \<Longrightarrow> length (tl (buffer_skip_whitespace s)) < length s"
  using skip_shorter [of s] by (cases "buffer_skip_whitespace s") simp_all

lemma parse_shorter:
  "parse_value d s = Some (v, r) \<Longrightarrow> length r < length s"
  "parse_elements d s = Some (es, r) \<Longrightarrow> length r < length s"
  "parse_members d s = Some (ms, r) \<Longrightarrow> length r < length s"
proof (induction d s and d s and d s arbitrary: v r and es r and ms r rule: parse_value_parse_elements_parse_members.induct)
  case (1 d s)
  have lit: "take n s = t \<Longrightarrow> length t = n \<Longrightarrow> 0 < n \<Longrightarrow> length (drop n s) < length s" for n t by auto
  consider (null) "take 4 s = ''null''" | (false) "take 5 s = ''false''" | (true) "take 4 s = ''true''"
    | (other) "take 4 s \<noteq> ''null''" "take 5 s \<noteq> ''false''" "take 4 s \<noteq> ''true''" by blast
  then show ?case
  proof cases
    case null
    then show ?thesis using "1.prems" lit [OF null] by (simp add: parse_value.simps)
  next
    case false
    have "take 4 s \<noteq> ''null''" using arg_cong [OF false, of "take 1"] by (auto dest: arg_cong [of _ _ "take 1"])
    then show ?thesis using "1.prems" lit [OF false] false by (simp add: parse_value.simps)
  next
    case true
    have "take 4 s \<noteq> ''null''" "take 5 s \<noteq> ''false''"
      using arg_cong [OF true, of "take 1"] by (auto dest: arg_cong [of _ _ "take 1"])
    then show ?thesis using "1.prems" lit [OF true] true by (simp add: parse_value.simps)
  next
    case other
    have ne: "s \<noteq> []" using "1.prems" other by (auto simp: parse_value.simps)
    let ?r = "buffer_skip_whitespace (tl s)"
    have t: "?r \<noteq> [] \<Longrightarrow> length (tl ?r) < length s" "length ?r < length s"
      using skip_tl_shorter [of "tl s"] skip_shorter [of "tl s"] ne by (cases s; simp)+
    show ?thesis
      using "1.prems" other ne "1.IH" t parse_string_shorter [of s] parse_number_shorter [of s v r]
      by (subst (asm) parse_value.simps) (fastforce simp: Let_def split: if_split_asm)
  qed
next
  case (2 d s)
  obtain v r1 where v: "parse_value d (buffer_skip_whitespace s) = Some (v, r1)"
    using "2.prems" by (subst (asm) parse_elements.simps) (auto split: option.splits)
  let ?r = "buffer_skip_whitespace r1"
  have len: "length r1 < length s" using "2.IH"(1) [OF v] skip_shorter [of s] by simp
  have t: "?r \<noteq> [] \<Longrightarrow> length (tl ?r) < length s" using skip_tl_shorter [of r1] len by simp
  show ?case
    using "2.prems" v t "2.IH"(2) [OF v refl refl] by (subst (asm) parse_elements.simps) (fastforce simp: Let_def split: if_split_asm)
next
  case (3 d s)
  obtain k r1 where k: "parse_string (buffer_skip_whitespace s) = Some (k, r1)"
    using "3.prems" by (subst (asm) parse_members.simps) (auto split: option.splits if_split_asm)
  let ?r = "buffer_skip_whitespace r1"
  obtain v r2 where c: "?r \<noteq> []" "hd ?r = CHR '':''" "length (tl ?r) < length s"
    and v: "parse_value d (buffer_skip_whitespace (tl ?r)) = Some (v, r2)"
    using "3.prems" k by (subst (asm) parse_members.simps) (auto simp: Let_def split: option.splits if_split_asm)
  have s: "s \<noteq> []" "\<not> (?r = [] \<or> hd ?r \<noteq> CHR '':'')" using c by auto
  have len: "length r2 < length s" using "3.IH"(1) [OF s(1) k refl refl s(2) c(3) v] skip_shorter [of "tl ?r"] c(3) by simp
  have t: "buffer_skip_whitespace r2 \<noteq> [] \<Longrightarrow> length (tl (buffer_skip_whitespace r2)) < length s"
    using skip_tl_shorter [of r2] len by simp
  show ?case
    using "3.prems" k c v t "3.IH"(2) [OF s(1) k refl refl s(2) c(3) v refl refl]
    by (subst (asm) parse_members.simps) (fastforce simp: Let_def split: if_split_asm)
qed

text \<open>The loops without the comparison of lengths.\<close>

lemma parse_elements_loop:
  "parse_elements d s =
     (case parse_value d (buffer_skip_whitespace s) of None \<Rightarrow> None
      | Some (v, r) \<Rightarrow>
          let r = buffer_skip_whitespace r in
          if r = [] then None
          else if hd r = CHR '','' then map_option (\<lambda>(vs, r). (v # vs, r)) (parse_elements d (tl r))
          else if hd r = CHR '']'' then Some ([v], tl r)
          else None)"
proof (cases "parse_value d (buffer_skip_whitespace s)")
  case None
  then show ?thesis by (simp add: parse_elements.simps [of d s])
next
  case (Some x)
  obtain v r where x: "x = (v, r)" by (cases x)
  have "length r < length s" using parse_shorter(1) [OF Some [unfolded x]] skip_shorter [of s] by simp
  then have "buffer_skip_whitespace r \<noteq> [] \<Longrightarrow> length (tl (buffer_skip_whitespace r)) < length s"
    using skip_tl_shorter [of r] by simp
  then show ?thesis by (subst parse_elements.simps) (simp add: Some x Let_def)
qed

lemma parse_members_loop:
  "parse_members d s =
     (if s = [] then None
      else case parse_string (buffer_skip_whitespace s) of None \<Rightarrow> None
      | Some (k, r) \<Rightarrow>
          let r = buffer_skip_whitespace r in
          if r = [] \<or> hd r \<noteq> CHR '':'' then None
          else
            (case parse_value d (buffer_skip_whitespace (tl r)) of None \<Rightarrow> None
             | Some (v, r) \<Rightarrow>
                 let r = buffer_skip_whitespace r in
                 if r = [] then None
                 else if hd r = CHR '','' then map_option (\<lambda>(ms, r). ((k, v) # ms, r)) (parse_members d (tl r))
                 else if hd r = CHR ''}'' then Some ([(k, v)], tl r)
                 else None))"
proof (cases "parse_string (buffer_skip_whitespace s)")
  case None
  then show ?thesis by (simp add: parse_members.simps [of d s])
next
  case (Some x)
  obtain k r where x: "x = (k, r)" by (cases x)
  have "length r < length s" using parse_string_shorter [OF Some [unfolded x]] skip_shorter [of s] by simp
  then have r: "buffer_skip_whitespace r \<noteq> [] \<Longrightarrow> length (tl (buffer_skip_whitespace r)) < length s"
    using skip_tl_shorter [of r] by simp
  have v: "buffer_skip_whitespace q \<noteq> [] \<Longrightarrow> length (tl (buffer_skip_whitespace q)) < length s"
    if "buffer_skip_whitespace r \<noteq> []" "parse_value d (buffer_skip_whitespace (tl (buffer_skip_whitespace r))) = Some (v, q)" for v q
    using parse_shorter(1) [OF that(2)] skip_shorter [of "tl (buffer_skip_whitespace r)"] r [OF that(1)] skip_tl_shorter [of q] by simp
  show ?thesis
    by (subst parse_members.simps) (use r v in \<open>auto simp: Some x Let_def split: option.split\<close>)
qed

end
