(* ===== verification/Rss_Json_Safe.thy ===== *)
theory Rss_Json_Safe imports Rss_Json_Parse begin

text \<open>
  What the parser of \<open>src/cJSON.c\<close> guarantees for any input: the text of a string fits the memory allocated for it from
  the first of its two passes, and a parsed value is of the types the format has, nested within the limit.
\<close>

section \<open>The memory of a string\<close>

text \<open>The size of the memory allocated after the first pass.\<close>

definition string_allocation :: "nat \<Rightarrow> nat \<Rightarrow> nat" where
  "string_allocation n skipped_bytes = (n + 1 - skipped_bytes) + 1"

lemma utf8_length: "utf8_bytes c = Some b \<Longrightarrow> length b \<le> 4 \<and> (c < 0x10000 \<longrightarrow> length b \<le> 3)"
  by (auto simp: utf8_bytes_def Let_def split: if_splits)

lemma hex_val_less: "hex_val c = Some d \<Longrightarrow> d < 16"
  by (auto simp: hex_val_def Let_def split: if_splits)

lemma foldl_hex: "list_all (\<lambda>d. d < 16) ds \<Longrightarrow> foldl (\<lambda>h d. h * 16 + d) h ds < (h + 1) * 16 ^ length ds" for h :: nat
proof (induction ds arbitrary: h)
  case (Cons d ds)
  have "foldl (\<lambda>h d. h * 16 + d) (h * 16 + d) ds < (h * 16 + d + 1) * 16 ^ length ds" using Cons by simp
  also have "\<dots> \<le> ((h + 1) * 16) * 16 ^ length ds" by (rule mult_le_mono1) (use Cons.prems in simp)
  finally show ?case by (simp add: algebra_simps)
qed simp

lemma those_hex: "those (map hex_val s) = Some ds \<Longrightarrow> length ds = length s \<and> list_all (\<lambda>d. d < 16) ds"
  by (induction s arbitrary: ds) (auto simp: hex_val_less split: option.splits)

lemma parse_hex4_less: "parse_hex4 s < 0x10000"
proof (cases "those (map hex_val (take 4 s))")
  case (Some ds)
  have "length ds \<le> 4" "list_all (\<lambda>d. d < 16) ds" using those_hex [OF Some] by auto
  then have "foldl (\<lambda>h d. h * 16 + d) 0 ds < 16 ^ length ds" using foldl_hex [of ds 0] by simp
  also have "\<dots> \<le> 16 ^ 4" by (rule power_increasing) (use \<open>length ds \<le> 4\<close> in simp_all)
  finally show ?thesis by (simp add: parse_hex4_def Some)
qed (simp add: parse_hex4_def)

lemma utf16_bytes: "utf16_literal_to_utf8 s n = Some (b, l) \<Longrightarrow> 2 * length b \<le> l \<and> 6 \<le> l \<and> l \<le> n"
  using utf8_length parse_hex4_less [of "drop 2 s"]
  by (fastforce simp: utf16_literal_to_utf8_def Let_def not_less split: if_splits)

text \<open>
  A cut of the text between the quotes: the first pass takes up there or one character later, and has met at most one
  escape sequence in every two characters.
\<close>

lemma string_end_cut:
  "string_end s = Some (n, k) \<Longrightarrow> j \<le> n \<Longrightarrow>
    \<exists>a n' k'. a \<le> 1 \<and> n = j + a + n' \<and> string_end (drop (j + a) s) = Some (n', k') \<and> 2 * k \<le> 2 * k' + j + a"
proof (induction s arbitrary: n k j rule: string_end.induct)
  case (2 c s)
  show ?case
  proof (cases "j = 0")
    case True
    then show ?thesis using "2.prems" by (intro exI [of _ 0] exI [of _ n] exI [of _ k]) simp
  next
    case j: False
    then have q: "c \<noteq> CHR 0x22" using "2.prems" by auto
    show ?thesis
    proof (cases "c = CHR 0x5C")
      case False
      then obtain n1 where n1: "string_end s = Some (n1, k)" "n = n1 + 1" using "2.prems" q by auto
      obtain a n' k' where "a \<le> 1" "n1 = j - 1 + a + n'" "string_end (drop (j - 1 + a) s) = Some (n', k')" "2 * k \<le> 2 * k' + (j - 1) + a"
        using "2.IH"(2) [OF q False n1(1), of "j - 1"] "2.prems"(2) n1(2) by fastforce
      then show ?thesis using j n1 by (intro exI [of _ a] exI [of _ n'] exI [of _ k']) (cases j; simp)
    next
      case True
      then obtain x t n1 k1 where t: "s = x # t" "string_end t = Some (n1, k1)" "n = n1 + 2" "k = k1 + 1"
        using "2.prems" by (auto split: list.splits)
      show ?thesis
      proof (cases "j = 1")
        case True
        then show ?thesis using t by (intro exI [of _ 1] exI [of _ n1] exI [of _ k1]) simp
      next
        case False
        then obtain i where i: "j = i + 2" using j by (metis One_nat_def Suc_1 add_2_eq_Suc' not0_implies_Suc)
        obtain a n' k' where "a \<le> 1" "n1 = i + a + n'" "string_end (drop (i + a) t) = Some (n', k')" "2 * k1 \<le> 2 * k' + i + a"
          using "2.IH"(1) [OF q True t(1) t(2), of i] "2.prems"(2) t i by auto
        then show ?thesis using i t by (intro exI [of _ a] exI [of _ n'] exI [of _ k']) simp
      qed
    qed
  qed
qed simp

text \<open>The second pass, in step with the first (\<open>a = 0\<close>) or one character behind it.\<close>

lemma escapes_bounded: "string_end s = Some (n, k) \<Longrightarrow> 2 * k \<le> n"
  by (induction s arbitrary: n k rule: string_end.induct) (auto split: if_splits list.splits)


lemma unescape_fits:
  "unescape m s = Some out \<Longrightarrow> m = n + a \<Longrightarrow> a \<le> 1 \<Longrightarrow> string_end (drop a s) = Some (n, k) \<Longrightarrow> length out + k \<le> m"
proof (induction m s arbitrary: out n a k rule: unescape.induct)
  case (1 m s)
  note u = "1.prems"(1) [unfolded unescape.simps [of m s]]
  have cut: "\<exists>a' n' k'. m - l = n' + a' \<and> a' \<le> 1 \<and> string_end (drop a' (drop l s)) = Some (n', k') \<and> 2 * k \<le> 2 * k' + (l - a) + a'"
    if "l \<le> m" "1 \<le> l" for l
  proof -
    have le: "l - a \<le> n" using that "1.prems"(2) by simp
    obtain a' n' k' where "a' \<le> 1" "n = l - a + a' + n'" "string_end (drop (l - a + a') (drop a s)) = Some (n', k')" "2 * k \<le> 2 * k' + (l - a) + a'"
      using string_end_cut [OF "1.prems"(4) le] by blast
    then show ?thesis
      using that "1.prems"(2,3) by (intro exI [of _ a'] exI [of _ n'] exI [of _ k']) (simp add: add.commute)
  qed
  show ?case
  proof (cases "m = 0")
    case True
    then show ?thesis using u "1.prems" escapes_bounded by fastforce
  next
    case m: False
    then obtain c t where s: "s = c # t" using u by (cases s) auto
    show ?thesis
    proof (cases "c = CHR 0x5C")
      case False
      then obtain o1 where o1: "unescape (m - 1) t = Some o1" "out = c # o1" using u m s by auto
      have "string_end t = Some (m - 1, k)"
        using "1.prems"(2-4) m s False by (cases a) (auto split: if_splits)
      then show ?thesis using "1.IH"(1) [of o1 "m - 1" 0 k] o1 m s False by simp
    next
      case c: True
      then obtain e r where t: "t = e # r" using u m s by (cases t) auto
      show ?thesis
      proof (cases "e = CHR ''u''")
        case True
        then obtain b l o1 where b: "utf16_literal_to_utf8 s m = Some (b, l)" and o1: "unescape (m - l) (drop l s) = Some o1" "out = b @ o1"
          using u m s c t by (auto split: option.splits)
        have l: "2 * length b \<le> l" "6 \<le> l" "l \<le> m" using utf16_bytes [OF b] by simp_all
        obtain a' n' k' where d: "m - l = n' + a'" "a' \<le> 1" "string_end (drop a' (drop l s)) = Some (n', k')" "2 * k \<le> 2 * k' + (l - a) + a'"
          using cut [of l] l by auto
        have "length o1 + k' \<le> m - l" using "1.IH"(2) [of "(b, l)" b l o1 n' a' k'] m s c t True b o1 d by simp
        then have "length o1 + k' \<le> n' + a'" "m = l + n' + a'" "2 * k \<le> 2 * k' + l + a'" using d(1,4) l by simp_all
        then have "length b + length o1 + k \<le> m" using l(1) d(2) by presburger
        then show ?thesis using o1(2) by simp
      next
        case False
        then obtain x o1 where o1: "unescape (m - 2) r = Some o1" "out = x # o1" and x: "simple_escape e = Some x"
          using u m s c t by (auto split: option.splits)
        show ?thesis
        proof (cases "m = 1")
          case True
          then have "o1 = []" using o1(1) by (simp add: unescape.simps)
          moreover have "k = 0" using escapes_bounded [OF "1.prems"(4)] True "1.prems"(2) by simp
          ultimately show ?thesis using o1(2) True by simp
        next
          case two: False
          then obtain a' n' k' where d: "m - 2 = n' + a'" "a' \<le> 1" "string_end (drop a' r) = Some (n', k')" "2 * k \<le> 2 * k' + (2 - a) + a'"
            using cut [of 2] m s t by auto
          have "length o1 + k' \<le> m - 2" using "1.IH"(3) [of x o1 n' a' k'] m s c t False o1 x d by simp
          then show ?thesis using d two m o1(2) by simp
        qed
      qed
    qed
  qed
qed


text \<open>
  C5. Whatever stands behind the opening quote, the first pass counts no more escape sequences than there are
  characters, so the size of the allocation does not wrap; and the text that the second pass writes, with its
  terminator, fits this allocation.
\<close>

lemma json_string_fits:
  "case string_end s of None \<Rightarrow> parse_string (CHR 0x22 # s) = None
   | Some (n, k) \<Rightarrow> k \<le> n
       \<and> (case unescape n s of None \<Rightarrow> parse_string (CHR 0x22 # s) = None
          | Some out \<Rightarrow> length out + 1 \<le> string_allocation n k \<and> parse_string (CHR 0x22 # s) = Some (out, drop (n + 1) s))"
proof (cases "string_end s")
  case (Some x)
  obtain n k where x: "x = (n, k)" by (cases x)
  have "k \<le> n" using escapes_bounded [OF Some [unfolded x]] by simp
  moreover have "length out + k \<le> n" if "unescape n s = Some out" for out
    using unescape_fits [OF that, of n 0 k] Some x by simp
  ultimately show ?thesis
    using Some x by (fastforce simp: parse_string_def string_allocation_def split: option.split)
qed (simp add: parse_string_def)

section \<open>The types of parsed values\<close>

text \<open>The items of a parsed value: of a type of the format, numbers that are numbers, nested within the limit.\<close>

fun well_typed :: "nat \<Rightarrow> cJSON \<Rightarrow> bool"
  and all_typed :: "nat \<Rightarrow> cJSON list \<Rightarrow> bool"
  and members_typed :: "nat \<Rightarrow> (string \<times> cJSON) list \<Rightarrow> bool" where
  "well_typed d cJSON_Invalid \<longleftrightarrow> False"
| "well_typed d (cJSON_Raw s) \<longleftrightarrow> False"
| "well_typed d (cJSON_Number n) \<longleftrightarrow> n \<noteq> NaN"
| "well_typed d (cJSON_Array es) \<longleftrightarrow> d < CJSON_NESTING_LIMIT \<and> all_typed (d + 1) es"
| "well_typed d (cJSON_Object ms) \<longleftrightarrow> d < CJSON_NESTING_LIMIT \<and> members_typed (d + 1) ms"
| "well_typed d _ \<longleftrightarrow> True"
| "all_typed d [] \<longleftrightarrow> True"
| "all_typed d (e # es) \<longleftrightarrow> well_typed d e \<and> all_typed d es"
| "members_typed d [] \<longleftrightarrow> True"
| "members_typed d ((k, v) # ms) \<longleftrightarrow> well_typed d v \<and> members_typed d ms"

lemma strtod_number: "fst (strtod s) \<noteq> NaN"
proof -
  have "to_double q \<noteq> NaN" for q by (simp add: to_double_def Let_def)
  then show ?thesis by (auto simp: strtod_def Let_def split: prod.split)
qed

lemma parse_number_typed: "parse_number s = Some (v, r) \<Longrightarrow> well_typed d v"
  using strtod_number [of "takeWhile number_char s"] by (auto simp: parse_number_def Let_def split: prod.splits if_splits)

lemma parse_typed:
  "parse_value d s = Some (v, r) \<Longrightarrow> well_typed d v"
  "parse_elements d s = Some (es, r) \<Longrightarrow> all_typed d es"
  "parse_members d s = Some (ms, r) \<Longrightarrow> members_typed d ms"
proof (induction d s and d s and d s arbitrary: v r and es r and ms r rule: parse_value_parse_elements_parse_members.induct)
  case (1 d s)
  show ?case
    using "1.prems" "1.IH" parse_number_typed [of s v r d]
    by (subst (asm) parse_value.simps) (fastforce simp: Let_def split: if_split_asm)
next
  case (2 d s)
  show ?case
    using "2.prems" "2.IH" by (subst (asm) parse_elements.simps) (fastforce simp: Let_def split: if_split_asm option.splits prod.splits)
next
  case (3 d s)
  show ?case
    using "3.prems" "3.IH" by (subst (asm) parse_members.simps) (fastforce simp: Let_def split: if_split_asm option.splits prod.splits)
qed

text \<open>
  C32. Every value the parser returns is of a type of the format: no invalid and no raw item, no number that is not a
  number, and arrays and objects nested at most as deep as the limit.
\<close>

lemma json_parse_typed:
  "(case cJSON_Parse s of None \<Rightarrow> True | Some v \<Rightarrow> well_typed 0 v)
   \<and> (case cJSON_ParseWithLength t of None \<Rightarrow> True | Some v \<Rightarrow> well_typed 0 v)"
  using parse_typed(1)
  by (auto simp: cJSON_Parse_def cJSON_ParseWithLength_def cJSON_ParseWithOpts_def cJSON_ParseWithLengthOpts_def Let_def
      split: option.splits if_splits)

end
