(* ===== verification/Rss_Json_Item.thy ===== *)
theory Rss_Json_Item imports Rss_Json_Parse Rss_Util begin

text \<open>
  Reading and building values: the accessors and constructors of \<open>src/cJSON.c\<close> that the library uses, and the
  getters of \<open>src/rss_util.c\<close> that read a value out of a text.  A pointer that may be \<open>NULL\<close> is an option.
  The items of a value are looked at as the list of its children with their names; how the list is chained by
  pointers is the matter of \<open>Rss_Json_List\<close>.
\<close>

section \<open>Types and values\<close>

definition cJSON_IsFalse :: "cJSON option \<Rightarrow> bool" where
  "cJSON_IsFalse item \<longleftrightarrow> (case item of Some cJSON_False \<Rightarrow> True | _ \<Rightarrow> False)"

definition cJSON_IsTrue :: "cJSON option \<Rightarrow> bool" where
  "cJSON_IsTrue item \<longleftrightarrow> (case item of Some cJSON_True \<Rightarrow> True | _ \<Rightarrow> False)"

definition cJSON_IsBool :: "cJSON option \<Rightarrow> bool" where
  "cJSON_IsBool item \<longleftrightarrow> (case item of Some cJSON_False \<Rightarrow> True | Some cJSON_True \<Rightarrow> True | _ \<Rightarrow> False)"

definition cJSON_IsNull :: "cJSON option \<Rightarrow> bool" where
  "cJSON_IsNull item \<longleftrightarrow> (case item of Some cJSON_NULL \<Rightarrow> True | _ \<Rightarrow> False)"

definition cJSON_IsNumber :: "cJSON option \<Rightarrow> bool" where
  "cJSON_IsNumber item \<longleftrightarrow> (case item of Some (cJSON_Number d) \<Rightarrow> True | _ \<Rightarrow> False)"

definition cJSON_IsString :: "cJSON option \<Rightarrow> bool" where
  "cJSON_IsString item \<longleftrightarrow> (case item of Some (cJSON_String s) \<Rightarrow> True | _ \<Rightarrow> False)"

definition cJSON_IsArray :: "cJSON option \<Rightarrow> bool" where
  "cJSON_IsArray item \<longleftrightarrow> (case item of Some (cJSON_Array es) \<Rightarrow> True | _ \<Rightarrow> False)"

definition cJSON_IsObject :: "cJSON option \<Rightarrow> bool" where
  "cJSON_IsObject item \<longleftrightarrow> (case item of Some (cJSON_Object ms) \<Rightarrow> True | _ \<Rightarrow> False)"

definition cJSON_IsRaw :: "cJSON option \<Rightarrow> bool" where
  "cJSON_IsRaw item \<longleftrightarrow> (case item of Some (cJSON_Raw s) \<Rightarrow> True | _ \<Rightarrow> False)"

definition cJSON_IsInvalid :: "cJSON option \<Rightarrow> bool" where
  "cJSON_IsInvalid item \<longleftrightarrow> (case item of Some cJSON_Invalid \<Rightarrow> True | _ \<Rightarrow> False)"

text \<open>The value of a string is the C string in its memory.\<close>

definition cJSON_GetStringValue :: "cJSON option \<Rightarrow> string option" where
  "cJSON_GetStringValue item = (case item of Some (cJSON_String s) \<Rightarrow> Some (c_str s) | _ \<Rightarrow> None)"

definition cJSON_GetNumberValue :: "cJSON option \<Rightarrow> double" where
  "cJSON_GetNumberValue item = (case item of Some (cJSON_Number d) \<Rightarrow> d | _ \<Rightarrow> NaN)"

section \<open>Children\<close>

fun children :: "cJSON \<Rightarrow> (string option \<times> cJSON) list" where
  "children (cJSON_Array es) = map (Pair None) es"
| "children (cJSON_Object ms) = map (apfst Some) ms"
| "children _ = []"

definition cJSON_GetArraySize :: "cJSON option \<Rightarrow> int" where
  "cJSON_GetArraySize a = (case a of None \<Rightarrow> 0 | Some a \<Rightarrow> to_int32 (int (length (children a))))"

definition get_array_item :: "cJSON option \<Rightarrow> nat \<Rightarrow> cJSON option" where
  "get_array_item a i =
     (case a of None \<Rightarrow> None
      | Some a \<Rightarrow> if i < length (children a) then Some (snd (children a ! i)) else None)"

definition cJSON_GetArrayItem :: "cJSON option \<Rightarrow> int \<Rightarrow> cJSON option" where
  "cJSON_GetArrayItem a i = (if i < 0 then None else get_array_item a (nat i))"

definition case_insensitive_strcmp :: "string option \<Rightarrow> string option \<Rightarrow> int" where
  "case_insensitive_strcmp a b = (case (a, b) of (Some a, Some b) \<Rightarrow> strcasecmp a b | _ \<Rightarrow> 1)"

text \<open>A search with case stops at a child without a name, one without case passes over it.\<close>

fun find_child :: "bool \<Rightarrow> string \<Rightarrow> (string option \<times> cJSON) list \<Rightarrow> cJSON option" where
  "find_child cs name [] = None"
| "find_child cs name ((k, v) # ms) =
     (if cs then
        (case k of None \<Rightarrow> None | Some k' \<Rightarrow> if strcmp name k' \<noteq> 0 then find_child cs name ms else Some v)
      else if case_insensitive_strcmp (Some name) k \<noteq> 0 then find_child cs name ms
      else Some v)"

definition get_object_item :: "cJSON option \<Rightarrow> string option \<Rightarrow> bool \<Rightarrow> cJSON option" where
  "get_object_item obj name cs =
     (case (obj, name) of (Some obj, Some name) \<Rightarrow> find_child cs name (children obj) | _ \<Rightarrow> None)"

definition cJSON_GetObjectItem :: "cJSON option \<Rightarrow> string option \<Rightarrow> cJSON option" where
  "cJSON_GetObjectItem obj s = get_object_item obj s False"

definition cJSON_GetObjectItemCaseSensitive :: "cJSON option \<Rightarrow> string option \<Rightarrow> cJSON option" where
  "cJSON_GetObjectItemCaseSensitive obj s = get_object_item obj s True"

definition cJSON_HasObjectItem :: "cJSON option \<Rightarrow> string option \<Rightarrow> bool" where
  "cJSON_HasObjectItem obj s \<longleftrightarrow> cJSON_GetObjectItem obj s \<noteq> None"

section \<open>Building\<close>

definition cJSON_strdup :: "string \<Rightarrow> string" where
  "cJSON_strdup s = c_str s"

definition cJSON_CreateBool :: "bool \<Rightarrow> cJSON" where
  "cJSON_CreateBool b = (if b then cJSON_True else cJSON_False)"

definition cJSON_CreateNumber :: "double \<Rightarrow> cJSON" where
  "cJSON_CreateNumber num = cJSON_Number num"

definition cJSON_CreateString :: "string \<Rightarrow> cJSON" where
  "cJSON_CreateString s = cJSON_String (cJSON_strdup s)"

definition cJSON_CreateRaw :: "string \<Rightarrow> cJSON" where
  "cJSON_CreateRaw raw = cJSON_Raw (cJSON_strdup raw)"

definition cJSON_CreateNull :: cJSON where
  "cJSON_CreateNull = cJSON_NULL"

definition cJSON_CreateTrue :: cJSON where
  "cJSON_CreateTrue = cJSON_True"

definition cJSON_CreateFalse :: cJSON where
  "cJSON_CreateFalse = cJSON_False"

definition cJSON_CreateArray :: cJSON where
  "cJSON_CreateArray = cJSON_Array []"

definition cJSON_CreateObject :: cJSON where
  "cJSON_CreateObject = cJSON_Object []"

text \<open>The arrays are built from the first \<open>count\<close> elements of C arrays, which have at least as many.\<close>

definition cJSON_CreateIntArray :: "int list option \<Rightarrow> int \<Rightarrow> cJSON option" where
  "cJSON_CreateIntArray numbers count =
     (case numbers of None \<Rightarrow> None
      | Some ns \<Rightarrow> if count < 0 then None
          else Some (cJSON_Array (map (\<lambda>i. cJSON_CreateNumber (double_of_int (ns ! i))) [0..<nat count])))"

definition cJSON_CreateStringArray :: "string list option \<Rightarrow> int \<Rightarrow> cJSON option" where
  "cJSON_CreateStringArray strings count =
     (case strings of None \<Rightarrow> None
      | Some ss \<Rightarrow> if count < 0 then None
          else Some (cJSON_Array (map (\<lambda>i. cJSON_CreateString (ss ! i)) [0..<nat count])))"

definition cJSON_CreateDoubleArray :: "double list option \<Rightarrow> int \<Rightarrow> cJSON option" where
  "cJSON_CreateDoubleArray numbers count =
     (case numbers of None \<Rightarrow> None
      | Some ns \<Rightarrow> if count < 0 then None
          else Some (cJSON_Array (map (\<lambda>i. cJSON_CreateNumber (ns ! i)) [0..<nat count])))"

text \<open>Adding to an item that is no container, or to an object without a name, leaves the values modelled here: \<open>None\<close>.\<close>

definition cJSON_AddItemToArray :: "cJSON \<Rightarrow> cJSON \<Rightarrow> cJSON option" where
  "cJSON_AddItemToArray a item = (case a of cJSON_Array es \<Rightarrow> Some (cJSON_Array (es @ [item])) | _ \<Rightarrow> None)"

definition cJSON_AddItemToObject :: "cJSON \<Rightarrow> string \<Rightarrow> cJSON \<Rightarrow> cJSON option" where
  "cJSON_AddItemToObject obj s item =
     (case obj of cJSON_Object ms \<Rightarrow> Some (cJSON_Object (ms @ [(cJSON_strdup s, item)])) | _ \<Rightarrow> None)"

definition cJSON_AddStringToObject :: "cJSON \<Rightarrow> string \<Rightarrow> string \<Rightarrow> cJSON option" where
  "cJSON_AddStringToObject obj name s = cJSON_AddItemToObject obj name (cJSON_CreateString s)"

definition cJSON_AddNumberToObject :: "cJSON \<Rightarrow> string \<Rightarrow> double \<Rightarrow> cJSON option" where
  "cJSON_AddNumberToObject obj name num = cJSON_AddItemToObject obj name (cJSON_CreateNumber num)"

definition cJSON_AddBoolToObject :: "cJSON \<Rightarrow> string \<Rightarrow> bool \<Rightarrow> cJSON option" where
  "cJSON_AddBoolToObject obj name b = cJSON_AddItemToObject obj name (cJSON_CreateBool b)"

definition cJSON_AddNullToObject :: "cJSON \<Rightarrow> string \<Rightarrow> cJSON option" where
  "cJSON_AddNullToObject obj name = cJSON_AddItemToObject obj name cJSON_CreateNull"

definition cJSON_AddTrueToObject :: "cJSON \<Rightarrow> string \<Rightarrow> cJSON option" where
  "cJSON_AddTrueToObject obj name = cJSON_AddItemToObject obj name cJSON_CreateTrue"

definition cJSON_AddFalseToObject :: "cJSON \<Rightarrow> string \<Rightarrow> cJSON option" where
  "cJSON_AddFalseToObject obj name = cJSON_AddItemToObject obj name cJSON_CreateFalse"

definition cJSON_AddRawToObject :: "cJSON \<Rightarrow> string \<Rightarrow> string \<Rightarrow> cJSON option" where
  "cJSON_AddRawToObject obj name raw = cJSON_AddItemToObject obj name (cJSON_CreateRaw raw)"

definition cJSON_AddObjectToObject :: "cJSON \<Rightarrow> string \<Rightarrow> cJSON option" where
  "cJSON_AddObjectToObject obj name = cJSON_AddItemToObject obj name cJSON_CreateObject"

definition cJSON_AddArrayToObject :: "cJSON \<Rightarrow> string \<Rightarrow> cJSON option" where
  "cJSON_AddArrayToObject obj name = cJSON_AddItemToObject obj name cJSON_CreateArray"

text \<open>The number of an item is replaced; the integer beside it is \<open>valueint\<close> of the new number.\<close>

definition cJSON_SetNumberHelper :: "cJSON option \<Rightarrow> double \<Rightarrow> double \<times> cJSON option" where
  "cJSON_SetNumberHelper obj number =
     (case obj of None \<Rightarrow> (NaN, None)
      | Some (cJSON_Number d) \<Rightarrow> (number, Some (cJSON_Number number))
      | Some v \<Rightarrow> (number, Some v))"

lemmas add_to_object = cJSON_AddStringToObject_def cJSON_AddNumberToObject_def cJSON_AddItemToObject_def
  cJSON_CreateString_def cJSON_CreateNumber_def cJSON_strdup_def cJSON_CreateObject_def

section \<open>The getters of the library\<close>

text \<open>\<open>buf\<close> is the destination array.  The result is the return value with the array after the call.\<close>

definition rss_json_get_str :: "string option \<Rightarrow> string option \<Rightarrow> string option \<Rightarrow> int \<Rightarrow> int \<times> string option" where
  "rss_json_get_str json key buf buf_size =
     (if json = None \<or> key = None \<or> buf = None \<or> buf_size < 1 then (- 1, buf)
      else case cJSON_Parse json of None \<Rightarrow> (- 1, buf)
      | Some doc \<Rightarrow>
          (case cJSON_GetStringValue (cJSON_GetObjectItemCaseSensitive (Some doc) key) of None \<Rightarrow> (- 1, buf)
           | Some v \<Rightarrow> (0, snd (rss_strlcpy buf (Some v) (nat buf_size)))))"

definition rss_json_get_int :: "string option \<Rightarrow> string option \<Rightarrow> int option" where
  "rss_json_get_int json key =
     (if json = None \<or> key = None then None
      else case cJSON_Parse json of None \<Rightarrow> None
      | Some doc \<Rightarrow>
          (case cJSON_GetObjectItemCaseSensitive (Some doc) key of Some (cJSON_Number d) \<Rightarrow> Some (valueint d) | _ \<Rightarrow> None))"

definition rss_json_get_nested_int :: "string option \<Rightarrow> string option \<Rightarrow> string option \<Rightarrow> int option" where
  "rss_json_get_nested_int json parent key =
     (if json = None \<or> parent = None \<or> key = None then None
      else case cJSON_Parse json of None \<Rightarrow> None
      | Some doc \<Rightarrow>
          let obj = cJSON_GetObjectItemCaseSensitive (Some doc) parent in
          if \<not> cJSON_IsObject obj then None
          else (case cJSON_GetObjectItemCaseSensitive obj key of Some (cJSON_Number d) \<Rightarrow> Some (valueint d) | _ \<Rightarrow> None))"

section \<open>Lookups\<close>

lemma find_child_object:
  "find_child cs name (map (apfst Some) ms) =
     map_option snd (find (\<lambda>(k, v). if cs then strcmp name k = 0 else strcasecmp name k = 0) ms)"
  by (induction ms) (auto simp: case_insensitive_strcmp_def)

lemma get_object_item_object:
  "get_object_item (Some (cJSON_Object ms)) (Some name) cs =
     map_option snd (find (\<lambda>(k, v). if cs then strcmp name k = 0 else strcasecmp name k = 0) ms)"
  by (simp add: get_object_item_def find_child_object)

lemma get_object_item_other [simp]:
  "get_object_item None name cs = None"
  "get_object_item (Some (cJSON_String s)) name cs = None"
  "get_object_item (Some (cJSON_Number d)) name cs = None"
  by (simp_all add: get_object_item_def split: option.split)

end
