(* ===== verification/Rss_Json_List.thy ===== *)
theory Rss_Json_List imports Rss_Json_Item begin

text \<open>
  How \<open>src/cJSON.c\<close> chains the items of an array or an object: the fields \<open>next\<close>, \<open>prev\<close>, \<open>child\<close> and \<open>string\<close> of
  the items as functions of their address, and the operations on them, statement by statement.  \<open>NULL\<close> is \<open>None\<close>;
  freeing an item leaves the fields of the others alone and is not modelled.  \<open>prev\<close> of the first item is the last one.
\<close>

section \<open>Items in memory\<close>

record json_heap =
  nx :: "nat \<Rightarrow> nat option"
  pv :: "nat \<Rightarrow> nat option"
  ch :: "nat \<Rightarrow> nat option"
  nm :: "nat \<Rightarrow> string option"

definition set_nx :: "nat \<Rightarrow> nat option \<Rightarrow> json_heap \<Rightarrow> json_heap" where
  "set_nx a p h = h\<lparr>nx := (nx h)(a := p)\<rparr>"

definition set_pv :: "nat \<Rightarrow> nat option \<Rightarrow> json_heap \<Rightarrow> json_heap" where
  "set_pv a p h = h\<lparr>pv := (pv h)(a := p)\<rparr>"

definition set_ch :: "nat \<Rightarrow> nat option \<Rightarrow> json_heap \<Rightarrow> json_heap" where
  "set_ch a p h = h\<lparr>ch := (ch h)(a := p)\<rparr>"

definition set_nm :: "nat \<Rightarrow> string option \<Rightarrow> json_heap \<Rightarrow> json_heap" where
  "set_nm a s h = h\<lparr>nm := (nm h)(a := s)\<rparr>"

lemmas set_fields = set_nx_def set_pv_def set_ch_def set_nm_def

section \<open>Operations\<close>

text \<open>The loops follow \<open>next\<close> and may run for ever on a cycle: \<open>None\<close>.\<close>

partial_function (option) count_items :: "json_heap \<Rightarrow> nat option \<Rightarrow> nat \<Rightarrow> nat option" where
  "count_items h p n = (if p = None then Some n else count_items h (nx h (the p)) (Suc n))"

definition array_size :: "json_heap \<Rightarrow> nat \<Rightarrow> nat option" where
  "array_size h arr = count_items h (ch h arr) 0"

fun item_at :: "json_heap \<Rightarrow> nat option \<Rightarrow> nat \<Rightarrow> nat option" where
  "item_at h p 0 = p"
| "item_at h p (Suc i) = (case p of None \<Rightarrow> None | Some a \<Rightarrow> item_at h (nx h a) i)"

definition array_item :: "json_heap \<Rightarrow> nat \<Rightarrow> nat \<Rightarrow> nat option" where
  "array_item h arr i = item_at h (ch h arr) i"

text \<open>A search with case stops at an item without a name.\<close>

partial_function (option) seek :: "json_heap \<Rightarrow> string \<Rightarrow> bool \<Rightarrow> nat option \<Rightarrow> nat option option" where
  "seek h name cs p =
     (if p = None then Some None
      else if cs \<and> nm h (the p) = None then Some None
      else if (if cs then strcmp name (the (nm h (the p))) else case_insensitive_strcmp (Some name) (nm h (the p))) \<noteq> 0
      then seek h name cs (nx h (the p))
      else Some p)"

definition object_item :: "json_heap \<Rightarrow> nat \<Rightarrow> string \<Rightarrow> bool \<Rightarrow> nat option option" where
  "object_item h obj name cs = seek h name cs (ch h obj)"

definition suffix_object :: "nat \<Rightarrow> nat \<Rightarrow> json_heap \<Rightarrow> json_heap" where
  "suffix_object prev item h = set_pv item (Some prev) (set_nx prev (Some item) h)"

definition add_item_to_array :: "nat option \<Rightarrow> nat option \<Rightarrow> json_heap \<Rightarrow> bool \<times> json_heap" where
  "add_item_to_array arr item h =
     (case (arr, item) of
        (Some arr, Some item) \<Rightarrow>
          if arr = item then (False, h)
          else
            (case ch h arr of
               None \<Rightarrow> (True, set_nx item None (set_pv item (Some item) (set_ch arr (Some item) h)))
             | Some child \<Rightarrow>
                 (case pv h child of None \<Rightarrow> (True, h)
                  | Some l \<Rightarrow> (True, set_pv child (Some item) (suffix_object l item h))))
      | _ \<Rightarrow> (False, h))"

definition add_item_to_object :: "nat option \<Rightarrow> string option \<Rightarrow> nat option \<Rightarrow> json_heap \<Rightarrow> bool \<times> json_heap" where
  "add_item_to_object obj s item h =
     (case (obj, s, item) of
        (Some o1, Some s, Some item1) \<Rightarrow>
          if o1 = item1 then (False, h)
          else add_item_to_array obj item (set_nm item1 (Some (cJSON_strdup s)) h)
      | _ \<Rightarrow> (False, h))"

definition cJSON_DetachItemViaPointer :: "nat option \<Rightarrow> nat option \<Rightarrow> json_heap \<Rightarrow> nat option \<times> json_heap" where
  "cJSON_DetachItemViaPointer parent item h =
     (case (parent, item) of
        (Some par, Some it) \<Rightarrow>
          if ch h par \<noteq> Some it \<and> pv h it = None then (None, h)
          else
            let h = (if ch h par \<noteq> Some it then set_nx (the (pv h it)) (nx h it) h else h);
                h = (case nx h it of Some n \<Rightarrow> set_pv n (pv h it) h | None \<Rightarrow> h);
                h = (if ch h par = Some it then set_ch par (nx h it) h
                     else if nx h it = None then set_pv (the (ch h par)) (pv h it) h else h)
            in (Some it, set_nx it None (set_pv it None h))
      | _ \<Rightarrow> (None, h))"

definition cJSON_DetachItemFromArray :: "nat option \<Rightarrow> int \<Rightarrow> json_heap \<Rightarrow> nat option \<times> json_heap" where
  "cJSON_DetachItemFromArray arr which h =
     (if which < 0 then (None, h)
      else cJSON_DetachItemViaPointer arr (Option.bind arr (\<lambda>a. array_item h a (nat which))) h)"

text \<open>A new item in front of another one.\<close>

definition insert_before :: "nat \<Rightarrow> nat \<Rightarrow> nat \<Rightarrow> json_heap \<Rightarrow> bool \<times> json_heap" where
  "insert_before arr after new h =
     (if ch h arr \<noteq> Some after \<and> pv h after = None then (False, h)
      else
        let h = set_nx new (Some after) h;
            h = set_pv new (pv h after) h;
            h = set_pv after (Some new) h
        in (True, if ch h arr = Some after then set_ch arr (Some new) h else set_nx (the (pv h new)) (Some new) h))"

definition cJSON_InsertItemInArray :: "nat option \<Rightarrow> int \<Rightarrow> nat option \<Rightarrow> json_heap \<Rightarrow> bool \<times> json_heap" where
  "cJSON_InsertItemInArray arr which newitem h =
     (case newitem of None \<Rightarrow> (False, h)
      | Some new \<Rightarrow>
          if which < 0 then (False, h)
          else
            (case Option.bind arr (\<lambda>a. array_item h a (nat which)) of
               None \<Rightarrow> add_item_to_array arr newitem h
             | Some after \<Rightarrow> insert_before (the arr) after new h))"

definition cJSON_ReplaceItemViaPointer :: "nat option \<Rightarrow> nat option \<Rightarrow> nat option \<Rightarrow> json_heap \<Rightarrow> bool \<times> json_heap" where
  "cJSON_ReplaceItemViaPointer parent item replacement h =
     (case (parent, item, replacement) of
        (Some par, Some it, Some rep) \<Rightarrow>
          if ch h par = None then (False, h)
          else if rep = it then (True, h)
          else
            let h = set_nx rep (nx h it) h;
                h = set_pv rep (pv h it) h;
                h = (case nx h rep of Some n \<Rightarrow> set_pv n (Some rep) h | None \<Rightarrow> h);
                h = (if ch h par = Some it then
                       set_ch par (Some rep) (if pv h it = Some it then set_pv rep (Some rep) h else h)
                     else
                       let h = (case pv h rep of Some p \<Rightarrow> set_nx p (Some rep) h | None \<Rightarrow> h)
                       in if nx h rep = None then set_pv (the (ch h par)) (Some rep) h else h)
            in (True, set_pv it None (set_nx it None h))
      | _ \<Rightarrow> (False, h))"

definition cJSON_ReplaceItemInArray :: "nat option \<Rightarrow> int \<Rightarrow> nat option \<Rightarrow> json_heap \<Rightarrow> bool \<times> json_heap" where
  "cJSON_ReplaceItemInArray arr which newitem h =
     (if which < 0 then (False, h)
      else cJSON_ReplaceItemViaPointer arr (Option.bind arr (\<lambda>a. array_item h a (nat which))) newitem h)"

definition detach_from_object :: "bool \<Rightarrow> nat option \<Rightarrow> string option \<Rightarrow> json_heap \<Rightarrow> (nat option \<times> json_heap) option" where
  "detach_from_object cs obj s h =
     (case (obj, s) of
        (Some o1, Some name) \<Rightarrow> map_option (\<lambda>p. cJSON_DetachItemViaPointer obj p h) (object_item h o1 name cs)
      | _ \<Rightarrow> Some (None, h))"

definition cJSON_DetachItemFromObject :: "nat option \<Rightarrow> string option \<Rightarrow> json_heap \<Rightarrow> (nat option \<times> json_heap) option" where
  "cJSON_DetachItemFromObject obj s h = detach_from_object False obj s h"

definition cJSON_DetachItemFromObjectCaseSensitive :: "nat option \<Rightarrow> string option \<Rightarrow> json_heap \<Rightarrow> (nat option \<times> json_heap) option" where
  "cJSON_DetachItemFromObjectCaseSensitive obj s h = detach_from_object True obj s h"

text \<open>The replacement takes the name before the search, which fails on an object that is \<open>NULL\<close>.\<close>

definition replace_item_in_object :: "nat option \<Rightarrow> string option \<Rightarrow> nat option \<Rightarrow> bool \<Rightarrow> json_heap \<Rightarrow> (bool \<times> json_heap) option" where
  "replace_item_in_object obj s replacement cs h =
     (case (replacement, s) of
        (Some rep, Some name) \<Rightarrow>
          let h = set_nm rep (Some (cJSON_strdup name)) h
          in map_option (\<lambda>p. cJSON_ReplaceItemViaPointer obj p replacement h)
               (case obj of None \<Rightarrow> Some None | Some o1 \<Rightarrow> object_item h o1 name cs)
      | _ \<Rightarrow> Some (False, h))"

section \<open>The list of the items\<close>

fun seg :: "(nat \<Rightarrow> nat option) \<Rightarrow> nat option \<Rightarrow> nat list \<Rightarrow> nat option \<Rightarrow> bool" where
  "seg f p [] q \<longleftrightarrow> p = q"
| "seg f p (a # as) q \<longleftrightarrow> p = Some a \<and> seg f (f a) as q"

fun backs :: "(nat \<Rightarrow> nat option) \<Rightarrow> nat \<Rightarrow> nat list \<Rightarrow> bool" where
  "backs f b [] \<longleftrightarrow> True"
| "backs f b (a # as) \<longleftrightarrow> f a = Some b \<and> backs f a as"

definition holds :: "json_heap \<Rightarrow> nat \<Rightarrow> nat list \<Rightarrow> bool" where
  "holds h par ps \<longleftrightarrow> seg (nx h) (ch h par) ps None \<and> (ps = [] \<or> backs (pv h) (last ps) ps) \<and> distinct (par # ps)"

lemma seg_append [simp]: "seg f p (as @ bs) q \<longleftrightarrow> (\<exists>r. seg f p as r \<and> seg f r bs q)"
  by (induction as arbitrary: p) auto

lemma seg_upd [simp]: "a \<notin> set as \<Longrightarrow> seg (f(a := v)) p as q \<longleftrightarrow> seg f p as q"
  by (induction as arbitrary: p) auto

lemma backs_append [simp]: "backs f b (as @ bs) \<longleftrightarrow> backs f b as \<and> backs f (last (b # as)) bs"
  by (induction as arbitrary: b) auto

lemma backs_upd [simp]: "a \<notin> set as \<Longrightarrow> backs (f(a := v)) b as \<longleftrightarrow> backs f b as"
  by (induction as arbitrary: b) auto

text \<open>What each operation does to the list, and that it leaves the rest of the memory ready for use.\<close>

lemma add_holds:
  assumes "holds h par ps" and "x \<notin> set (par # ps)" and "nx h x = None"
  shows "\<exists>h'. add_item_to_array (Some par) (Some x) h = (True, h') \<and> holds h' par (ps @ [x])
    \<and> (\<forall>y. y \<notin> set (ps @ [x]) \<longrightarrow> nx h y = None \<longrightarrow> nx h' y = None) \<and> nm h' = nm h"
proof (cases ps rule: rev_cases)
  case Nil
  then show ?thesis using assms by (auto simp: add_item_to_array_def holds_def set_fields)
next
  case (snoc ys l)
  show ?thesis
  proof (cases ys)
    case Nil
    then show ?thesis using assms snoc by (auto simp: add_item_to_array_def holds_def suffix_object_def set_fields)
  next
    case (Cons c zs)
    then show ?thesis using assms snoc by (auto simp: add_item_to_array_def holds_def suffix_object_def set_fields)
  qed
qed

lemma count_seg: "seg (nx h) p ps None \<Longrightarrow> count_items h p n = Some (n + length ps)"
  by (induction ps arbitrary: p n) (subst count_items.simps, simp)+

lemma item_at_seg: "seg (nx h) p ps None \<Longrightarrow> item_at h p i = (if i < length ps then Some (ps ! i) else None)"
proof (induction i arbitrary: p ps)
  case 0
  then show ?case by (cases ps) auto
next
  case (Suc i)
  then show ?case by (cases ps) auto
qed

text \<open>A search on the chain is the search over the children with their names and any values.\<close>

lemma seek_seg: "seg (nx h) p ps None \<Longrightarrow>
    \<exists>r. seek h name cs p = Some r \<and> map_option v r = find_child cs name (map (\<lambda>a. (nm h a, v a)) ps)
      \<and> (case r of None \<Rightarrow> True | Some a \<Rightarrow> a \<in> set ps)"
proof (induction ps arbitrary: p)
  case Nil
  then show ?case by (subst seek.simps) simp
next
  case (Cons a ps)
  from Cons.IH [of "nx h a"] Cons.prems show ?case
    by (subst seek.simps) (auto simp: case_insensitive_strcmp_def split: option.splits)
qed

lemma holds_items:
  assumes "holds h par ps"
  shows "array_size h par = Some (length ps)" "array_item h par i = (if i < length ps then Some (ps ! i) else None)"
  using assms count_seg [of h "ch h par" ps 0] item_at_seg [of h "ch h par" ps i] by (simp_all add: holds_def array_size_def array_item_def)

lemma detach_holds:
  assumes "holds h par (xs @ a # ys)"
  shows "\<exists>h'. cJSON_DetachItemViaPointer (Some par) (Some a) h = (Some a, h') \<and> holds h' par (xs @ ys)
    \<and> nx h' a = None \<and> (\<forall>x. x \<notin> set (xs @ ys) \<longrightarrow> nx h x = None \<longrightarrow> nx h' x = None) \<and> nm h' = nm h"
proof (cases xs rule: rev_cases)
  case Nil
  show ?thesis
  proof (cases ys)
    case Nil
    then show ?thesis using assms \<open>xs = []\<close> by (auto simp: cJSON_DetachItemViaPointer_def holds_def set_fields)
  next
    case (Cons b zs)
    then show ?thesis using assms Nil by (auto simp: cJSON_DetachItemViaPointer_def holds_def set_fields)
  qed
next
  case (snoc ws w)
  show ?thesis
  proof (cases ys)
    case Nil
    then show ?thesis using assms snoc by (cases ws) (auto simp: cJSON_DetachItemViaPointer_def holds_def set_fields)
  next
    case (Cons b zs)
    then show ?thesis using assms snoc by (cases ws) (auto simp: cJSON_DetachItemViaPointer_def holds_def set_fields)
  qed
qed

lemma insert_holds:
  assumes "holds h par (xs @ a # ys)" and "x \<notin> set (par # xs @ a # ys)"
  shows "\<exists>h'. insert_before par a x h = (True, h') \<and> holds h' par (xs @ x # a # ys)
    \<and> (\<forall>y. y \<notin> set (xs @ x # a # ys) \<longrightarrow> nx h y = None \<longrightarrow> nx h' y = None) \<and> nm h' = nm h"
proof (cases xs rule: rev_cases)
  case Nil
  then show ?thesis using assms by (cases ys) (auto simp: insert_before_def holds_def set_fields Let_def)
next
  case (snoc ws w)
  then show ?thesis using assms by (cases ws; cases ys) (auto simp: insert_before_def holds_def set_fields Let_def)
qed

lemma replace_holds:
  assumes "holds h par (xs @ a # ys)" and "x \<notin> set (par # xs @ a # ys)"
  shows "\<exists>h'. cJSON_ReplaceItemViaPointer (Some par) (Some a) (Some x) h = (True, h') \<and> holds h' par (xs @ x # ys)
    \<and> nx h' a = None \<and> (\<forall>y. y \<notin> set (xs @ x # ys) \<longrightarrow> nx h y = None \<longrightarrow> nx h' y = None) \<and> nm h' = nm h"
proof (cases xs rule: rev_cases)
  case Nil
  then show ?thesis using assms by (cases ys) (auto simp: cJSON_ReplaceItemViaPointer_def holds_def set_fields Let_def)
next
  case (snoc ws w)
  then show ?thesis using assms by (cases ws; cases ys) (auto simp: cJSON_ReplaceItemViaPointer_def holds_def set_fields Let_def)
qed

text \<open>By name: the item that the search finds leaves the list, or hands its place to the replacement.\<close>

lemma remove1_distinct: "distinct (par # xs @ a # ys) \<Longrightarrow> remove1 a (xs @ a # ys) = xs @ ys"
  by (simp add: remove1_append)

lemma detach_named:
  assumes "holds h par ps"
  shows "\<exists>r h'. detach_from_object cs (Some par) (Some name) h = Some (r, h')
    \<and> (case r of None \<Rightarrow> h' = h | Some a \<Rightarrow> a \<in> set ps \<and> holds h' par (remove1 a ps))"
proof -
  obtain r where r: "object_item h par name cs = Some r" "case r of None \<Rightarrow> True | Some a \<Rightarrow> a \<in> set ps"
    using seek_seg [of h "ch h par" ps name cs "\<lambda>_. cJSON_NULL"] assms by (auto simp: object_item_def holds_def)
  show ?thesis
  proof (cases r)
    case None
    then show ?thesis using r by (simp add: detach_from_object_def cJSON_DetachItemViaPointer_def)
  next
    case (Some a)
    then obtain xs ys where ps: "ps = xs @ a # ys" using r(2) by (auto dest: split_list)
    have "remove1 a ps = xs @ ys" using assms ps remove1_distinct [of par xs a ys] by (simp add: holds_def)
    then show ?thesis using detach_holds [OF assms [unfolded ps]] r Some ps by (auto simp: detach_from_object_def)
  qed
qed

section \<open>Sequences of operations\<close>

datatype list_op = Add nat | Insert int nat | Detach int | Replace int nat

fun run_op :: "nat \<Rightarrow> list_op \<Rightarrow> json_heap \<Rightarrow> json_heap" where
  "run_op par (Add x) h = snd (add_item_to_array (Some par) (Some x) h)"
| "run_op par (Insert i x) h = snd (cJSON_InsertItemInArray (Some par) i (Some x) h)"
| "run_op par (Detach i) h = snd (cJSON_DetachItemFromArray (Some par) i h)"
| "run_op par (Replace i x) h = snd (cJSON_ReplaceItemInArray (Some par) i (Some x) h)"

text \<open>The specification: the list of the items, and the items that are in no list.\<close>

fun spec_op :: "list_op \<Rightarrow> nat list \<times> nat set \<Rightarrow> nat list \<times> nat set" where
  "spec_op (Add x) (ps, fr) = (ps @ [x], fr - {x})"
| "spec_op (Insert i x) (ps, fr) = (if i < 0 then (ps, fr) else (take (nat i) ps @ x # drop (nat i) ps, fr - {x}))"
| "spec_op (Detach i) (ps, fr) =
     (if 0 \<le> i \<and> nat i < length ps then (take (nat i) ps @ drop (Suc (nat i)) ps, insert (ps ! nat i) fr) else (ps, fr))"
| "spec_op (Replace i x) (ps, fr) = (if 0 \<le> i \<and> nat i < length ps then (ps[nat i := x], fr - {x}) else (ps, fr))"

fun uses :: "list_op \<Rightarrow> nat set" where
  "uses (Add x) = {x}"
| "uses (Insert i x) = {x}"
| "uses (Detach i) = {}"
| "uses (Replace i x) = {x}"

text \<open>A run of operations each of which is allowed where it comes.\<close>

fun legal :: "('o \<Rightarrow> 's \<Rightarrow> bool) \<Rightarrow> ('o \<Rightarrow> 's \<Rightarrow> 's) \<Rightarrow> 'o list \<Rightarrow> 's \<Rightarrow> bool" where
  "legal ok spec [] s \<longleftrightarrow> True"
| "legal ok spec (x # xs) s \<longleftrightarrow> ok x s \<and> legal ok spec xs (spec x s)"

text \<open>An implementation whose operations follow a specification one by one follows it through every run.\<close>

locale simulated =
  fixes rep :: "'h \<Rightarrow> 's \<Rightarrow> bool"
    and step :: "'o \<Rightarrow> 'h \<Rightarrow> 'h"
    and spec :: "'o \<Rightarrow> 's \<Rightarrow> 's"
    and ok :: "'o \<Rightarrow> 's \<Rightarrow> bool"
  assumes step_rep: "rep h s \<Longrightarrow> ok x s \<Longrightarrow> rep (step x h) (spec x s)"
begin

lemma run_rep: "rep h s \<Longrightarrow> legal ok spec xs s \<Longrightarrow> rep (fold step xs h) (fold spec xs s)"
  by (induction xs arbitrary: h s) (simp_all add: step_rep)

end

definition unused :: "list_op \<Rightarrow> nat list \<times> nat set \<Rightarrow> bool" where
  "unused x s \<longleftrightarrow> uses x \<subseteq> snd s"

definition represents :: "json_heap \<Rightarrow> nat \<Rightarrow> nat list \<times> nat set \<Rightarrow> bool" where
  "represents h par s \<longleftrightarrow> holds h par (fst s) \<and> (\<forall>x \<in> snd s. x \<notin> set (par # fst s) \<and> nx h x = None)"

lemma add_represents: "represents h par (ps, fr) \<Longrightarrow> y \<in> fr \<Longrightarrow> represents (snd (add_item_to_array (Some par) (Some y) h)) par (ps @ [y], fr - {y})"
  using add_holds [of h par ps y] by (fastforce simp: represents_def)

lemma insert_represents:
  "represents h par (xs @ a # ys, fr) \<Longrightarrow> y \<in> fr \<Longrightarrow> represents (snd (insert_before par a y h)) par (xs @ y # a # ys, fr - {y})"
  using insert_holds [of h par xs a ys y] by (fastforce simp: represents_def)

lemma detach_represents:
  "represents h par (xs @ a # ys, fr) \<Longrightarrow>
    fst (cJSON_DetachItemViaPointer (Some par) (Some a) h) = Some a
    \<and> represents (snd (cJSON_DetachItemViaPointer (Some par) (Some a) h)) par (xs @ ys, insert a fr)"
  using detach_holds [of h par xs a ys] by (fastforce simp: represents_def holds_def)

lemma replace_represents:
  "represents h par (xs @ a # ys, fr) \<Longrightarrow> y \<in> fr \<Longrightarrow>
    represents (snd (cJSON_ReplaceItemViaPointer (Some par) (Some a) (Some y) h)) par (xs @ y # ys, fr - {y})"
  using replace_holds [of h par xs a ys y] by (fastforce simp: represents_def)

lemma split_at:
  assumes "i < length ps"
  obtains xs a ys where "ps = xs @ a # ys" "length xs = i"
  using id_take_nth_drop [OF assms] assms that [of "take i ps" "ps ! i" "drop (Suc i) ps"] by simp

lemma op_represents:
  assumes "represents h par s" and "uses x \<subseteq> snd s"
  shows "represents (run_op par x h) par (spec_op x s)"
proof -
  obtain ps fr where s: "s = (ps, fr)" by (cases s)
  note r = assms(1) [unfolded s]
  have item: "array_item h par i = (if i < length ps then Some (ps ! i) else None)" for i
    using holds_items(2) [of h par ps] r by (simp add: represents_def)
  show ?thesis
  proof (cases x)
    case (Add y)
    then show ?thesis using add_represents [OF r] assms(2) s by simp
  next
    case (Insert i y)
    show ?thesis
    proof (cases "0 \<le> i \<and> nat i < length ps")
      case True
      then obtain xs a ys where "ps = xs @ a # ys" "length xs = nat i" using split_at by blast
      then show ?thesis using insert_represents [of h par xs a ys fr y] r True Insert s assms(2) item [of "nat i"]
        by (simp add: cJSON_InsertItemInArray_def nth_append)
    next
      case False
      then show ?thesis using add_represents [OF r, of y] assms Insert s item [of "nat i"] by (auto simp: cJSON_InsertItemInArray_def)
    qed
  next
    case (Detach i)
    show ?thesis
    proof (cases "0 \<le> i \<and> nat i < length ps")
      case True
      then obtain xs a ys where "ps = xs @ a # ys" "length xs = nat i" using split_at by blast
      then show ?thesis using detach_represents [of h par xs a ys fr] r True Detach s item [of "nat i"]
        by (simp add: cJSON_DetachItemFromArray_def nth_append)
    next
      case False
      then show ?thesis using assms(1) Detach s item [of "nat i"]
        by (auto simp: cJSON_DetachItemFromArray_def cJSON_DetachItemViaPointer_def)
    qed
  next
    case (Replace i y)
    show ?thesis
    proof (cases "0 \<le> i \<and> nat i < length ps")
      case True
      then obtain xs a ys where "ps = xs @ a # ys" "length xs = nat i" using split_at by blast
      then show ?thesis using replace_represents [of h par xs a ys fr y] r True Replace s assms(2) item [of "nat i"]
        by (simp add: cJSON_ReplaceItemInArray_def nth_append list_update_append)
    next
      case False
      then show ?thesis using assms(1) Replace s item [of "nat i"]
        by (auto simp: cJSON_ReplaceItemInArray_def cJSON_ReplaceItemViaPointer_def)
    qed
  qed
qed

interpretation items: simulated "\<lambda>h. represents h par" "run_op par" spec_op unused for par
  by unfold_locales (simp add: op_represents unused_def)

text \<open>
  C35. The chained items are a list: after any sequence of additions, insertions, removals and replacements on a new array
  or object, with items that are in no list, the size, the item at every index and the search by name, with or without
  case, answer as on the list that the same operations make; every loop over the items ends.
\<close>

lemma json_list_refines:
  assumes "ch h par = None" and "par \<notin> fr" and "\<forall>x. nx h x = None" and "legal unused spec_op xs ([], fr)"
  shows "let h' = fold (run_op par) xs h; ps = fst (fold spec_op xs ([], fr)) in
     array_size h' par = Some (length ps) \<and> map (array_item h' par) [0..<Suc (length ps)] = map Some ps @ [None]
     \<and> fst (cJSON_DetachItemFromArray (Some par) i h') = (if 0 \<le> i \<and> nat i < length ps then Some (ps ! nat i) else None)
     \<and> (\<exists>r. object_item h' par name cs = Some r
          \<and> map_option v r = find_child cs name (map (\<lambda>a. (nm h' a, v a)) ps))"
proof -
  let ?h = "fold (run_op par) xs h" and ?ps = "fst (fold spec_op xs ([], fr))"
  have "represents h par ([], fr)" using assms(1-3) by (auto simp: represents_def holds_def)
  from items.run_rep [OF this assms(4)] have r: "holds ?h par ?ps" by (simp add: represents_def)
  have "map (array_item ?h par) [0..<Suc (length ?ps)] = map Some ?ps @ [None]"
    by (rule nth_equalityI) (auto simp: holds_items(2) [OF r] nth_append less_Suc_eq simp del: upt_Suc)
  moreover have "fst (cJSON_DetachItemFromArray (Some par) i ?h) = (if 0 \<le> i \<and> nat i < length ?ps then Some (?ps ! nat i) else None)"
  proof (cases "0 \<le> i \<and> nat i < length ?ps")
    case True
    then obtain ys a zs where ps: "?ps = ys @ a # zs" "length ys = nat i" using split_at by blast
    have "holds ?h par (ys @ a # zs)" using r unfolding ps(1) .
    from detach_holds [OF this] show ?thesis
      using True ps holds_items(2) [OF r, of "nat i"] by (auto simp: cJSON_DetachItemFromArray_def nth_append)
  next
    case False
    then show ?thesis
      using holds_items(2) [OF r, of "nat i"] by (auto simp: cJSON_DetachItemFromArray_def cJSON_DetachItemViaPointer_def)
  qed
  ultimately show ?thesis
    using holds_items(1) [OF r] seek_seg [of ?h "ch ?h par" ?ps name cs v] r by (auto simp: Let_def object_item_def holds_def)
qed

lemma json_list_refines_witness:
  "let h' = fold (run_op 0) [Add 1, Add 2, Insert 0 3, Detach 1, Replace 1 1] \<lparr>nx = \<lambda>_. None, pv = \<lambda>_. None, ch = \<lambda>_. None, nm = \<lambda>_. None\<rparr>
   in array_size h' 0 = Some 2 \<and> map (array_item h' 0) [0..<3] = [Some 3, Some 1, None]"
proof -
  let ?h = "\<lparr>nx = \<lambda>_. None, pv = \<lambda>_. None, ch = \<lambda>_. None, nm = \<lambda>_. None\<rparr>" and ?ops = "[Add 1, Add 2, Insert 0 3, Detach 1, Replace 1 1]"
  have "legal unused spec_op ?ops ([], {1, 2, 3})" by (simp add: unused_def)
  moreover have "fst (fold spec_op ?ops ([], {1, 2, 3})) = [3, 1]" by simp
  ultimately show ?thesis
    using json_list_refines [of ?h 0 "{1, 2, 3}" ?ops 0 "[]" True "\<lambda>_. cJSON_NULL"]
    by (simp add: Let_def numeral_3_eq_3 del: fold_simps upt_Suc)
qed

end
