(* ===== verification/Rss_Json_Roundtrip.thy ===== *)
theory Rss_Json_Roundtrip imports Rss_Json_Parse begin

text \<open>
  The parser of \<open>src/cJSON.c\<close> reads back what its printer writes, with or without formatting: the two passes over a
  string undo the escaping, integers of 32 bits are exact as doubles, and white space between the tokens is skipped.
\<close>

section \<open>White space\<close>

definition blank_text :: "string \<Rightarrow> bool" where
  "blank_text w \<longleftrightarrow> list_all (\<lambda>c. ccode c \<le> 32) w"

lemma skip_blank: "blank_text w \<Longrightarrow> 32 < ccode c \<Longrightarrow> buffer_skip_whitespace (w @ c # s) = c # s"
  unfolding buffer_skip_whitespace_def blank_text_def
  by (induction w) (auto simp: Let_def)

lemma skip_none: "32 < ccode c \<Longrightarrow> buffer_skip_whitespace (c # s) = c # s"
  using skip_blank [of "[]"] by (simp add: blank_text_def)

lemma blank_texts: "blank_text []" "blank_text (opt_text b [LF])" "blank_text (opt_text b '' '')"
  "blank_text (opt_text b [CHR 0x09])" "blank_text (tabs b d)" "blank_text (v @ w) \<longleftrightarrow> blank_text v \<and> blank_text w"
proof -
  have "ccode LF = 10" "ccode CHR '' '' = 32" "ccode CHR 0x09 = 9" by code_simp+
  then show "blank_text []" "blank_text (opt_text b [LF])" "blank_text (opt_text b '' '')"
    "blank_text (opt_text b [CHR 0x09])" "blank_text (tabs b d)" "blank_text (v @ w) \<longleftrightarrow> blank_text v \<and> blank_text w"
    by (auto simp: blank_text_def opt_text_def tabs_def list_all_iff)
qed

section \<open>Strings\<close>

text \<open>The escape sequences of the control characters that have no letter, by computation.\<close>

definition control_escape :: "nat \<Rightarrow> bool" where
  "control_escape n \<longleftrightarrow>
     (let c = char_of n :: char; e = escape_char c
      in if length e = 6 then e ! 0 = CHR 0x5C \<and> e ! 1 = CHR ''u'' \<and> list_all (\<lambda>x. x \<noteq> CHR 0x22 \<and> x \<noteq> CHR 0x5C) (drop 2 e)
           \<and> parse_hex4 (drop 2 e) = n \<and> utf8_bytes n = Some [c]
         else e = [CHR 0x5C, e ! 1] \<and> e ! 1 \<noteq> CHR ''u'' \<and> simple_escape (e ! 1) = Some c)"

lemma control_escapes: "list_all control_escape [0..<32]"
  by code_simp

text \<open>An escape sequence as the two passes of the parser read it.\<close>

lemma escape_cases:
  assumes "c \<noteq> NUL"
  obtains (plain) "escape_char c = [c]" "c \<noteq> CHR 0x22" "c \<noteq> CHR 0x5C"
  | (simple) e where "escape_char c = [CHR 0x5C, e]" "e \<noteq> CHR ''u''" "simple_escape e = Some c"
  | (hex) h where "escape_char c = CHR 0x5C # CHR ''u'' # h" "length h = 4" "list_all (\<lambda>x. x \<noteq> CHR 0x22 \<and> x \<noteq> CHR 0x5C) h"
      "parse_hex4 h = ccode c" "utf8_bytes (ccode c) = Some [c]" "ccode c < 32"
proof (cases "ccode c < 32")
  case True
  have c: "char_of (ccode c) = c" by (simp add: ccode_def)
  have k: "control_escape (ccode c)" using control_escapes True by (simp add: list_all_iff)
  show ?thesis
  proof (cases "length (escape_char c) = 6")
    case len: True
    then obtain a b h where e: "escape_char c = a # b # h" "length h = 4"
      by (auto simp: length_Suc_conv eval_nat_numeral)
    have "a = CHR 0x5C" "b = CHR ''u''" "list_all (\<lambda>x. x \<noteq> CHR 0x22 \<and> x \<noteq> CHR 0x5C) h" "parse_hex4 h = ccode c" "utf8_bytes (ccode c) = Some [c]"
      using k unfolding control_escape_def Let_def c e by (simp_all add: e(2))
    then show ?thesis using hex [of h] e True by simp
  next
    case False
    then show ?thesis using k unfolding control_escape_def Let_def c by (intro simple [of "escape_char c ! 1"]) auto
  qed
next
  case False
  have "simple_escape CHR 0x22 = Some CHR 0x22" "simple_escape CHR 0x5C = Some CHR 0x5C" by code_simp+
  then show ?thesis
    using False plain simple by (cases "c = CHR 0x22 \<or> c = CHR 0x5C") (auto simp: escape_char.simps)
qed

lemma string_end_plain:
  "list_all (\<lambda>x. x \<noteq> CHR 0x22 \<and> x \<noteq> CHR 0x5C) h \<Longrightarrow>
    string_end (h @ t) = map_option (\<lambda>(n, k). (length h + n, k)) (string_end t)"
  by (induction h) (auto simp: option.map_comp comp_def split_def option.map_ident_strong)

lemma string_end_escape_char:
  assumes "c \<noteq> NUL"
  shows "\<exists>j. string_end (escape_char c @ t) = map_option (\<lambda>(n, k). (length (escape_char c) + n, k + j)) (string_end t)"
  using assms
proof (cases rule: escape_cases)
  case plain
  then show ?thesis by (intro exI [of _ 0]) simp
next
  case (simple e)
  then show ?thesis by (intro exI [of _ 1]) (simp add: add.commute)
next
  case (hex h)
  then show ?thesis
    using string_end_plain [OF hex(3), of t]
    by (intro exI [of _ 1]) (simp add: option.map_comp comp_def split_def add.commute)
qed

lemma string_end_escape:
  "cstr s \<Longrightarrow> \<exists>k. string_end (concat (map escape_char s) @ CHR 0x22 # r) = Some (length (concat (map escape_char s)), k)"
proof (induction s)
  case (Cons c s)
  then obtain k where k: "string_end (concat (map escape_char s) @ CHR 0x22 # r) = Some (length (concat (map escape_char s)), k)"
    by auto
  have "c \<noteq> NUL" using Cons.prems by simp
  from string_end_escape_char [OF this, of "concat (map escape_char s) @ CHR 0x22 # r"] k show ?case by auto
qed simp

lemma unescape_escape_char:
  assumes "c \<noteq> NUL"
  shows "unescape (length (escape_char c) + n) (escape_char c @ t) = map_option ((#) c) (unescape n t)"
  using assms
proof (cases rule: escape_cases)
  case plain
  then show ?thesis by (subst unescape.simps) simp
next
  case (simple e)
  then show ?thesis by (subst unescape.simps) simp
next
  case (hex h)
  have u: "utf16_literal_to_utf8 (CHR 0x5C # CHR ''u'' # h @ t) (6 + n) = Some ([c], 6)"
    using hex by (simp add: utf16_literal_to_utf8_def Let_def parse_hex4_def)
  have "(@) [c] = (#) c" by (rule ext) simp
  then show ?thesis
    by (subst unescape.simps) (simp add: hex(1,2) u [simplified])
qed

lemma unescape_escape: "cstr s \<Longrightarrow> unescape (length (concat (map escape_char s))) (concat (map escape_char s) @ t) = Some s"
proof (induction s)
  case Nil
  then show ?case by (simp add: unescape.simps)
next
  case (Cons c s)
  then show ?case using unescape_escape_char [of c "length (concat (map escape_char s))" "concat (map escape_char s) @ t"] by simp
qed

text \<open>A printed string is parsed back.\<close>

lemma parse_quoted: "cstr s \<Longrightarrow> parse_string (quoted s @ r) = Some (s, r)"
  using string_end_escape [of s r] unescape_escape [of s "CHR 0x22 # r"] by (auto simp: parse_string_def quoted_def)

section \<open>Numbers\<close>

lemma parse_number_int:
  assumes "\<bar>i\<bar> < 2 ^ 53" and "r = [] \<or> \<not> number_char (hd r)"
  shows "parse_number (show_int i @ r) = Some (cJSON_Number (Fin (of_int i)), r)"
proof -
  have "\<forall>c \<in> set (show_int i). number_char c" using dec_isdigit by (auto simp: show_int_def number_char_def split: if_splits)
  then have "takeWhile number_char (show_int i @ r) = show_int i" using assms(2) by (cases r) (simp_all add: takeWhile_append2)
  moreover have "show_int i \<noteq> []" by (simp add: show_int_def)
  ultimately show ?thesis using strtod_show_int [OF assms(1)] by (simp add: parse_number_def)
qed

section \<open>Values\<close>

text \<open>The values a text gives back whole: integers of 32 bits, strings and names without a NUL, no raw text, nesting within the limit.\<close>

fun json_ok :: "nat \<Rightarrow> cJSON \<Rightarrow> bool"
  and json_oks :: "nat \<Rightarrow> cJSON list \<Rightarrow> bool"
  and json_ok_members :: "nat \<Rightarrow> (string \<times> cJSON) list \<Rightarrow> bool" where
  "json_ok d cJSON_Invalid \<longleftrightarrow> False"
| "json_ok d (cJSON_Raw s) \<longleftrightarrow> False"
| "json_ok d (cJSON_Number n) \<longleftrightarrow> n = double_of_int (valueint n)"
| "json_ok d (cJSON_String s) \<longleftrightarrow> cstr s"
| "json_ok d (cJSON_Array es) \<longleftrightarrow> d < CJSON_NESTING_LIMIT \<and> json_oks (d + 1) es"
| "json_ok d (cJSON_Object ms) \<longleftrightarrow> d < CJSON_NESTING_LIMIT \<and> json_ok_members (d + 1) ms"
| "json_ok d _ \<longleftrightarrow> True"
| "json_oks d [] \<longleftrightarrow> True"
| "json_oks d (e # es) \<longleftrightarrow> json_ok d e \<and> json_oks d es"
| "json_ok_members d [] \<longleftrightarrow> True"
| "json_ok_members d ((k, v) # ms) \<longleftrightarrow> cstr k \<and> json_ok d v \<and> json_ok_members d ms"

lemma valueint_range: "- (2 ^ 31) \<le> valueint d \<and> valueint d < 2 ^ 31"
  by (cases d) (auto simp: saturate_def)

lemma number_text_int: "n = double_of_int (valueint n) \<Longrightarrow> number_text n = show_int (valueint n)"
  by (cases n) (simp_all add: double_of_int_def)

definition ends_number :: "string \<Rightarrow> bool" where
  "ends_number r \<longleftrightarrow> r = [] \<or> \<not> number_char (hd r)"

lemma render_number:
  assumes "n = double_of_int (valueint n)" and "ends_number r"
  shows "parse_number (number_text n @ r) = Some (cJSON_Number n, r)"
proof -
  have "\<bar>valueint n\<bar> < 2 ^ 53" using valueint_range [of n] by (simp add: abs_if)
  then show ?thesis
    using parse_number_int [of "valueint n" r] assms number_text_int [OF assms(1)]
    by (metis double_of_int_def ends_number_def)
qed

text \<open>The first character of a text decides how it is read.\<close>

lemma parse_value_first:
  assumes "c \<notin> {CHR ''n'', CHR ''f'', CHR ''t''}"
  shows "parse_value d (c # s) =
     (if c = CHR 0x22 then map_option (\<lambda>(v, r). (cJSON_String v, r)) (parse_string (c # s))
      else if c = CHR ''-'' \<or> isdigit c then parse_number (c # s)
      else if c = CHR ''['' then
        (if d \<ge> CJSON_NESTING_LIMIT then None
         else
           let r = buffer_skip_whitespace s in
           if r = [] then None
           else if hd r = CHR '']'' then Some (cJSON_Array [], tl r)
           else map_option (\<lambda>(es, r). (cJSON_Array es, r)) (parse_elements (d + 1) r))
      else if c = CHR ''{'' then
        (if d \<ge> CJSON_NESTING_LIMIT then None
         else
           let r = buffer_skip_whitespace s in
           if r = [] then None
           else if hd r = CHR ''}'' then Some (cJSON_Object [], tl r)
           else map_option (\<lambda>(ms, r). (cJSON_Object ms, r)) (parse_members (d + 1) r))
      else None)"
  using assms by (simp add: parse_value.simps [of d "c # s"])

definition value_start :: "char \<Rightarrow> bool" where
  "value_start c \<longleftrightarrow> 32 < ccode c \<and> ccode c < 128 \<and> c \<noteq> CHR '']'' \<and> c \<noteq> CHR ''}''"

lemma show_int_first: "\<exists>c s. show_int i = c # s \<and> (c = CHR ''-'' \<or> isdigit c)"
proof (cases "i < 0")
  case False
  have "hd (dec (nat i)) \<in> set (dec (nat i))" by simp
  then have "isdigit (hd (dec (nat i)))" using dec_isdigit by blast
  then show ?thesis using False by (intro exI [of _ "hd (dec (nat i))"] exI [of _ "tl (dec (nat i))"]) (simp add: show_int_def)
qed (simp add: show_int_def)

lemma render_first:
  assumes "json_ok d v"
  shows "\<exists>c s. render fmt d v = c # s \<and> value_start c"
proof -
  have codes: "ccode CHR ''n'' = 110" "ccode CHR ''f'' = 102" "ccode CHR ''t'' = 116" "ccode CHR 0x22 = 34" "ccode CHR ''-'' = 45"
    "ccode CHR ''['' = 91" "ccode CHR ''{'' = 123" "ccode CHR '']'' = 93" "ccode CHR ''}'' = 125" by code_simp+
  then have digit: "value_start c" if "c = CHR ''-'' \<or> isdigit c" for c
    using that by (auto simp: value_start_def isdigit_def)
  show ?thesis
  proof (cases v)
    case (cJSON_Number n)
    then show ?thesis using assms show_int_first [of "valueint n"] digit by (fastforce simp: number_text_int)
  qed (use assms codes in \<open>auto simp: value_start_def quoted_def\<close>)
qed

lemma punctuation:
  "ends_number (CHR '','' # s)" "ends_number (CHR '']'' # s)" "ends_number (CHR ''}'' # s)" "ends_number (NUL # s)" "ends_number (LF # s)"
  "32 < ccode CHR '',''" "32 < ccode CHR '']''" "32 < ccode CHR ''}''" "32 < ccode CHR '':''" "32 < ccode CHR 0x22"
proof -
  have "\<not> number_char CHR '',''" "\<not> number_char CHR '']''" "\<not> number_char CHR ''}''" "\<not> number_char NUL" "\<not> number_char LF"
    "32 < ccode CHR '',''" "32 < ccode CHR '']''" "32 < ccode CHR ''}''" "32 < ccode CHR '':''" "32 < ccode CHR 0x22"
    by code_simp+
  then show "ends_number (CHR '','' # s)" "ends_number (CHR '']'' # s)" "ends_number (CHR ''}'' # s)" "ends_number (NUL # s)" "ends_number (LF # s)"
    "32 < ccode CHR '',''" "32 < ccode CHR '']''" "32 < ccode CHR ''}''" "32 < ccode CHR '':''" "32 < ccode CHR 0x22"
    by (simp_all add: ends_number_def)
qed

lemma skip_value:
  assumes "json_ok d v" and "blank_text w"
  shows "buffer_skip_whitespace (w @ render fmt d v @ s) = render fmt d v @ s"
proof -
  obtain c t where "render fmt d v = c # t" "value_start c" using render_first [OF assms(1)] by blast
  then show ?thesis using skip_blank [OF assms(2), of c "t @ s"] by (simp add: value_start_def)
qed

lemma not_digits: "\<not> isdigit CHR 0x22" "\<not> isdigit CHR ''[''" "\<not> isdigit CHR ''{''"
  by code_simp+

lemma parse_members_blank:
  assumes "blank_text w"
  shows "parse_members d (w @ CHR 0x22 # t) = parse_members d (CHR 0x22 # t)"
  using skip_blank [OF assms punctuation(10), of t] skip_none [OF punctuation(10), of t]
  by (subst (1 2) parse_members_loop) simp

lemma ends_number_blank: "blank_text w \<Longrightarrow> ends_number (w @ CHR ''}'' # r)"
proof -
  have "list_all (\<lambda>n. \<not> number_char (char_of n)) [0..<33]" by code_simp
  then have low: "\<not> number_char (char_of n)" if "n < 33" for n :: nat using that by (simp add: list_all_iff)
  have "\<not> number_char c" if "ccode c \<le> 32" for c
    using low [of "ccode c"] that by (simp add: ccode_def)
  then show "blank_text w \<Longrightarrow> ends_number (w @ CHR ''}'' # r)"
    using punctuation(3) by (cases w) (auto simp: blank_text_def ends_number_def)
qed

lemma parse_render:
  "json_ok d v \<Longrightarrow> ends_number r \<Longrightarrow> parse_value d (render fmt d v @ r) = Some (v, r)"
  "json_oks d es \<Longrightarrow> es \<noteq> [] \<Longrightarrow> blank_text w \<Longrightarrow>
     parse_elements d (w @ render_elements fmt d es @ CHR '']'' # r) = Some (es, r)"
  "json_ok_members d ms \<Longrightarrow> ms \<noteq> [] \<Longrightarrow> blank_text w \<Longrightarrow> blank_text w' \<Longrightarrow>
     parse_members d (w @ render_members fmt d ms @ w' @ CHR ''}'' # r) = Some (ms, r)"
proof (induction fmt d v and fmt d es and fmt d ms arbitrary: r and r w and r w w' rule: render_render_elements_render_members.induct)
  case (4 fmt d n)
  obtain c s where c: "number_text n = c # s" "c = CHR ''-'' \<or> isdigit c"
    using "4.prems"(1) show_int_first [of "valueint n"] by (auto simp: number_text_int)
  have "c \<notin> {CHR ''n'', CHR ''f'', CHR ''t''}" "c \<noteq> CHR 0x22" using c(2) by (auto simp: isdigit_def ccode_def)
  then show ?case
    using render_number [OF _ "4.prems"(2), of n] "4.prems"(1) c parse_value_first [of c d "s @ r"] by simp
next
  case (6 fmt d s)
  then show ?case using parse_value_first [of "CHR 0x22"] parse_quoted [of s r] by (simp add: quoted_def)
next
  case (7 fmt d es)
  show ?case
  proof (cases es)
    case Nil
    then show ?thesis
      using "7.prems" parse_value_first [of "CHR ''[''"] not_digits skip_none [OF punctuation(7)] by simp
  next
    case (Cons e es')
    have e: "json_ok (d + 1) e" using "7.prems" Cons by simp
    obtain c t where c: "render fmt (d + 1) e = c # t" "value_start c" using render_first [OF e] by blast
    obtain t' where t': "render_elements fmt (d + 1) es @ CHR '']'' # r = c # t'" using c(1) Cons by simp
    have "parse_elements (d + 1) (c # t') = Some (es, r)"
      using "7.IH" [of "[]" r] "7.prems" Cons t' blank_texts(1) by simp
    then show ?thesis
      using "7.prems" parse_value_first [of "CHR ''[''"] not_digits c(2) skip_none [of c t'] t' by (simp add: value_start_def)
  qed
next
  case (8 fmt d ms)
  show ?case
  proof (cases ms)
    case Nil
    have "blank_text (opt_text fmt [LF] @ tabs fmt d)" by (simp add: blank_texts)
    from skip_blank [OF this punctuation(8), of r] show ?thesis
      using "8.prems" Nil parse_value_first [of "CHR ''{''"] not_digits by simp
  next
    case (Cons m ms')
    obtain k v where m: "m = (k, v)" by (cases m)
    have "blank_text (opt_text fmt [LF] @ tabs fmt (d + 1))" by (simp add: blank_texts)
    note sk = skip_blank [OF this punctuation(10)]
    obtain t where t: "opt_text fmt [LF] @ render_members fmt (d + 1) ms = (opt_text fmt [LF] @ tabs fmt (d + 1)) @ CHR 0x22 # t"
      using Cons m by (simp add: quoted_def)
    obtain t' where t': "render_members fmt (d + 1) ms = tabs fmt (d + 1) @ CHR 0x22 # t'" "t' = t"
      using t by simp
    have "parse_members (d + 1) (render_members fmt (d + 1) ms @ tabs fmt d @ CHR ''}'' # r) = Some (ms, r)"
      using "8.IH" [of "[]" "tabs fmt d" r] "8.prems" Cons blank_texts(1,5) by simp
    then have "parse_members (d + 1) ((CHR 0x22 # t) @ tabs fmt d @ CHR ''}'' # r) = Some (ms, r)"
      using t' parse_members_blank [OF blank_texts(5)] by simp
    then show ?thesis
      using "8.prems" parse_value_first [of "CHR ''{''"] not_digits sk [of "t @ tabs fmt d @ CHR ''}'' # r"] t t' by simp
  qed
next
  case (11 fmt d e es)
  have e: "json_ok d e" using "11.prems"(1) by simp
  let ?rest = "(if es = [] then [] else CHR '','' # opt_text fmt '' '' @ render_elements fmt d es) @ CHR '']'' # r"
  have "ends_number ?rest" using punctuation by simp
  then have v: "parse_value d (render fmt d e @ ?rest) = Some (e, ?rest)" using "11.IH"(1) e by simp
  have sk: "buffer_skip_whitespace (w @ render fmt d e @ ?rest) = render fmt d e @ ?rest" using skip_value [OF e "11.prems"(3)] .
  show ?case
  proof (cases "es = []")
    case True
    then show ?thesis using v sk skip_none [OF punctuation(7), of r] by (subst parse_elements_loop) simp
  next
    case False
    have "parse_elements d (opt_text fmt '' '' @ render_elements fmt d es @ CHR '']'' # r) = Some (es, r)"
      using "11.IH"(2) [OF False] "11.prems"(1) False blank_texts(3) by simp
    then show ?thesis using False v sk skip_none [OF punctuation(6)] by (subst parse_elements_loop) simp
  qed
next
  case (13 fmt d k v ms)
  let ?tail = "w' @ CHR ''}'' # r"
  let ?rest = "opt_text (ms \<noteq> []) '','' @ opt_text fmt [LF] @ render_members fmt d ms @ ?tail"
  let ?v = "opt_text fmt [CHR 0x09] @ render fmt d v @ ?rest"
  have k: "cstr k" and v: "json_ok d v" using "13.prems"(1) by simp_all
  have "blank_text (opt_text fmt [LF] @ w')" using "13.prems"(4) blank_texts by simp
  then have en: "ends_number ?rest" and close: "ms = [] \<Longrightarrow> buffer_skip_whitespace ?rest = CHR ''}'' # r"
    using punctuation(1) ends_number_blank [of "opt_text fmt [LF] @ w'" r] skip_blank [OF _ punctuation(8), of "opt_text fmt [LF] @ w'" r]
    by (cases ms; simp add: opt_text_def)+
  have name: "parse_string (buffer_skip_whitespace ((w @ tabs fmt d) @ quoted k @ CHR '':'' # ?v)) = Some (k, CHR '':'' # ?v)"
    using skip_blank [of "w @ tabs fmt d", OF _ punctuation(10)] parse_quoted [OF k, of "CHR '':'' # ?v"] "13.prems"(3) blank_texts
    by (simp add: quoted_def)
  have val: "parse_value d (buffer_skip_whitespace ?v) = Some (v, ?rest)"
    using skip_value [OF v blank_texts(4)] "13.IH"(1) [OF v en] by simp
  have step: "parse_members d ((w @ tabs fmt d) @ quoted k @ CHR '':'' # ?v) =
      (let q = buffer_skip_whitespace ?rest in
       if q = [] then None
       else if hd q = CHR '','' then map_option (\<lambda>(ms, r). ((k, v) # ms, r)) (parse_members d (tl q))
       else if hd q = CHR ''}'' then Some ([(k, v)], tl q)
       else None)"
    by (subst parse_members_loop)
      (simp only: name val skip_none [OF punctuation(9)] option.case prod.case Let_def list.sel list.distinct HOL.simp_thms if_False,
        simp add: quoted_def)
  show ?case
  proof (cases "ms = []")
    case True
    then show ?thesis using step close by simp
  next
    case False
    have "parse_members d (opt_text fmt [LF] @ render_members fmt d ms @ ?tail) = Some (ms, r)"
      using "13.IH"(2) [of "opt_text fmt [LF]" w' r] "13.prems" False blank_texts(2) by simp
    then show ?thesis
      using False step skip_none [OF punctuation(6)] by (simp add: opt_text_def)
  qed
qed (simp_all add: parse_value.simps)

section \<open>Whole texts\<close>

lemma cstr_escape_char: "c \<noteq> NUL \<Longrightarrow> cstr (escape_char c)"
proof -
  assume "c \<noteq> NUL"
  moreover have "list_all (\<lambda>n. cstr (escape_char (char_of n))) [1..<32]" by code_simp
  then have "cstr (escape_char (char_of n))" if "1 \<le> n" "n < 32" for n :: nat using that by (simp add: list_all_iff)
  from this [of "ccode c"] have "cstr (escape_char c)" if "1 \<le> ccode c" "ccode c < 32" using that by (simp add: ccode_def)
  moreover have "ccode c \<noteq> 0"
  proof
    assume "ccode c = 0"
    then have "char_of (ccode c) = (char_of (0 :: nat) :: char)" by simp
    moreover have "char_of (0 :: nat) = (NUL :: char)" by code_simp
    ultimately show False using \<open>c \<noteq> NUL\<close> by (simp add: ccode_def)
  qed
  ultimately show ?thesis by (cases "ccode c < 32") (simp_all add: escape_char.simps cstr_def)
qed

lemma cstr_quoted [simp]: "cstr (quoted s)"
proof -
  have "\<forall>c \<in> set (c_str s). c \<noteq> NUL" by (auto simp: c_str_def dest: set_takeWhileD)
  then have "\<forall>c \<in> set (c_str s). NUL \<notin> set (escape_char c)" using cstr_escape_char by (auto simp only: cstr_def)
  then show ?thesis by (simp add: quoted_def cstr_def)
qed

lemma cstr_render:
  "json_ok d v \<Longrightarrow> cstr (render fmt d v)"
  "json_oks d es \<Longrightarrow> cstr (render_elements fmt d es)"
  "json_ok_members d ms \<Longrightarrow> cstr (render_members fmt d ms)"
proof (induction fmt d v and fmt d es and fmt d ms rule: render_render_elements_render_members.induct)
  case (4 fmt d n)
  then show ?case by (simp add: number_text_int)
qed (use cstr_quoted in \<open>auto simp: cstr_def opt_text_def tabs_def\<close>)

lemma parse_rendered:
  assumes "json_ok 0 v"
  shows "cJSON_Parse (Some (render fmt 0 v)) = Some v"
proof -
  let ?s = "render fmt 0 v"
  obtain c t where c: "?s = c # t" "value_start c" using render_first [OF assms] by blast
  have "skip_utf8_bom (?s @ [NUL]) = ?s @ [NUL]" using c by (auto simp: skip_utf8_bom_def value_start_def ccode_def)
  moreover have "buffer_skip_whitespace (?s @ [NUL]) = ?s @ [NUL]"
    using skip_value [OF assms blank_texts(1), of fmt "[NUL]"] by simp
  moreover have "c_str ?s = ?s" using cstr_render(1) [OF assms] by simp
  ultimately show ?thesis
    using parse_render(1) [OF assms punctuation(4) [of "[]"], of fmt]
    by (simp add: cJSON_Parse_def cJSON_ParseWithOpts_def cJSON_ParseWithLengthOpts_def)
qed

text \<open>
  C3. What a print of a value writes, in memory of the caller or in memory that grows, formatted or not, parses back
  to the same value: for values made of the literals, integers of 32 bits, strings, arrays and objects, nested within
  the limit.
\<close>

lemma json_roundtrip:
  assumes "json_ok 0 v" and "cJSON_PrintPreallocated v n fmt = Some s \<or> print v fmt = Some s"
  shows "cJSON_Parse (Some s) = Some v"
  using assms parse_rendered json_print_text json_preallocated_text by blast

lemma json_roundtrip_witness:
  "cJSON_Parse (Some ([CHR ''{'', CHR 0x22, CHR ''v'', CHR 0x22, CHR '':'', CHR ''['', CHR ''-'', CHR ''5'', CHR '','']
       @ [CHR 0x22, CHR 0x5C, CHR ''n'', CHR 0x22] @ '']}''))
     = Some (cJSON_Object [(''v'', cJSON_Array [cJSON_Number (Fin (- 5)), cJSON_String [LF]])])"
proof -
  let ?v = "cJSON_Object [(''v'', cJSON_Array [cJSON_Number (Fin (- 5)), cJSON_String [LF]])]"
  have "json_ok 0 ?v" by (simp add: double_of_int_def to_integer_def saturate_def cstr_def)
  moreover have r: "render False 0 ?v = [CHR ''{'', CHR 0x22, CHR ''v'', CHR 0x22, CHR '':'', CHR ''['', CHR ''-'', CHR ''5'', CHR '','']
      @ [CHR 0x22, CHR 0x5C, CHR ''n'', CHR 0x22] @ '']}''" by code_simp
  moreover have "number_text (Fin (- 5)) = ''-5''" by code_simp
  then have "printable 0 ?v" by simp
  then have "cJSON_PrintPreallocated ?v (int 64) False = Some (render False 0 ?v)"
    by (rule json_preallocated_ok) (simp_all only: r, simp_all)
  ultimately show ?thesis using json_roundtrip [of ?v "int 64" False] r by metis
qed

end
