(* ===== verification/Rss_Json_Minify.thy ===== *)
theory Rss_Json_Minify imports Rss_Json_Roundtrip begin

text \<open>
  \<open>cJSON_Minify\<close> of \<open>src/cJSON.c\<close>: comments and white space go, strings stay.  The code writes into its own input,
  never ahead of what it has read, so the result is a function of the input.
\<close>

section \<open>Model\<close>

text \<open>The rest of a text behind a comment, from behind its opening.\<close>

fun skip_oneline_comment :: "string \<Rightarrow> string" where
  "skip_oneline_comment [] = []"
| "skip_oneline_comment (c # s) = (if c = LF then s else skip_oneline_comment s)"

fun skip_multiline_comment :: "string \<Rightarrow> string" where
  "skip_multiline_comment [] = []"
| "skip_multiline_comment (c # s) =
     (if c = CHR ''*'' \<and> s \<noteq> [] \<and> hd s = CHR ''/'' then tl s else skip_multiline_comment s)"

text \<open>A string from behind its opening quote: what is written, and the rest of the text.\<close>

fun minify_string :: "string \<Rightarrow> string \<times> string" where
  "minify_string [] = ([], [])"
| "minify_string [c] = ([c], [])"
| "minify_string (c # d # s) =
     (if c = CHR 0x22 then ([c], d # s)
      else if c = CHR 0x5C \<and> d = CHR 0x22 then apfst (\<lambda>out. c # d # out) (minify_string s)
      else apfst ((#) c) (minify_string (d # s)))"

lemma skip_comment_length: "length (skip_oneline_comment s) \<le> length s" "length (skip_multiline_comment s) \<le> length s"
  by (induction s) auto

lemma minify_string_length: "length (snd (minify_string s)) \<le> length s"
  by (induction s rule: minify_string.induct) auto

function minify :: "string \<Rightarrow> string" where
  "minify s =
     (case s of [] \<Rightarrow> []
      | c # t \<Rightarrow>
          if c = CHR '' '' \<or> c = CHR 0x09 \<or> c = CR \<or> c = LF then minify t
          else if c = CHR ''/'' then
            if t \<noteq> [] \<and> hd t = CHR ''/'' then minify (skip_oneline_comment (tl t))
            else if t \<noteq> [] \<and> hd t = CHR ''*'' then minify (skip_multiline_comment (tl t))
            else minify t
          else if c = CHR 0x22 then c # fst (minify_string t) @ minify (snd (minify_string t))
          else c # minify t)"
  by pat_completeness auto
termination
  by (relation "measure length")
    (auto simp: le_imp_less_Suc minify_string_length intro!: le_imp_less_Suc le_trans [OF skip_comment_length(1)] le_trans [OF skip_comment_length(2)])

declare minify.simps [simp del]

definition cJSON_Minify :: "string option \<Rightarrow> string option" where
  "cJSON_Minify json = map_option (\<lambda>s. minify (c_str s)) json"

section \<open>A formatted text becomes the plain one\<close>

lemma minify_plain:
  "list_all (\<lambda>c. c \<notin> {CHR '' '', CHR 0x09, CR, LF, CHR ''/'', CHR 0x22}) s \<Longrightarrow> minify (s @ r) = s @ minify r"
  by (induction s) (simp_all add: minify.simps [of "_ # _"])

lemma minify_blank: "list_all (\<lambda>c. c \<in> {CHR '' '', CHR 0x09, CR, LF}) w \<Longrightarrow> minify (w @ r) = minify r"
  by (induction w) (auto simp: minify.simps [of "_ # _"])

lemma minify_string_step:
  "c \<noteq> CHR 0x22 \<Longrightarrow> c \<noteq> CHR 0x5C \<Longrightarrow> s \<noteq> [] \<Longrightarrow> minify_string (c # s) = apfst ((#) c) (minify_string s)"
  by (cases s) simp_all

lemma minify_string_chars:
  "list_all (\<lambda>x. x \<noteq> CHR 0x22 \<and> x \<noteq> CHR 0x5C) h \<Longrightarrow> s \<noteq> [] \<Longrightarrow> minify_string (h @ s) = apfst ((@) h) (minify_string s)"
proof (induction h)
  case Nil
  show ?case by (simp add: apfst_def map_prod_def split: prod.split)
next
  case (Cons x h)
  then show ?case by (simp add: minify_string_step apfst_def map_prod_def split: prod.split)
qed

lemma minify_string_escape:
  assumes "c \<noteq> NUL" and "c \<noteq> CHR 0x5C" and "s \<noteq> []"
  shows "minify_string (escape_char c @ s) = apfst ((@) (escape_char c)) (minify_string s)"
  using assms(1)
proof (cases rule: escape_cases)
  case plain
  then show ?thesis using minify_string_chars [of "[c]" s] assms(3) by simp
next
  case (simple e)
  have "e \<noteq> CHR 0x5C" using simple(3) assms(2) by (auto simp: simple_escape_def)
  then show ?thesis using simple assms(3) minify_string_step [of e s]
    by (cases "e = CHR 0x22") (simp_all add: apfst_def map_prod_def split: prod.split)
next
  case (hex h)
  then show ?thesis using minify_string_chars [of "CHR ''u'' # h" s] assms(3)
    by (simp add: apfst_def map_prod_def split: prod.split)
qed

lemma minify_quoted:
  assumes "cstr s" and "CHR 0x5C \<notin> set s"
  shows "minify (quoted s @ r) = quoted s @ minify r"
proof -
  have "minify_string (concat (map escape_char s) @ CHR 0x22 # r) = (concat (map escape_char s) @ [CHR 0x22], r)"
    using assms
  proof (induction s)
    case Nil
    show ?case by (cases r) simp_all
  next
    case (Cons c s)
    then show ?case using minify_string_escape [of c "concat (map escape_char s) @ CHR 0x22 # r"] by auto
  qed
  then show ?thesis using assms by (simp add: quoted_def minify.simps [of "_ # _"])
qed

text \<open>Values whose strings and names hold no backslash.\<close>

fun no_backslash :: "cJSON \<Rightarrow> bool"
  and no_backslashes :: "cJSON list \<Rightarrow> bool"
  and no_backslash_members :: "(string \<times> cJSON) list \<Rightarrow> bool" where
  "no_backslash (cJSON_String s) \<longleftrightarrow> CHR 0x5C \<notin> set s"
| "no_backslash (cJSON_Array es) \<longleftrightarrow> no_backslashes es"
| "no_backslash (cJSON_Object ms) \<longleftrightarrow> no_backslash_members ms"
| "no_backslash _ \<longleftrightarrow> True"
| "no_backslashes [] \<longleftrightarrow> True"
| "no_backslashes (e # es) \<longleftrightarrow> no_backslash e \<and> no_backslashes es"
| "no_backslash_members [] \<longleftrightarrow> True"
| "no_backslash_members ((k, v) # ms) \<longleftrightarrow> CHR 0x5C \<notin> set k \<and> no_backslash v \<and> no_backslash_members ms"

lemma minify_number: "minify (show_int i @ r) = show_int i @ minify r"
proof -
  have d: "list_all (\<lambda>c. c \<notin> {CHR '' '', CHR 0x09, CR, LF, CHR ''/'', CHR 0x22}) (dec n)" for n
    using dec_isdigit by (fastforce simp: list_all_iff isdigit_def ccode_def)
  then have "list_all (\<lambda>c. c \<notin> {CHR '' '', CHR 0x09, CR, LF, CHR ''/'', CHR 0x22}) (show_int i)"
    by (simp add: show_int_def)
  then show ?thesis by (rule minify_plain)
qed

lemma minify_blanks: "minify (opt_text b [LF] @ r) = minify r" "minify (opt_text b '' '' @ r) = minify r"
  "minify (opt_text b [CHR 0x09] @ r) = minify r" "minify (tabs b d @ r) = minify r"
  using minify_blank by (simp_all add: opt_text_def tabs_def list_all_iff)

lemma minify_chars: "minify (CHR ''['' # r) = CHR ''['' # minify r" "minify (CHR '']'' # r) = CHR '']'' # minify r"
  "minify (CHR ''{'' # r) = CHR ''{'' # minify r" "minify (CHR ''}'' # r) = CHR ''}'' # minify r"
  "minify (CHR '':'' # r) = CHR '':'' # minify r" "minify (CHR '','' # r) = CHR '','' # minify r" "minify (LF # r) = minify r" "minify (CHR 0x09 # r) = minify r"
  by (simp_all add: minify.simps [of "_ # _"])

lemma minify_render:
  "json_ok d v \<Longrightarrow> no_backslash v \<Longrightarrow> minify (render fmt d v @ r) = render False d v @ minify r"
  "json_oks d es \<Longrightarrow> no_backslashes es \<Longrightarrow> minify (render_elements fmt d es @ r) = render_elements False d es @ minify r"
  "json_ok_members d ms \<Longrightarrow> no_backslash_members ms \<Longrightarrow> minify (render_members fmt d ms @ r) = render_members False d ms @ minify r"
proof (induction fmt d v and fmt d es and fmt d ms arbitrary: r and r and r rule: render_render_elements_render_members.induct)
  case (4 fmt d n)
  then show ?case using minify_number by (simp add: number_text_int)
next
  case (1 fmt d)
  show ?case using minify_plain [of "''null''" r] by simp
next
  case (2 fmt d)
  show ?case using minify_plain [of "''false''" r] by simp
next
  case (3 fmt d)
  show ?case using minify_plain [of "''true''" r] by simp
next
  case (13 fmt d k v ms)
  then show ?case
    by (cases fmt; cases "ms = []") (simp_all add: minify_quoted minify_blanks minify_chars opt_text_def tabs_def minify_blank list_all_iff)
qed (simp_all add: minify_quoted minify_blanks minify_chars, simp_all add: opt_text_def tabs_def minify_chars minify_blanks)

text \<open>
  C36. Taking the formatting out of a printed value gives the text that printing without formatting gives, for values
  whose strings hold no backslash.
\<close>

lemma json_minify:
  assumes "json_ok 0 v" and "no_backslash v" and "cJSON_Print v = Some s" and "cJSON_PrintUnformatted v = Some t"
  shows "cJSON_Minify (Some s) = Some t"
proof -
  have s: "s = render True 0 v" "t = render False 0 v"
    using assms(3,4) json_print_text by (simp_all add: cJSON_Print_def cJSON_PrintUnformatted_def)
  have "minify [] = []" by (simp add: minify.simps)
  then show ?thesis
    using minify_render(1) [OF assms(1,2), of True "[]"] cstr_render(1) [OF assms(1), of True] s by (simp add: cJSON_Minify_def)
qed

lemma json_minify_witness:
  "cJSON_Minify (Some ''[true, null]'') = Some ''[true,null]''"
proof -
  let ?v = "cJSON_Array [cJSON_True, cJSON_NULL]"
  have "json_ok 0 ?v" "no_backslash ?v" by simp_all
  moreover have "cJSON_Print ?v = Some ''[true, null]''" "cJSON_PrintUnformatted ?v = Some ''[true,null]''"
    by (simp_all add: cJSON_Print_def cJSON_PrintUnformatted_def print_def new_buffer_def stored_def put_out_def put_tail_def ensure_def update_offset_def Let_def)
  ultimately show ?thesis using json_minify [of ?v] by simp
qed

text \<open>A string that ends in a backslash is taken to go on: the blank inside the next string is lost.\<close>

lemma minify_backslash:
  "cJSON_Minify (Some (render False 0 (cJSON_Array [cJSON_String [CHR 0x5C], cJSON_String ''a b'']))) =
     Some (render False 0 (cJSON_Array [cJSON_String [CHR 0x5C], cJSON_String ''ab'']))"
  by code_simp

end
