(* ===== verification/Rss_Json_Compare.thy ===== *)
theory Rss_Json_Compare imports Rss_Json_Item Rss_Json_Roundtrip begin

text \<open>
  \<open>cJSON_Duplicate\<close> and \<open>cJSON_Compare\<close> of \<open>src/cJSON.c\<close>.  The comparison is that of two different items; the
  code takes an item to be equal to itself without looking inside.
\<close>

section \<open>Model\<close>

abbreviation (input) CJSON_CIRCULAR_LIMIT :: nat where "CJSON_CIRCULAR_LIMIT \<equiv> 10000"

fun duplicate_rec :: "nat \<Rightarrow> cJSON \<Rightarrow> cJSON option"
  and duplicate_items :: "nat \<Rightarrow> cJSON list \<Rightarrow> cJSON list option"
  and duplicate_members :: "nat \<Rightarrow> (string \<times> cJSON) list \<Rightarrow> (string \<times> cJSON) list option" where
  "duplicate_rec d (cJSON_String s) = Some (cJSON_String (cJSON_strdup s))"
| "duplicate_rec d (cJSON_Raw s) = Some (cJSON_Raw (cJSON_strdup s))"
| "duplicate_rec d (cJSON_Array es) = map_option cJSON_Array (duplicate_items d es)"
| "duplicate_rec d (cJSON_Object ms) = map_option cJSON_Object (duplicate_members d ms)"
| "duplicate_rec d v = Some v"
| "duplicate_items d [] = Some []"
| "duplicate_items d (e # es) =
     (if d \<ge> CJSON_CIRCULAR_LIMIT then None
      else case duplicate_rec (d + 1) e of None \<Rightarrow> None | Some e \<Rightarrow> map_option ((#) e) (duplicate_items d es))"
| "duplicate_members d [] = Some []"
| "duplicate_members d ((k, v) # ms) =
     (if d \<ge> CJSON_CIRCULAR_LIMIT then None
      else case duplicate_rec (d + 1) v of None \<Rightarrow> None
      | Some v \<Rightarrow> map_option ((#) (cJSON_strdup k, v)) (duplicate_members d ms))"

text \<open>Without recursion a container is copied without its children.\<close>

definition cJSON_Duplicate :: "cJSON option \<Rightarrow> bool \<Rightarrow> cJSON option" where
  "cJSON_Duplicate item recurse =
     (case item of None \<Rightarrow> None
      | Some v \<Rightarrow>
          if recurse then duplicate_rec 0 v
          else case v of cJSON_Array es \<Rightarrow> Some (cJSON_Array []) | cJSON_Object ms \<Rightarrow> Some (cJSON_Object []) | _ \<Rightarrow> duplicate_rec 0 v)"

lemma find_child_in: "find_child cs k ms = Some v \<Longrightarrow> v \<in> snd ` set ms"
  by (induction cs k ms rule: find_child.induct) (auto split: option.splits if_splits)

lemma child_smaller: "v \<in> snd ` set (children a) \<Longrightarrow> size v < size a"
proof (cases a)
  case (cJSON_Array es)
  then show "v \<in> snd ` set (children a) \<Longrightarrow> ?thesis" using size_list_estimation' [of v es "size v" size] by (auto simp: less_Suc_eq_le)
next
  case (cJSON_Object ms)
  have "size v \<le> size_list (size_prod (\<lambda>_. 0) size) ms" if "(k, v) \<in> set ms" for k
    using size_list_estimation' [OF that, of "size v" "size_prod (\<lambda>_. 0) size"] by simp
  then show "v \<in> snd ` set (children a) \<Longrightarrow> ?thesis" using cJSON_Object by (force simp: less_Suc_eq_le)
qed simp_all

lemma child_sizes:
  "(k, v) \<in> set ms \<Longrightarrow> size v < size (cJSON_Object ms)"
  "find_child cs k (children b) = Some w \<Longrightarrow> size w < size b"
  "e \<in> set es \<Longrightarrow> size e < size (cJSON_Array es)"
  using child_smaller [of v "cJSON_Object ms"] child_smaller [OF find_child_in] child_smaller [of e "cJSON_Array es"]
  by (force, blast, force)

declare list.rel_cong [fundef_cong]

function compare :: "bool \<Rightarrow> cJSON \<Rightarrow> cJSON \<Rightarrow> bool" where
  "compare cs a b \<longleftrightarrow>
     (case (a, b) of
        (cJSON_False, cJSON_False) \<Rightarrow> True
      | (cJSON_True, cJSON_True) \<Rightarrow> True
      | (cJSON_NULL, cJSON_NULL) \<Rightarrow> True
      | (cJSON_Number x, cJSON_Number y) \<Rightarrow> compare_double x y
      | (cJSON_String s, cJSON_String t) \<Rightarrow> strcmp s t = 0
      | (cJSON_Raw s, cJSON_Raw t) \<Rightarrow> strcmp s t = 0
      | (cJSON_Array es, cJSON_Array fs) \<Rightarrow>
          list_all2 (compare cs) es fs
      | (cJSON_Object ms, cJSON_Object ns) \<Rightarrow>
          list_all (\<lambda>(k, v). case find_child cs k (children b) of None \<Rightarrow> False | Some w \<Rightarrow> compare cs v w) ms
          \<and> list_all (\<lambda>(k, w). case find_child cs k (children a) of None \<Rightarrow> False | Some v \<Rightarrow> compare cs w v) ns
      | _ \<Rightarrow> False)"
  by pat_completeness auto
termination
proof (relation "measure (\<lambda>(cs, a, b). size a + size b)", goal_cases)
  case (2 cs a b)
  then show ?case using child_sizes(3) by (metis (no_types, lifting) add_strict_mono case_prod_conv in_measure prod.inject)
next
  case (3 cs a b)
  then show ?case using child_sizes(1,2) by (metis (no_types, lifting) add_strict_mono case_prod_conv in_measure prod.inject)
next
  case (4 cs a b)
  then show ?case using child_sizes(1,2) by (metis (no_types, lifting) add_strict_mono add.commute case_prod_conv in_measure prod.inject)
qed simp

declare compare.simps [simp del]

definition cJSON_Compare :: "cJSON option \<Rightarrow> cJSON option \<Rightarrow> bool \<Rightarrow> bool" where
  "cJSON_Compare a b cs \<longleftrightarrow> (case (a, b) of (Some a, Some b) \<Rightarrow> compare cs a b | _ \<Rightarrow> False)"

section \<open>A copy is equal\<close>

lemma to_double_nonneg: "0 \<le> q \<Longrightarrow> double_le (Fin 0) (to_double q)"
proof -
  assume q: "0 \<le> q"
  have b: "0 < bpow 2 e" for e by (simp add: bpow_def)
  have "0 \<le> round_even x" if "0 \<le> x" for x :: rat
    using that by (simp add: round_even_def Let_def)
  then have "0 \<le> round_even (q * bpow 2 e)" for e using q b [of e] by simp
  then have "0 \<le> rat_of_int (round_even (q * bpow 2 e)) * bpow 2 f" for e f using b [of f] by simp
  then show ?thesis using q by (simp add: to_double_def Let_def)
qed

lemma compare_double_self: "compare_double (Fin q) (Fin q)"
  using to_double_nonneg [of "\<bar>q\<bar> * DBL_EPSILON"] by (simp add: DBL_EPSILON_def bpow_def to_double_def [of 0])

definition key_of :: "bool \<Rightarrow> string \<Rightarrow> string" where
  "key_of cs k = (if cs then c_str k else fold_name k)"

text \<open>Finite numbers, texts without a NUL, no name twice in an object, nested within the limit of the copy.\<close>

fun tame :: "bool \<Rightarrow> nat \<Rightarrow> cJSON \<Rightarrow> bool"
  and tames :: "bool \<Rightarrow> nat \<Rightarrow> cJSON list \<Rightarrow> bool"
  and tame_members :: "bool \<Rightarrow> nat \<Rightarrow> (string \<times> cJSON) list \<Rightarrow> bool" where
  "tame cs d cJSON_Invalid \<longleftrightarrow> False"
| "tame cs d (cJSON_Number n) \<longleftrightarrow> (case n of Fin q \<Rightarrow> True | _ \<Rightarrow> False)"
| "tame cs d (cJSON_String s) \<longleftrightarrow> cstr s"
| "tame cs d (cJSON_Raw s) \<longleftrightarrow> cstr s"
| "tame cs d (cJSON_Array es) \<longleftrightarrow> d < CJSON_CIRCULAR_LIMIT \<and> tames cs (d + 1) es"
| "tame cs d (cJSON_Object ms) \<longleftrightarrow>
     d < CJSON_CIRCULAR_LIMIT \<and> distinct (map (\<lambda>m. key_of cs (fst m)) ms) \<and> tame_members cs (d + 1) ms"
| "tame cs d _ \<longleftrightarrow> True"
| "tames cs d [] \<longleftrightarrow> True"
| "tames cs d (e # es) \<longleftrightarrow> tame cs d e \<and> tames cs d es"
| "tame_members cs d [] \<longleftrightarrow> True"
| "tame_members cs d ((k, v) # ms) \<longleftrightarrow> cstr k \<and> tame cs d v \<and> tame_members cs d ms"

lemma tames_all: "tames cs d es \<longleftrightarrow> (\<forall>e \<in> set es. tame cs d e)"
  by (induction es) auto

lemma tame_members_all: "tame_members cs d ms \<longleftrightarrow> (\<forall>(k, v) \<in> set ms. cstr k \<and> tame cs d v)"
  by (induction ms) auto

lemma duplicate_same:
  "tame cs d v \<Longrightarrow> duplicate_rec d v = Some v"
  "tames cs (d + 1) es \<Longrightarrow> d < CJSON_CIRCULAR_LIMIT \<Longrightarrow> duplicate_items d es = Some es"
  "tame_members cs (d + 1) ms \<Longrightarrow> d < CJSON_CIRCULAR_LIMIT \<Longrightarrow> duplicate_members d ms = Some ms"
  by (induction d v and d es and d ms rule: duplicate_rec_duplicate_items_duplicate_members.induct) (simp_all add: cJSON_strdup_def)

lemma find_child_unique:
  "distinct (map (\<lambda>m. key_of cs (fst m)) ms) \<Longrightarrow> (k, v) \<in> set ms \<Longrightarrow> find_child cs k (map (apfst Some) ms) = Some v"
proof (induction ms)
  case (Cons m ms)
  obtain k' v' where m: "m = (k', v')" by (cases m)
  have same: "(if cs then strcmp k k' else case_insensitive_strcmp (Some k) (Some k')) = 0 \<longleftrightarrow> key_of cs k = key_of cs k'"
    by (simp add: key_of_def case_insensitive_strcmp_def strcmp_c_str strcasecmp_fold)
  show ?case
  proof (cases "(k, v) = m")
    case True
    then show ?thesis using m same by (cases cs) simp_all
  next
    case False
    then have "key_of cs k \<noteq> key_of cs k'" using Cons.prems m by force
    then show ?thesis using Cons m same False by (cases cs) auto
  qed
qed simp

lemma compare_self: "tame cs d v \<Longrightarrow> compare cs v v"
proof (induction "size v" arbitrary: v d rule: less_induct)
  case less
  show ?case
  proof (cases v)
    case (cJSON_Number n)
    then show ?thesis using less.prems compare_double_self by (cases n) (simp_all add: compare.simps)
  next
    case (cJSON_Array es)
    then have "compare cs e e" if "e \<in> set es" for e
      using less.hyps [OF child_sizes(3) [OF that, folded cJSON_Array], of "d + 1"] less.prems that by (simp add: tames_all)
    then show ?thesis using cJSON_Array by (simp add: compare.simps list.rel_refl_strong)
  next
    case (cJSON_Object ms)
    have "compare cs w w" if "(k, w) \<in> set ms" for k w
      using less.hyps [OF child_sizes(1) [OF that, folded cJSON_Object], of "d + 1"] less.prems that cJSON_Object by (auto simp: tame_members_all)
    then show ?thesis using cJSON_Object less.prems find_child_unique [of cs ms] by (auto simp: compare.simps list_all_iff)
  qed (use less.prems in \<open>simp_all add: compare.simps\<close>)
qed

text \<open>
  A full copy of a value is the value, and the comparison, with or without case, finds the copy and the original
  equal, if no object has a name twice.
\<close>

lemma json_duplicate_equal:
  assumes "tame cs 0 v"
  shows "case cJSON_Duplicate (Some v) True of None \<Rightarrow> False | Some w \<Rightarrow> w = v \<and> cJSON_Compare (Some w) (Some v) cs"
  using duplicate_same(1) [OF assms] compare_self [OF assms] by (simp add: cJSON_Duplicate_def cJSON_Compare_def)

lemma json_duplicate_equal_witness:
  "cJSON_Compare (cJSON_Duplicate (Some (cJSON_Object [(''a'', cJSON_Number (Fin (1 / 3))), (''A'', cJSON_Array [cJSON_NULL])])) True)
     (Some (cJSON_Object [(''a'', cJSON_Number (Fin (1 / 3))), (''A'', cJSON_Array [cJSON_NULL])])) True"
proof -
  let ?v = "cJSON_Object [(''a'', cJSON_Number (Fin (1 / 3))), (''A'', cJSON_Array [cJSON_NULL])]"
  have "tame True 0 ?v" by (simp add: key_of_def cstr_def c_str_Cons)
  from json_duplicate_equal [OF this] show ?thesis by (auto split: option.splits)
qed

text \<open>An object with a name twice is not equal to its copy: both searches find the first of the two.\<close>

lemma compare_twice:
  "\<not> compare True (cJSON_Object [(''a'', cJSON_True), (''a'', cJSON_False)]) (cJSON_Object [(''a'', cJSON_True), (''a'', cJSON_False)])"
  by (simp add: compare.simps strcmp_c_str)

end
