(* ===== verification/Rss_Json_Getters.thy ===== *)
theory Rss_Json_Getters imports Rss_Json_Compare begin

text \<open>The getters of \<open>src/rss_util.c\<close> find what stands in a printed object.\<close>

lemma getter_lookup:
  assumes "json_ok d (cJSON_Object ms)" and "distinct (map fst ms)" and "(k, v) \<in> set ms"
  shows "cstr k" and "cJSON_GetObjectItemCaseSensitive (Some (cJSON_Object ms)) (Some k) = Some v"
proof -
  have names: "\<forall>(k, v) \<in> set ms. cstr k" if "json_ok_members d ms" for d ms using that by (induction ms) auto
  have c: "\<forall>(k, v) \<in> set ms. cstr k" using names [of "d + 1" ms] assms(1) by simp
  then show "cstr k" using assms(3) by auto
  have "map (\<lambda>m. key_of True (fst m)) ms = map fst ms" using c by (auto simp: key_of_def)
  then have "distinct (map (\<lambda>m. key_of True (fst m)) ms)" using assms(2) by metis
  from find_child_unique [OF this assms(3)]
  show "cJSON_GetObjectItemCaseSensitive (Some (cJSON_Object ms)) (Some k) = Some v"
    by (simp add: cJSON_GetObjectItemCaseSensitive_def get_object_item_def)
qed

text \<open>
  C37. In the text of a printed object, an integer and an integer inside a nested object are found exactly, and a string
  is found up to the room of the destination, which is terminated and not written past its size.
\<close>

lemma json_getters:
  assumes "json_ok 0 (cJSON_Object ms)" and "distinct (map fst ms)" and "cJSON_PrintPreallocated (cJSON_Object ms) n fmt = Some s"
    and "(k, v) \<in> set ms" and "1 \<le> m" and "nat m \<le> length buf"
  shows "case v of
      cJSON_Number d \<Rightarrow> rss_json_get_int (Some s) (Some k) = Some (valueint d)
    | cJSON_String t \<Rightarrow>
        (case rss_json_get_str (Some s) (Some k) (Some buf) m of
           (r, Some buf') \<Rightarrow> r = 0 \<and> c_str buf' = take (nat m - 1) t \<and> length buf' = length buf \<and> drop (nat m) buf' = drop (nat m) buf
         | _ \<Rightarrow> False)
    | cJSON_Object ns \<Rightarrow>
        list_all (\<lambda>(l, w). case w of cJSON_Number d \<Rightarrow> rss_json_get_nested_int (Some s) (Some k) (Some l) = Some (valueint d) | _ \<Rightarrow> True) ns
        \<or> \<not> distinct (map fst ns)
    | _ \<Rightarrow> True"
proof -
  have s: "cJSON_Parse (Some s) = Some (cJSON_Object ms)"
    using parse_rendered [OF assms(1), of fmt] json_preallocated_text [OF assms(3)] by simp
  note l = getter_lookup(2) [OF assms(1,2,4)]
  have members: "json_ok d v" if "json_ok_members d ms" "(k, v) \<in> set ms" for d k v ms
    using that by (induction ms) auto
  then have ok: "json_ok 1 v" using assms(1,4) by fastforce
  show ?thesis
  proof (cases v)
    case (cJSON_String t)
    then have "cstr t" using ok by simp
    obtain r buf' where b: "rss_strlcpy (Some buf) (Some t) (nat m) = (r, Some buf')"
      using assms(5) by (auto simp: rss_strlcpy_def Let_def)
    show ?thesis
      using strlcpy_reads [OF \<open>cstr t\<close> _ assms(6) b] s l b \<open>cstr t\<close> assms(5) cJSON_String
      by (simp add: rss_json_get_str_def cJSON_GetStringValue_def)
  next
    case (cJSON_Object ns)
    have "case w of cJSON_Number d \<Rightarrow> rss_json_get_nested_int (Some s) (Some k) (Some x) = Some (valueint d) | _ \<Rightarrow> True"
      if "distinct (map fst ns)" "(x, w) \<in> set ns" for x w
      using s l cJSON_Object getter_lookup(2) [OF ok [unfolded cJSON_Object] that]
      by (cases w) (simp_all add: rss_json_get_nested_int_def cJSON_IsObject_def)
    then show ?thesis using cJSON_Object by (auto simp: list_all_iff)
  qed (use s l in \<open>simp_all add: rss_json_get_int_def\<close>)
qed

lemma json_getters_witness:
  "rss_json_get_nested_int (cJSON_PrintPreallocated (cJSON_Object [(''p'', cJSON_Object [(''k'', cJSON_Number (Fin 7))])]) 64 False)
     (Some ''p'') (Some ''k'') = Some 7"
proof -
  let ?ms = "[(''p'', cJSON_Object [(''k'', cJSON_Number (Fin 7))])]"
  have n: "number_text (Fin 7) = ''7''" by code_simp
  have "json_ok 0 (cJSON_Object ?ms)" by (simp add: double_of_int_def to_integer_def saturate_def cstr_def)
  moreover have "cJSON_PrintPreallocated (cJSON_Object ?ms) (int 64) False = Some (render False 0 (cJSON_Object ?ms))"
    by (rule json_preallocated_ok) (simp_all del: number_text.simps add: n quoted_def c_str_Cons tabs_def opt_text_def escape_char.simps ccode_def)
  ultimately have "rss_json_get_nested_int (Some (render False 0 (cJSON_Object ?ms))) (Some ''p'') (Some ''k'') = Some (valueint (Fin 7))
      \<and> cJSON_PrintPreallocated (cJSON_Object ?ms) 64 False = Some (render False 0 (cJSON_Object ?ms))"
    using json_getters [of ?ms 64 False "render False 0 (cJSON_Object ?ms)" "''p''" "cJSON_Object [(''k'', cJSON_Number (Fin 7))]" 1 "[NUL]"]
    by (simp del: render.simps valueint.simps json_ok.simps)
  moreover have "valueint (Fin 7) = 7" by (simp add: to_integer_def saturate_def)
  ultimately show ?thesis by (simp del: render.simps valueint.simps)
qed

end
