(* ===== verification/Rss_Ctrl.thy ===== *)
theory Rss_Ctrl imports Rss_Json_Roundtrip Rss_Json_Item Rss_Daemon Rss_Config_Save begin

text \<open>
  The control socket: the requests of \<open>src/rss_ctrl_client.c\<close>, the common handler of \<open>src/rss_ctrl_cmds.c\<close> and the
  answers of \<open>include/rss_common.h\<close>.  A buffer for an answer is the C string in it.  The transport is a parameter of
  the client, the operating system a record of answers of the handler.
\<close>

section \<open>Answers\<close>

text \<open>\<open>s\<close> is the text the format makes.\<close>

definition rss_ctrl_resp :: "string \<Rightarrow> int \<Rightarrow> string \<Rightarrow> int \<times> string" where
  "rss_ctrl_resp buf n s =
     (if n \<le> 0 then (0, buf) else let buf = take (nat n - 1) s in (int (length buf), buf))"

definition put_json :: "cJSON option \<Rightarrow> int \<Rightarrow> string" where
  "put_json r n =
     (case r of None \<Rightarrow> []
      | Some r \<Rightarrow> (case cJSON_PrintPreallocated r n False of None \<Rightarrow> [] | Some s \<Rightarrow> c_str s))"

definition rss_ctrl_resp_ok :: "string \<Rightarrow> int \<Rightarrow> int \<times> string" where
  "rss_ctrl_resp_ok buf n =
     (if n \<le> 0 then (0, buf)
      else let buf = put_json (cJSON_AddStringToObject cJSON_CreateObject ''status'' ''ok'') n
           in (int (length buf), buf))"

definition rss_ctrl_resp_error :: "string \<Rightarrow> int \<Rightarrow> string option \<Rightarrow> int \<times> string" where
  "rss_ctrl_resp_error buf n reason =
     (if n \<le> 0 then (0, buf)
      else let r = cJSON_AddStringToObject cJSON_CreateObject ''status'' ''error'';
               r = Option.bind r (\<lambda>r. cJSON_AddStringToObject r ''reason'' (case reason of None \<Rightarrow> [] | Some s \<Rightarrow> s));
               buf = put_json r n
           in (int (length buf), buf))"

definition rss_ctrl_resp_json :: "string \<Rightarrow> int \<Rightarrow> cJSON option \<Rightarrow> int \<times> string" where
  "rss_ctrl_resp_json buf n json =
     (case json of None \<Rightarrow> rss_ctrl_resp_error buf n (Some ''json alloc failed'')
      | Some r \<Rightarrow>
          (case cJSON_PrintPreallocated r n False of
             None \<Rightarrow> rss_ctrl_resp_error buf n (Some ''response too large'')
           | Some s \<Rightarrow> (int (length (c_str s)), c_str s)))"

section \<open>The client\<close>

text \<open>
  \<open>send\<close> stands for \<open>rss_ctrl_send_command\<close> of another library: socket path, message, buffer, its size, timeout.
  \<open>None\<close> is the answer -1 of a request that could not be written, with nothing sent.
\<close>

type_synonym 'r sender = "string \<Rightarrow> string \<Rightarrow> string \<Rightarrow> int \<Rightarrow> int \<Rightarrow> 'r"

definition ctrl_send_obj :: "'r sender \<Rightarrow> string \<Rightarrow> cJSON option \<Rightarrow> string \<Rightarrow> int \<Rightarrow> int \<Rightarrow> 'r option" where
  "ctrl_send_obj send sock_path obj resp resp_size timeout_ms =
     (case Option.bind obj (\<lambda>obj. cJSON_PrintPreallocated obj 512 False) of None \<Rightarrow> None
      | Some msg \<Rightarrow> Some (send sock_path msg resp resp_size timeout_ms))"

definition rss_ctrl_cmd :: "'r sender \<Rightarrow> string \<Rightarrow> string \<Rightarrow> string \<Rightarrow> int \<Rightarrow> int \<Rightarrow> 'r option" where
  "rss_ctrl_cmd send sock_path cmd resp resp_size timeout_ms =
     ctrl_send_obj send sock_path (cJSON_AddStringToObject cJSON_CreateObject ''cmd'' cmd) resp resp_size timeout_ms"

definition rss_ctrl_cmd_int :: "'r sender \<Rightarrow> string \<Rightarrow> string \<Rightarrow> string \<Rightarrow> int \<Rightarrow> string \<Rightarrow> int \<Rightarrow> int \<Rightarrow> 'r option" where
  "rss_ctrl_cmd_int send sock_path cmd arg v resp resp_size timeout_ms =
     ctrl_send_obj send sock_path
       (Option.bind (cJSON_AddStringToObject cJSON_CreateObject ''cmd'' cmd)
          (\<lambda>obj. cJSON_AddNumberToObject obj arg (double_of_int v))) resp resp_size timeout_ms"

definition rss_ctrl_cmd_str :: "'r sender \<Rightarrow> string \<Rightarrow> string \<Rightarrow> string \<Rightarrow> string option \<Rightarrow> string \<Rightarrow> int \<Rightarrow> int \<Rightarrow> 'r option" where
  "rss_ctrl_cmd_str send sock_path cmd arg v resp resp_size timeout_ms =
     ctrl_send_obj send sock_path
       (Option.bind (cJSON_AddStringToObject cJSON_CreateObject ''cmd'' cmd)
          (\<lambda>obj. cJSON_AddStringToObject obj arg (case v of None \<Rightarrow> [] | Some s \<Rightarrow> s))) resp resp_size timeout_ms"

definition rss_ctrl_resp_is_ok :: "string option \<Rightarrow> bool" where
  "rss_ctrl_resp_is_ok resp \<longleftrightarrow>
     (if resp = None then False
      else case cJSON_GetStringValue (cJSON_GetObjectItem (cJSON_Parse resp) (Some ''status'')) of
        None \<Rightarrow> False | Some s \<Rightarrow> strcmp s ''ok'' = 0)"

section \<open>The handler\<close>

record ctrl_answers =
  cfg_exists :: bool
  cfg_file :: "string option"
  cfg_write_ok :: bool
  nprocessors :: int
  int_of_double :: "double \<Rightarrow> int"  \<comment> \<open>the conversion of a number that is no \<open>int\<close>, which C leaves open\<close>
  setaffinity_error :: "string option"
  getaffinity_error :: "string option"
  cpu_allowed :: "nat \<Rightarrow> bool"
  policy_name :: string
  sched_priority :: int

record ctrl_state =
  ctrl_run :: run_state
  ctrl_log :: log_state
  ctrl_cfg :: "rss_config_t option"

text \<open>What a handler does besides its answer and its state.\<close>

datatype ctrl_op = Info string | Sched_setaffinity int | Write_config string

type_synonym ctrl_result = "(int \<times> string) \<times> ctrl_state \<times> ctrl_op list"

definition cast_int :: "ctrl_answers \<Rightarrow> double \<Rightarrow> int" where
  "cast_int w d =
     (case d of Fin q \<Rightarrow> if - (2 ^ 31) \<le> to_integer q \<and> to_integer q < 2 ^ 31 then to_integer q else int_of_double w d
      | _ \<Rightarrow> int_of_double w d)"

definition str_arg :: "cJSON \<Rightarrow> string \<Rightarrow> string option" where
  "str_arg r arg = cJSON_GetStringValue (cJSON_GetObjectItemCaseSensitive (Some r) (Some arg))"

fun section_dump :: "(string \<times> string) list \<Rightarrow> cJSON \<Rightarrow> cJSON option" where
  "section_dump [] keys_obj = Some keys_obj"
| "section_dump ((k, v) # kvs) keys_obj = Option.bind (cJSON_AddStringToObject keys_obj k v) (section_dump kvs)"

text \<open>The object for the keys is part of the answer while it is filled.\<close>

definition section_answer :: "rss_config_t option \<Rightarrow> string \<Rightarrow> cJSON option" where
  "section_answer cfg section_name =
     Option.bind (cJSON_AddStringToObject cJSON_CreateObject ''status'' ''ok'') (\<lambda>resp.
     Option.bind (cJSON_AddStringToObject resp ''section'' section_name) (\<lambda>resp.
     Option.bind (section_dump (rss_config_foreach cfg (Some section_name)) cJSON_CreateObject) (\<lambda>keys_obj.
     cJSON_AddItemToObject resp ''keys'' keys_obj)))"

definition handle_get_section :: "string \<Rightarrow> int \<Rightarrow> cJSON \<Rightarrow> ctrl_state \<Rightarrow> ctrl_result" where
  "handle_get_section buf n r st =
     (case str_arg r ''section'' of
        Some s \<Rightarrow> (rss_ctrl_resp_json buf n (section_answer (ctrl_cfg st) s), st, [])
      | None \<Rightarrow> (rss_ctrl_resp_error buf n (Some ''need section''), st, []))"

text \<open>The answer without a value empties the buffer, whatever its size.\<close>

definition handle_get :: "string \<Rightarrow> int \<Rightarrow> cJSON \<Rightarrow> ctrl_state \<Rightarrow> ctrl_result" where
  "handle_get buf n r st =
     (case (str_arg r ''section'', str_arg r ''key'') of
        (Some s, Some k) \<Rightarrow>
          (case rss_config_get_str (ctrl_cfg st) (Some s) (Some k) None of (v, cfg) \<Rightarrow>
             ((case v of Some v \<Rightarrow> rss_ctrl_resp buf n v | None \<Rightarrow> (0, [])), st\<lparr>ctrl_cfg := cfg\<rparr>, []))
      | _ \<Rightarrow> ((0, []), st, []))"

definition handle_save :: "ctrl_answers \<Rightarrow> string \<Rightarrow> string \<Rightarrow> int \<Rightarrow> ctrl_state \<Rightarrow> ctrl_result" where
  "handle_save w path buf n st =
     (let wrote = (rss_config_has_dirty (ctrl_cfg st) \<or> \<not> cfg_exists w)
      in case rss_config_save (ctrl_cfg st) (cfg_file w) (cfg_exists w) (cfg_write_ok w) of (ret, file, cfg) \<Rightarrow>
        let ops = (case file of None \<Rightarrow> [] | Some t \<Rightarrow> [Write_config t])
        in if ret = 0 then
             (rss_ctrl_resp_ok buf n, st\<lparr>ctrl_cfg := cfg\<rparr>,
              ops @ [Info (if wrote then ''running config saved to '' @ path
                           else ''no config changes to save, '' @ path @ '' untouched'')])
           else (rss_ctrl_resp_error buf n (Some ''config save failed''), st\<lparr>ctrl_cfg := cfg\<rparr>, ops))"

definition handle_set_affinity :: "ctrl_answers \<Rightarrow> string \<Rightarrow> int \<Rightarrow> cJSON \<Rightarrow> ctrl_state \<Rightarrow> ctrl_result" where
  "handle_set_affinity w buf n r st =
     (let cpu_obj = cJSON_GetObjectItemCaseSensitive (Some r) (Some ''cpu'') in
      if \<not> cJSON_IsNumber cpu_obj then (rss_ctrl_resp_error buf n (Some ''need cpu''), st, [])
      else
        let cpu = cast_int w (cJSON_GetNumberValue cpu_obj); ncpus = nprocessors w in
        if ncpus \<le> 1 then (rss_ctrl_resp_error buf n (Some ''single-core system''), st, [])
        else if cpu < 0 \<or> cpu \<ge> to_int32 ncpus then (rss_ctrl_resp_error buf n (Some ''cpu out of range''), st, [])
        else case setaffinity_error w of
          Some e \<Rightarrow> (rss_ctrl_resp_error buf n (Some e), st, [Sched_setaffinity cpu])
        | None \<Rightarrow> (rss_ctrl_resp_ok buf n, st, [Sched_setaffinity cpu, Info (''cpu affinity changed to CPU'' @ show_int cpu)]))"

definition affinity_answer :: "ctrl_answers \<Rightarrow> cJSON option" where
  "affinity_answer w =
     Option.bind (cJSON_AddStringToObject cJSON_CreateObject ''status'' ''ok'') (\<lambda>resp.
     Option.bind (cJSON_AddNumberToObject resp ''ncpus'' (double_of_int (nprocessors w))) (\<lambda>resp.
     Option.bind (cJSON_AddItemToObject resp ''cpus''
         (cJSON_Array (map (\<lambda>i. cJSON_CreateNumber (double_of_int (int i)))
            (filter (\<lambda>i. i < 1024 \<and> cpu_allowed w i) [0..<nat (to_int32 (nprocessors w))])))) (\<lambda>resp.
     Option.bind (cJSON_AddStringToObject resp ''policy'' (policy_name w)) (\<lambda>resp.
     cJSON_AddNumberToObject resp ''priority'' (double_of_int (sched_priority w))))))"

definition handle_get_affinity :: "ctrl_answers \<Rightarrow> string \<Rightarrow> int \<Rightarrow> ctrl_state \<Rightarrow> ctrl_result" where
  "handle_get_affinity w buf n st =
     (case getaffinity_error w of
        Some e \<Rightarrow> (rss_ctrl_resp_error buf n (Some e), st, [])
      | None \<Rightarrow> (rss_ctrl_resp_json buf n (affinity_answer w), st, []))"

text \<open>The text is cut to the 15 characters of its array.\<close>

definition handle_set_level :: "string \<Rightarrow> int \<Rightarrow> cJSON \<Rightarrow> ctrl_state \<Rightarrow> ctrl_result" where
  "handle_set_level buf n r st =
     (let level_str = (case str_arg r ''value'' of None \<Rightarrow> [] | Some v \<Rightarrow> take 15 v)
      in case level_of level_str of
           None \<Rightarrow> (rss_ctrl_resp_error buf n (Some ''need value: fatal|error|warn|info|debug|trace''), st, [])
         | Some lvl \<Rightarrow>
             (rss_ctrl_resp_ok buf n, st\<lparr>ctrl_log := rss_log_set_level lvl (ctrl_log st)\<rparr>,
              [Info (''log level changed to '' @ level_str)]))"

fun level_text :: "rss_log_level_t \<Rightarrow> string" where
  "level_text RSS_LOG_FATAL = ''fatal''"
| "level_text RSS_LOG_ERROR = ''error''"
| "level_text RSS_LOG_WARN = ''warn''"
| "level_text RSS_LOG_INFO = ''info''"
| "level_text RSS_LOG_DEBUG = ''debug''"
| "level_text RSS_LOG_TRACE = ''trace''"

definition handle_cmd :: "ctrl_answers \<Rightarrow> string \<Rightarrow> string \<Rightarrow> string \<Rightarrow> int \<Rightarrow> cJSON \<Rightarrow> ctrl_state \<Rightarrow> ctrl_result" where
  "handle_cmd w path cmd buf n r st =
     (if cmd = ''config-get-section'' then handle_get_section buf n r st
      else if cmd = ''config-get'' then handle_get buf n r st
      else if cmd = ''config-save'' then handle_save w path buf n st
      else if cmd = ''set-affinity'' then handle_set_affinity w buf n r st
      else if cmd = ''get-affinity'' then handle_get_affinity w buf n st
      else if cmd = ''restart'' then
        (rss_ctrl_resp buf n ''restarting'', st\<lparr>ctrl_run := rss_daemon_request_restart (ctrl_run st)\<rparr>, [])
      else if cmd = ''shutdown'' then
        (rss_ctrl_resp buf n ''shutting down'', st\<lparr>ctrl_run := rss_daemon_request_shutdown (ctrl_run st)\<rparr>, [])
      else if cmd = ''set-log-level'' then handle_set_level buf n r st
      else if cmd = ''get-log-level'' then (rss_ctrl_resp buf n (level_text (rss_log_get_level (ctrl_log st))), st, [])
      else ((- 1, buf), st, []))"

definition rss_ctrl_handle_common :: "ctrl_answers \<Rightarrow> string \<Rightarrow> string option \<Rightarrow> string \<Rightarrow> int \<Rightarrow> ctrl_state \<Rightarrow> ctrl_result" where
  "rss_ctrl_handle_common w path cmd_json buf n st =
     (case cJSON_Parse cmd_json of None \<Rightarrow> (rss_ctrl_resp_error buf n (Some ''malformed JSON''), st, [])
      | Some r \<Rightarrow>
          (case str_arg r ''cmd'' of None \<Rightarrow> ((- 1, buf), st, [])
           | Some cmd \<Rightarrow> handle_cmd w path cmd buf n r st))"

end
