(* ===== verification/Rss_Ctrl_Spec.thy ===== *)
theory Rss_Ctrl_Spec imports Rss_Ctrl begin

text \<open>
  What the control socket promises: requests arrive as they were made, an answer fits its buffer and tells success from
  failure, and every command changes its part of the state only.
\<close>

section \<open>Answers\<close>

lemma parse_empty: "cJSON_Parse (Some []) = None"
  by code_simp

abbreviation (input) ok_object :: cJSON where
  "ok_object \<equiv> cJSON_Object [(''status'', cJSON_String ''ok'')]"

abbreviation (input) error_object :: "string \<Rightarrow> cJSON" where
  "error_object reason \<equiv> cJSON_Object [(''status'', cJSON_String ''error''), (''reason'', cJSON_String reason)]"

lemma cstrs: "cstr ''status''" "cstr ''ok''" "cstr ''error''" "cstr ''reason''" "cstr ''cmd''"
  by code_simp+

lemma resp_ok_put: "0 < n \<Longrightarrow> rss_ctrl_resp_ok buf n = (let t = put_json (Some ok_object) n in (int (length t), t))"
  by (simp add: rss_ctrl_resp_ok_def add_to_object cstrs)

lemma resp_error_put:
  "0 < n \<Longrightarrow> rss_ctrl_resp_error buf n reason =
    (let t = put_json (Some (error_object (c_str (case reason of None \<Rightarrow> [] | Some s \<Rightarrow> s)))) n in (int (length t), t))"
  by (simp add: rss_ctrl_resp_error_def add_to_object cstrs)

lemma put_json_fits:
  assumes "0 < n" and "n < 2 ^ 31"
  shows "int (length (put_json r n)) < n"
proof (cases "Option.bind r (\<lambda>r. cJSON_PrintPreallocated r n False)")
  case None
  then show ?thesis using assms by (cases r) (simp_all add: put_json_def)
next
  case (Some s)
  then obtain v where "r = Some v" "cJSON_PrintPreallocated v n False = Some s" by (cases r) simp_all
  then show ?thesis using json_preallocated_room [of v n False s] length_c_str [of s] assms(2) by (simp add: put_json_def)
qed

text \<open>A written answer parses to what was written; an answer that did not fit is empty and does not parse.\<close>

lemma parse_put:
  assumes "json_ok 0 r" and "n < 2 ^ 31"
  shows "cJSON_Parse (Some (put_json (Some r) n)) = None \<or> cJSON_Parse (Some (put_json (Some r) n)) = Some r"
proof (cases "cJSON_PrintPreallocated r n False")
  case (Some s)
  then have "s = render False 0 r" "c_str s = s"
    using json_preallocated_text [OF Some] cstr_render(1) [OF assms(1)] by simp_all
  then show ?thesis using Some parse_rendered [OF assms(1), of False] by (simp add: put_json_def)
qed (simp add: put_json_def parse_empty)

lemma parse_put_ok:
  assumes "json_ok 0 r" and "printable 0 r" and "length (render False 0 r) + 2 \<le> nat n" and "n < 2 ^ 31"
  shows "put_json (Some r) n = render False 0 r" and "cJSON_Parse (Some (put_json (Some r) n)) = Some r"
proof -
  have "cJSON_PrintPreallocated r (int (nat n)) False = Some (render False 0 r)"
    by (rule json_preallocated_ok) (use assms in auto)
  moreover have "0 \<le> n" using assms(3) by simp
  ultimately show "put_json (Some r) n = render False 0 r"
    using cstr_render(1) [OF assms(1)] by (simp add: put_json_def)
  then show "cJSON_Parse (Some (put_json (Some r) n)) = Some r" using parse_rendered [OF assms(1)] by simp
qed

lemma is_ok_object:
  "cJSON_Parse (Some t) = Some (cJSON_Object ((''status'', cJSON_String s) # ms)) \<Longrightarrow> rss_ctrl_resp_is_ok (Some t) \<longleftrightarrow> strcmp (c_str s) ''ok'' = 0"
  by (simp add: rss_ctrl_resp_is_ok_def cJSON_GetObjectItem_def get_object_item_object cJSON_GetStringValue_def strcasecmp_fold)

lemma is_ok_none: "cJSON_Parse (Some t) = None \<Longrightarrow> \<not> rss_ctrl_resp_is_ok (Some t)"
  by (simp add: rss_ctrl_resp_is_ok_def cJSON_GetObjectItem_def cJSON_GetStringValue_def get_object_item_def)

lemma length_ok: "length (render False 0 ok_object) = 15"
  by code_simp

lemma resp_ok_is_ok:
  assumes "17 \<le> n" and "n < 2 ^ 31"
  shows "rss_ctrl_resp_is_ok (Some (snd (rss_ctrl_resp_ok buf n)))"
proof -
  have "cJSON_Parse (Some (put_json (Some ok_object) n)) = Some ok_object"
    by (rule parse_put_ok) (use assms cstrs in \<open>simp_all add: length_ok del: render.simps render_members.simps\<close>)
  from is_ok_object [OF this] have "rss_ctrl_resp_is_ok (Some (put_json (Some ok_object) n))" by (simp add: cstrs strcmp_c_str)
  then show ?thesis using resp_ok_put [of n buf] assms by (simp add: Let_def)
qed

lemma resp_error_not_ok:
  assumes "0 < n" and "n < 2 ^ 31"
  shows "\<not> rss_ctrl_resp_is_ok (Some (snd (rss_ctrl_resp_error buf n reason)))"
proof -
  let ?r = "error_object (c_str (case reason of None \<Rightarrow> [] | Some s \<Rightarrow> s))"
  have "json_ok 0 ?r" by (simp add: cstrs)
  from parse_put [OF this assms(2)] have "\<not> rss_ctrl_resp_is_ok (Some (put_json (Some ?r) n))"
  proof
    assume "cJSON_Parse (Some (put_json (Some ?r) n)) = Some ?r"
    from is_ok_object [OF this] show ?thesis by (simp add: cstrs)
  qed (rule is_ok_none)
  then show ?thesis using resp_error_put [OF assms(1), of buf reason] by (simp add: Let_def)
qed


text \<open>
  C33. The client tells the answers apart: an answer of success is recognised in every buffer that holds it, and an
  answer of failure is never taken for one, whatever the reason says and however small the buffer is.
\<close>

lemma ctrl_answers_told_apart:
  assumes "0 < n" and "n < 2 ^ 31"
  shows "(rss_ctrl_resp_is_ok (Some (snd (rss_ctrl_resp_ok buf n))) \<longleftrightarrow> 17 \<le> n)
    \<and> \<not> rss_ctrl_resp_is_ok (Some (snd (rss_ctrl_resp_error buf n reason)))"
proof
  show "rss_ctrl_resp_is_ok (Some (snd (rss_ctrl_resp_ok buf n))) \<longleftrightarrow> 17 \<le> n"
  proof (cases "17 \<le> n")
    case True
    then show ?thesis using resp_ok_is_ok assms by simp
  next
    case False
    have "cJSON_PrintPreallocated ok_object n False = None"
      using json_preallocated_room [OF _ assms(2), of ok_object False] json_preallocated_text [of ok_object n False] False length_ok
      by (cases "cJSON_PrintPreallocated ok_object n False") auto
    then have "put_json (Some ok_object) n = []" by (simp add: put_json_def)
    then show ?thesis using resp_ok_put [OF assms(1), of buf] is_ok_none [OF parse_empty] False by (simp add: Let_def)
  qed
qed (rule resp_error_not_ok [OF assms])

lemma ctrl_answers_told_apart_witness:
  "rss_ctrl_resp_is_ok (Some (snd (rss_ctrl_resp_ok [] 64)))
   \<and> \<not> rss_ctrl_resp_is_ok (Some (snd (rss_ctrl_resp_error [] 64 (Some [CHR 0x22, CHR 0x5C, LF]))))"
  using ctrl_answers_told_apart [of 64 "[]" "Some [CHR 0x22, CHR 0x5C, LF]"] by simp

section \<open>Requests\<close>

text \<open>A request with its arguments.\<close>

definition request :: "string \<Rightarrow> (string \<times> cJSON) list \<Rightarrow> cJSON" where
  "request cmd args = cJSON_Object ((''cmd'', cJSON_String cmd) # args)"

lemma request_cmd: "cstr cmd \<Longrightarrow> str_arg (request cmd args) ''cmd'' = Some cmd"
  by (simp add: str_arg_def request_def cJSON_GetObjectItemCaseSensitive_def get_object_item_object cJSON_GetStringValue_def cstrs)

lemma request_arg:
  "cstr k \<Longrightarrow> k \<noteq> ''cmd'' \<Longrightarrow>
    cJSON_GetObjectItemCaseSensitive (Some (request cmd ((k, v) # args))) (Some k) = Some v"
  by (simp add: request_def cJSON_GetObjectItemCaseSensitive_def get_object_item_object cstrs)

lemma show_int_length:
  assumes "- (2 ^ 31) \<le> i" and "i < 2 ^ 31"
  shows "length (show_int i) \<le> 11"
proof -
  have "nat \<bar>i\<bar> < 10 ^ 10" using assms by (simp add: nat_less_iff abs_le_iff abs_less_iff)
  from length_dec [OF this] have "length (dec (nat \<bar>i\<bar>)) \<le> 10" by simp
  then show ?thesis by (auto simp: show_int_def abs_if split: if_splits)
qed

text \<open>The transport in place: the handler on the other side of the socket.\<close>

definition serve :: "ctrl_answers \<Rightarrow> string \<Rightarrow> ctrl_state \<Rightarrow> ctrl_result sender" where
  "serve w path st sock msg buf n timeout = rss_ctrl_handle_common w path (Some msg) buf n st"

definition arrive :: "ctrl_answers \<Rightarrow> string \<Rightarrow> ctrl_state \<Rightarrow> string \<Rightarrow> int \<Rightarrow> string \<Rightarrow> (string \<times> cJSON) list \<Rightarrow> ctrl_result option" where
  "arrive w path st buf n cmd args =
     (if length (render False 0 (request cmd args)) + 2 \<le> 512 then Some (handle_cmd w path cmd buf n (request cmd args) st) else None)"

lemma object_request:
  assumes "json_ok 0 (request cmd args)" and "printable 0 (request cmd args)" and "cstr cmd"
  shows "ctrl_send_obj (serve w path st) sock (Some (request cmd args)) buf n timeout = arrive w path st buf n cmd args"
proof (cases "length (render False 0 (request cmd args)) + 2 \<le> 512")
  case True
  have "cJSON_PrintPreallocated (request cmd args) (int 512) False = Some (render False 0 (request cmd args))"
    by (rule json_preallocated_ok) (use assms True in simp_all)
  then show ?thesis
    using True parse_rendered [OF assms(1), of False] request_cmd [OF assms(3), of args]
    by (simp add: ctrl_send_obj_def serve_def arrive_def rss_ctrl_handle_common_def)
next
  case False
  then have "cJSON_PrintPreallocated (request cmd args) 512 False = None"
    using json_preallocated_room [of "request cmd args" 512 False] json_preallocated_text [of "request cmd args" 512 False]
    by (cases "cJSON_PrintPreallocated (request cmd args) 512 False") auto
  then show ?thesis using False by (simp add: ctrl_send_obj_def arrive_def)
qed

lemma cmd_arrives:
  "cstr cmd \<Longrightarrow> rss_ctrl_cmd (serve w path st) sock cmd buf n timeout = arrive w path st buf n cmd []"
  using object_request [of cmd "[]"] by (simp add: rss_ctrl_cmd_def add_to_object request_def cstrs)

lemma cmd_int_arrives:
  assumes "cstr cmd" and "cstr k" and "- (2 ^ 31) \<le> i" and "i < 2 ^ 31"
  shows "rss_ctrl_cmd_int (serve w path st) sock cmd k i buf n timeout = arrive w path st buf n cmd [(k, cJSON_Number (double_of_int i))]"
proof -
  have i: "valueint (double_of_int i) = i" using assms(3,4) by (simp add: double_of_int_def to_integer_def saturate_def)
  then have t: "number_text (double_of_int i) = show_int i" using number_text_int [of "double_of_int i"] by simp
  have "ctrl_send_obj (serve w path st) sock (Some (request cmd [(k, cJSON_Number (double_of_int i))])) buf n timeout
      = arrive w path st buf n cmd [(k, cJSON_Number (double_of_int i))]"
    by (rule object_request) (use assms i t show_int_length [OF assms(3,4)] in \<open>simp_all add: request_def cstrs\<close>)
  then show ?thesis using assms(1,2) by (simp add: rss_ctrl_cmd_int_def add_to_object request_def cstrs)
qed

lemma cmd_str_arrives:
  assumes "cstr cmd" and "cstr k" and "cstr s"
  shows "rss_ctrl_cmd_str (serve w path st) sock cmd k (Some s) buf n timeout = arrive w path st buf n cmd [(k, cJSON_String s)]"
proof -
  have "ctrl_send_obj (serve w path st) sock (Some (request cmd [(k, cJSON_String s)])) buf n timeout
      = arrive w path st buf n cmd [(k, cJSON_String s)]"
    by (rule object_request) (use assms in \<open>simp_all add: request_def cstrs\<close>)
  then show ?thesis using assms by (simp add: rss_ctrl_cmd_str_def add_to_object request_def cstrs)
qed

text \<open>
  C6. A request arrives as it was made: for every command, name and argument, a message that fits the 512 bytes reaches
  the handler of that command with exactly that argument, and one that does not is not sent.
\<close>

lemma ctrl_request_arrives:
  assumes "cstr cmd" and "cstr k" and "cstr s" and "- (2 ^ 31) \<le> i" and "i < 2 ^ 31"
  shows "rss_ctrl_cmd (serve w path st) sock cmd buf n timeout = arrive w path st buf n cmd []
    \<and> rss_ctrl_cmd_int (serve w path st) sock cmd k i buf n timeout = arrive w path st buf n cmd [(k, cJSON_Number (double_of_int i))]
    \<and> rss_ctrl_cmd_str (serve w path st) sock cmd k (Some s) buf n timeout = arrive w path st buf n cmd [(k, cJSON_String s)]"
  by (intro conjI cmd_arrives cmd_int_arrives cmd_str_arrives assms)

lemma ctrl_request_arrives_witness:
  "\<forall>w path st sock buf n timeout. rss_ctrl_cmd_str (serve w path st) sock ''set-log-level'' ''value'' (Some ''debug'') buf n timeout
     = Some (handle_cmd w path ''set-log-level'' buf n (request ''set-log-level'' [(''value'', cJSON_String ''debug'')]) st)"
proof (intro allI)
  fix w path st sock buf n timeout
  have "length (render False 0 (request ''set-log-level'' [(''value'', cJSON_String ''debug'')])) \<le> 510"
    "cstr ''set-log-level''" "cstr ''value''" "cstr ''debug''" by code_simp+
  then show "rss_ctrl_cmd_str (serve w path st) sock ''set-log-level'' ''value'' (Some ''debug'') buf n timeout
     = Some (handle_cmd w path ''set-log-level'' buf n (request ''set-log-level'' [(''value'', cJSON_String ''debug'')]) st)"
    using ctrl_request_arrives [of "''set-log-level''" "''value''" "''debug''" 0 w path st sock buf n timeout] by (simp add: arrive_def)
qed


section \<open>Commands\<close>

text \<open>The command of a message, if it has one.\<close>

definition command_of :: "string option \<Rightarrow> (string \<times> cJSON) option" where
  "command_of msg = Option.bind (cJSON_Parse msg) (\<lambda>r. map_option (\<lambda>cmd. (cmd, r)) (str_arg r ''cmd''))"

text \<open>The state after a command.\<close>

definition state_after :: "ctrl_answers \<Rightarrow> (string \<times> cJSON) option \<Rightarrow> ctrl_state \<Rightarrow> ctrl_state" where
  "state_after w cmd st =
     (case cmd of None \<Rightarrow> st
      | Some (cmd, r) \<Rightarrow>
          if cmd = ''restart'' then st\<lparr>ctrl_run := rss_daemon_request_restart (ctrl_run st)\<rparr>
          else if cmd = ''shutdown'' then st\<lparr>ctrl_run := rss_daemon_request_shutdown (ctrl_run st)\<rparr>
          else if cmd = ''set-log-level'' then
            (case Option.bind (str_arg r ''value'') level_of of None \<Rightarrow> st
             | Some l \<Rightarrow> st\<lparr>ctrl_log := rss_log_set_level l (ctrl_log st)\<rparr>)
          else if cmd = ''config-save'' then
            st\<lparr>ctrl_cfg := (if (rss_config_has_dirty (ctrl_cfg st) \<or> \<not> cfg_exists w) \<and> cfg_write_ok w
              then map_option clear_dirty (ctrl_cfg st) else ctrl_cfg st)\<rparr>
          else st)"

definition known_commands :: "string list" where
  "known_commands = [''config-get-section'', ''config-get'', ''config-save'', ''set-affinity'', ''get-affinity'', ''restart'',
     ''shutdown'', ''set-log-level'', ''get-log-level'']"

text \<open>An answer in its buffer.\<close>

definition answered :: "int \<Rightarrow> int \<times> string \<Rightarrow> bool" where
  "answered n a \<longleftrightarrow> fst a = int (length (snd a)) \<and> fst a < n"

lemma resp_answered: "0 < n \<Longrightarrow> answered n (rss_ctrl_resp buf n s)"
  by (auto simp: answered_def rss_ctrl_resp_def Let_def)

lemma ok_answered: "0 < n \<Longrightarrow> n < 2 ^ 31 \<Longrightarrow> answered n (rss_ctrl_resp_ok buf n)"
  by (simp add: answered_def resp_ok_put Let_def put_json_fits)

lemma error_answered: "0 < n \<Longrightarrow> n < 2 ^ 31 \<Longrightarrow> answered n (rss_ctrl_resp_error buf n reason)"
  by (simp add: answered_def resp_error_put Let_def put_json_fits)

lemma json_answered: "0 < n \<Longrightarrow> n < 2 ^ 31 \<Longrightarrow> answered n (rss_ctrl_resp_json buf n r)"
  using put_json_fits [of n r] error_answered [of n buf]
  by (cases r) (auto simp: rss_ctrl_resp_json_def put_json_def answered_def [of n "(_, _)"] split: option.split)

lemmas all_answered = resp_answered ok_answered error_answered json_answered

lemma answered_empty: "0 < n \<Longrightarrow> answered n (0, [])"
  by (simp add: answered_def)

lemma get_str_none: "rss_config_get_str cfg sec k None = (fst (rss_config_get_str cfg sec k None), cfg)"
  by (auto simp: rss_config_get_str_def split: option.split)

lemma level_of_take: "level_of (take 15 v) = level_of v"
proof (cases "length v \<le> 15")
  case False
  then have "length (take 15 v) = 15" by simp
  then have "take 15 v \<notin> {''fatal'', ''error'', ''warn'', ''info'', ''debug'', ''trace''}"
    "v \<notin> {''fatal'', ''error'', ''warn'', ''info'', ''debug'', ''trace''}"
    using False by fastforce+
  then show ?thesis by (simp add: level_of_def)
qed simp

lemma clean_collect: "collect_dirty cfg = [] \<longleftrightarrow> \<not> rss_config_has_dirty (Some cfg)"
  by (auto simp: collect_dirty_def rss_config_has_dirty_def list_ex_iff filter_empty_conv)

lemma handle_config_spec:
  assumes "0 < n" and "n < 2 ^ 31"
  shows "case handle_get_section buf n r st of (a, st', ops) \<Rightarrow> st' = st \<and> answered n a"
    and "case handle_get buf n r st of (a, st', ops) \<Rightarrow> st' = st \<and> answered n a"
    and "case handle_save w path buf n st of (a, st', ops) \<Rightarrow> st' = state_after w (Some (''config-save'', r)) st \<and> answered n a"
proof -
  note a = all_answered [OF assms(1)] all_answered(2-4) [OF assms]
  show "case handle_get_section buf n r st of (a, st', ops) \<Rightarrow> st' = st \<and> answered n a"
    using a(3,4) assms by (auto simp: handle_get_section_def split: option.split)
  show "case handle_get buf n r st of (a, st', ops) \<Rightarrow> st' = st \<and> answered n a"
  proof (cases "str_arg r ''section'' = None \<or> str_arg r ''key'' = None")
    case True
    then show ?thesis using answered_empty [OF assms(1)] by (auto simp: handle_get_def split: option.split)
  next
    case False
    then obtain s k where sk: "str_arg r ''section'' = Some s" "str_arg r ''key'' = Some k" by auto
    obtain v where "rss_config_get_str (ctrl_cfg st) (Some s) (Some k) None = (v, ctrl_cfg st)" using get_str_none by blast
    then show ?thesis
      using a(1) answered_empty [OF assms(1)] sk by (cases v) (simp_all add: handle_get_def)
  qed
  show "case handle_save w path buf n st of (a, st', ops) \<Rightarrow> st' = state_after w (Some (''config-save'', r)) st \<and> answered n a"
    using a(2,3) assms
    by (cases "ctrl_cfg st") (auto simp: handle_save_def rss_config_save_def state_after_def Let_def clean_collect split: option.split)
qed

lemma handle_level_spec:
  assumes "0 < n" and "n < 2 ^ 31"
  shows "case handle_set_level buf n r st of (a, st', ops) \<Rightarrow> st' = state_after w (Some (''set-log-level'', r)) st \<and> answered n a"
proof -
  have "level_of [] = None" by (simp add: level_of_def)
  then show ?thesis
    using all_answered(2,3) [OF assms]
    by (auto simp: handle_set_level_def state_after_def Let_def level_of_take split: option.split)
qed

lemma handle_affinity_spec:
  assumes "0 < n" and "n < 2 ^ 31"
  shows "case handle_set_affinity w buf n r st of (a, st', ops) \<Rightarrow> st' = st \<and> answered n a"
    and "case handle_get_affinity w buf n st of (a, st', ops) \<Rightarrow> st' = st \<and> answered n a"
  using all_answered(2,3,4) [OF assms]
  by (auto simp: handle_set_affinity_def handle_get_affinity_def Let_def split: option.split)

lemma handle_cmd_spec:
  assumes "0 < n" and "n < 2 ^ 31"
  shows "case handle_cmd w path cmd buf n r st of (a, st', ops) \<Rightarrow>
    st' = state_after w (Some (cmd, r)) st \<and> (if cmd \<in> set known_commands then answered n a else a = (- 1, buf))"
proof (cases "cmd \<in> set known_commands")
  case True
  then have "cmd = ''config-get-section'' \<or> cmd = ''config-get'' \<or> cmd = ''config-save'' \<or> cmd = ''set-affinity''
      \<or> cmd = ''get-affinity'' \<or> cmd = ''restart'' \<or> cmd = ''shutdown'' \<or> cmd = ''set-log-level'' \<or> cmd = ''get-log-level''"
    by (simp only: known_commands_def list.set insert_iff empty_iff simp_thms)
  then show ?thesis
  proof (elim disjE)
    assume "cmd = ''config-get-section''"
    then show ?thesis using handle_config_spec(1) [OF assms] True by (simp add: handle_cmd_def state_after_def)
  next
    assume "cmd = ''config-get''"
    then show ?thesis using handle_config_spec(2) [OF assms] True by (simp add: handle_cmd_def state_after_def)
  next
    assume "cmd = ''config-save''"
    then show ?thesis using handle_config_spec(3) [OF assms] True by (simp add: handle_cmd_def)
  next
    assume "cmd = ''set-affinity''"
    then show ?thesis using handle_affinity_spec(1) [OF assms] True by (simp add: handle_cmd_def state_after_def)
  next
    assume "cmd = ''get-affinity''"
    then show ?thesis using handle_affinity_spec(2) [OF assms] True by (simp add: handle_cmd_def state_after_def)
  next
    assume "cmd = ''set-log-level''"
    then show ?thesis using handle_level_spec [OF assms] True by (simp add: handle_cmd_def)
  qed (use resp_answered [OF assms(1)] True in \<open>simp_all add: handle_cmd_def state_after_def\<close>)
next
  case False
  then show ?thesis by (simp add: handle_cmd_def state_after_def known_commands_def)
qed

text \<open>
  C4. Every message, well formed or not, is answered inside the buffer, unless it is a command left to the daemon
  (-1, with the buffer untouched); and it changes the state as its command says: a stop or restart flag, the
  log level, the marks of a saved configuration, and otherwise nothing.
\<close>

lemma ctrl_handle_effect:
  assumes "0 < n" and "n < 2 ^ 31"
  shows "case rss_ctrl_handle_common w path msg buf n st of (a, st', ops) \<Rightarrow>
    st' = state_after w (command_of msg) st
    \<and> (case command_of msg of None \<Rightarrow> if cJSON_Parse msg = None then answered n a else a = (- 1, buf)
       | Some (cmd, r) \<Rightarrow> if cmd \<in> set known_commands then answered n a else a = (- 1, buf))"
proof (cases "cJSON_Parse msg")
  case None
  then show ?thesis using error_answered [OF assms, of buf] by (simp add: rss_ctrl_handle_common_def command_of_def state_after_def)
next
  case (Some r)
  then show ?thesis
    using handle_cmd_spec [OF assms, where w = w and path = path and buf = buf and r = r and st = st]
    by (cases "str_arg r ''cmd''") (simp_all add: rss_ctrl_handle_common_def command_of_def state_after_def [of w None])
qed

lemma ctrl_handle_effect_witness:
  "\<forall>w path st buf. case rss_ctrl_handle_common w path (Some (render False 0 (request ''restart'' []))) buf 64 st of (a, st', ops) \<Rightarrow>
     rss_daemon_restart_pending (ctrl_run st') \<and> rss_running (ctrl_run st') = 0 \<and> ctrl_cfg st' = ctrl_cfg st"
proof (intro allI)
  fix w path st buf
  have c: "cstr ''restart''" by code_simp
  then have "json_ok 0 (request ''restart'' [])" by (simp add: request_def cstrs)
  then have "command_of (Some (render False 0 (request ''restart'' []))) = Some (''restart'', request ''restart'' [])"
    using request_cmd [OF c] by (simp add: command_of_def parse_rendered)
  then show "case rss_ctrl_handle_common w path (Some (render False 0 (request ''restart'' []))) buf 64 st of (a, st', ops) \<Rightarrow>
     rss_daemon_restart_pending (ctrl_run st') \<and> rss_running (ctrl_run st') = 0 \<and> ctrl_cfg st' = ctrl_cfg st"
    using ctrl_handle_effect [where n = 64 and w = w and path = path and msg = "Some (render False 0 (request ''restart'' []))" and buf = buf and st = st]
    by (auto simp: state_after_def rss_daemon_request_restart_def rss_daemon_restart_pending_def rss_running_def)
qed

text \<open>
  C34. From end to end: a client that asks for a log level is answered ok exactly if the text names a level, and then
  the daemon logs at this level; otherwise nothing has changed.
\<close>

lemma ctrl_set_log_level:
  assumes "cstr v" and "length (render False 0 (request ''set-log-level'' [(''value'', cJSON_String v)])) \<le> 510"
    and "17 \<le> n" and "n < 2 ^ 31"
  shows "case rss_ctrl_cmd_str (serve w path st) sock ''set-log-level'' ''value'' (Some v) buf n timeout of None \<Rightarrow> False
    | Some (a, st', ops) \<Rightarrow>
        (case level_of v of None \<Rightarrow> \<not> rss_ctrl_resp_is_ok (Some (snd a)) \<and> st' = st
         | Some l \<Rightarrow> rss_ctrl_resp_is_ok (Some (snd a)) \<and> rss_log_get_level (ctrl_log st') = l)"
proof -
  let ?r = "request ''set-log-level'' [(''value'', cJSON_String v)]"
  have c: "cstr ''set-log-level''" "cstr ''value''" "''value'' \<noteq> ''cmd''" by code_simp+
  have "str_arg ?r ''value'' = Some v"
    using request_arg [OF c(2,3), of "''set-log-level''" "cJSON_String v" "[]"] assms(1) by (simp add: str_arg_def cJSON_GetStringValue_def)
  moreover have "rss_ctrl_cmd_str (serve w path st) sock ''set-log-level'' ''value'' (Some v) buf n timeout
      = Some (handle_set_level buf n ?r st)"
    using cmd_str_arrives [OF c(1,2) assms(1)] assms(2) by (simp add: arrive_def handle_cmd_def)
  ultimately show ?thesis
    using resp_ok_is_ok [OF assms(3,4), of buf] resp_error_not_ok [OF _ assms(4), of buf] assms(3)
    by (cases "level_of v") (simp_all add: handle_set_level_def level_of_take rss_log_set_level_def rss_log_get_level_def)
qed

lemma ctrl_set_log_level_witness:
  "\<forall>w path st sock buf timeout. case rss_ctrl_cmd_str (serve w path st) sock ''set-log-level'' ''value'' (Some ''trace'') buf 64 timeout of None \<Rightarrow> False
    | Some (a, st', ops) \<Rightarrow> rss_ctrl_resp_is_ok (Some (snd a)) \<and> rss_log_get_level (ctrl_log st') = RSS_LOG_TRACE"
proof (intro allI)
  fix w path st sock buf timeout
  have "cstr ''trace''" "length (render False 0 (request ''set-log-level'' [(''value'', cJSON_String ''trace'')])) \<le> 510"
    "level_of ''trace'' = Some RSS_LOG_TRACE" by code_simp+
  then show "case rss_ctrl_cmd_str (serve w path st) sock ''set-log-level'' ''value'' (Some ''trace'') buf 64 timeout of None \<Rightarrow> False
    | Some (a, st', ops) \<Rightarrow> rss_ctrl_resp_is_ok (Some (snd a)) \<and> rss_log_get_level (ctrl_log st') = RSS_LOG_TRACE" using ctrl_set_log_level [where v = "''trace''" and n = 64 and w = w and path = path and st = st and sock = sock and buf = buf and timeout = timeout] by (simp only: option.case) (simp split: option.splits)
qed

end
