(* ===== verification/Rss_Clock.thy ===== *)
theory Rss_Clock imports Rss_Prelude begin

text \<open>
  The clock readers of \<open>src/rss_util.c\<close>, over what the operating system answers: seconds and nanoseconds of a clock, the
  state and status of \<open>adjtimex\<close>, and \<open>strftime\<close> of the local time.  Microseconds since 1970 fit 64 bits for 290000 years.
\<close>

definition rss_timestamp_us :: "int \<times> int \<Rightarrow> int" where
  "rss_timestamp_us ts = fst ts * 1000000 + snd ts div 1000"

definition rss_wallclock_us :: "int \<times> int \<Rightarrow> int" where
  "rss_wallclock_us ts = fst ts * 1000000 + snd ts div 1000"

abbreviation (input) TIME_ERROR :: int where "TIME_ERROR \<equiv> 5"

abbreviation (input) STA_UNSYNC :: u32 where "STA_UNSYNC \<equiv> 0x40"

definition rss_ntp_synced :: "int \<Rightarrow> u32 \<Rightarrow> bool" where
  "rss_ntp_synced state status \<longleftrightarrow> state \<ge> 0 \<and> state \<noteq> TIME_ERROR \<and> status AND STA_UNSYNC = 0"

definition rss_format_timestamp_fmt :: "(int \<Rightarrow> string \<Rightarrow> string) \<Rightarrow> string option \<Rightarrow> int \<Rightarrow> string \<Rightarrow> string option" where
  "rss_format_timestamp_fmt strftime buf buf_size fmt =
     (if buf = None \<or> buf_size < 1 then buf else Some (strftime buf_size fmt))"

definition rss_format_timestamp :: "(int \<Rightarrow> string \<Rightarrow> string) \<Rightarrow> string option \<Rightarrow> int \<Rightarrow> string option" where
  "rss_format_timestamp strftime buf buf_size = rss_format_timestamp_fmt strftime buf buf_size ''%Y-%m-%d %H:%M:%S''"

text \<open>A clock that does not step back gives timestamps that do not, and lets no microsecond appear from nowhere.\<close>

lemma timestamp_monotone:
  assumes "0 \<le> n" "n < 10 ^ 9" "0 \<le> n'" "n' < 10 ^ 9" and "s * 10 ^ 9 + n \<le> s' * 10 ^ 9 + n'"
  shows "rss_timestamp_us (s, n) \<le> rss_timestamp_us (s', n')"
proof -
  have e: "rss_timestamp_us (s, n) = (s * 10 ^ 9 + n) div 1000" for s n
    using div_mult_self3 [of 1000 "s * 1000000" n] by (simp add: rss_timestamp_us_def)
  show ?thesis unfolding e using assms(5) by (rule zdiv_mono1) simp
qed

end
