(* ===== verification/Rss_Net.thy ===== *)
theory Rss_Net imports Rss_Prelude begin

text \<open>
  The socket helpers of \<open>include/rss_net.h\<close>, over the answers of the operating system and with the calls they make.
  The text conversions \<open>inet_ntop\<close> and \<open>inet_pton\<close> are arguments.
\<close>

section \<open>Addresses\<close>

datatype family = AF_INET | AF_INET6 | AF_OTHER

text \<open>A port in network order is the pair of its bytes.\<close>

datatype sockaddr =
    Sockaddr_in (sin_port: "u8 \<times> u8") (sin_addr: "u8 list")
  | Sockaddr_in6 (sin6_port: "u8 \<times> u8") (sin6_addr: "u8 list")
  | Sockaddr_zero

definition htons :: "16 word \<Rightarrow> u8 \<times> u8" where
  "htons p = (ucast (drop_bit 8 p), ucast p)"

definition ntohs :: "u8 \<times> u8 \<Rightarrow> 16 word" where
  "ntohs b = push_bit 8 (ucast (fst b)) OR ucast (snd b)"

definition v4_mapped :: "u8 list \<Rightarrow> bool" where
  "v4_mapped a \<longleftrightarrow> take 12 a = replicate 10 0 @ [0xFF, 0xFF]"

text \<open>\<open>ntop\<close> converts the bytes of an address for a buffer of the size given.\<close>

definition rss_addr_str :: "(family \<Rightarrow> u8 list \<Rightarrow> nat \<Rightarrow> string option) \<Rightarrow> sockaddr \<Rightarrow> nat \<Rightarrow> string" where
  "rss_addr_str ntop ss bufsz =
     (let r = (case ss of
           Sockaddr_in p a \<Rightarrow> ntop AF_INET a bufsz
         | Sockaddr_in6 p a \<Rightarrow> if v4_mapped a then ntop AF_INET (drop 12 a) bufsz else ntop AF_INET6 a bufsz
         | Sockaddr_zero \<Rightarrow> None)
      in case r of Some s \<Rightarrow> s | None \<Rightarrow> take (bufsz - 1) ''???'')"



section \<open>Sockets\<close>

datatype sock_type = SOCK_STREAM | SOCK_DGRAM

datatype sock_error = EAFNOSUPPORT | EPROTONOSUPPORT | Other_error

text \<open>\<open>socket\<close> answers a descriptor or an error.\<close>

record net_answers =
  socket6 :: "sock_error + int"
  socket4 :: "sock_error + int"
  bind_ok :: bool
  listen_ok :: bool
  getfl :: int
  setfl :: "int \<Rightarrow> int"

datatype net_op =
    Socket family sock_type
  | V6only_off int
  | Reuseaddr int
  | Nodelay int
  | Bind int sockaddr nat
  | Listen int int
  | Close int

definition rss_socket :: "sock_type \<Rightarrow> net_answers \<Rightarrow> (int \<times> family option) \<times> net_op list" where
  "rss_socket ty w =
     (case socket6 w of
        Inr fd \<Rightarrow> ((fd, Some AF_INET6), [Socket AF_INET6 ty, V6only_off fd])
      | Inl e \<Rightarrow>
          if e \<noteq> EAFNOSUPPORT \<and> e \<noteq> EPROTONOSUPPORT then ((- 1, None), [Socket AF_INET6 ty])
          else (case socket4 w of
              Inl _ \<Rightarrow> ((- 1, None), [Socket AF_INET6 ty, Socket AF_INET ty])
            | Inr fd \<Rightarrow> ((fd, Some AF_INET), [Socket AF_INET6 ty, Socket AF_INET ty])))"


definition rss_socket_udp :: "net_answers \<Rightarrow> (int \<times> family option) \<times> net_op list" where
  "rss_socket_udp w = rss_socket SOCK_DGRAM w"

text \<open>The flag \<open>O_NONBLOCK\<close> is a constant of the platform.\<close>

definition rss_set_nonblocking :: "int \<Rightarrow> net_answers \<Rightarrow> int" where
  "rss_set_nonblocking o_nonblock w = (if getfl w < 0 then - 1 else setfl w (getfl w OR o_nonblock))"




definition rss_set_tcp_nodelay :: "int \<Rightarrow> net_op list" where
  "rss_set_tcp_nodelay fd = [Nodelay fd]"

section \<open>What a listening socket is\<close>

lemma ntohs_htons [simp]: "ntohs (htons p) = p"
  by (rule bit_word_eqI) (auto simp: ntohs_def htons_def bit_simps)





end
