(* ===== verification/Rss_Tls.thy ===== *)
theory Rss_Tls imports Rss_Prelude begin

text \<open>
  The TLS wrapper of \<open>src/rss_tls.c\<close>.  The TLS library, which is not part of the sources, answers each call; the model
  is what the wrapper makes of the answers, with the calls it makes.  A loop takes its answers from a list, and
  \<open>None\<close> stands for a loop whose answers have run out while it was still asking.
\<close>

section \<open>The socket under the library\<close>

datatype sys_error = EINTR | EAGAIN | Other_error

datatype tls_ret = Bytes nat | Want_read | Want_write | Send_failed | Recv_failed | Peer_close | Timed_out | Tls_error

fun skip_eintr :: "(sys_error + 'a) list \<Rightarrow> (sys_error + 'a) option" where
  "skip_eintr [] = None"
| "skip_eintr (a # as) = (case a of Inl EINTR \<Rightarrow> skip_eintr as | _ \<Rightarrow> Some a)"

definition bio_send :: "(sys_error + nat) list \<Rightarrow> tls_ret option" where
  "bio_send writes =
     map_option (\<lambda>a. case a of Inr n \<Rightarrow> Bytes n | Inl e \<Rightarrow> if e = EAGAIN then Want_write else Send_failed) (skip_eintr writes)"

definition bio_recv :: "(sys_error + nat) list \<Rightarrow> tls_ret option" where
  "bio_recv reads =
     map_option (\<lambda>a. case a of Inr n \<Rightarrow> if n = 0 then Peer_close else Bytes n
       | Inl e \<Rightarrow> if e = EAGAIN then Want_read else Recv_failed) (skip_eintr reads)"

text \<open>\<open>poll\<close> answers the number of ready descriptors.\<close>

definition bio_recv_timeout :: "(sys_error + nat) list \<Rightarrow> (sys_error + nat) list \<Rightarrow> tls_ret option" where
  "bio_recv_timeout polls reads =
     Option.bind (skip_eintr polls) (\<lambda>a. case a of Inr (Suc n) \<Rightarrow> bio_recv reads | _ \<Rightarrow> Some Timed_out)"

section \<open>Contexts\<close>

datatype tls_op =
    Init_context
  | Seed string
  | Parse_cert string
  | Parse_key string
  | Parse_ca_path string
  | Parse_ca_file string
  | Defaults bool  \<comment> \<open>for a server\<close>
  | Set_rng
  | Own_cert
  | Set_ca_chain
  | Verify_none
  | Verify_required
  | Free_context
  | Conn_init
  | Read_timeout int
  | Setup
  | Set_hostname string
  | Set_bio
  | Handshake tls_ret
  | Free_ssl
  | Free_conn
  | Close_notify
  | Poll_in
  | Poll_out
  | Tls_log

record ctx_answers =
  seed_ret :: int
  cert_ret :: int
  key_ret :: int
  ca_path_ret :: int
  ca_loaded :: bool
  defaults_ret :: int
  own_cert_ret :: int

definition rss_tls_free :: "bool \<Rightarrow> tls_op list" where
  "rss_tls_free ctx = (if ctx then [Free_context] else [])"

definition rss_tls_client_free :: "bool \<Rightarrow> tls_op list" where
  "rss_tls_client_free ctx = (if ctx then [Free_context] else [])"

text \<open>The result is whether a context is returned.\<close>

definition rss_tls_init :: "ctx_answers \<Rightarrow> string \<Rightarrow> string \<Rightarrow> bool \<times> tls_op list" where
  "rss_tls_init w cert_path key_path =
     (let fail = (\<lambda>ops. (False, ops @ rss_tls_free True));
          ops = [Init_context, Seed ''rss_tls'']
      in if seed_ret w \<noteq> 0 then fail ops
         else let ops = ops @ [Parse_cert cert_path] in
         if cert_ret w \<noteq> 0 then fail (ops @ [Tls_log])
         else let ops = ops @ [Parse_key key_path] in
         if key_ret w \<noteq> 0 then fail (ops @ [Tls_log])
         else let ops = ops @ [Defaults True] in
         if defaults_ret w \<noteq> 0 then fail ops
         else let ops = ops @ [Set_rng, Own_cert] in
         if own_cert_ret w \<noteq> 0 then fail ops
         else (True, ops @ [Verify_none, Tls_log]))"

definition rss_tls_client_init :: "ctx_answers \<Rightarrow> bool \<times> tls_op list" where
  "rss_tls_client_init w =
     (let fail = (\<lambda>ops. (False, ops @ rss_tls_client_free True));
          ops = [Init_context, Seed ''rss_tls_client'']
      in if seed_ret w \<noteq> 0 then fail ops
         else let ops = ops @ [Parse_ca_path ''/etc/ssl/certs''];
                  ops = (if ca_path_ret w < 0 then ops @ [Parse_ca_file ''/etc/ssl/cert.pem''] else ops) in
         if \<not> ca_loaded w then fail (ops @ [Tls_log])
         else let ops = ops @ [Defaults False] in
         if defaults_ret w \<noteq> 0 then fail ops
         else (True, ops @ [Set_rng, Set_ca_chain, Verify_required, Tls_log]))"

section \<open>Connections\<close>

record conn_answers =
  setup_ret :: int
  hostname_ret :: int
  handshakes :: "tls_ret list"

text \<open>The loop ends with success, with an error, or has no answer yet.\<close>

fun handshake_loop :: "tls_ret list \<Rightarrow> (bool \<times> tls_op list) option" where
  "handshake_loop [] = None"
| "handshake_loop (r # rs) =
     (if r = Bytes 0 then Some (True, [Handshake r])
      else if r \<noteq> Want_read \<and> r \<noteq> Want_write then Some (False, [Handshake r, Tls_log, Free_ssl, Free_conn])
      else map_option (apsnd ((#) (Handshake r))) (handshake_loop rs))"

definition rss_tls_accept :: "conn_answers \<Rightarrow> int \<Rightarrow> (bool \<times> tls_op list) option" where
  "rss_tls_accept w timeout_ms =
     (let ops = [Conn_init, Read_timeout timeout_ms, Setup]
      in if setup_ret w \<noteq> 0 then Some (False, ops @ [Tls_log, Free_conn])
         else map_option (apsnd ((@) (ops @ [Set_bio]))) (handshake_loop (handshakes w)))"

definition rss_tls_connect :: "conn_answers \<Rightarrow> string option \<Rightarrow> int \<Rightarrow> (bool \<times> tls_op list) option" where
  "rss_tls_connect w hostname timeout_ms =
     (case hostname of None \<Rightarrow> Some (False, [Tls_log])
      | Some h \<Rightarrow>
          if h = [] then Some (False, [Tls_log])
          else
            let ops = [Conn_init, Read_timeout timeout_ms, Setup] in
            if setup_ret w \<noteq> 0 then Some (False, ops @ [Tls_log, Free_conn])
            else
              let ops = ops @ [Set_hostname h] in
              if hostname_ret w \<noteq> 0 then Some (False, ops @ [Tls_log, Free_ssl, Free_conn])
              else map_option (apsnd ((@) (ops @ [Set_bio]))) (handshake_loop (handshakes w)))"

definition rss_tls_close :: "bool \<Rightarrow> tls_op list" where
  "rss_tls_close conn = (if conn then [Close_notify, Free_ssl, Free_conn] else [])"

definition rss_tls_get_fd :: "int option \<Rightarrow> int" where
  "rss_tls_get_fd conn = (case conn of Some fd \<Rightarrow> fd | None \<Rightarrow> - 1)"

section \<open>Data\<close>

definition rss_tls_read :: "tls_ret \<Rightarrow> int" where
  "rss_tls_read ret = (case ret of Bytes n \<Rightarrow> int n | Peer_close \<Rightarrow> 0 | _ \<Rightarrow> - 1)"

text \<open>
  \<open>rest\<close> is the data from the position \<open>written\<close> on; an answer \<open>Bytes n\<close> takes \<open>n\<close> bytes of it.  The result is the return
  value, the data taken and the calls: the text handed over in each with its answer.
\<close>

fun write_loop :: "nat \<Rightarrow> bytes \<Rightarrow> tls_ret list \<Rightarrow> (int \<times> bytes \<times> (bytes \<times> tls_ret) list) option" where
  "write_loop written rest [] = (if rest = [] then Some (int written, [], []) else None)"
| "write_loop written rest (r # rs) =
     (if rest = [] then Some (int written, [], [])
      else case r of
        Bytes n \<Rightarrow>
          map_option (\<lambda>(v, sent, calls). (v, take n rest @ sent, (rest, r) # calls)) (write_loop (written + n) (drop n rest) rs)
      | Want_read \<Rightarrow> map_option (\<lambda>(v, sent, calls). (v, sent, (rest, r) # calls)) (write_loop written rest rs)
      | Want_write \<Rightarrow> map_option (\<lambda>(v, sent, calls). (v, sent, (rest, r) # calls)) (write_loop written rest rs)
      | _ \<Rightarrow> Some (if written > 0 then int written else - 1, [], [(rest, r)]))"

definition rss_tls_write :: "bytes \<Rightarrow> tls_ret list \<Rightarrow> (int \<times> bytes \<times> (bytes \<times> tls_ret) list) option" where
  "rss_tls_write buf answers = write_loop 0 buf answers"

section \<open>Whole writes\<close>

text \<open>The library takes no more than it is given.\<close>

fun takes_given :: "nat \<Rightarrow> tls_ret list \<Rightarrow> bool" where
  "takes_given len [] \<longleftrightarrow> True"
| "takes_given len (r # rs) \<longleftrightarrow> (case r of Bytes n \<Rightarrow> n \<le> len \<and> takes_given (len - n) rs | _ \<Rightarrow> takes_given len rs)"

fun retried :: "(bytes \<times> tls_ret) list \<Rightarrow> bool" where
  "retried ((a, r) # (b, s) # calls) \<longleftrightarrow> (r = Want_read \<or> r = Want_write \<longrightarrow> b = a) \<and> retried ((b, s) # calls)"
| "retried _ \<longleftrightarrow> True"

definition accepted :: "tls_ret list \<Rightarrow> nat" where
  "accepted rs = sum_list (map (\<lambda>r. case r of Bytes n \<Rightarrow> n | _ \<Rightarrow> 0) rs)"

lemma write_loop_spec:
  "takes_given (length rest) rs \<Longrightarrow> write_loop written rest rs = Some (v, sent, calls) \<Longrightarrow>
    sent = take (length sent) rest \<and> length sent \<le> length rest \<and> retried calls \<and> (calls \<noteq> [] \<longrightarrow> fst (hd calls) = rest)
    \<and> v = (if written + length sent = 0 \<and> rest \<noteq> [] then - 1 else int (written + length sent))"
proof (induction written rest rs arbitrary: v sent calls rule: write_loop.induct)
  case (2 written rest r rs)
  show ?case
  proof (cases "rest = []")
    case True
    then show ?thesis using "2.prems" by simp
  next
    case False
    show ?thesis
    proof (cases r)
      case (Bytes n)
      then obtain v1 sent1 calls1 where w: "write_loop (written + n) (drop n rest) rs = Some (v1, sent1, calls1)"
        and s: "v = v1" "sent = take n rest @ sent1" "calls = (rest, r) # calls1"
        using "2.prems"(2) False by auto
      have n: "n \<le> length rest" "takes_given (length (drop n rest)) rs" using "2.prems"(1) Bytes by simp_all
      note ih = "2.IH"(1) [OF False Bytes n(2) w]
      have "sent = take (length sent) rest" using ih n(1) s(2) by (metis append_take_drop_id length_append length_take min.absorb2 take_add)
      then show ?thesis using ih n(1) s Bytes False by (cases calls1) auto
    next
      case Want_read
      then obtain calls1 where "write_loop written rest rs = Some (v, sent, calls1)" "calls = (rest, r) # calls1"
        using "2.prems"(2) False by auto
      then show ?thesis using "2.IH"(2) [OF False Want_read, of v sent calls1] "2.prems"(1) Want_read by (cases calls1) auto
    next
      case Want_write
      then obtain calls1 where "write_loop written rest rs = Some (v, sent, calls1)" "calls = (rest, r) # calls1"
        using "2.prems"(2) False by auto
      then show ?thesis using "2.IH"(3) [OF False Want_write, of v sent calls1] "2.prems"(1) Want_write by (cases calls1) auto
    qed (use "2.prems" False in auto)
  qed
qed (auto split: if_splits)

lemma write_loop_waits: "write_loop written rest rs = None \<Longrightarrow> accepted rs < length rest"
  by (induction written rest rs rule: write_loop.induct) (auto simp: accepted_def split: tls_ret.splits if_splits)

text \<open>
  C40. A write hands over the data in order, each byte once: what the library has taken when the call returns is a prefix of
  the data, its length is the result, or -1 if nothing of a text was taken; a call that has to be repeated is repeated with
  the same data.  It is still waiting only while the library has not taken everything.
\<close>

lemma tls_write_prefix:
  assumes "takes_given (length buf) answers"
  shows "case rss_tls_write buf answers of
      None \<Rightarrow> accepted answers < length buf
    | Some (v, sent, calls) \<Rightarrow>
        sent = take (length sent) buf \<and> retried calls \<and> v = (if sent = [] \<and> buf \<noteq> [] then - 1 else int (length sent))"
  using write_loop_spec [OF assms, of 0] write_loop_waits [of 0 buf answers] by (auto simp: rss_tls_write_def split: option.split)

lemma tls_write_prefix_witness:
  "rss_tls_write [1, 2, 3] [Want_write, Bytes 2, Want_read, Tls_error]
     = Some (2, [1, 2], [([1, 2, 3], Want_write), ([1, 2, 3], Bytes 2), ([3], Want_read), ([3], Tls_error)])"
  using tls_write_prefix [of "[1, 2, 3]" "[Want_write, Bytes 2, Want_read, Tls_error]"] by (simp add: rss_tls_write_def)

section \<open>Verified connections\<close>

lemma handshake_loop_ends:
  "handshake_loop rs = Some (ok, ops) \<Longrightarrow> ops \<noteq> [] \<and> set ops \<inter> {Set_bio, Set_hostname h, Conn_init} = {}
     \<and> (if ok then last ops = Handshake (Bytes 0) \<and> Free_conn \<notin> set ops else Free_ssl \<in> set ops \<and> last ops = Free_conn)"
  by (induction rs arbitrary: ok ops) (fastforce split: if_splits)+

text \<open>
  C39. A client connection that is returned is a verified one: the context demands verification and has certificates to
  verify with, the name of the peer was set before the handshake, and the handshake ended in success.  A context or
  connection that is refused has been freed.
\<close>

lemma tls_client_verified:
  "case (rss_tls_client_init cw, rss_tls_connect w hostname timeout) of
     ((ctx, cops), conn) \<Rightarrow>
       (if ctx then ca_loaded cw \<and> Verify_required \<in> set cops \<and> Set_ca_chain \<in> set cops \<and> Free_context \<notin> set cops
        else last cops = Free_context)
       \<and> (case conn of None \<Rightarrow> True
          | Some (ok, ops) \<Rightarrow>
              if ok then (case hostname of None \<Rightarrow> False
                | Some h \<Rightarrow> h \<noteq> [] \<and> hostname_ret w = 0 \<and> take 4 ops = [Conn_init, Read_timeout timeout, Setup, Set_hostname h]
                    \<and> last ops = Handshake (Bytes 0) \<and> Free_conn \<notin> set ops)
              else if Conn_init \<in> set ops then last ops = Free_conn else True)"
proof -
  have ctx: "case rss_tls_client_init cw of (ctx, cops) \<Rightarrow>
      if ctx then ca_loaded cw \<and> Verify_required \<in> set cops \<and> Set_ca_chain \<in> set cops \<and> Free_context \<notin> set cops
      else last cops = Free_context"
    by (auto simp: rss_tls_client_init_def rss_tls_client_free_def Let_def)
  have conn: "case rss_tls_connect w hostname timeout of None \<Rightarrow> True
      | Some (ok, ops) \<Rightarrow>
          if ok then (case hostname of None \<Rightarrow> False
            | Some h \<Rightarrow> h \<noteq> [] \<and> hostname_ret w = 0 \<and> take 4 ops = [Conn_init, Read_timeout timeout, Setup, Set_hostname h]
                \<and> last ops = Handshake (Bytes 0) \<and> Free_conn \<notin> set ops)
          else if Conn_init \<in> set ops then last ops = Free_conn else True"
  proof (cases "handshake_loop (handshakes w)")
    case None
    then show ?thesis by (auto simp: rss_tls_connect_def Let_def split: option.split)
  next
    case (Some a)
    obtain ok ops where a: "a = (ok, ops)" by (cases a)
    show ?thesis
      using Some a handshake_loop_ends [OF Some [unfolded a]]
      by (auto simp: rss_tls_connect_def Let_def split: option.split if_splits)
  qed
  show ?thesis using ctx conn by (simp split: prod.split)
qed

end
