(* ===== verification/Spec2Isabelle.thy ===== *)
theory Spec2Isabelle
  imports Rss_Ts Rss_Sei Rss_Media_Clock Rss_Http Rss_Daemon Rss_Vui_Syntax Rss_Aac Rss_Shadow Rss_File Rss_Jpeg
    Rss_Json_Safe Rss_Json_List Rss_Json_Minify Rss_Json_Getters Rss_Ctrl_Spec Rss_Clock Rss_Net Rss_Tls
begin

text \<open>
  raptor-common is the C library the daemons of the Raptor streaming system share: media formats (MPEG-TS, SEI, SPS,
  AAC, JPEG), configuration, logging, the life of a daemon, its control socket, and helpers for HTTP, TLS, sockets and
  files.  These theories model its components one by one and prove what makes each of them correct.

  \<^bold>\<open>Conventions.\<close>  A C struct is a record, a tagged union a datatype, a machine word of which the width matters a word
  of that width.  A string is the list of its characters up to its NUL; \<^theory_text>\<open>c_str\<close> reads it out of an array.  A pointer that
  may be \<open>NULL\<close> is an option, an array the list of its elements, an output buffer the list before and after.  A function
  that calls the operating system or a library is written over the answers it gets (a record or a list of them) and
  yields the calls it makes, so that orders and failures are part of the model.  Where C leaves a step undefined the
  model says so (\<^theory_text>\<open>None\<close>, a flag, or a parameter of the machine).  Allocation succeeds.

  \<^bold>\<open>Parts and theories.\<close>
  \<^item> \<^theory_text>\<open>Rss_Prelude\<close>, \<^theory_text>\<open>Rss_Cstr\<close>, \<^theory_text>\<open>Rss_Num\<close>, \<^theory_text>\<open>Rss_Double\<close>: machine types and buffers, the C string functions, decimal
    numbers (\<open>strtol\<close>, \<open>%d\<close>), the \<open>double\<close> with \<open>strtod\<close> and \<open>%g\<close>.
  \<^item> \<^theory_text>\<open>Rss_Ts\<close> (\<open>src/rss_ts.c\<close>): the MPEG-TS muxer.  A demultiplexer reads a video or audio frame back from its packets;
    writes stay inside the buffer; continuity counters and clock references over runs; program tables as a receiver
    checks them; where the CRC table is not the table of its polynomial.
  \<^item> \<^theory_text>\<open>Rss_Sei\<close> (\<open>src/rss_sei.c\<close>): the timestamp message, its builder and parser, emulation prevention.
  \<^item> \<^theory_text>\<open>Rss_Media_Clock\<close> (\<open>src/rss_media_clock.c\<close>): the clock recovered from arrival times; its buckets are the minima of
    the history, its timeline, its robustness and the absence of overflow.
  \<^item> \<^theory_text>\<open>Rss_Vui\<close>, \<^theory_text>\<open>Rss_Vui_Syntax\<close> (\<open>src/rss_vui.c\<close>): the in-place editor of a sequence parameter set, on the bits of the
    payload, and against encoders of the syntax of H.264 and H.265.
  \<^item> \<^theory_text>\<open>Rss_Aac\<close> (\<open>src/rss_aac.c\<close>): the AudioSpecificConfig against a decoder of the standard.
  \<^item> \<^theory_text>\<open>Rss_Jpeg\<close>, \<^theory_text>\<open>Rss_Sign\<close>, \<^theory_text>\<open>Rss_Calendar\<close> (\<open>src/rss_jpeg.c\<close>, \<open>src/rss_sign.c\<close>): the capture time and signature of an
    image, the seed of the signing key on disk, the calendar of \<open>gmtime\<close> and \<open>timegm\<close>.
  \<^item> \<^theory_text>\<open>Rss_Config\<close> with \<^theory_text>\<open>_Load\<close>, \<^theory_text>\<open>_Save\<close>, \<^theory_text>\<open>_Reload\<close>, \<^theory_text>\<open>_Life\<close> (\<open>src/rss_config.c\<close>): the store as sections of entries
    (a refinement of a map from names without case), the file parser, and the save that edits a file in place; the last
    theory puts them together: memory and file follow one abstract map through any sequence of changes and saves.
  \<^item> \<^theory_text>\<open>Rss_Util\<close>, \<^theory_text>\<open>Rss_Clock\<close>, \<^theory_text>\<open>Rss_File\<close> (\<open>src/rss_util.c\<close>): strings, clocks, and files over a file system with a medium
    behind it: a read is whole, a replacement is atomic under a crash.
  \<^item> \<^theory_text>\<open>Rss_Http\<close> (\<open>src/rss_http.c\<close>) and \<^theory_text>\<open>Rss_Shadow\<close> (\<open>src/rss_shadow.c\<close>): base64, basic authentication, the password
    field of an account.
  \<^item> \<^theory_text>\<open>Rss_Log\<close> (\<open>src/rss_log.c\<close>), \<^theory_text>\<open>Rss_Daemon_Lock\<close>, \<^theory_text>\<open>Rss_Daemon\<close> (\<open>src/rss_daemon.c\<close>): the logger; the PID file lock as a
    protocol of any number of processes; daemonization, signals, restart and the start-up sequence with every way it ends,
    the parents of the double fork included.
  \<^item> \<^theory_text>\<open>Rss_Json\<close> to \<^theory_text>\<open>Rss_Json_Getters\<close> (\<open>src/cJSON.c\<close>, the getters of \<open>src/rss_util.c\<close>): values and their printing
    (\<^theory_text>\<open>Rss_Json\<close>; a print that fails yields the buffer it leaves, with a ghost field for the furthest byte stored), the
    text a print writes, the room it needs and that no print, failed or not, stores behind its buffer (\<^theory_text>\<open>_Text\<close>), the parser (\<^theory_text>\<open>_Parse\<close>), that it reads back what
    was printed (\<^theory_text>\<open>_Roundtrip\<close>), that no string passes its allocation and what values it makes (\<^theory_text>\<open>_Safe\<close>), accessors and
    constructors (\<^theory_text>\<open>_Item\<close>), the doubly chained items in memory as a list (\<^theory_text>\<open>_List\<close>), \<^theory_text>\<open>_Minify\<close>, copy and comparison
    (\<^theory_text>\<open>_Compare\<close>), and what the getters find (\<^theory_text>\<open>_Getters\<close>).
  \<^item> \<^theory_text>\<open>Rss_Ctrl\<close>, \<^theory_text>\<open>Rss_Ctrl_Spec\<close> (\<open>src/rss_ctrl_client.c\<close>, \<open>src/rss_ctrl_cmds.c\<close>, \<open>include/rss_common.h\<close>): the control
    socket.  The client, the JSON printer and parser, the configuration, the logger and the run state meet here: a request
    arrives as it was made, every message is answered inside the buffer, and a command changes its part of the state only.
  \<^item> \<^theory_text>\<open>Rss_Net\<close> (\<open>include/rss_net.h\<close>), \<^theory_text>\<open>Rss_Tls\<close> (\<open>src/rss_tls.c\<close>): listeners and what they are bound to; the TLS wrapper over
    the answers of its library.

  \<^bold>\<open>Interfaces.\<close>  Locales state what one part relies on of another (byte encodings, a reader of lines, a packetizer, a
  store of names and values, operations that follow a specification) and are interpreted on the model in the theory of the provider.

  \<^bold>\<open>Loops.\<close>  Loops over data are recursive functions with a measure; the parser of JSON compares lengths for its
  termination, and lemmas show the comparison redundant.  Loops that wait for an answer take it from a list and are \<^theory_text>\<open>None\<close>
  when the list ends first; the theorems about them say when that can be.  Walks along pointers are partial functions,
  and are shown to end on every list the operations build.

  \<^bold>\<open>Not modelled.\<close>  Memory itself: allocation failure, freeing, and cJSON's items that refer to another item or to a
  constant name, its allocation hooks, \<open>SetValuestring\<close> and arrays of \<open>float\<close>.  A \<open>time_t\<close> has 64 bits.  Third-party code is a parameter: the
  Ed25519 functions (\<open>third_party/monocypher\<close>), the TLS library, the transport behind the control client, \<open>getopt\<close>,
  \<open>strftime\<close> in local time and the text of log messages.  Tests and headers without code are left out.
\<close>

end
